(* ===== verification/Prelude.thy ===== *)
theory Prelude imports
  Main
  "HOL-Library.Word"
begin

text \<open>
  Shared vocabulary of the development: the machine integers of the i386 C code, the two
  loop shapes the kernel uses everywhere (a counting loop and a first-match search), and
  the generic lemmas about words and lists the component theories rest on.

  C types: \<open>uint8_t\<close>/\<open>char\<close> is an 8-bit word (a \<open>char\<close> is signed under i686 gcc, so it is
  compared through the signed order), \<open>uint16_t\<close> and \<open>uint32_t\<close> are words of their width,
  a pointer is a 32-bit word. A C \<open>int\<close> used as a status code is an \<open>int\<close>; one that takes
  part in arithmetic is a 32-bit word.
\<close>

unbundle bit_operations_syntax

type_synonym u8 = "8 word"
type_synonym u16 = "16 word"
type_synonym u32 = "32 word"

named_theorems frame_simps \<open>what an operation leaves unchanged\<close>

section \<open>Signed readings\<close>

lemma sint_u32: "sint w = (if w < 0x80000000 then uint w else uint w - 4294967296)" for w :: u32
proof -
  have w: "0 \<le> uint w" "uint w < 4294967296" using uint_lt2p [of w] by simp_all
  then have "uint w div 2147483648 = (if uint w < 2147483648 then 0 else 1)"
    using int_div_pos_eq [of "uint w" 2147483648 1 "uint w - 2147483648"] by auto
  then have "bit (uint w) 31 \<longleftrightarrow> 2147483648 \<le> uint w"
    by (auto simp: bit_iff_odd split: if_splits)
  then show ?thesis
    using w by (simp add: sint_uint signed_take_bit_eq_take_bit_minus take_bit_int_eq_self
        word_less_def)
qed

lemma sless0_iff_u32: "0 <s w \<longleftrightarrow> 0 < w \<and> w < 0x80000000" for w :: u32
  using uint_lt2p [of w] by (auto simp: word_sless_alt sint_u32 word_less_def)

lemma sle0_iff_u32: "w \<le>s 0 \<longleftrightarrow> w = 0 \<or> 0x80000000 \<le> w" for w :: u32
  using uint_lt2p [of w] uint_nonnegative [of w]
  by (auto simp: word_sle_eq sint_u32 word_less_def word_le_def word_uint_eq_iff)

lemma sint_u8: "sint w = (if uint w < 128 then uint w else uint w - 256)" for w :: u8
proof -
  have w: "0 \<le> uint w" "uint w < 256" using uint_lt2p [of w] by simp_all
  then have "uint w div 128 = (if uint w < 128 then 0 else 1)"
    using int_div_pos_eq [of "uint w" 128 1 "uint w - 128"] by auto
  then have "bit (uint w) 7 \<longleftrightarrow> 128 \<le> uint w"
    by (auto simp: bit_iff_odd split: if_splits)
  then show ?thesis
    using w by (simp add: sint_uint signed_take_bit_eq_take_bit_minus take_bit_int_eq_self)
qed

section \<open>Loops\<close>

text \<open>\<open>for (uint32_t i = a; i < n; i++) s = f(i, s);\<close>\<close>

function for_u32 :: "u32 \<Rightarrow> u32 \<Rightarrow> (u32 \<Rightarrow> 's \<Rightarrow> 's) \<Rightarrow> 's \<Rightarrow> 's" where
  "for_u32 i n f s = (if i < n then for_u32 (i + 1) n f (f i s) else s)"
  by pat_completeness auto

text \<open>\<open>for (uint32_t i = a; i < n; i++) if (p(i)) return i;\<close>: \<open>None\<close> when the loop falls through.\<close>

lemma unat_u32_bound [simp]: "unat n < 4294967296" for n :: u32
  using unsigned_less [of n] by simp

lemma unat_ucast_u8: "unat (ucast (w :: u8) :: u32) = unat w"
  by transfer (simp add: min_def)

lemma unat_ucast_u16: "unat (ucast (w :: u16) :: u32) = unat w"
  by transfer (simp add: min_def)

lemma unat_of_nat_u32: "k < 4294967296 \<Longrightarrow> unat (of_nat k :: u32) = k"
  by (simp add: unat_of_nat)

lemma unat_inc_less: "i < n \<Longrightarrow> unat (i + 1) = Suc (unat i)" for i n :: u32
  using unat_u32_bound [of n] by (simp add: word_less_nat_alt unat_word_ariths del: unat_u32_bound)

termination for_u32
  by (relation "measure (\<lambda>(i, n, f, s). unat n - unat i)")
     (auto simp: unat_inc_less word_less_nat_alt)

function find_u32 :: "u32 \<Rightarrow> u32 \<Rightarrow> (u32 \<Rightarrow> bool) \<Rightarrow> u32 option" where
  "find_u32 i n p = (if i < n then if p i then Some i else find_u32 (i + 1) n p else None)"
  by pat_completeness auto
termination
  by (relation "measure (\<lambda>(i, n, p). unat n - unat i)")
     (auto simp: unat_inc_less word_less_nat_alt)

declare for_u32.simps [simp del] find_u32.simps [simp del]

text \<open>The counting loop is a fold over the interval.\<close>

lemma for_u32_ge [simp]: "\<not> i < n \<Longrightarrow> for_u32 i n f s = s"
  by (simp add: for_u32.simps)

lemma inc_le_if_less: "i < n \<Longrightarrow> i + 1 \<le> n" for i n :: u32
  by (simp add: unat_inc_less word_le_nat_alt word_less_nat_alt Suc_le_eq)

lemma less_inc_iff: "i < n \<Longrightarrow> k < i + 1 \<longleftrightarrow> k < i \<or> k = i" for i k n :: u32
  using unat_inc_less [of i n] by (auto simp: word_less_nat_alt less_Suc_eq word_unat_eq_iff)

lemma for_u32_invariant:
  assumes "for_u32 i n f s = t" and "i \<le> n" and "P i s"
    and step: "\<And>j s. i \<le> j \<Longrightarrow> j < n \<Longrightarrow> P j s \<Longrightarrow> P (j + 1) (f j s)"
  shows "P n t"
  using assms
proof (induction i n f s rule: for_u32.induct)
  case (1 i n f s)
  show ?case
  proof (cases "i < n")
    case True
    then have le: "i + 1 \<le> n" and lt: "i < i + 1"
      by (auto simp: unat_inc_less inc_le_if_less word_less_nat_alt)
    have "P (i + 1) (f i s)" using "1.prems"(3,4) True by auto
    moreover have "P (j + 1) (f j u)" if "i + 1 \<le> j" "j < n" "P j u" for j u
      using "1.prems"(4) [of j u] that lt by auto
    ultimately show ?thesis
      using "1.IH" [OF True] "1.prems"(1) True le by (simp add: for_u32.simps [of i])
  next
    case False
    with "1.prems" show ?thesis by auto
  qed
qed

lemma find_u32_Some:
  "find_u32 i n p = Some k \<Longrightarrow> i \<le> k \<and> k < n \<and> p k \<and> (\<forall>j. i \<le> j \<and> j < k \<longrightarrow> \<not> p j)"
proof (induction i n p rule: find_u32.induct)
  case (1 i n p)
  show ?case
  proof (cases "i < n \<and> \<not> p i")
    case True
    then have "find_u32 (i + 1) n p = Some k"
      using "1.prems" by (simp add: find_u32.simps [of i])
    with True have *: "i + 1 \<le> k \<and> k < n \<and> p k \<and> (\<forall>j. i + 1 \<le> j \<and> j < k \<longrightarrow> \<not> p j)"
      using "1.IH" by blast
    have "i < i + 1" using True unat_inc_less [of i n] by (auto simp: word_less_nat_alt)
    moreover have "i + 1 \<le> j" if "i \<le> j" "j \<noteq> i" for j
      using that by (intro inc_le_if_less) simp
    ultimately show ?thesis using * True by (metis order.strict_implies_order order.trans)
  next
    case False
    with "1.prems" show ?thesis
      by (auto simp: find_u32.simps [of i] split: if_splits)
  qed
qed

lemma find_u32_None: "find_u32 i n p = None \<Longrightarrow> i \<le> j \<Longrightarrow> j < n \<Longrightarrow> \<not> p j"
proof (induction i n p rule: find_u32.induct)
  case (1 i n p)
  then have lt: "i < n" by auto
  with "1.prems" have "\<not> p i" and rest: "find_u32 (i + 1) n p = None"
    by (auto simp: find_u32.simps [of i] split: if_splits)
  show ?case
  proof (cases "j = i")
    case True
    with \<open>\<not> p i\<close> show ?thesis by simp
  next
    case False
    with "1.prems" have "i + 1 \<le> j" by (simp add: inc_le_if_less)
    with "1.IH" lt \<open>\<not> p i\<close> rest "1.prems" show ?thesis by blast
  qed
qed

lemma find_u32_eq_Some_iff:
  "find_u32 i n p = Some k \<longleftrightarrow>
     i \<le> k \<and> k < n \<and> p k \<and> (\<forall>j. i \<le> j \<and> j < k \<longrightarrow> \<not> p j)"
proof
  assume *: "i \<le> k \<and> k < n \<and> p k \<and> (\<forall>j. i \<le> j \<and> j < k \<longrightarrow> \<not> p j)"
  obtain m where "find_u32 i n p = Some m"
    using * find_u32_None [of i n p k] by (cases "find_u32 i n p") auto
  with find_u32_Some [OF this] * show "find_u32 i n p = Some k"
    by (metis linorder_neqE)
qed (rule find_u32_Some)

lemma find_u32_eq_None_iff:
  "find_u32 i n p = None \<longleftrightarrow> (\<forall>j. i \<le> j \<and> j < n \<longrightarrow> \<not> p j)"
proof
  assume *: "\<forall>j. i \<le> j \<and> j < n \<longrightarrow> \<not> p j"
  show "find_u32 i n p = None"
    using * find_u32_Some [of i n p] by (cases "find_u32 i n p") auto
qed (auto dest: find_u32_None)

text \<open>The counting loop as a fold over the indices it visits.\<close>

lemma for_u32_fold: "for_u32 a n f s = fold (\<lambda>i. f (of_nat i)) [unat a..<unat n] s"
proof (induction a n f s rule: for_u32.induct)
  case (1 a n f s)
  show ?case
  proof (cases "a < n")
    case True
    then have "[unat a..<unat n] = unat a # [unat (a + 1)..<unat n]"
      by (simp add: unat_inc_less word_less_nat_alt upt_conv_Cons)
    with 1 True show ?thesis by (simp add: for_u32.simps [of a])
  next
    case False
    then show ?thesis by (simp add: word_less_nat_alt)
  qed
qed

section \<open>Searches in arrays\<close>

text \<open>\<open>for (i = 0; i < N; i++) if (p(arr[i])) ...\<close> over the \<open>N\<close> elements of an array.\<close>

fun first_index :: "('a \<Rightarrow> bool) \<Rightarrow> 'a list \<Rightarrow> nat option" where
  "first_index p [] = None"
| "first_index p (x # xs) = (if p x then Some 0 else map_option Suc (first_index p xs))"

lemma first_index_Some:
  "first_index p xs = Some i \<longleftrightarrow> i < length xs \<and> p (xs ! i) \<and> (\<forall>j < i. \<not> p (xs ! j))"
proof (induction xs arbitrary: i)
  case (Cons x xs)
  then show ?case by (cases i) (auto simp: less_Suc_eq_0_disj)
qed simp

lemma first_index_None: "first_index p xs = None \<longleftrightarrow> (\<forall>x \<in> set xs. \<not> p x)"
  by (induction xs) auto

end
