(* ===== verification/Memory.thy ===== *)
theory Memory imports Prelude
begin

text \<open>
  Physical memory and \<open>src/src/memory/memory.c\<close>. RAM is a map from 32-bit addresses to
  bytes: the kernel runs on a flat address space in which every address can be read and
  written. Multi-byte C objects are read and written little-endian, byte by byte, as the
  i386 does. \<open>word_store\<close> is the interface (load, store, and when two locations do not
  overlap) that array-filling loops are verified against; it is interpreted for bytes and
  for 32-bit words.
\<close>

type_synonym mem = "u32 \<Rightarrow> u8"

section \<open>Little-endian access\<close>

definition load16 :: "mem \<Rightarrow> u32 \<Rightarrow> u16" where
  "load16 m a = ucast (m a) OR push_bit 8 (ucast (m (a + 1)))"

definition load32 :: "mem \<Rightarrow> u32 \<Rightarrow> u32" where
  "load32 m a = ucast (m a) OR push_bit 8 (ucast (m (a + 1)))
     OR push_bit 16 (ucast (m (a + 2))) OR push_bit 24 (ucast (m (a + 3)))"

definition store16 :: "mem \<Rightarrow> u32 \<Rightarrow> u16 \<Rightarrow> mem" where
  "store16 m a v = m(a := ucast v, a + 1 := ucast (drop_bit 8 v))"

definition store32 :: "mem \<Rightarrow> u32 \<Rightarrow> u32 \<Rightarrow> mem" where
  "store32 m a v = m(a := ucast v, a + 1 := ucast (drop_bit 8 v),
     a + 2 := ucast (drop_bit 16 v), a + 3 := ucast (drop_bit 24 v))"

text \<open>Two objects of \<open>n\<close> bytes that do not overlap, on the circular address space.\<close>

definition apart :: "u32 \<Rightarrow> u32 \<Rightarrow> u32 \<Rightarrow> bool" where
  "apart n a b \<longleftrightarrow> n \<le> a - b \<and> n \<le> b - a"

lemma apart_sym: "apart n a b \<longleftrightarrow> apart n b a"
  by (auto simp: apart_def)

lemma apart_neq:
  assumes "apart n a b" and "i < n" and "j < n"
  shows "a + i \<noteq> b + j"
proof
  assume eq: "a + i = b + j"
  show False
  proof (cases "i \<le> j")
    case True
    have "a = b + j - i" unfolding eq [symmetric] by simp
    then have "a - b = j - i" by simp
    moreover have "j - i < n" using True assms(3) by unat_arith
    ultimately show False using assms(1) by (auto simp: apart_def dest: leD)
  next
    case False
    have "b = a + i - j" unfolding eq by simp
    then have "b - a = i - j" by simp
    moreover have "i - j < n" using False assms(2) by unat_arith
    ultimately show False using assms(1) by (auto simp: apart_def dest: leD)
  qed
qed

lemma load32_store32_same [simp]: "load32 (store32 m a v) a = v"
proof (rule bit_word_eqI)
  fix n :: nat
  assume "n < LENGTH(32)"
  then consider "n < 8" | "8 \<le> n" "n < 16" | "16 \<le> n" "n < 24" | "24 \<le> n" "n < 32"
    by fastforce
  then show "bit (load32 (store32 m a v) a) n = bit v n"
    by cases (auto simp: load32_def store32_def bit_simps)
qed

lemma load16_store16_same [simp]: "load16 (store16 m a v) a = v"
  by (rule bit_word_eqI) (auto simp: load16_def store16_def bit_simps)

lemma store32_other:
  assumes "4 \<le> x - a" shows "store32 m a v x = m x"
proof -
  have "x \<noteq> a + i" if "i < 4" for i
    using assms that by (metis add_diff_cancel_left' not_less)
  from this [of 0] this [of 1] this [of 2] this [of 3]
  show ?thesis by (simp add: store32_def)
qed

lemma load32_store32_apart:
  assumes "apart 4 a b" shows "load32 (store32 m b v) a = load32 m a"
proof -
  have "store32 m b v (a + i) = m (a + i)" if "i < 4" for i
    using apart_neq [OF assms that, of 0] apart_neq [OF assms that, of 1]
      apart_neq [OF assms that, of 2] apart_neq [OF assms that, of 3]
    by (simp add: store32_def)
  from this [of 0] this [of 1] this [of 2] this [of 3]
  show ?thesis by (simp add: load32_def)
qed

section \<open>Byte strings in memory\<close>

fun write_bytes :: "mem \<Rightarrow> u32 \<Rightarrow> u8 list \<Rightarrow> mem" where
  "write_bytes m p [] = m"
| "write_bytes m p (b # bs) = write_bytes (m(p := b)) (p + 1) bs"

definition read_bytes :: "mem \<Rightarrow> u32 \<Rightarrow> nat \<Rightarrow> u8 list" where
  "read_bytes m p n = map (\<lambda>i. m (p + of_nat i)) [0..<n]"

lemma length_read_bytes [simp]: "length (read_bytes m p n) = n"
  by (simp add: read_bytes_def)

lemma write_bytes_outside:
  "(\<And>i. i < length bs \<Longrightarrow> a \<noteq> p + of_nat i) \<Longrightarrow> write_bytes m p bs a = m a"
proof (induction bs arbitrary: m p)
  case (Cons b bs)
  have "a \<noteq> p" using Cons.prems [of 0] by simp
  moreover have "a \<noteq> p + 1 + of_nat i" if "i < length bs" for i
    using Cons.prems [of "Suc i"] that by (simp add: algebra_simps)
  ultimately show ?case using Cons.IH by simp
qed simp

lemma of_nat_u32_inject:
  "i < 4294967296 \<Longrightarrow> j < 4294967296 \<Longrightarrow> of_nat i = (of_nat j :: u32) \<longleftrightarrow> i = j"
  by (simp add: word_of_nat_eq_iff take_bit_nat_eq_self)

lemma write_bytes_at:
  "i < length bs \<Longrightarrow> length bs \<le> 4294967296 \<Longrightarrow> write_bytes m p bs (p + of_nat i) = bs ! i"
proof (induction bs arbitrary: m p i)
  case (Cons b bs)
  show ?case
  proof (cases i)
    case 0
    have "p \<noteq> p + 1 + of_nat j" if "j < length bs" for j
      using of_nat_u32_inject [of 0 "Suc j"] that Cons.prems(2) by (auto simp: add.assoc)
    then have "write_bytes (m(p := b)) (p + 1) bs p = (m(p := b)) p"
      by (intro write_bytes_outside) auto
    with 0 show ?thesis by simp
  next
    case (Suc k)
    have "write_bytes (m(p := b)) (p + 1) bs (p + 1 + of_nat k) = bs ! k"
      by (rule Cons.IH) (use Suc Cons.prems in simp_all)
    with Suc show ?thesis by (simp add: add.assoc)
  qed
qed simp

lemma read_write_bytes:
  "length bs \<le> 4294967296 \<Longrightarrow> read_bytes (write_bytes m p bs) p (length bs) = bs"
  by (intro nth_equalityI) (simp_all add: read_bytes_def write_bytes_at)

section \<open>The store interface and array-filling loops\<close>

locale word_store =
  fixes ld :: "'m \<Rightarrow> u32 \<Rightarrow> 'v"
    and st :: "'m \<Rightarrow> u32 \<Rightarrow> 'v \<Rightarrow> 'm"
    and apart :: "u32 \<Rightarrow> u32 \<Rightarrow> bool"
  assumes ld_st_same: "ld (st m a v) a = v"
    and ld_st_apart: "apart a b \<Longrightarrow> ld (st m b v) a = ld m a"
begin

text \<open>\<open>for (i = 0; i < n; i++) *(at(i)) = val(i);\<close> leaves everything apart from the array alone.\<close>

lemma fill_frame:
  assumes "\<And>i. i < n \<Longrightarrow> apart b (at i)"
  shows "ld (for_u32 0 n (\<lambda>i m. st m (at i) (val i)) m) b = ld m b"
  by (rule for_u32_invariant [OF refl, where P = "\<lambda>_ m'. ld m' b = ld m b"])
     (auto simp: ld_st_apart assms)

lemma fill_at:
  assumes "k < n" and sep: "\<And>i. i < n \<Longrightarrow> i \<noteq> k \<Longrightarrow> apart (at k) (at i)"
  shows "ld (for_u32 0 n (\<lambda>i m. st m (at i) (val i)) m) (at k) = val k"
proof -
  let ?P = "\<lambda>j m. k < j \<longrightarrow> ld m (at k) = val k"
  have "?P n (for_u32 0 n (\<lambda>i m. st m (at i) (val i)) m)"
  proof (rule for_u32_invariant [OF refl, where P = ?P])
    fix j and s :: 'm
    assume j: "0 \<le> j" "j < n" "?P j s"
    show "?P (j + 1) (st s (at j) (val j))"
    proof (cases "j = k")
      case True
      then show ?thesis by (simp add: ld_st_same)
    next
      case False
      with j sep show ?thesis
        by (auto simp: ld_st_apart less_inc_iff)
    qed
  qed auto
  with \<open>k < n\<close> show ?thesis by simp
qed

end

interpretation byte_mem: word_store "\<lambda>m a. m a" "\<lambda>m a v. m(a := v)" "\<lambda>a b. a \<noteq> b"
  by unfold_locales auto

interpretation word_mem: word_store load32 store32 "apart 4"
  by unfold_locales (auto simp: load32_store32_apart)

section \<open>memory.c\<close>

text \<open>\<open>memset\<close>: the \<open>int\<close> argument is truncated to a \<open>char\<close>.\<close>

definition memset :: "mem \<Rightarrow> u32 \<Rightarrow> u32 \<Rightarrow> u32 \<Rightarrow> mem" where
  "memset m ptr c sz = for_u32 0 sz (\<lambda>i m. m(ptr + i := ucast c)) m"

text \<open>\<open>memcmp\<close> compares signed \<open>char\<close>s.\<close>

definition memcmp :: "mem \<Rightarrow> u32 \<Rightarrow> u32 \<Rightarrow> u32 \<Rightarrow> int" where
  "memcmp m s1 s2 count =
     (case find_u32 0 count (\<lambda>i. m (s1 + i) \<noteq> m (s2 + i)) of
        Some i \<Rightarrow> (if m (s1 + i) <s m (s2 + i) then -1 else 1)
      | None \<Rightarrow> 0)"

definition memcpy :: "mem \<Rightarrow> u32 \<Rightarrow> u32 \<Rightarrow> u32 \<Rightarrow> mem" where
  "memcpy m des src count = for_u32 0 count (\<lambda>i m. m(des + i := m (src + i))) m"

lemma memset_apply: "memset m p c n a = (if a - p < n then ucast c else m a)"
proof (cases "a - p < n")
  case True
  moreover have "a \<noteq> p + i" if "i \<noteq> a - p" for i using that by auto
  ultimately show ?thesis
    using byte_mem.fill_at [of "a - p" n "\<lambda>i. p + i" "\<lambda>_. ucast c" m]
    by (simp add: memset_def)
next
  case False
  then have "a \<noteq> p + i" if "i < n" for i using that by auto
  with False show ?thesis
    using byte_mem.fill_frame [of n a "\<lambda>i. p + i" "\<lambda>_. ucast c" m]
    by (simp add: memset_def)
qed

lemma memcmp_eq_0_iff: "memcmp m p q n = 0 \<longleftrightarrow> (\<forall>i < n. m (p + i) = m (q + i))"
  by (auto simp: memcmp_def find_u32_eq_None_iff find_u32_eq_Some_iff split: option.splits)

text \<open>
  The forward copy is right whenever the destination does not start strictly inside the
  source, so it may also move a block to a lower address.
\<close>

lemma memcpy_apply:
  assumes "d = s \<or> n \<le> d - s"
  shows "memcpy m d s n a = (if a - d < n then m (s + (a - d)) else m a)"
proof -
  let ?P = "\<lambda>j m'. \<forall>x. m' x = (if x - d < j then m (s + (x - d)) else m x)"
  have "?P n (memcpy m d s n)"
    unfolding memcpy_def
  proof (rule for_u32_invariant [OF refl, where P = ?P])
    fix j m'
    assume j: "0 \<le> j" "j < n" "?P j m'"
    have src: "m' (s + j) = m (s + j)"
    proof (cases "d = s")
      case True
      with j(3) show ?thesis by simp
    next
      case False
      with assms have "n \<le> d - s" by simp
      then have "\<not> s + j - d < j" using j(2) by unat_arith
      with j(3) show ?thesis by simp
    qed
    have split: "x - d < j + 1 \<longleftrightarrow> x - d < j \<or> x = d + j" for x
      using less_inc_iff [OF j(2), of "x - d"] by auto
    show "?P (j + 1) (m'(d + j := m' (s + j)))"
      using j(3) src split by auto
  qed auto
  then show ?thesis by simp
qed

section \<open>Correctness of memory.c\<close>

text \<open>\<open>memset\<close> sets exactly the \<open>n\<close> bytes from its pointer to the low byte of its value, \<open>memcpy\<close> copies
  exactly \<open>n\<close> bytes when the destination does not start inside the source, and \<open>memcmp\<close> is 0 exactly when the \<open>n\<close> bytes agree.\<close>

theorem memory_functions_correct:
  "(\<forall>a. memset m p c n a = (if a - p < n then ucast c else m a)) \<and>
   (d = s \<or> n \<le> d - s \<longrightarrow> (\<forall>a. memcpy m d s n a = (if a - d < n then m (s + (a - d)) else m a))) \<and>
   (memcmp m d s n = 0 \<longleftrightarrow> (\<forall>i < n. m (d + i) = m (s + i)))"
  by (simp add: memset_apply memcpy_apply memcmp_eq_0_iff)

lemma memory_functions_correct_witness:
  "memcpy (\<lambda>a. if a = 101 then 5 else 0) 200 100 4 201 = 5"
  using memory_functions_correct [of "\<lambda>a. if a = 101 then 5 else 0" 0 0 4 200 100] by simp

end
