(* ===== verification/CString.thy ===== *)
theory CString imports Memory
begin

text \<open>
  \<open>src/src/string/string.c\<close>. A C string is a run of non-zero bytes up to a zero byte;
  \<open>cstrn m p n\<close> is the one at \<open>p\<close>, cut after \<open>n\<close> bytes, and \<open>cstring m p xs\<close> says that the
  whole string at \<open>p\<close> is \<open>xs\<close>. The unbounded loops (\<open>strlen\<close>, \<open>strcpy\<close>) are partial
  functions: \<open>None\<close> is a loop that never ends.
\<close>

section \<open>C strings in memory\<close>

fun cstring :: "mem \<Rightarrow> u32 \<Rightarrow> u8 list \<Rightarrow> bool" where
  "cstring m p [] \<longleftrightarrow> m p = 0"
| "cstring m p (c # cs) \<longleftrightarrow> m p = c \<and> c \<noteq> 0 \<and> cstring m (p + 1) cs"

fun cstrn :: "mem \<Rightarrow> u32 \<Rightarrow> nat \<Rightarrow> u8 list" where
  "cstrn m p 0 = []"
| "cstrn m p (Suc n) = (if m p = 0 then [] else m p # cstrn m (p + 1) n)"

lemma length_cstrn: "length (cstrn m p n) \<le> n"
  by (induction n arbitrary: p) auto

lemma cstrn_nonzero: "c \<in> set (cstrn m p n) \<Longrightarrow> c \<noteq> 0"
  by (induction n arbitrary: p) (auto split: if_splits)

lemma cstrn_cong:
  "(\<And>j. j < n \<Longrightarrow> m (p + of_nat j) = m' (p + of_nat j)) \<Longrightarrow> cstrn m p n = cstrn m' p n"
proof (induction n arbitrary: p)
  case (Suc n)
  have "m p = m' p" using Suc.prems [of 0] by simp
  moreover have "m (p + 1 + of_nat j) = m' (p + 1 + of_nat j)" if "j < n" for j
    using Suc.prems [of "Suc j"] that by (simp add: algebra_simps)
  ultimately show ?case using Suc.IH by simp
qed simp

lemma cstring_cstrn: "cstring m p xs \<Longrightarrow> cstrn m p n = take n xs"
  by (induction n arbitrary: p xs) (auto simp: take_Cons' elim: cstring.elims)

lemma cstring_nth: "cstring m p xs \<Longrightarrow> i < length xs \<Longrightarrow> m (p + of_nat i) = xs ! i \<and> xs ! i \<noteq> 0"
proof (induction xs arbitrary: p i)
  case (Cons c cs)
  then show ?case
    using Cons.IH [of "p + 1" "i - 1"] by (cases i) (auto simp: add.assoc)
qed simp

lemma cstring_end: "cstring m p xs \<Longrightarrow> m (p + of_nat (length xs)) = 0"
  by (induction xs arbitrary: p) (auto simp: add.assoc [symmetric])

text \<open>A string fits the address space: its terminator cannot lie on one of its own bytes.\<close>

lemma cstring_length: "cstring m p xs \<Longrightarrow> length xs < 4294967296"
proof (rule ccontr)
  assume s: "cstring m p xs" and "\<not> length xs < 4294967296"
  let ?k = "length xs mod 4294967296"
  have "(of_nat ?k :: u32) = of_nat (length xs)"
    by (simp add: word_of_nat_eq_iff take_bit_nat_def)
  moreover have "?k < length xs" using \<open>\<not> _\<close> by (meson less_le_trans mod_less_divisor not_less zero_less_numeral)
  ultimately show False using cstring_nth [OF s] cstring_end [OF s] by metis
qed

section \<open>string.c\<close>

partial_function (option) strlen_from :: "mem \<Rightarrow> u32 \<Rightarrow> u32 \<Rightarrow> u32 option" where
  "strlen_from m ptr count =
     (if m ptr \<noteq> 0 then strlen_from m (ptr + 1) (count + 1) else Some count)"

definition strlen :: "mem \<Rightarrow> u32 \<Rightarrow> u32 option" where
  "strlen m ptr = strlen_from m ptr 0"

text \<open>\<open>for (i = 0; i < max; i++)\<close> with a signed bound runs no iteration for a negative one.\<close>

definition upto_int :: "u32 \<Rightarrow> u32" where
  "upto_int n = (if n \<le>s 0 then 0 else n)"

definition strnlen :: "mem \<Rightarrow> u32 \<Rightarrow> u32 \<Rightarrow> u32" where
  "strnlen m ptr mx =
     (case find_u32 0 (upto_int mx) (\<lambda>i. m (ptr + i) = 0) of
        Some i \<Rightarrow> i
      | None \<Rightarrow> upto_int mx)"

definition is_digit :: "u8 \<Rightarrow> bool" where
  "is_digit a \<longleftrightarrow> 48 \<le>s a \<and> a \<le>s 57"

definition to_numeric_digit :: "u8 \<Rightarrow> int" where
  "to_numeric_digit a = sint a - 48"

text \<open>\<open>strcmp\<close> of this kernel returns 1 for equal bytes and 0 otherwise.\<close>

definition strcmp :: "mem \<Rightarrow> u32 \<Rightarrow> u32 \<Rightarrow> u32 \<Rightarrow> int" where
  "strcmp m a b n =
     (case find_u32 0 (upto_int n) (\<lambda>i. m (a + i) \<noteq> m (b + i)) of
        Some _ \<Rightarrow> 0
      | None \<Rightarrow> 1)"

definition to_upper :: "u8 \<Rightarrow> u8" where
  "to_upper a = (if a <s 97 \<or> 127 <s a then a else a - 32)"

function istrncmp :: "mem \<Rightarrow> u32 \<Rightarrow> u32 \<Rightarrow> u32 \<Rightarrow> int" where
  "istrncmp m a b n =
     (if n = 0 then 0
      else if m a \<noteq> m b \<and> to_upper (m a) \<noteq> to_upper (m b) then sint (m a) - sint (m b)
      else istrncmp m (a + 1) (b + 1) (n - 1))"
  by pat_completeness auto
termination
  by (relation "measure (\<lambda>(m, a, b, n). unat n)") (auto simp: measure_unat)

declare istrncmp.simps [simp del]

partial_function (option) strcpy :: "mem \<Rightarrow> u32 \<Rightarrow> u32 \<Rightarrow> mem option" where
  "strcpy m dest src =
     (if m src \<noteq> 0 then strcpy (m(dest := m src)) (dest + 1) (src + 1)
      else Some (m(dest := 0)))"

text \<open>
  \<open>strncpy\<close> runs under whatever page directory is loaded, so its model takes the address
  translation \<open>tr\<close>, where \<open>None\<close> is a page fault; the kernel's own map is the identity and gives
  \<open>strncpy\<close>.
\<close>

function strncpy_loop ::
    "(mem \<Rightarrow> u32 \<Rightarrow> u32 option) \<Rightarrow> mem \<Rightarrow> u32 \<Rightarrow> u32 \<Rightarrow> u32 \<Rightarrow> u32 \<Rightarrow> (mem \<times> u32) option" where
  "strncpy_loop tr m dest src i lim =
     (if i < lim then
        (case tr m (src + i) of
           None \<Rightarrow> None
         | Some a \<Rightarrow>
             if m a = 0 then Some (m, i)
             else (case tr m (dest + i) of
                     None \<Rightarrow> None
                   | Some b \<Rightarrow> strncpy_loop tr (m(b := m a)) dest src (i + 1) lim))
      else Some (m, i))"
  by pat_completeness auto
termination
  by (relation "measure (\<lambda>(tr, m, dest, src, i, lim). unat lim - unat i)")
     (auto simp: unat_inc_less word_less_nat_alt)

declare strncpy_loop.simps [simp del]

definition strncpy_via :: "(mem \<Rightarrow> u32 \<Rightarrow> u32 option) \<Rightarrow> mem \<Rightarrow> u32 \<Rightarrow> u32 \<Rightarrow> u32 \<Rightarrow> mem option" where
  "strncpy_via tr m dest src count =
     (case strncpy_loop tr m dest src 0 (upto_int (count - 1)) of
        None \<Rightarrow> None
      | Some (m', i) \<Rightarrow>
          (case tr m' (dest + i) of
             None \<Rightarrow> None
           | Some b \<Rightarrow> Some (m'(b := 0))))"

definition strncpy :: "mem \<Rightarrow> u32 \<Rightarrow> u32 \<Rightarrow> u32 \<Rightarrow> mem" where
  "strncpy m dest src count = the (strncpy_via (\<lambda>m a. Some a) m dest src count)"

section \<open>What the string functions compute\<close>

lemma strlen_from_cstring:
  "cstring m p xs \<Longrightarrow> strlen_from m p c = Some (c + of_nat (length xs))"
proof (induction xs arbitrary: p c)
  case Nil
  then show ?case by (simp add: strlen_from.simps)
next
  case (Cons x xs)
  then show ?case by (subst strlen_from.simps) (simp add: algebra_simps)
qed

lemma strlen_from_Some_zero: "strlen_from m p c = Some r \<Longrightarrow> \<exists>a. m a = 0"
  by (rule strlen_from.raw_induct [where P = "\<lambda>m p c r. \<exists>a. m a = 0"])
     (auto split: if_splits)

text \<open>If memory holds a zero byte anywhere, every address starts a string.\<close>

lemma cstring_exists: "m (p + of_nat k) = 0 \<Longrightarrow> \<exists>xs. cstring m p xs"
proof (induction k arbitrary: p)
  case 0
  then have "cstring m p []" by simp
  then show ?case by blast
next
  case (Suc k)
  then obtain xs where xs: "cstring m (p + 1) xs"
    using Suc.IH [of "p + 1"] Suc.prems by (metis add.assoc of_nat_Suc)
  show ?case
  proof (cases "m p = 0")
    case True
    then have "cstring m p []" by simp
    then show ?thesis by blast
  next
    case False
    with xs have "cstring m p (m p # xs)" by simp
    then show ?thesis by blast
  qed
qed

lemma istrncmp_eq_0:
  "istrncmp m a b n = 0 \<longleftrightarrow> (\<forall>i < unat n. to_upper (m (a + of_nat i)) = to_upper (m (b + of_nat i)))"
proof (induction m a b n rule: istrncmp.induct)
  case (1 m a b n)
  show ?case
  proof (cases "n = 0")
    case True
    then show ?thesis by (simp add: istrncmp.simps)
  next
    case False
    then have n: "unat n = Suc (unat (n - 1))"
      using measure_unat [OF False] by (simp add: unat_minus_one)
    have shift: "(\<forall>i < Suc k. P i) \<longleftrightarrow> P 0 \<and> (\<forall>i < k. P (Suc i))" for k and P :: "nat \<Rightarrow> bool"
      by (auto simp: less_Suc_eq_0_disj)
    show ?thesis
    proof (cases "to_upper (m a) = to_upper (m b)")
      case True
      then show ?thesis
        using "1.IH" [OF False] False
        by (subst istrncmp.simps) (simp add: n shift add.assoc)
    next
      case neq: False
      then have "m a \<noteq> m b" by auto
      then have "sint (m a) \<noteq> sint (m b)" using signed_word_eqI by blast
      with neq \<open>m a \<noteq> m b\<close> False show ?thesis
        by (subst istrncmp.simps) (simp add: n shift)
    qed
  qed
qed

lemma write_bytes_snoc:
  "write_bytes m p (xs @ [b]) = (write_bytes m p xs)(p + of_nat (length xs) := b)"
  by (induction xs arbitrary: m p) (simp_all add: add.assoc)

text \<open>
  Copying under a translation: it is \<open>g\<close> and stays so while only the destination changes, it keeps
  the destination in place, and no source byte lies in the destination.
\<close>

definition copy_map :: "(mem \<Rightarrow> u32 \<Rightarrow> u32 option) \<Rightarrow> (u32 \<Rightarrow> u32) \<Rightarrow> mem \<Rightarrow> u32 \<Rightarrow> u32 \<Rightarrow> u32 \<Rightarrow> bool" where
  "copy_map tr g m dest src n \<longleftrightarrow>
     (\<forall>m'. (\<forall>x. n \<le> x - dest \<longrightarrow> m' x = m x) \<longrightarrow>
        (\<forall>i < n. tr m' (dest + i) = Some (dest + i) \<and> tr m' (src + i) = Some (g (src + i)))) \<and>
     (\<forall>i < n. n \<le> g (src + i) - dest)"

lemma strncpy_loop_mapped:
  assumes "i \<le> lim" and "lim < n" and cm: "copy_map tr g m0 dest src n" and "\<forall>x. n \<le> x - dest \<longrightarrow> m x = m0 x"
  shows "strncpy_loop tr m dest src i lim =
    (let ys = cstrn (\<lambda>a. m0 (g a)) (src + i) (unat lim - unat i)
     in Some (write_bytes m (dest + i) ys, i + of_nat (length ys)))"
  using assms
proof (induction "unat lim - unat i" arbitrary: m i)
  case 0
  then have "i = lim" by (simp add: word_le_nat_alt word_unat_eq_iff)
  then show ?case by (simp add: strncpy_loop.simps)
next
  case (Suc r)
  then have lt: "i < lim" by (simp add: word_less_nat_alt)
  then have iN: "i < n" using \<open>lim < n\<close> by (rule order.strict_trans)
  from Suc.hyps(2) have r: "r = unat lim - unat (i + 1)" by (simp add: unat_inc_less [OF lt])
  have tr: "tr m (dest + i) = Some (dest + i)" "tr m (src + i) = Some (g (src + i))"
    using cm Suc.prems(4) iN by (auto simp: copy_map_def)
  have src: "m (g (src + i)) = m0 (g (src + i))"
    using cm Suc.prems(4) iN by (simp add: copy_map_def)
  have cs: "cstrn (\<lambda>a. m0 (g a)) (src + i) (Suc r) =
      (if m0 (g (src + i)) = 0 then [] else m0 (g (src + i)) # cstrn (\<lambda>a. m0 (g a)) (src + (i + 1)) r)"
    by (simp add: add.assoc)
  show ?case
  proof (cases "m0 (g (src + i)) = 0")
    case True
    then show ?thesis using lt tr src by (simp add: strncpy_loop.simps [of _ m] Suc.hyps(2) [symmetric] cs)
  next
    case False
    let ?m = "m(dest + i := m0 (g (src + i)))"
    have keep: "\<forall>x. n \<le> x - dest \<longrightarrow> ?m x = m0 x" using Suc.prems(4) iN by auto
    have "strncpy_loop tr m dest src i lim = strncpy_loop tr ?m dest src (i + 1) lim"
      using False lt tr src by (simp add: strncpy_loop.simps [of _ m])
    also have "\<dots> = (let ys = cstrn (\<lambda>a. m0 (g a)) (src + (i + 1)) r
      in Some (write_bytes ?m (dest + (i + 1)) ys, i + 1 + of_nat (length ys)))"
      using Suc.hyps(1) [where m = ?m, OF r inc_le_if_less [OF lt] \<open>lim < n\<close> cm keep] unfolding r by blast
    finally show ?thesis
      using False by (simp add: cs Suc.hyps(2) [symmetric] Let_def add.assoc del: cstrn.simps)
  qed
qed

lemma strncpy_mapped:
  assumes "0 <s count" and cm: "copy_map tr g m dest src count"
  shows "strncpy_via tr m dest src count =
    Some (write_bytes m dest (cstrn (\<lambda>a. m (g a)) src (unat count - 1) @ [0]))"
proof -
  have "count \<noteq> 0" using assms(1) by auto
  have lim: "upto_int (count - 1) = count - 1"
    using assms(1) \<open>count \<noteq> 0\<close>
    by (auto simp: upto_int_def sless0_iff_u32 sle0_iff_u32 word_less_nat_alt word_le_nat_alt
        unat_minus_one)
  have lt: "count - 1 < count" using \<open>count \<noteq> 0\<close> by (simp add: word_less_nat_alt measure_unat)
  let ?ys = "cstrn (\<lambda>a. m (g a)) src (unat count - 1)"
  have loop: "strncpy_loop tr m dest src 0 (count - 1) = Some (write_bytes m dest ?ys, of_nat (length ?ys))"
    using strncpy_loop_mapped [OF _ lt cm, of 0 m] \<open>count \<noteq> 0\<close> by (simp add: unat_minus_one Let_def)
  have len: "length ?ys < unat count"
    using length_cstrn [of "\<lambda>a. m (g a)" src "unat count - 1"] \<open>count \<noteq> 0\<close> unat_gt_0 [of count] by linarith
  have small: "of_nat i < count" if "i \<le> length ?ys" for i
  proof -
    have "i < unat count" using that len by simp
    moreover have "unat (of_nat i :: u32) = i"
      using calculation unat_u32_bound [of count] by (intro unat_of_nat_u32) linarith
    ultimately show ?thesis by (simp add: word_less_nat_alt)
  qed
  have "write_bytes m dest ?ys x = m x" if "count \<le> x - dest" for x
  proof (rule write_bytes_outside)
    fix i assume "i < length ?ys"
    then have "of_nat i < count" by (intro small) simp
    then show "x \<noteq> dest + of_nat i" using that by auto
  qed
  then have "tr (write_bytes m dest ?ys) (dest + of_nat (length ?ys)) = Some (dest + of_nat (length ?ys))"
    using cm small [of "length ?ys"] by (simp add: copy_map_def)
  then show ?thesis
    by (simp add: strncpy_via_def lim loop write_bytes_snoc)
qed

lemma strncpy_flat:
  assumes "0 <s count" and "apart count dest src"
  shows "strncpy m dest src count = write_bytes m dest (cstrn m src (unat count - 1) @ [0])"
proof -
  have "count \<le> src + i - dest" if "i < count" for i
  proof (rule ccontr)
    assume "\<not> count \<le> src + i - dest"
    then have "dest + (src + i - dest) \<noteq> src + i"
      using apart_neq [OF assms(2), of "src + i - dest" i] that by (simp only: not_le not_False_eq_True)
    then show False by simp
  qed
  then have "copy_map (\<lambda>m a. Some a) (\<lambda>a. a) m dest src count" by (simp add: copy_map_def)
  from strncpy_mapped [OF assms(1) this] show ?thesis by (simp add: strncpy_def)
qed

text \<open>A string written to memory is read back, and strings away from a write are unchanged.\<close>

lemma cstring_write_bytes:
  "0 \<notin> set xs \<Longrightarrow> length xs < 4294967296 \<Longrightarrow> cstring (write_bytes m p (xs @ [0])) p xs"
proof -
  assume xs: "0 \<notin> set xs" "length xs < 4294967296"
  have "\<And>i. i \<le> length xs \<Longrightarrow> write_bytes m p (xs @ [0]) (p + of_nat i) = (xs @ [0]) ! i"
    using xs(2) by (intro write_bytes_at) auto
  then have "\<forall>i \<le> length xs. write_bytes m p (xs @ [0]) (p + of_nat i) = (xs @ [0]) ! i" by blast
  moreover have "cstring m' q ys"
    if "\<forall>i \<le> length ys. m' (q + of_nat i) = (ys @ [0]) ! i" "0 \<notin> set ys" for m' q ys
    using that
  proof (induction ys arbitrary: q)
    case (Cons y ys)
    have "m' q = y" using Cons.prems(1) [rule_format, of 0] by simp
    moreover have "\<forall>i \<le> length ys. m' (q + 1 + of_nat i) = (ys @ [0]) ! i"
    proof (intro allI impI)
      fix i assume "i \<le> length ys"
      then show "m' (q + 1 + of_nat i) = (ys @ [0]) ! i"
        using Cons.prems(1) [rule_format, of "Suc i"] by (simp add: add.assoc)
    qed
    ultimately show ?case using Cons by auto
  qed auto
  ultimately show ?thesis using xs(1) by blast
qed

lemma strcpy_flat:
  assumes "cstring m src xs" and "of_nat (length xs) < n" and "apart n dest src"
  shows "strcpy m dest src = Some (write_bytes m dest (xs @ [0]))"
  using assms
proof (induction xs arbitrary: m dest src)
  case Nil
  then show ?case by (simp add: strcpy.simps fun_upd_def)
next
  case (Cons x xs)
  have src: "m src = x" "x \<noteq> 0" "cstring m (src + 1) xs" using Cons.prems(1) by auto
  have len: "Suc (length xs) < 4294967296" using cstring_length [OF Cons.prems(1)] by simp
  then have small: "Suc (length xs) < unat n"
    using Cons.prems(2) unat_of_nat_u32 [of "Suc (length xs)"] by (simp add: word_less_nat_alt)
  then have lt: "of_nat (length xs) < n"
    using len by (simp add: word_less_nat_alt unat_of_nat_u32)
  have "cstring (m(dest := x)) (src + 1) xs"
  proof -
    have "dest \<noteq> src + 1 + of_nat i" if "i \<le> length xs" for i
    proof
      assume "dest = src + 1 + of_nat i"
      then have "dest - src = of_nat (Suc i)" by simp
      moreover have "unat (of_nat (Suc i) :: u32) < unat n"
        using that small len by (subst unat_of_nat_u32) auto
      ultimately show False using Cons.prems(3) by (simp add: apart_def word_le_nat_alt)
    qed
    moreover have "cstring (m(a := x)) q ys = cstring m q ys" if "\<And>i. i \<le> length ys \<Longrightarrow> a \<noteq> q + of_nat i" for a q ys
      using that
    proof (induction ys arbitrary: q)
      case Nil
      then show ?case using Nil [of 0] by auto
    next
      case (Cons y ys)
      have "a \<noteq> q" using Cons.prems [of 0] by simp
      moreover have "a \<noteq> q + 1 + of_nat i" if "i \<le> length ys" for i
        using Cons.prems [of "Suc i"] that by (simp add: add.assoc)
      ultimately show ?case using Cons.IH [of "q + 1"] by auto
    qed
    ultimately show ?thesis using src(3) by blast
  qed
  moreover have "apart n (dest + 1) (src + 1)" using Cons.prems(3) by (simp add: apart_def)
  ultimately have "strcpy (m(dest := x)) (dest + 1) (src + 1) =
      Some (write_bytes (m(dest := x)) (dest + 1) (xs @ [0]))"
    using Cons.IH [where m = "m(dest := x)" and src = "src + 1" and dest = "dest + 1"] lt by blast
  then show ?case using src by (subst strcpy.simps) simp
qed

section \<open>Correctness of the string functions\<close>

text \<open>C39: \<open>strlen\<close> returns if and only if memory holds a zero byte: then it is the number of bytes before the first
  zero from the pointer on, and otherwise the loop never ends.\<close>

theorem strlen_correct:
  "if \<exists>a. m a = 0 then \<exists>xs. cstring m p xs \<and> strlen m p = Some (of_nat (length xs)) \<and>
      unat (of_nat (length xs) :: u32) = length xs
    else strlen m p = None"
proof (cases "\<exists>a. m a = 0")
  case True
  then obtain a where "m (p + of_nat (unat (a - p))) = 0" by auto
  then obtain xs where xs: "cstring m p xs" using cstring_exists [of m p "unat (a - p)"] by blast
  then show ?thesis
    using True strlen_from_cstring [OF xs, of 0] cstring_length [OF xs]
    by (auto simp: strlen_def unat_of_nat_u32 intro!: exI [of _ xs])
next
  case False
  then have "strlen_from m p 0 \<noteq> Some r" for r using strlen_from_Some_zero [of m p 0 r] by blast
  with False show ?thesis by (cases "strlen_from m p 0") (auto simp: strlen_def)
qed

text \<open>Bounded copying. \<open>strncpy\<close> with a positive bound and buffers that do not overlap writes the longest prefix of
  the source string that fits in \<open>count - 1\<close> bytes, terminated, and nothing else: the destination holds that string,
  and bytes beyond it are unchanged.\<close>

theorem strncpy_correct:
  assumes "0 <s count" and "apart count dest src"
  shows "strncpy m dest src count = write_bytes m dest (cstrn m src (unat count - 1) @ [0]) \<and>
    cstring (strncpy m dest src count) dest (cstrn m src (unat count - 1)) \<and>
    (\<forall>a. count \<le> a - dest \<longrightarrow> strncpy m dest src count a = m a)"
proof -
  let ?ys = "cstrn m src (unat count - 1)"
  have eq: "strncpy m dest src count = write_bytes m dest (?ys @ [0])"
    by (rule strncpy_flat [OF assms])
  have c: "0 < unat count" using assms(1) by (simp add: sless0_iff_u32 word_less_nat_alt)
  have len: "length ?ys < unat count" using length_cstrn [of m src "unat count - 1"] c by linarith
  have "0 \<notin> set ?ys" using cstrn_nonzero by blast
  then have "cstring (write_bytes m dest (?ys @ [0])) dest ?ys"
    using less_trans [OF len unat_u32_bound] by (intro cstring_write_bytes)
  moreover have "write_bytes m dest (?ys @ [0]) a = m a" if "count \<le> a - dest" for a
  proof (rule write_bytes_outside)
    fix i assume "i < length (?ys @ [0])"
    then have i: "i < unat count" using len by simp
    then have "unat (of_nat i :: u32) = i" using unat_u32_bound [of count] by (intro unat_of_nat_u32) linarith
    then show "a \<noteq> dest + of_nat i" using that i by (auto simp: word_le_nat_alt)
  qed
  ultimately show ?thesis using eq by simp
qed

definition abc_mem :: mem where
  "abc_mem = write_bytes (\<lambda>_. 255) 1000 [97, 98, 99, 0]"

lemma strncpy_correct_witness:
  "cstring (strncpy abc_mem 2000 1000 3) 2000 [97, 98] \<and> strncpy abc_mem 2000 1000 3 2003 = 255"
proof -
  have "cstrn abc_mem 1000 (Suc (Suc 0)) = [97, 98]" by (simp add: abc_mem_def)
  then have "cstrn abc_mem 1000 2 = [97, 98]" by (metis Suc_1 One_nat_def)
  moreover have "abc_mem 2003 = 255" by (simp add: abc_mem_def)
  moreover
  have "0 <s (3 :: u32)" "apart 3 2000 1000" by (simp_all add: apart_def sless0_iff_u32)
  note copy = strncpy_correct [OF this, of abc_mem]
  have two: "unat (3 :: u32) - 1 = 2" by simp
  from copy [THEN conjunct2, THEN conjunct1, unfolded two]
  have "cstring (strncpy abc_mem 2000 1000 3) 2000 (cstrn abc_mem 1000 2)" .
  moreover have "strncpy abc_mem 2000 1000 3 2003 = abc_mem 2003"
    by (rule copy [THEN conjunct2, THEN conjunct2, rule_format]) simp
  ultimately show ?thesis by simp
qed

text \<open>\<open>strcpy\<close> terminates on a string that does not overlap its destination, and leaves there a copy of the string
  with its terminator and nothing else.\<close>

theorem strcpy_correct:
  assumes "cstring m src xs" and "of_nat (length xs) < n" and "apart n dest src"
  shows "\<exists>m'. strcpy m dest src = Some m' \<and> m' = write_bytes m dest (xs @ [0]) \<and> cstring m' dest xs"
proof -
  have "0 \<notin> set xs" using cstring_nth [OF assms(1)] by (auto simp: in_set_conv_nth)
  then show ?thesis
    using strcpy_flat [OF assms] cstring_write_bytes [of xs] cstring_length [OF assms(1)] by blast
qed

lemma strcpy_correct_witness:
  "\<exists>m'. strcpy abc_mem 2000 1000 = Some m' \<and> cstring m' 2000 [97, 98, 99]"
  using strcpy_correct [of abc_mem 1000 "[97, 98, 99]" 4 2000] by (auto simp: abc_mem_def apart_def)

text \<open>Case-insensitive comparison. \<open>istrncmp\<close> returns 0 exactly when the \<open>n\<close> bytes agree after \<open>to_upper\<close>, the
  terminator included in no way; \<open>to_upper\<close> maps 97 to 127 down by 32, so besides the lower-case letters it also folds
  the five bytes from \<open>{\<close> to DEL onto \<open>[\<close> to \<open>_\<close>; \<open>strcmp\<close> returns 1 for equal bytes and 0 otherwise.\<close>

theorem istrncmp_correct:
  "(istrncmp m a b n = 0 \<longleftrightarrow> (\<forall>i < unat n. to_upper (m (a + of_nat i)) = to_upper (m (b + of_nat i)))) \<and>
   to_upper c = (if 97 \<le> c \<and> c \<le> 127 then c - 32 else c) \<and>
   strcmp m a b n = (if \<forall>i < upto_int n. m (a + i) = m (b + i) then 1 else 0)"
proof (intro conjI)
  have s: "sint c = (if uint c < 128 then uint c else uint c - 256)"
    using uint_lt2p [of c] by (simp add: sint_u8)
  show "to_upper c = (if 97 \<le> c \<and> c \<le> 127 then c - 32 else c)"
    using uint_lt2p [of c] by (auto simp: to_upper_def word_sless_alt s word_le_def)
  show "strcmp m a b n = (if \<forall>i < upto_int n. m (a + i) = m (b + i) then 1 else 0)"
    by (auto simp: strcmp_def find_u32_eq_None_iff find_u32_eq_Some_iff split: option.splits)
qed (rule istrncmp_eq_0)

lemma istrncmp_correct_witness:
  "istrncmp abc_mem 1000 1000 3 = 0 \<and> to_upper 123 = 91 \<and> strcmp abc_mem 1000 1001 1 = 0"
proof -
  have "\<exists>i < upto_int 1. abc_mem (1000 + i) \<noteq> abc_mem (1001 + i)"
    by (rule exI [of _ 0]) (simp add: abc_mem_def upto_int_def sle0_iff_u32 word_le_nat_alt)
  then show ?thesis
    using istrncmp_correct [of abc_mem 1000 1000 3 123] istrncmp_correct [of abc_mem 1000 1001 1 0] by auto
qed

end
