(* ===== verification/Terminal.thy ===== *)
theory Terminal imports CString
begin

text \<open>
  The text terminal of \<open>src/src/kernel.c\<close>: character cells in video memory at \<open>0xB8000\<close>, a
  cursor, and the printing functions. The kernel's model keeps the cursor globals and RAM;
  \<open>term_abs\<close> abstracts it to a list of 1600 cells with a cursor, and every printing function
  is shown to refine the corresponding operation on that screen.

  Line numbers of the C file: \<open>terminal_make_char\<close> to \<open>kernel_print_str_hex\<close>, 29 to 168.
\<close>

abbreviation (input) VGA_WIDTH :: u32 where "VGA_WIDTH \<equiv> 80"
abbreviation (input) VGA_HEIGHT :: u32 where "VGA_HEIGHT \<equiv> 20"

record terminal =
  vram :: mem
  video_memory :: u32
  terminal_row :: u16
  terminal_col :: u16

section \<open>The operations\<close>

text \<open>Both arguments are signed \<open>char\<close>s: they are widened with their sign.\<close>

definition terminal_make_char :: "u8 \<Rightarrow> u8 \<Rightarrow> u16" where
  "terminal_make_char a colour = (let temp = scast colour :: u16 in push_bit 8 temp OR scast a)"

text \<open>\<open>y\<close> is the column and \<open>x\<close> the row, as in the C code.\<close>

definition terminal_put_char :: "u32 \<Rightarrow> u32 \<Rightarrow> u8 \<Rightarrow> u8 \<Rightarrow> terminal \<Rightarrow> terminal" where
  "terminal_put_char y x c colour t =
     t\<lparr>vram := store16 (vram t) (video_memory t + (x * VGA_WIDTH + y) * 2) (terminal_make_char c colour)\<rparr>"

definition terminal_init :: "terminal \<Rightarrow> terminal" where
  "terminal_init t =
     (let t = t\<lparr>terminal_row := 0, terminal_col := 0, video_memory := 0xB8000\<rparr>
      in for_u32 0 VGA_HEIGHT (\<lambda>x t. for_u32 0 VGA_WIDTH (\<lambda>y t. terminal_put_char y x 32 0 t) t) t)"

definition kernel_terminal_print_char :: "u8 \<Rightarrow> terminal \<Rightarrow> terminal" where
  "kernel_terminal_print_char a t =
     (let t = (if terminal_col t \<ge> 80 then t\<lparr>terminal_col := 0, terminal_row := terminal_row t + 1\<rparr> else t);
          t = (if terminal_row t \<ge> 20 then terminal_init t else t);
          t = terminal_put_char (ucast (terminal_col t)) (ucast (terminal_row t)) a 15 t
      in t\<lparr>terminal_col := terminal_col t + 1\<rparr>)"

text \<open>\<open>terminal_scroll\<close> is never called; its inner loop tests the outer variable.\<close>

partial_function (option) terminal_scroll_row :: "u32 \<Rightarrow> u32 \<Rightarrow> unit option" where
  "terminal_scroll_row i j = (if i < VGA_WIDTH then terminal_scroll_row i (j + 1) else Some ())"

partial_function (option) terminal_scroll_from :: "u32 \<Rightarrow> unit option" where
  "terminal_scroll_from i =
     (if i < VGA_HEIGHT - 1
      then (case terminal_scroll_row i 0 of None \<Rightarrow> None | Some _ \<Rightarrow> terminal_scroll_from (i + 1))
      else Some ())"

definition terminal_scroll :: "unit option" where
  "terminal_scroll = terminal_scroll_from 0"

definition terminal_newline :: "terminal \<Rightarrow> terminal" where
  "terminal_newline t = t\<lparr>terminal_row := terminal_row t + 1, terminal_col := 0\<rparr>"

definition kernel_print_string :: "u32 \<Rightarrow> u32 \<Rightarrow> terminal \<Rightarrow> terminal" where
  "kernel_print_string str len t =
     terminal_newline (for_u32 0 len (\<lambda>i t. kernel_terminal_print_char (vram t (str + i)) t) t)"

definition kernel_str_lenght :: "mem \<Rightarrow> u32 \<Rightarrow> u32 option" where
  "kernel_str_lenght m a = strlen_from m a 0"

definition kernel_print :: "u32 \<Rightarrow> terminal \<Rightarrow> terminal option" where
  "kernel_print str t =
     (case kernel_str_lenght (vram t) str of
        None \<Rightarrow> None
      | Some len \<Rightarrow> Some (kernel_print_string str len t))"

text \<open>Printing the bytes of a local array or a literal.\<close>

definition print_bytes :: "u8 list \<Rightarrow> terminal \<Rightarrow> terminal" where
  "print_bytes bs t = fold kernel_terminal_print_char bs t"

definition print_line :: "u8 list \<Rightarrow> terminal \<Rightarrow> terminal" where
  "print_line bs t = terminal_newline (print_bytes bs t)"

text \<open>
  \<open>kernel_print_uint\<close>: the array \<open>a[13]\<close> is a list of 13 bytes; the digits are stored least
  significant first, terminated, and reversed in place.
\<close>

definition uint_digits :: "u8 list" where
  "uint_digits = [48, 49, 50, 51, 52, 53, 54, 55, 56, 57]"

function uint_digit_loop :: "u32 \<Rightarrow> u8 list \<Rightarrow> nat \<Rightarrow> u8 list \<times> nat" where
  "uint_digit_loop to_print a i =
     (if to_print \<noteq> 0
      then uint_digit_loop (to_print div 10) (a[i := uint_digits ! unat (to_print mod 10)]) (i + 1)
      else (a, i))"
  by pat_completeness auto
termination
  by (relation "measure (\<lambda>(n, a, i). unat n)") (auto simp: unat_div unat_gt_0 intro: div_less_dividend)

function uint_reverse_loop :: "int \<Rightarrow> int \<Rightarrow> u8 list \<Rightarrow> u8 list" where
  "uint_reverse_loop start end' a =
     (if start < end'
      then let c_temp = a ! nat start;
               a = a[nat start := a ! nat end'];
               a = a[nat end' := c_temp]
           in uint_reverse_loop (start + 1) (end' - 1) a
      else a)"
  by pat_completeness auto
termination
  by (relation "measure (\<lambda>(s, e, a). nat (e - s))") auto

declare uint_digit_loop.simps [simp del] uint_reverse_loop.simps [simp del]

definition kernel_print_uint :: "u32 \<Rightarrow> u8 list \<Rightarrow> terminal \<Rightarrow> terminal" where
  "kernel_print_uint to_print stack_a t =
     (let t = (if to_print = 0 then print_line [48] t else t);
          (a, i) = uint_digit_loop to_print stack_a 0;
          a = a[i := 0];
          a = uint_reverse_loop 0 (int i - 1) a
      in print_line (take i a) t)"

definition hex_digits :: "u8 list" where
  "hex_digits = [48, 49, 50, 51, 52, 53, 54, 55, 56, 57, 65, 66, 67, 68, 69, 70]"

definition kernel_print_char_hex :: "u8 \<Rightarrow> terminal \<Rightarrow> terminal" where
  "kernel_print_char_hex hex t =
     (let t = kernel_terminal_print_char (hex_digits ! unat (drop_bit 4 hex)) t;
          t = kernel_terminal_print_char (hex_digits ! unat (hex AND 15)) t
      in kernel_terminal_print_char 32 t)"

definition kernel_print_str_hex :: "u32 \<Rightarrow> u32 \<Rightarrow> terminal \<Rightarrow> terminal" where
  "kernel_print_str_hex buffer len t =
     for_u32 0 len (\<lambda>i t. kernel_print_char_hex (vram t (buffer + i)) t) t"

section \<open>The screen\<close>

text \<open>The abstract screen: 1600 cells and a cursor that never overflows.\<close>

type_synonym screen = "u16 list \<times> nat \<times> nat"

definition cell_address :: "nat \<Rightarrow> u32" where
  "cell_address k = 0xB8000 + of_nat k * 2"

definition screen_cells :: "mem \<Rightarrow> u16 list" where
  "screen_cells m = map (\<lambda>k. load16 m (cell_address k)) [0..<1600]"

definition term_abs :: "terminal \<Rightarrow> screen" where
  "term_abs t = (screen_cells (vram t), unat (terminal_row t), unat (terminal_col t))"

definition blank_cells :: "u16 list" where
  "blank_cells = replicate 1600 0x20"

definition type_char :: "u8 \<Rightarrow> screen \<Rightarrow> screen" where
  "type_char a sc =
     (let (cells, row, col) = sc;
          (row, col) = (if 80 \<le> col then (row + 1, 0) else (row, col));
          (cells, row, col) = (if 20 \<le> row then (blank_cells, 0, 0) else (cells, row, col))
      in (cells[row * 80 + col := terminal_make_char a 15], row, col + 1))"

fun new_line :: "screen \<Rightarrow> screen" where
  "new_line (cells, row, col) = (cells, row + 1, 0)"

definition type_line :: "u8 list \<Rightarrow> screen \<Rightarrow> screen" where
  "type_line bs sc = new_line (fold type_char bs sc)"

lemma load16_store16_apart:
  assumes "apart 2 a b" shows "load16 (store16 m b v) a = load16 m a"
proof -
  have "store16 m b v (a + i) = m (a + i)" if "i < 2" for i
    using apart_neq [OF assms that, of 0] apart_neq [OF assms that, of 1] by (simp add: store16_def)
  from this [of 0] this [of 1] show ?thesis by (simp add: load16_def)
qed

interpretation half_mem: word_store load16 store16 "apart 2"
  by unfold_locales (auto simp: load16_store16_apart)

lemma unat_cell_address: "k < 1600 \<Longrightarrow> unat (cell_address k) = 0xB8000 + k * 2"
  by (simp add: cell_address_def unat_word_ariths unat_of_nat_u32)

lemma cells_apart:
  assumes "k < 1600" "j < 1600" "k \<noteq> j" shows "apart 2 (cell_address k) (cell_address j)"
proof -
  have "2 \<le> cell_address a - cell_address b" if "a < 1600" "b < 1600" "a \<noteq> b" for a b
  proof (rule ccontr)
    define i where "i = cell_address a - cell_address b"
    assume "\<not> 2 \<le> cell_address a - cell_address b"
    then have i: "unat i < 2" by (simp add: i_def word_le_nat_alt)
    have "cell_address a = cell_address b + i" by (simp add: i_def)
    then have "unat (cell_address a) = unat (cell_address b) + unat i"
      using i that by (simp add: unat_word_ariths(1) [of "cell_address b"] unat_cell_address)
    with that i have "a * 2 = b * 2 + unat i" by (simp add: unat_cell_address)
    with i that(3) show False by presburger
  qed
  then show ?thesis using assms by (simp add: apart_def)
qed

lemma store16_other: "2 \<le> x - a \<Longrightarrow> store16 m a v x = m x"
proof -
  assume "2 \<le> x - a"
  then have "x \<noteq> a + i" if "i < 2" for i using that by (metis add_diff_cancel_left' not_less)
  from this [of 0] this [of 1] show ?thesis by (simp add: store16_def)
qed

lemma screen_cells_store:
  assumes "k < 1600"
  shows "screen_cells (store16 m (cell_address k) v) = (screen_cells m)[k := v]"
proof (rule nth_equalityI)
  fix j assume "j < length (screen_cells (store16 m (cell_address k) v))"
  then have j: "j < 1600" by (simp add: screen_cells_def)
  show "screen_cells (store16 m (cell_address k) v) ! j = (screen_cells m)[k := v] ! j"
  proof (cases "j = k")
    case True
    then show ?thesis using assms by (simp add: screen_cells_def del: upt_rec_numeral)
  next
    case False
    then show ?thesis
      using j cells_apart [OF j assms False]
      by (simp add: screen_cells_def load16_store16_apart del: upt_rec_numeral)
  qed
qed (simp add: screen_cells_def)

section \<open>Putting and clearing\<close>

lemma index_less: "r < 20 \<Longrightarrow> c < 80 \<Longrightarrow> r * 80 + c < (1600 :: nat)"
  by simp

lemma put_char_address:
  assumes "video_memory t = 0xB8000" and "unat x < 20" and "unat y < 80"
  shows "video_memory t + (x * VGA_WIDTH + y) * 2 = cell_address (unat x * 80 + unat y)"
  using assms by (simp add: cell_address_def)

lemma put_char_cells:
  assumes "video_memory t = 0xB8000" and "unat x < 20" and "unat y < 80"
  shows "screen_cells (vram (terminal_put_char y x c col t)) =
    (screen_cells (vram t))[unat x * 80 + unat y := terminal_make_char c col]"
  using put_char_address [OF assms] screen_cells_store [OF index_less [OF assms(2,3)]]
  by (simp add: terminal_put_char_def)

lemma put_char_fields [simp]:
  "video_memory (terminal_put_char y x c col t) = video_memory t"
  "terminal_row (terminal_put_char y x c col t) = terminal_row t"
  "terminal_col (terminal_put_char y x c col t) = terminal_col t"
  by (simp_all add: terminal_put_char_def)

text \<open>Only the 3200 bytes of video memory can change.\<close>

definition outside_video :: "u32 \<Rightarrow> bool" where
  "outside_video a \<longleftrightarrow> 3200 \<le> a - 0xB8000"

lemma put_char_frame:
  assumes "video_memory t = 0xB8000" and "unat x < 20" and "unat y < 80" and "outside_video a"
  shows "vram (terminal_put_char y x c col t) a = vram t a"
proof -
  let ?k = "unat x * 80 + unat y"
  have k: "?k < 1600" using assms(2,3) by simp
  have "2 \<le> a - cell_address ?k"
  proof (rule ccontr)
    define i where "i = a - cell_address ?k"
    assume "\<not> 2 \<le> a - cell_address ?k"
    then have i: "unat i < 2" by (simp add: i_def word_le_nat_alt)
    have "a - 0xB8000 = of_nat ?k * 2 + i" by (simp add: i_def cell_address_def)
    moreover have "unat (of_nat ?k * 2 + i) = ?k * 2 + unat i"
      using i k by (simp add: unat_word_ariths unat_of_nat_u32 del: of_nat_add of_nat_mult)
    ultimately show False using assms(4) i k by (simp add: outside_video_def word_le_nat_alt)
  qed
  then show ?thesis
    using put_char_address [OF assms(1-3)] by (simp add: terminal_put_char_def store16_other)
qed

text \<open>The rows of the clearing loop, and the whole screen.\<close>

definition video_frame :: "terminal \<Rightarrow> terminal \<Rightarrow> bool" where
  "video_frame t t' \<longleftrightarrow> video_memory t' = 0xB8000 \<and> (\<forall>a. outside_video a \<longrightarrow> vram t' a = vram t a)"

lemma video_frame_refl: "video_memory t = 0xB8000 \<Longrightarrow> video_frame t t"
  by (simp add: video_frame_def)

lemma video_frame_trans: "video_frame t u \<Longrightarrow> video_frame u v \<Longrightarrow> video_frame t v"
  by (simp add: video_frame_def)

lemma make_blank: "terminal_make_char 32 0 = 0x20"
  by (simp add: terminal_make_char_def)

definition cleared :: "terminal \<Rightarrow> nat \<Rightarrow> terminal \<Rightarrow> bool" where
  "cleared t n t' \<longleftrightarrow> video_frame t t' \<and> terminal_row t' = terminal_row t \<and> terminal_col t' = terminal_col t \<and>
     (\<forall>k < n. screen_cells (vram t') ! k = 0x20)"

lemma length_screen_cells [simp]: "length (screen_cells m) = 1600"
  by (simp add: screen_cells_def)

lemma cleared_put:
  assumes "cleared t (unat x * 80 + unat y) t'" and "x < 20" and "y < 80"
  shows "cleared t (unat x * 80 + unat (y + 1)) (terminal_put_char y x 32 0 t')"
proof -
  have xy: "unat x < 20" "unat y < 80" using assms by (auto simp: word_less_nat_alt)
  have v: "video_memory t' = 0xB8000" using assms(1) by (simp add: cleared_def video_frame_def)
  have y1: "unat (y + 1) = Suc (unat y)" by (rule unat_inc_less [OF assms(3)])
  have "screen_cells (vram (terminal_put_char y x 32 0 t')) ! k = 0x20"
    if "k < unat x * 80 + unat (y + 1)" for k
    using that assms(1) xy unfolding y1
    by (simp add: put_char_cells [OF v xy] nth_list_update make_blank cleared_def)
  then show ?thesis
    using assms(1) put_char_frame [OF v xy] v by (simp add: cleared_def video_frame_def)
qed

lemma cleared_row:
  assumes "cleared t (unat x * 80) t'" and x: "x < 20"
  shows "cleared t (unat (x + 1) * 80) (for_u32 0 VGA_WIDTH (\<lambda>y t. terminal_put_char y x 32 0 t) t')"
proof -
  have "cleared t (unat x * 80 + unat (80 :: u32)) (for_u32 0 VGA_WIDTH (\<lambda>y t. terminal_put_char y x 32 0 t) t')"
    by (rule for_u32_invariant [OF refl, where P = "\<lambda>y. cleared t (unat x * 80 + unat y)"])
       (use assms cleared_put in auto)
  moreover have "unat (x + 1) * 80 = unat x * 80 + unat (80 :: u32)" using unat_inc_less [OF x] by simp
  ultimately show ?thesis by (simp only:)
qed

lemma terminal_init_result:
  fixes t :: terminal
  defines "t0 \<equiv> t\<lparr>terminal_row := 0, terminal_col := 0, video_memory := 0xB8000\<rparr>"
  shows "cleared t0 1600 (terminal_init t)"
proof -
  have "cleared t0 (unat (20 :: u32) * 80)
     (for_u32 0 VGA_HEIGHT (\<lambda>x t. for_u32 0 VGA_WIDTH (\<lambda>y t. terminal_put_char y x 32 0 t) t) t0)"
    by (rule for_u32_invariant [OF refl, where P = "\<lambda>x. cleared t0 (unat x * 80)"])
       (auto simp: cleared_row, simp add: cleared_def video_frame_def t0_def)
  then show ?thesis by (simp add: terminal_init_def t0_def)
qed

lemma terminal_init_abs: "term_abs (terminal_init t) = (blank_cells, 0, 0)"
proof -
  have "screen_cells (vram (terminal_init t)) = blank_cells"
    using terminal_init_result [of t]
    by (intro nth_equalityI) (simp_all add: cleared_def blank_cells_def)
  then show ?thesis using terminal_init_result [of t] by (simp add: term_abs_def cleared_def)
qed

lemma terminal_init_frame: "outside_video a \<Longrightarrow> vram (terminal_init t) a = vram t a"
  and terminal_init_video [simp]: "video_memory (terminal_init t) = 0xB8000"
  using terminal_init_result [of t] by (simp_all add: cleared_def video_frame_def)

section \<open>Printing refines typing on the screen\<close>

definition term_ok :: "terminal \<Rightarrow> bool" where
  "term_ok t \<longleftrightarrow> video_memory t = 0xB8000 \<and> terminal_row t < 65535 \<and> terminal_col t \<le> 80"

lemma unat_u16_inc: "c < 65535 \<Longrightarrow> unat (c + 1) = Suc (unat c)" for c :: u16
  by (simp add: unat_word_ariths word_less_nat_alt)

text \<open>The two steps before the character is stored.\<close>

definition print_wrap :: "terminal \<Rightarrow> terminal" where
  "print_wrap t = (if terminal_col t \<ge> 80 then t\<lparr>terminal_col := 0, terminal_row := terminal_row t + 1\<rparr> else t)"

definition print_page :: "terminal \<Rightarrow> terminal" where
  "print_page t = (if terminal_row t \<ge> 20 then terminal_init t else t)"

lemma print_char_steps:
  "kernel_terminal_print_char a t =
     (let u = print_page (print_wrap t)
      in (terminal_put_char (ucast (terminal_col u)) (ucast (terminal_row u)) a 15 u)\<lparr>terminal_col := terminal_col u + 1\<rparr>)"
  by (simp add: kernel_terminal_print_char_def print_page_def print_wrap_def Let_def)

lemma print_wrap_abs:
  assumes "term_ok t"
  shows "term_abs (print_wrap t) = (case term_abs t of (cells, row, col) \<Rightarrow>
      if 80 \<le> col then (cells, row + 1, 0) else (cells, row, col))"
    and "vram (print_wrap t) = vram t" and "video_memory (print_wrap t) = 0xB8000"
    and "terminal_col (print_wrap t) < 80"
  using assms unat_u16_inc [of "terminal_row t"]
  by (auto simp: print_wrap_def term_abs_def term_ok_def word_le_nat_alt word_less_nat_alt not_le)

lemma print_page_abs:
  assumes "video_memory t = 0xB8000" and "terminal_col t < 80"
  shows "term_abs (print_page t) = (case term_abs t of (cells, row, col) \<Rightarrow>
      if 20 \<le> row then (blank_cells, 0, 0) else (cells, row, col))"
    and "video_memory (print_page t) = 0xB8000"
    and "unat (terminal_row (print_page t)) < 20" and "unat (terminal_col (print_page t)) < 80"
    and "outside_video a \<Longrightarrow> vram (print_page t) a = vram t a"
proof -
  have e: "20 \<le> terminal_row t \<longleftrightarrow> 20 \<le> unat (terminal_row t)" by (simp add: word_le_nat_alt)
  have i: "terminal_row (terminal_init t) = 0" "terminal_col (terminal_init t) = 0"
    using terminal_init_abs [of t] by (simp_all add: term_abs_def unat_eq_zero)
  show "term_abs (print_page t) = (case term_abs t of (cells, row, col) \<Rightarrow>
      if 20 \<le> row then (blank_cells, 0, 0) else (cells, row, col))"
    using terminal_init_abs [of t] e by (simp add: print_page_def term_abs_def)
  show "video_memory (print_page t) = 0xB8000" using assms(1) by (simp add: print_page_def)
  show "unat (terminal_row (print_page t)) < 20" "unat (terminal_col (print_page t)) < 80"
    using e i assms(2) by (auto simp: print_page_def word_less_nat_alt)
  show "outside_video a \<Longrightarrow> vram (print_page t) a = vram t a"
    by (simp add: print_page_def terminal_init_frame)
qed

lemma print_char_result:
  assumes "term_ok t"
  shows "term_abs (kernel_terminal_print_char a t) = type_char a (term_abs t)"
    and "video_memory (kernel_terminal_print_char a t) = 0xB8000"
    and "terminal_row (kernel_terminal_print_char a t) < 20" and "terminal_col (kernel_terminal_print_char a t) \<le> 80"
    and "outside_video x \<Longrightarrow> vram (kernel_terminal_print_char a t) x = vram t x"
proof -
  let ?u = "print_page (print_wrap t)"
  note w = print_wrap_abs [OF assms]
  note p = print_page_abs [OF w(3,4)]
  let ?p = "terminal_put_char (ucast (terminal_col ?u)) (ucast (terminal_row ?u)) a 15 ?u"
  have eq: "kernel_terminal_print_char a t = ?p\<lparr>terminal_col := terminal_col ?u + 1\<rparr>"
    by (simp add: print_char_steps Let_def)
  have xy: "unat (ucast (terminal_row ?u) :: u32) < 20" "unat (ucast (terminal_col ?u) :: u32) < 80"
    using p(3,4) by (simp_all add: unat_ucast_u16)
  have cells: "screen_cells (vram ?p) = (screen_cells (vram ?u))
      [unat (terminal_row ?u) * 80 + unat (terminal_col ?u) := terminal_make_char a 15]"
    using put_char_cells [OF p(2) xy] by (simp add: unat_ucast_u16)
  have "terminal_col ?u < 65535" using p(4) by (simp add: word_less_nat_alt)
  then have c1: "unat (terminal_col ?u + 1) = Suc (unat (terminal_col ?u))" by (rule unat_u16_inc)
  have "term_abs (kernel_terminal_print_char a t) = (case term_abs ?u of (cells, row, col) \<Rightarrow>
      (cells[row * 80 + col := terminal_make_char a 15], row, col + 1))"
    using cells c1 by (simp add: eq term_abs_def)
  then show "term_abs (kernel_terminal_print_char a t) = type_char a (term_abs t)"
    unfolding p(1) w(1) type_char_def by (auto simp: Let_def split: prod.splits)
  show "video_memory (kernel_terminal_print_char a t) = 0xB8000" using p(2) by (simp add: eq)
  show "terminal_row (kernel_terminal_print_char a t) < 20" using p(3) by (simp add: eq word_less_nat_alt)
  show "terminal_col (kernel_terminal_print_char a t) \<le> 80" using c1 p(4) by (simp add: eq word_le_nat_alt)
  show "outside_video x \<Longrightarrow> vram (kernel_terminal_print_char a t) x = vram t x"
    using put_char_frame [OF p(2) xy] p(5) w(2) by (simp add: eq)
qed

lemma print_char_ok: "term_ok t \<Longrightarrow> term_ok (kernel_terminal_print_char a t)"
  using print_char_result(2-4) [of t a] by (auto simp: term_ok_def word_less_nat_alt)

lemma print_bytes_result:
  assumes "term_ok t"
  shows "term_abs (print_bytes bs t) = fold type_char bs (term_abs t) \<and> term_ok (print_bytes bs t) \<and>
    (\<forall>x. outside_video x \<longrightarrow> vram (print_bytes bs t) x = vram t x)"
  using assms
proof (induction bs arbitrary: t)
  case (Cons b bs)
  have "term_ok (kernel_terminal_print_char b t)" using Cons.prems by (rule print_char_ok)
  from Cons.IH [OF this] show ?case
    using print_char_result(1,5) [OF Cons.prems, where a = b] by (simp add: print_bytes_def)
qed (simp add: print_bytes_def)

lemma newline_abs: "terminal_row t < 65535 \<Longrightarrow> term_abs (terminal_newline t) = new_line (term_abs t)"
  using unat_u16_inc [of "terminal_row t"] by (simp add: terminal_newline_def term_abs_def)

lemma print_line_result:
  assumes "term_ok t"
  shows "term_abs (print_line bs t) = type_line bs (term_abs t) \<and>
    (\<forall>x. outside_video x \<longrightarrow> vram (print_line bs t) x = vram t x)"
  using print_bytes_result [OF assms, of bs] newline_abs [of "print_bytes bs t"]
  by (simp add: print_line_def type_line_def term_ok_def) (simp add: terminal_newline_def)

text \<open>Printing from memory that is not video memory prints the bytes that were there.\<close>

lemma print_string_bytes:
  assumes "term_ok t" and "\<And>i. i < len \<Longrightarrow> outside_video (str + i)"
  shows "kernel_print_string str len t = print_line (read_bytes (vram t) str (unat len)) t"
proof -
  let ?f = "\<lambda>i t. kernel_terminal_print_char (vram t (str + i)) t"
  have "fold (\<lambda>i. ?f (of_nat i)) is u = print_bytes (map (\<lambda>i. vram t (str + of_nat i)) is) u"
    if "term_ok u" "\<forall>x. outside_video x \<longrightarrow> vram u x = vram t x" "\<forall>i \<in> set is. i < unat len" for "is" u
    using that
  proof (induction "is" arbitrary: u)
    case (Cons i "is")
    have "of_nat i < len"
      using Cons.prems(3) unat_of_nat_u32 [of i] less_trans [OF _ unat_u32_bound [of len], of i]
      by (simp add: word_less_nat_alt)
    then have b: "vram u (str + of_nat i) = vram t (str + of_nat i)"
      using Cons.prems(2) assms(2) by blast
    let ?u = "kernel_terminal_print_char (vram t (str + of_nat i)) u"
    have "term_ok ?u" "\<forall>x. outside_video x \<longrightarrow> vram ?u x = vram t x"
      using print_char_ok [OF Cons.prems(1)] print_char_result(5) [OF Cons.prems(1)] Cons.prems(2) by auto
    with Cons b show ?case by (simp add: print_bytes_def)
  qed (simp add: print_bytes_def)
  from this [OF assms(1)] show ?thesis
    by (simp add: kernel_print_string_def for_u32_fold print_line_def read_bytes_def)
qed

section \<open>Numbers\<close>

text \<open>The digits of a number, least significant first, and the number a digit string denotes.\<close>

fun low_digits :: "nat \<Rightarrow> u8 list" where
  "low_digits n = (if n = 0 then [] else (48 + of_nat (n mod 10)) # low_digits (n div 10))"

definition decimal_value :: "u8 list \<Rightarrow> nat" where
  "decimal_value ds = foldl (\<lambda>v d. v * 10 + (unat d - 48)) 0 ds"

declare low_digits.simps [simp del]

lemma digit_unat: "d < 10 \<Longrightarrow> unat (48 + of_nat d :: u8) = 48 + d"
  by (simp add: unat_word_ariths unat_of_nat)

lemma low_digits_value: "decimal_value (rev (low_digits n)) = n"
proof (induction n rule: low_digits.induct)
  case (1 n)
  show ?case
  proof (cases "n = 0")
    case False
    then have "decimal_value (rev (low_digits (n div 10))) = n div 10" using 1 by blast
    moreover have "unat (48 + of_nat (n mod 10) :: u8) = 48 + n mod 10" by (rule digit_unat) simp
    ultimately show ?thesis
      using False by (subst low_digits.simps) (simp add: decimal_value_def)
  qed (simp add: low_digits.simps decimal_value_def)
qed

lemma low_digits_digits: "d \<in> set (low_digits n) \<Longrightarrow> 48 \<le> d \<and> d \<le> 57"
proof (induction n rule: low_digits.induct)
  case (1 n)
  have "n mod 10 < 10" by simp
  from digit_unat [OF this] have "48 \<le> (48 + of_nat (n mod 10) :: u8)" "(48 + of_nat (n mod 10) :: u8) \<le> 57"
    by (auto simp: word_le_nat_alt)
  with 1 show ?case by (cases "n = 0") (auto simp: low_digits.simps [of n] low_digits.simps [of 0])
qed

lemma low_digits_top: "n \<noteq> 0 \<Longrightarrow> low_digits n \<noteq> [] \<and> last (low_digits n) \<noteq> 48"
proof (induction n rule: low_digits.induct)
  case (1 n)
  show ?case
  proof (cases "n div 10 = 0")
    case True
    then have n: "n mod 10 = n" "n < 10" by auto
    have "48 + of_nat n \<noteq> (48 :: u8)"
    proof
      assume "48 + of_nat n = (48 :: u8)"
      then have "unat (48 + of_nat n :: u8) = unat (48 :: u8)" by (rule arg_cong)
      then show False using digit_unat [OF n(2)] 1(2) by simp
    qed
    then show ?thesis using 1(2) True n by (simp add: low_digits.simps [of n] low_digits.simps [of 0])
  next
    case False
    then show ?thesis using 1 by (simp add: low_digits.simps [of n])
  qed
qed

lemma low_digits_length: "n < 10 ^ k \<Longrightarrow> length (low_digits n) \<le> k"
proof (induction k arbitrary: n)
  case (Suc k)
  then have "n div 10 < 10 ^ k" by (simp add: less_mult_imp_div_less mult.commute)
  then show ?case using Suc.IH by (simp add: low_digits.simps [of n])
qed (simp add: low_digits.simps)

lemma uint_digit_nth: "d < 10 \<Longrightarrow> uint_digits ! d = 48 + of_nat d"
proof -
  assume "d < 10"
  then have "d \<in> {0, 1, 2, 3, 4, 5, 6, 7, 8, 9}" by auto
  then show ?thesis by (auto simp: uint_digits_def)
qed

lemma uint_digit_loop_result:
  "i + length (low_digits (unat n)) \<le> length a \<Longrightarrow>
    uint_digit_loop n a i = (take i a @ low_digits (unat n) @ drop (i + length (low_digits (unat n))) a,
      i + length (low_digits (unat n)))"
proof (induction n a i rule: uint_digit_loop.induct)
  case (1 n a i)
  show ?case
  proof (cases "n = 0")
    case True
    then show ?thesis by (simp add: uint_digit_loop.simps low_digits.simps)
  next
    case False
    let ?d = "48 + of_nat (unat n mod 10) :: u8" and ?r = "low_digits (unat n div 10)"
    have n: "unat n \<noteq> 0" using False by (simp add: unat_eq_zero)
    have digits: "low_digits (unat n) = ?d # ?r" using n by (simp add: low_digits.simps [of "unat n"])
    have d: "uint_digits ! unat (n mod 10) = ?d" by (simp add: unat_mod uint_digit_nth)
    have i: "i < length a" using "1.prems" by (simp add: digits)
    have "uint_digit_loop (n div 10) (a[i := uint_digits ! unat (n mod 10)]) (i + 1) =
      (take (i + 1) (a[i := ?d]) @ ?r @ drop (i + 1 + length ?r) (a[i := ?d]), i + 1 + length ?r)"
      using "1.IH" [OF False] "1.prems" by (simp add: digits d unat_div)
    moreover have "take (i + 1) (a[i := ?d]) = take i a @ [?d]"
      using i by (simp add: take_Suc_conv_app_nth)
    ultimately show ?thesis
      using False by (simp add: uint_digit_loop.simps [of n] digits)
  qed
qed

text \<open>The in-place reversal reverses the segment between its two indices.\<close>

lemma uint_reverse_segment:
  "uint_reverse_loop (int (length p)) (int (length p + length xs) - 1) (p @ xs @ q) = p @ rev xs @ q"
proof (induction "length xs" arbitrary: p xs q rule: less_induct)
  case less
  show ?case
  proof (cases xs)
    case Nil
    then show ?thesis by (simp add: uint_reverse_loop.simps)
  next
    case (Cons x ys)
    show ?thesis
    proof (cases ys rule: rev_cases)
      case Nil
      with Cons show ?thesis by (simp add: uint_reverse_loop.simps)
    next
      case (snoc zs y)
      let ?a = "p @ xs @ q" and ?e = "Suc (length p + length zs)"
      have xs: "xs = x # zs @ [y]" using Cons snoc by simp
      have nth: "?a ! length p = x" "?a ! ?e = y" by (simp_all add: xs nth_append)
      have "(?a[length p := y])[?e := x] = (p @ [y]) @ zs @ (x # q)"
        by (simp add: xs list_update_append)
      moreover have "uint_reverse_loop (int (length p)) (int (length p + length xs) - 1) ?a =
          uint_reverse_loop (int (length p) + 1) (int ?e - 1) ((?a[length p := ?a ! ?e])[?e := ?a ! length p])"
        by (subst uint_reverse_loop.simps) (simp add: xs Let_def nat_add_distrib)
      ultimately show ?thesis
        using less [of zs "p @ [y]" "x # q"] unfolding nth by (simp add: xs algebra_simps)
    qed
  qed
qed

lemma print_uint_result:
  assumes "length a = 13"
  shows "kernel_print_uint n a t =
    print_line (rev (low_digits (unat n))) (if n = 0 then print_line [48] t else t)"
proof -
  let ?ds = "low_digits (unat n)"
  have "unat n < 10 ^ 10" using less_trans [OF unat_u32_bound [of n], of "10 ^ 10"] by simp
  then have len: "length ?ds \<le> 10" by (rule low_digits_length)
  let ?a = "?ds @ drop (length ?ds) a"
  have loop: "uint_digit_loop n a 0 = (?a, length ?ds)"
    using uint_digit_loop_result [of 0 n a] len assms by simp
  have "?a[length ?ds := 0] = [] @ ?ds @ (drop (length ?ds) a)[0 := 0]"
    by (simp add: list_update_append)
  then have "uint_reverse_loop 0 (int (length ?ds) - 1) (?a[length ?ds := 0]) =
      rev ?ds @ (drop (length ?ds) a)[0 := 0]"
    using uint_reverse_segment [of "[]" ?ds] by simp
  then show ?thesis by (simp add: kernel_print_uint_def loop)
qed

section \<open>Hexadecimal\<close>

lemma print_hex_result:
  "kernel_print_char_hex h t =
     print_bytes [hex_digits ! (unat h div 16), hex_digits ! (unat h mod 16), 32] t"
proof -
  have "unat (drop_bit 4 h) = unat h div 16"
    by (simp add: drop_bit_eq_div unat_div)
  moreover have "h AND 15 = take_bit 4 h" using take_bit_eq_mask [of 4 h] by (simp add: mask_eq_exp_minus_1)
  then have "unat (h AND 15) = unat h mod 16" by (simp add: take_bit_eq_mod unat_mod)
  ultimately show ?thesis by (simp add: kernel_print_char_hex_def print_bytes_def Let_def)
qed

section \<open>A loop that never ends\<close>

lemma scroll_row_diverges: "i < 80 \<Longrightarrow> terminal_scroll_row i j = None"
proof -
  assume i: "i < 80"
  have "terminal_scroll_row i j = Some u \<Longrightarrow> \<not> i < 80" for u
    by (rule terminal_scroll_row.raw_induct [where P = "\<lambda>i j u. \<not> i < 80"]) (auto split: if_splits)
  with i show ?thesis by (cases "terminal_scroll_row i j") auto
qed

section \<open>Correctness of the terminal\<close>

definition terminal_boot :: terminal where
  "terminal_boot = terminal_init \<lparr>vram = (\<lambda>_. 0), video_memory = 0, terminal_row = 0, terminal_col = 0\<rparr>"

lemma terminal_boot_ok: "term_ok terminal_boot"
  using terminal_init_abs [of "\<lparr>vram = (\<lambda>_. 0), video_memory = 0, terminal_row = 0, terminal_col = 0\<rparr>"]
  by (simp add: terminal_boot_def term_ok_def term_abs_def unat_eq_zero)

lemma terminal_boot_abs: "term_abs terminal_boot = (blank_cells, 0, 0)"
  by (simp add: terminal_boot_def terminal_init_abs)

text \<open>C18: The terminal implements its screen. \<open>terminal_init\<close> shows 1600 blanks with the cursor at the origin; printing a
  character stores it, in white, at the cursor, after wrapping at column 80 and after blanking the whole screen when
  row 20 is reached, and moves the cursor on; ending a line moves the cursor to the start of the next row and leaves the cells
  alone; printing any bytes and ending the line does these in sequence; and no byte outside the 3200 bytes of video memory is
  written.\<close>

theorem terminal_refines_screen:
  assumes "term_ok t"
  shows "term_abs (terminal_init t) = (blank_cells, 0, 0) \<and>
    term_abs (kernel_terminal_print_char a t) = type_char a (term_abs t) \<and>
    term_ok (kernel_terminal_print_char a t) \<and>
    term_abs (terminal_newline t) = new_line (term_abs t) \<and>
    term_abs (print_line bs t) = type_line bs (term_abs t) \<and>
    (\<forall>x. outside_video x \<longrightarrow> vram (kernel_terminal_print_char a t) x = vram t x \<and>
      vram (terminal_init t) x = vram t x \<and> vram (print_line bs t) x = vram t x) \<and>
    vram (terminal_newline t) = vram t"
proof -
  have "vram (terminal_newline t) = vram t" by (simp add: terminal_newline_def)
  then show ?thesis
    using terminal_init_abs [of t] print_char_result(1,5) [OF assms, where a = a] print_char_ok [OF assms]
      terminal_init_frame newline_abs [of t] print_line_result [OF assms, of bs] assms by (auto simp: term_ok_def)
qed

lemma terminal_refines_screen_witness:
  "term_abs (kernel_terminal_print_char 65 terminal_boot) = (blank_cells[0 := 0x0F41], 0, 1) \<and>
    term_abs (terminal_newline terminal_boot) = (blank_cells, 1, 0) \<and>
    term_abs (print_line [65] terminal_boot) = (blank_cells[0 := 0x0F41], 1, 0)"
  using terminal_refines_screen [OF terminal_boot_ok, of 65 "[65]"] terminal_boot_abs
  by (simp add: type_char_def type_line_def terminal_make_char_def)

lemma kernel_print_result:
  assumes "term_ok t" and "cstring (vram t) str xs" and "\<And>i. i < length xs \<Longrightarrow> outside_video (str + of_nat i)"
  shows "\<exists>t'. kernel_print str t = Some t' \<and> term_abs t' = type_line xs (term_abs t) \<and>
    (\<forall>x. outside_video x \<longrightarrow> vram t' x = vram t x)"
proof -
  have len: "length xs < 4294967296" by (rule cstring_length [OF assms(2)])
  have "read_bytes (vram t) str (length xs) = xs"
    using cstring_nth [OF assms(2)] by (intro nth_equalityI) (simp_all add: read_bytes_def)
  moreover have "outside_video (str + i)" if "i < of_nat (length xs)" for i
    using assms(3) [of "unat i"] that len by (simp add: word_less_nat_alt unat_of_nat_u32)
  ultimately have "kernel_print_string str (of_nat (length xs)) t = print_line xs t"
    using print_string_bytes [OF assms(1), of "of_nat (length xs)" str] len by (simp add: unat_of_nat_u32)
  moreover have "kernel_str_lenght (vram t) str = Some (of_nat (length xs))"
    using strlen_from_cstring [OF assms(2), of 0] by (simp add: kernel_str_lenght_def)
  ultimately show ?thesis
    using print_line_result [OF assms(1), of xs] by (simp add: kernel_print_def)
qed

text \<open>Printing a string. \<open>kernel_print\<close> of a string that does not lie in video memory returns, and types exactly the
  string's characters followed by a new line, changing nothing outside video memory.\<close>

theorem kernel_print_correct:
  assumes "term_ok t" and "cstring (vram t) str xs" and "\<And>i. i < length xs \<Longrightarrow> outside_video (str + of_nat i)"
  shows "\<exists>t'. kernel_print str t = Some t' \<and> term_abs t' = type_line xs (term_abs t) \<and>
    (\<forall>x. outside_video x \<longrightarrow> vram t' x = vram t x)"
  using kernel_print_result [OF assms] .

lemma kernel_print_correct_witness:
  "\<exists>t'. kernel_print 1000 (terminal_boot\<lparr>vram := abc_mem\<rparr>) = Some t' \<and>
    term_abs t' = type_line [97, 98, 99] (screen_cells abc_mem, 0, 0)"
proof -
  let ?t = "terminal_boot\<lparr>vram := abc_mem\<rparr>"
  have "term_ok ?t" using terminal_boot_ok by (simp add: term_ok_def)
  moreover have "cstring (vram ?t) 1000 [97, 98, 99]" by (simp add: abc_mem_def)
  moreover have "outside_video (1000 + of_nat i)" if "i < length [97, 98, 99 :: u8]" for i
  proof -
    have "i = 0 \<or> i = 1 \<or> i = 2" using that by auto
    then show ?thesis by (auto simp: outside_video_def)
  qed
  ultimately have "\<exists>t'. kernel_print 1000 ?t = Some t' \<and> term_abs t' = type_line [97, 98, 99] (term_abs ?t)"
    using kernel_print_correct [of ?t 1000 "[97, 98, 99]"] by blast
  moreover have "term_abs ?t = (screen_cells abc_mem, 0, 0)"
    using terminal_boot_abs by (simp add: term_abs_def)
  ultimately show ?thesis by simp
qed

text \<open>Printing a number. \<open>kernel_print_uint\<close> types a line of at most ten decimal digits that denote the number, the
  first of them not zero; for 0 that line is empty and follows a line with the single digit 0.\<close>

theorem kernel_print_uint_correct:
  assumes "term_ok t" and "length a = 13"
  shows "\<exists>ds. (\<forall>d \<in> set ds. 48 \<le> d \<and> d \<le> 57) \<and> decimal_value ds = unat n \<and> length ds \<le> 10 \<and>
    (n \<noteq> 0 \<longrightarrow> ds \<noteq> [] \<and> hd ds \<noteq> 48 \<and> term_abs (kernel_print_uint n a t) = type_line ds (term_abs t)) \<and>
    (n = 0 \<longrightarrow> kernel_print_uint n a t = print_line [] (print_line [48] t))"
proof (intro exI [of _ "rev (low_digits (unat n))"] conjI impI)
  let ?ds = "low_digits (unat n)"
  show "\<forall>d \<in> set (rev ?ds). 48 \<le> d \<and> d \<le> 57" using low_digits_digits by auto
  show "decimal_value (rev ?ds) = unat n" by (rule low_digits_value)
  have "unat n < 10 ^ 10" using less_trans [OF unat_u32_bound [of n], of "10 ^ 10"] by simp
  then show "length (rev ?ds) \<le> 10" using low_digits_length by simp
  assume "n \<noteq> 0"
  then have "unat n \<noteq> 0" by (simp add: unat_eq_zero)
  with low_digits_top [OF this] show "rev ?ds \<noteq> []" "hd (rev ?ds) \<noteq> 48" by (simp_all add: hd_rev)
  show "term_abs (kernel_print_uint n a t) = type_line (rev ?ds) (term_abs t)"
    using print_uint_result [OF assms(2), of n t] print_line_result [OF assms(1)] \<open>n \<noteq> 0\<close> by simp
next
  assume "n = 0"
  then show "kernel_print_uint n a t = print_line [] (print_line [48] t)"
    using print_uint_result [OF assms(2), of n t] by (simp add: low_digits.simps)
qed

lemma kernel_print_uint_correct_witness:
  "\<exists>ds. decimal_value ds = 1204 \<and> length ds \<le> 10 \<and>
    term_abs (kernel_print_uint 1204 (replicate 13 0) terminal_boot) = type_line ds (blank_cells, 0, 0)"
  using kernel_print_uint_correct [OF terminal_boot_ok, of "replicate 13 0" 1204] terminal_boot_abs by auto

text \<open>A byte is printed as its two hexadecimal digits and a space, so a dump types three characters per byte of
  the buffer.\<close>

theorem kernel_print_char_hex_correct:
  assumes "term_ok t"
  shows "term_abs (kernel_print_char_hex h t) =
      fold type_char [hex_digits ! (unat h div 16), hex_digits ! (unat h mod 16), 32] (term_abs t) \<and>
    unat h div 16 < length hex_digits \<and> unat h mod 16 < length hex_digits"
proof -
  have "unat h < 2 ^ LENGTH(8)" by (rule unsigned_less)
  then have "unat h < 256" by simp
  then have "unat h div 16 < 16" by simp
  then show ?thesis
    using print_bytes_result [OF assms] by (simp add: print_hex_result hex_digits_def)
qed

lemma kernel_print_char_hex_correct_witness:
  "term_abs (kernel_print_char_hex 0xA7 terminal_boot) = fold type_char [65, 55, 32] (blank_cells, 0, 0)"
  using kernel_print_char_hex_correct [OF terminal_boot_ok, of "0xA7"] terminal_boot_abs
  by (simp add: hex_digits_def)

text \<open>\<open>terminal_scroll\<close> never returns: its inner loop tests the variable of the outer one.\<close>

theorem terminal_scroll_diverges: "terminal_scroll = None"
  unfolding terminal_scroll_def
  by (subst terminal_scroll_from.simps) (simp add: scroll_row_diverges)

end
