(* ===== verification/Gdt.thy ===== *)
theory Gdt imports Memory
begin

text \<open>
  Segment descriptors, \<open>src/src/gdt/gdt.c\<close> and the table of \<open>src/src/kernel.c\<close>: the encoding of a
  structured entry into the eight bytes the processor reads, shown against the processor's
  reading of them. A call of \<open>panic\<close>, which prints and never returns, is the value \<open>Inl\<close> of its
  message.
\<close>

type_synonym 'a run = "string + 'a"

record gdt_structured =
  gdt_base :: u32
  gdt_limit :: u32
  gdt_type :: u8

section \<open>The operations\<close>

definition encodeGdtEntry :: "u32 \<Rightarrow> gdt_structured \<Rightarrow> mem \<Rightarrow> mem run" where
  "encodeGdtEntry target source m =
     (if 65536 < gdt_limit source \<and> gdt_limit source AND 0xFFF \<noteq> 0xFFF
      then Inl ''encodeGdtEntry: Invalid argument''
      else
        let m = m(target + 6 := 0x40);
            (limit, m) = (if 65536 < gdt_limit source
                          then (drop_bit 12 (gdt_limit source), m(target + 6 := 0xC0))
                          else (gdt_limit source, m));
            m = m(target := ucast (limit AND 0xFF));
            m = m(target + 1 := ucast (drop_bit 8 limit AND 0xFF));
            m = m(target + 6 := m (target + 6) OR ucast (drop_bit 16 limit AND 0x0F));
            m = m(target + 2 := ucast (gdt_base source AND 0xFF));
            m = m(target + 3 := ucast (drop_bit 8 (gdt_base source) AND 0xFF));
            m = m(target + 4 := ucast (drop_bit 16 (gdt_base source) AND 0xFF));
            m = m(target + 7 := ucast (drop_bit 24 (gdt_base source) AND 0xFF));
            m = m(target + 5 := gdt_type source)
        in Inr m)"

fun gdt_structured_to_gdt :: "u32 \<Rightarrow> gdt_structured list \<Rightarrow> mem \<Rightarrow> mem run" where
  "gdt_structured_to_gdt gdt [] m = Inr m"
| "gdt_structured_to_gdt gdt (e # es) m =
     (case encodeGdtEntry gdt e m of
        Inl msg \<Rightarrow> Inl msg
      | Inr m' \<Rightarrow> gdt_structured_to_gdt (gdt + 8) es m')"

text \<open>The table of \<open>kernel.c\<close>; the task state segment lies at \<open>tss\<close> and has 100 bytes.\<close>

definition kernel_gdt :: "u32 \<Rightarrow> gdt_structured list" where
  "kernel_gdt tss =
     [\<lparr>gdt_base = 0, gdt_limit = 0, gdt_type = 0\<rparr>,
      \<lparr>gdt_base = 0, gdt_limit = 0xffffffff, gdt_type = 0x9a\<rparr>,
      \<lparr>gdt_base = 0, gdt_limit = 0xffffffff, gdt_type = 0x92\<rparr>,
      \<lparr>gdt_base = 0, gdt_limit = 0xffffffff, gdt_type = 0xf8\<rparr>,
      \<lparr>gdt_base = 0, gdt_limit = 0xffffffff, gdt_type = 0xf2\<rparr>,
      \<lparr>gdt_base = tss, gdt_limit = 100, gdt_type = 0xE9\<rparr>]"

section \<open>What the processor reads\<close>

text \<open>
  The i386 reading of a descriptor: base and 20-bit limit are scattered over the bytes, and
  with the granularity bit the limit counts 4 KiB units, the last one included.
\<close>

definition descriptor_base :: "mem \<Rightarrow> u32 \<Rightarrow> u32" where
  "descriptor_base m a = ucast (m (a + 2)) OR push_bit 8 (ucast (m (a + 3)))
     OR push_bit 16 (ucast (m (a + 4))) OR push_bit 24 (ucast (m (a + 7)))"

definition descriptor_raw_limit :: "mem \<Rightarrow> u32 \<Rightarrow> u32" where
  "descriptor_raw_limit m a = ucast (m a) OR push_bit 8 (ucast (m (a + 1)))
     OR push_bit 16 (ucast (m (a + 6) AND 0x0F))"

definition descriptor_limit :: "mem \<Rightarrow> u32 \<Rightarrow> u32" where
  "descriptor_limit m a =
     (if bit (m (a + 6)) 7 then push_bit 12 (descriptor_raw_limit m a) OR 0xFFF
      else descriptor_raw_limit m a)"

definition describes :: "mem \<Rightarrow> u32 \<Rightarrow> gdt_structured \<Rightarrow> bool" where
  "describes m a e \<longleftrightarrow> descriptor_base m a = gdt_base e \<and> descriptor_limit m a = gdt_limit e \<and>
     m (a + 5) = gdt_type e \<and> bit (m (a + 6)) 6"

definition encodable :: "gdt_structured \<Rightarrow> bool" where
  "encodable e \<longleftrightarrow> gdt_limit e \<le> 65536 \<or> gdt_limit e AND 0xFFF = 0xFFF"

lemma int_mask_bits [simp]:
  "bit (15 :: int) i \<longleftrightarrow> i < 4" "bit (255 :: int) i \<longleftrightarrow> i < 8" "bit (4095 :: int) i \<longleftrightarrow> i < 12"
proof -
  have m: "bit (mask n :: int) i \<longleftrightarrow> i < n" for n by (simp add: bit_mask_iff)
  show "bit (15 :: int) i \<longleftrightarrow> i < 4" using m [of 4] by (simp add: mask_eq_exp_minus_1)
  show "bit (255 :: int) i \<longleftrightarrow> i < 8" using m [of 8] by (simp add: mask_eq_exp_minus_1)
  show "bit (4095 :: int) i \<longleftrightarrow> i < 12" using m [of 12] by (simp add: mask_eq_exp_minus_1)
qed

text \<open>The limit and base survive being cut into bytes.\<close>

lemma base_bytes: "(ucast (ucast (b AND 0xFF) :: u8) :: u32) OR push_bit 8 (ucast (ucast (drop_bit 8 b AND 0xFF) :: u8))
    OR push_bit 16 (ucast (ucast (drop_bit 16 b AND 0xFF) :: u8)) OR push_bit 24 (ucast (ucast (drop_bit 24 b AND 0xFF) :: u8)) = b"
proof (rule bit_word_eqI)
  fix n assume "n < LENGTH(32)"
  then consider "n < 8" | "8 \<le> n" "n < 16" | "16 \<le> n" "n < 24" | "24 \<le> n" "n < 32" by fastforce
  then show "bit ((ucast (ucast (b AND 0xFF) :: u8) :: u32) OR push_bit 8 (ucast (ucast (drop_bit 8 b AND 0xFF) :: u8))
    OR push_bit 16 (ucast (ucast (drop_bit 16 b AND 0xFF) :: u8))
    OR push_bit 24 (ucast (ucast (drop_bit 24 b AND 0xFF) :: u8))) n = bit b n"
    by cases (auto simp: bit_simps)
qed

lemma limit_bytes:
  assumes "l < 0x100000" and "x AND 0x0F = 0"
  shows "(ucast (ucast (l AND 0xFF) :: u8) :: u32) OR push_bit 8 (ucast (ucast (drop_bit 8 l AND 0xFF) :: u8))
    OR push_bit 16 (ucast ((x OR ucast (drop_bit 16 l AND 0x0F)) AND 0x0F :: u8)) = l"
proof (rule bit_word_eqI)
  have t: "take_bit 20 l = l"
    using assms(1) by (simp add: take_bit_eq_mod word_unat_eq_iff unat_mod word_less_nat_alt)
  have l: "\<not> bit l n" if "20 \<le> n" for n
    using that bit_take_bit_iff [of 20 l n] unfolding t by simp
  have x: "\<not> bit x n" if "n < 4" for n
  proof -
    have "\<not> bit (x AND 0x0F) n" by (simp add: assms(2))
    then show ?thesis using that by (simp add: bit_simps)
  qed
  fix n assume "n < LENGTH(32)"
  then consider "n < 8" | "8 \<le> n" "n < 16" | "16 \<le> n" "n < 20" | "20 \<le> n" "n < 32" by fastforce
  then show "bit ((ucast (ucast (l AND 0xFF) :: u8) :: u32) OR push_bit 8 (ucast (ucast (drop_bit 8 l AND 0xFF) :: u8))
    OR push_bit 16 (ucast ((x OR ucast (drop_bit 16 l AND 0x0F)) AND 0x0F :: u8))) n = bit l n"
    by cases (auto simp: bit_simps l x)
qed

lemma limit_shift: "65536 < l \<Longrightarrow> l AND 0xFFF = 0xFFF \<Longrightarrow> push_bit 12 (drop_bit 12 l) OR 0xFFF = l" for l :: u32
proof (rule bit_word_eqI)
  fix n assume l: "l AND 0xFFF = 0xFFF" and "n < LENGTH(32)"
  have "bit (l AND 0xFFF) n = bit (0xFFF :: u32) n" by (simp only: l)
  then have "n < 12 \<Longrightarrow> bit l n" using \<open>n < _\<close> by (simp add: bit_simps)
  with \<open>n < _\<close> show "bit (push_bit 12 (drop_bit 12 l) OR 0xFFF) n = bit l n"
    by (auto simp: bit_simps)
qed

lemma byte_addresses:
  "a + i = a + j \<longleftrightarrow> i = j" "a = a + j \<longleftrightarrow> j = 0" "a + i = a \<longleftrightarrow> i = 0" for a i j :: u32
  by auto

lemma encode_entry:
  fixes e :: gdt_structured
  defines "l \<equiv> (if 65536 < gdt_limit e then drop_bit 12 (gdt_limit e) else gdt_limit e)"
    and "f \<equiv> (if 65536 < gdt_limit e then 0xC0 else 0x40 :: u8)"
  assumes "encodable e"
  shows "\<exists>m'. encodeGdtEntry a e m = Inr m' \<and>
    m' a = ucast (l AND 0xFF) \<and> m' (a + 1) = ucast (drop_bit 8 l AND 0xFF) \<and>
    m' (a + 2) = ucast (gdt_base e AND 0xFF) \<and> m' (a + 3) = ucast (drop_bit 8 (gdt_base e) AND 0xFF) \<and>
    m' (a + 4) = ucast (drop_bit 16 (gdt_base e) AND 0xFF) \<and> m' (a + 5) = gdt_type e \<and>
    m' (a + 6) = f OR ucast (drop_bit 16 l AND 0x0F) \<and> m' (a + 7) = ucast (drop_bit 24 (gdt_base e) AND 0xFF) \<and>
    (\<forall>x. 8 \<le> x - a \<longrightarrow> m' x = m x)"
proof -
  have far: "x \<noteq> a \<and> x \<noteq> a + 1 \<and> x \<noteq> a + 2 \<and> x \<noteq> a + 3 \<and> x \<noteq> a + 4 \<and> x \<noteq> a + 5 \<and> x \<noteq> a + 6 \<and> x \<noteq> a + 7"
    if "8 \<le> x - a" for x
    using that by (auto simp: word_le_nat_alt)
  have "\<not> (65536 < gdt_limit e \<and> gdt_limit e AND 0xFFF \<noteq> 0xFFF)"
    using assms(3) by (auto simp: encodable_def)
  then show ?thesis
    using far by (auto simp: encodeGdtEntry_def Let_def byte_addresses l_def f_def)
qed

lemma encode_describes:
  assumes "encodable e"
  shows "\<exists>m'. encodeGdtEntry a e m = Inr m' \<and> describes m' a e \<and> (\<forall>x. 8 \<le> x - a \<longrightarrow> m' x = m x)"
proof -
  let ?big = "65536 < gdt_limit e"
  let ?l = "if ?big then drop_bit 12 (gdt_limit e) else gdt_limit e"
  let ?f = "if ?big then 0xC0 else 0x40 :: u8"
  obtain m' where m': "encodeGdtEntry a e m = Inr m'" "m' a = ucast (?l AND 0xFF)"
    "m' (a + 1) = ucast (drop_bit 8 ?l AND 0xFF)" "m' (a + 2) = ucast (gdt_base e AND 0xFF)"
    "m' (a + 3) = ucast (drop_bit 8 (gdt_base e) AND 0xFF)" "m' (a + 4) = ucast (drop_bit 16 (gdt_base e) AND 0xFF)"
    "m' (a + 5) = gdt_type e" "m' (a + 6) = ?f OR ucast (drop_bit 16 ?l AND 0x0F)"
    "m' (a + 7) = ucast (drop_bit 24 (gdt_base e) AND 0xFF)" "\<forall>x. 8 \<le> x - a \<longrightarrow> m' x = m x"
    using encode_entry [OF assms, of a m] by blast
  have "drop_bit 12 (gdt_limit e) < 0x100000"
    using unat_u32_bound [of "gdt_limit e"]
    by (simp add: drop_bit_eq_div word_less_nat_alt unat_div del: unat_u32_bound)
  then have small: "?l < 0x100000" by (auto simp: word_less_nat_alt)
  have "?f AND 0x0F = 0" by simp
  from limit_bytes [OF small this] have raw: "descriptor_raw_limit m' a = ?l"
    by (simp add: descriptor_raw_limit_def m'(2,3,8))
  have base: "descriptor_base m' a = gdt_base e"
    using base_bytes [of "gdt_base e"] by (simp add: descriptor_base_def m'(4,5,6,9))
  have g: "bit (m' (a + 6)) 7 \<longleftrightarrow> ?big" "bit (m' (a + 6)) 6"
    unfolding m'(8) by (auto simp: bit_simps)
  have "descriptor_limit m' a = gdt_limit e"
  proof (cases ?big)
    case True
    then have "gdt_limit e AND 0xFFF = 0xFFF" using assms by (auto simp: encodable_def)
    from limit_shift [OF True this] show ?thesis using True g(1) raw by (simp add: descriptor_limit_def)
  next
    case False
    then show ?thesis using g(1) raw by (simp add: descriptor_limit_def)
  qed
  with base g m'(1,7,10) show ?thesis by (auto simp: describes_def)
qed

lemma encode_refused: "\<not> encodable e \<Longrightarrow> encodeGdtEntry a e m = Inl ''encodeGdtEntry: Invalid argument''"
  by (auto simp: encodeGdtEntry_def encodable_def)

lemma describes_cong:
  "(\<And>i. i < 8 \<Longrightarrow> m' (a + i) = m (a + i)) \<Longrightarrow> describes m' a e = describes m a e"
proof -
  assume eq: "\<And>i. i < 8 \<Longrightarrow> m' (a + i) = m (a + i)"
  have "m' (a + i) = m (a + i)" if "i \<in> {0, 1, 2, 3, 4, 5, 6, 7}" for i
    using that by (intro eq) auto
  from this [of 0] this [of 1] this [of 2] this [of 3] this [of 4] this [of 5] this [of 6] this [of 7]
  show ?thesis by (simp add: describes_def descriptor_base_def descriptor_limit_def descriptor_raw_limit_def)
qed

lemma gdt_table:
  assumes "\<forall>e \<in> set es. encodable e" and "length es * 8 \<le> 4294967296"
  shows "\<exists>m'. gdt_structured_to_gdt g es m = Inr m' \<and>
    (\<forall>i < length es. describes m' (g + of_nat i * 8) (es ! i)) \<and>
    (\<forall>x. length es * 8 \<le> unat (x - g) \<longrightarrow> m' x = m x)"
  using assms
proof (induction es arbitrary: g m)
  case (Cons e es)
  obtain m1 where m1: "encodeGdtEntry g e m = Inr m1" "describes m1 g e" "\<forall>x. 8 \<le> x - g \<longrightarrow> m1 x = m x"
    using encode_describes [of e g m] Cons.prems(1) by auto
  obtain m' where m': "gdt_structured_to_gdt (g + 8) es m1 = Inr m'"
    "\<forall>i < length es. describes m' (g + 8 + of_nat i * 8) (es ! i)"
    "\<forall>x. length es * 8 \<le> unat (x - (g + 8)) \<longrightarrow> m' x = m1 x"
    using Cons.IH [of "g + 8" m1] Cons.prems by auto
  have far: "length es * 8 \<le> unat (x - (g + 8))" if "unat (x - g) < 8 \<or> length (e # es) * 8 \<le> unat (x - g)" for x
  proof (cases "8 \<le> x - g")
    case True
    have "x - (g + 8) = x - g - 8" by simp
    then have "unat (x - (g + 8)) = unat (x - g) - 8" using True by (simp only: unat_sub) simp
    then show ?thesis using that True by (auto simp: word_le_nat_alt)
  next
    case False
    define k where "k = x - g"
    have k: "unat k < 8" using False by (simp add: k_def word_le_nat_alt)
    have "x - (g + 8) = k - 8" by (simp add: k_def)
    moreover have "k - 8 = k + 0xFFFFFFF8" by simp
    moreover have "unat (k + 0xFFFFFFF8) = unat k + 0xFFFFFFF8" using k by (simp add: unat_word_ariths)
    ultimately have "unat (x - (g + 8)) = unat k + 0xFFFFFFF8" by metis
    then show ?thesis using Cons.prems(2) by simp
  qed
  have "describes m' g e"
  proof -
    have "m' (g + i) = m1 (g + i)" if "i < 8" for i
      using m'(3) far [of "g + i"] that by (simp add: word_less_nat_alt)
    then show ?thesis using m1(2) describes_cong by blast
  qed
  moreover have "describes m' (g + of_nat i * 8) ((e # es) ! i)" if "i < length (e # es)" "0 < i" for i
    using m'(2) that by (cases i) (auto simp: algebra_simps)
  ultimately have "\<forall>i < length (e # es). describes m' (g + of_nat i * 8) ((e # es) ! i)"
    by (metis gr0I mult_zero_left nth_Cons_0 of_nat_0 add.right_neutral)
  moreover have "m' x = m x" if "length (e # es) * 8 \<le> unat (x - g)" for x
    using that far [of x] m'(3) m1(3) by (simp add: word_le_nat_alt)
  ultimately show ?case using m1(1) m'(1) by auto
qed auto

section \<open>Correctness of the descriptor table\<close>

text \<open>C31: Encoding a segment descriptor. A limit the format cannot express (above 65536 and not ending in twelve ones) panics;
  otherwise the eight bytes written are read back by the processor as exactly the base, limit and
  type of the entry, and no other byte changes.\<close>

theorem encodeGdtEntry_correct:
  "if 65536 < gdt_limit e \<and> gdt_limit e AND 0xFFF \<noteq> 0xFFF
   then encodeGdtEntry a e m = Inl ''encodeGdtEntry: Invalid argument''
   else \<exists>m'. encodeGdtEntry a e m = Inr m' \<and> descriptor_base m' a = gdt_base e \<and>
     descriptor_limit m' a = gdt_limit e \<and> m' (a + 5) = gdt_type e \<and> (\<forall>x. 8 \<le> x - a \<longrightarrow> m' x = m x)"
  using encode_refused [of e a m] encode_describes [of e a m] by (auto simp: encodable_def describes_def not_less)

lemma encodeGdtEntry_correct_witness:
  "\<exists>m'. encodeGdtEntry 0x1000 \<lparr>gdt_base = 0x12345678, gdt_limit = 0x12fff, gdt_type = 0x92\<rparr> (\<lambda>_. 3) = Inr m' \<and>
    descriptor_base m' 0x1000 = 0x12345678 \<and> descriptor_limit m' 0x1000 = 0x12fff \<and> m' 0x2000 = 3"
proof -
  let ?e = "\<lparr>gdt_base = 0x12345678, gdt_limit = 0x12fff, gdt_type = 0x92\<rparr>"
  have "\<not> (65536 < gdt_limit ?e \<and> gdt_limit ?e AND 0xFFF \<noteq> 0xFFF)" by simp
  with encodeGdtEntry_correct [of ?e "0x1000" "\<lambda>_. 3"] obtain m' where
    "encodeGdtEntry 0x1000 ?e (\<lambda>_. 3) = Inr m'" "descriptor_base m' 0x1000 = gdt_base ?e"
    "descriptor_limit m' 0x1000 = gdt_limit ?e" "\<forall>x. 8 \<le> x - 0x1000 \<longrightarrow> m' x = 3"
    by (auto simp only: if_False)
  then show ?thesis by (intro exI [of _ m']) simp
qed

text \<open>C32: The kernel's segment table is accepted, and in memory its six descriptors are read back as the six entries of
  the table: a null descriptor, flat 4 GiB kernel and user segments and the task state segment.\<close>

theorem kernel_gdt_correct:
  "\<exists>m'. gdt_structured_to_gdt g (kernel_gdt tss) m = Inr m' \<and>
    (\<forall>i < 6. describes m' (g + of_nat i * 8) (kernel_gdt tss ! i)) \<and>
    (\<forall>x. 48 \<le> unat (x - g) \<longrightarrow> m' x = m x)"
proof -
  have len: "length (kernel_gdt tss) = 6" by (simp add: kernel_gdt_def)
  have "\<forall>e \<in> set (kernel_gdt tss). encodable e" by (auto simp: kernel_gdt_def encodable_def)
  from gdt_table [OF this, of g m] show ?thesis by (simp add: len)
qed

lemma kernel_gdt_correct_witness:
  "\<exists>m'. gdt_structured_to_gdt 0x1000 (kernel_gdt 0x5000) (\<lambda>_. 3) = Inr m' \<and>
    descriptor_base m' (0x1000 + of_nat 5 * 8) = 0x5000 \<and> m' 0x1100 = 3"
proof -
  obtain m' where m': "gdt_structured_to_gdt 0x1000 (kernel_gdt 0x5000) (\<lambda>_. 3) = Inr m'"
    "\<forall>i < 6. describes m' (0x1000 + of_nat i * 8) (kernel_gdt 0x5000 ! i)"
    "\<forall>x. 48 \<le> unat (x - 0x1000) \<longrightarrow> m' x = 3"
    using kernel_gdt_correct [of "0x1000" "0x5000" "\<lambda>_. 3"] by blast
  from m'(2) have "describes m' (0x1000 + of_nat 5 * 8) (kernel_gdt 0x5000 ! 5)" by (rule allE [of _ 5]) simp
  then have "descriptor_base m' (0x1000 + of_nat 5 * 8) = 0x5000" by (simp add: describes_def kernel_gdt_def)
  moreover have "m' 0x1100 = 3" using m'(3) by simp
  ultimately show ?thesis using m'(1) by blast
qed

end
