(* ===== verification/Idt.thy ===== *)
theory Idt imports Gdt
begin

text \<open>
  The interrupt descriptor table and the system-call table, \<open>src/src/idt/idt.c\<close>. Gates are
  written to memory and shown against the processor's reading of a gate; the addresses of the
  assembly entry points are arguments. The table of system calls is a list of 1024 optional
  commands, and dispatching to it is verified for any commands.
\<close>

abbreviation (input) TOTAL_INTERRUPTS :: u32 where "TOTAL_INTERRUPTS \<equiv> 512"
abbreviation (input) MAX_ISR80H_COMMANDS :: int where "MAX_ISR80H_COMMANDS \<equiv> 1024"
abbreviation (input) KERNEL_CODE_SELECTOR :: u16 where "KERNEL_CODE_SELECTOR \<equiv> 8"

section \<open>Gates\<close>

text \<open>\<open>struct idt_desc\<close> is packed: offsets 0, 2, 4, 5 and 6.\<close>

definition idt_set :: "u32 \<Rightarrow> u32 \<Rightarrow> u32 \<Rightarrow> mem \<Rightarrow> mem" where
  "idt_set idt_descriptors interrupt_no address m =
     (let desc = idt_descriptors + interrupt_no * 8;
          m = store16 m desc (ucast (address AND 0x0000ffff));
          m = store16 m (desc + 2) KERNEL_CODE_SELECTOR;
          m = m(desc + 4 := 0);
          m = m(desc + 5 := 0xEE);
          m = store16 m (desc + 6) (ucast (drop_bit 16 address))
      in m)"

text \<open>
  \<open>struct idtr_desc\<close>: the limit (16 bits) and the base that \<open>lidt\<close> loads. The four entry points
  are those of \<open>idt_zero\<close>, \<open>no_interrupt\<close>, \<open>isr80h_wrapper\<close> and \<open>isr_0x20_wrapper\<close>.
\<close>

record idtr_desc =
  idtr_limit :: u16
  idtr_base :: u32

definition idt_init :: "u32 \<Rightarrow> u32 \<Rightarrow> u32 \<Rightarrow> u32 \<Rightarrow> u32 \<Rightarrow> mem \<Rightarrow> idtr_desc \<times> mem" where
  "idt_init idt_descriptors idt_zero no_interrupt isr80h_wrapper isr_0x20_wrapper m =
     (let m = memset m idt_descriptors 0 (TOTAL_INTERRUPTS * 8);
          idtr = \<lparr>idtr_limit = ucast (TOTAL_INTERRUPTS * 8 - 1), idtr_base = idt_descriptors\<rparr>;
          m = for_u32 0 TOTAL_INTERRUPTS (\<lambda>i m. idt_set idt_descriptors i no_interrupt m) m;
          m = idt_set idt_descriptors 0 idt_zero m;
          m = idt_set idt_descriptors 0x80 isr80h_wrapper m;
          m = idt_set idt_descriptors 0x20 isr_0x20_wrapper m
      in (idtr, m))"

text \<open>The processor's reading of the gate at \<open>a\<close>.\<close>

definition gate_offset :: "mem \<Rightarrow> u32 \<Rightarrow> u32" where
  "gate_offset m a = ucast (load16 m a) OR push_bit 16 (ucast (load16 m (a + 6)))"

definition gate :: "mem \<Rightarrow> u32 \<Rightarrow> u32 \<times> u16 \<times> u8 \<times> u8" where
  "gate m a = (gate_offset m a, load16 m (a + 2), m (a + 4), m (a + 5))"

definition kernel_gate :: "u32 \<Rightarrow> u32 \<times> u16 \<times> u8 \<times> u8" where
  "kernel_gate address = (address, KERNEL_CODE_SELECTOR, 0, 0xEE)"

lemma offset_halves: "(ucast (ucast (a AND 0x0000ffff) :: u16) :: u32) OR push_bit 16 (ucast (ucast (drop_bit 16 a) :: u16)) = a"
proof (rule bit_word_eqI)
  have m: "bit (65535 :: int) n \<longleftrightarrow> n < 16" for n
  proof -
    have eq: "(65535 :: int) = mask 16" by (simp add: mask_eq_exp_minus_1)
    show ?thesis by (subst eq) (simp only: bit_mask_iff, simp)
  qed
  fix n assume "n < LENGTH(32)"
  then show "bit ((ucast (ucast (a AND 0x0000ffff) :: u16) :: u32) OR push_bit 16 (ucast (ucast (drop_bit 16 a) :: u16))) n = bit a n"
    by (cases "n < 16") (auto simp: bit_simps m)
qed

lemma gate_cong: "(\<And>i. i < 8 \<Longrightarrow> m' (a + i) = m (a + i)) \<Longrightarrow> gate m' a = gate m a"
proof -
  assume eq: "\<And>i. i < 8 \<Longrightarrow> m' (a + i) = m (a + i)"
  have "m' (a + i) = m (a + i)" if "i \<in> {0, 1, 2, 3, 4, 5, 6, 7}" for i
    using that by (intro eq) auto
  from this [of 0] this [of 1] this [of 2] this [of 3] this [of 4] this [of 5] this [of 6] this [of 7]
  show ?thesis by (simp add: gate_def gate_offset_def load16_def add.assoc)
qed

lemma halves: "(ucast (ucast (h :: u16) :: u8) :: u16) OR push_bit 8 (ucast (ucast (drop_bit 8 h) :: u8)) = h"
proof (rule bit_word_eqI)
  fix n assume "n < LENGTH(16)"
  then show "bit ((ucast (ucast h :: u8) :: u16) OR push_bit 8 (ucast (ucast (drop_bit 8 h) :: u8))) n = bit h n"
    by (cases "n < 8") (auto simp: bit_simps)
qed

lemma idt_set_bytes:
  fixes idt n :: u32
  defines "d \<equiv> idt + n * 8"
  shows "idt_set idt n address m d = ucast (ucast (address AND 0xffff) :: u16)"
    and "idt_set idt n address m (d + 1) = ucast (drop_bit 8 (ucast (address AND 0xffff) :: u16))"
    and "idt_set idt n address m (d + 2) = 8" and "idt_set idt n address m (d + 3) = 0"
    and "idt_set idt n address m (d + 4) = 0" and "idt_set idt n address m (d + 5) = 0xEE"
    and "idt_set idt n address m (d + 6) = ucast (ucast (drop_bit 16 address) :: u16)"
    and "idt_set idt n address m (d + 7) = ucast (drop_bit 8 (ucast (drop_bit 16 address) :: u16))"
    and "8 \<le> x - d \<Longrightarrow> idt_set idt n address m x = m x"
proof -
  have far: "x \<noteq> d \<and> x \<noteq> d + 1 \<and> x \<noteq> d + 2 \<and> x \<noteq> d + 3 \<and> x \<noteq> d + 4 \<and> x \<noteq> d + 5 \<and> x \<noteq> d + 6 \<and> x \<noteq> d + 7"
    if "8 \<le> x - d" for x
    using that by (auto simp: word_le_nat_alt)
  have eq: "idt_set idt n address m = m(d := ucast (ucast (address AND 0xffff) :: u16),
      d + 1 := ucast (drop_bit 8 (ucast (address AND 0xffff) :: u16)), d + 2 := 8, d + 3 := 0, d + 4 := 0, d + 5 := 0xEE,
      d + 6 := ucast (ucast (drop_bit 16 address) :: u16), d + 7 := ucast (drop_bit 8 (ucast (drop_bit 16 address) :: u16)))"
    by (simp add: idt_set_def store16_def Let_def d_def [symmetric], simp add: add.commute)
  show "idt_set idt n address m d = ucast (ucast (address AND 0xffff) :: u16)"
    "idt_set idt n address m (d + 1) = ucast (drop_bit 8 (ucast (address AND 0xffff) :: u16))"
    "idt_set idt n address m (d + 2) = 8" "idt_set idt n address m (d + 3) = 0"
    "idt_set idt n address m (d + 4) = 0" "idt_set idt n address m (d + 5) = 0xEE"
    "idt_set idt n address m (d + 6) = ucast (ucast (drop_bit 16 address) :: u16)"
    "idt_set idt n address m (d + 7) = ucast (drop_bit 8 (ucast (drop_bit 16 address) :: u16))"
    by (simp_all add: eq byte_addresses)
  show "8 \<le> x - d \<Longrightarrow> idt_set idt n address m x = m x" using far [of x] by (simp add: eq)
qed

lemma idt_set_gate: "gate (idt_set idt n address m) (idt + n * 8) = kernel_gate address"
proof -
  define d where "d = idt + n * 8"
  note b = idt_set_bytes [where idt = idt and n = n and address = address and m = m, folded d_def]
  have l0: "load16 (idt_set idt n address m) d = ucast (address AND 0xffff)"
    using halves [of "ucast (address AND 0xffff)"] by (simp add: load16_def b)
  have e: "d + 6 + 1 = d + 7" "d + 2 + 1 = d + 3" by simp_all
  have l6: "load16 (idt_set idt n address m) (d + 6) = ucast (drop_bit 16 address)"
    unfolding load16_def e b(7,8) by (rule halves)
  have l2: "load16 (idt_set idt n address m) (d + 2) = 8"
    unfolding load16_def e b(3,4) by simp
  have "gate (idt_set idt n address m) d = kernel_gate address"
    by (simp only: gate_def gate_offset_def kernel_gate_def l0 l2 l6 b(5,6) offset_halves)
  then show ?thesis by (simp add: d_def)
qed

lemma idt_set_other:
  assumes "i < 512" "n < 512" "i \<noteq> n"
  shows "gate (idt_set idt n address m) (idt + i * 8) = gate m (idt + i * 8)"
proof (rule gate_cong)
  fix k :: u32 assume k: "k < 8"
  show "idt_set idt n address m (idt + i * 8 + k) = m (idt + i * 8 + k)"
  proof (rule idt_set_bytes(9), rule ccontr)
    define j where "j = idt + i * 8 + k - (idt + n * 8)"
    assume "\<not> 8 \<le> idt + i * 8 + k - (idt + n * 8)"
    then have j: "unat j < 8" by (simp add: j_def word_le_nat_alt)
    have "i * 8 + k = n * 8 + j" by (simp add: j_def)
    then have "unat (i * 8 + k) = unat (n * 8 + j)" by simp
    then have "unat i * 8 + unat k = unat n * 8 + unat j"
      using assms k j by (simp add: unat_word_ariths word_less_nat_alt)
    with k j have "unat i = unat n" by (simp add: word_less_nat_alt)
    with assms(3) show False by (simp add: word_unat_eq_iff)
  qed
qed

lemma gate_table: "gate (for_u32 0 TOTAL_INTERRUPTS (\<lambda>i m. idt_set idt i a m) m) (idt + k * 8) = kernel_gate a"
  if "k < 512" for k :: u32
proof -
  let ?P = "\<lambda>j m. \<forall>k < j. gate m (idt + k * 8) = kernel_gate a"
  have "?P 512 (for_u32 0 TOTAL_INTERRUPTS (\<lambda>i m. idt_set idt i a m) m)"
  proof (rule for_u32_invariant [OF refl, where P = ?P])
    fix j and s assume j: "0 \<le> j" "j < TOTAL_INTERRUPTS" "?P j s"
    show "?P (j + 1) (idt_set idt j a s)"
    proof (intro allI impI)
      fix k assume "k < j + 1"
      then have "k < j \<or> k = j" using less_inc_iff [OF j(2)] by simp
      then show "gate (idt_set idt j a s) (idt + k * 8) = kernel_gate a"
        using j idt_set_gate idt_set_other [of k j] by (cases "k = j") auto
    qed
  qed auto
  then show ?thesis using that by blast
qed

section \<open>System calls\<close>

text \<open>
  A command takes the interrupt frame and the kernel state and gives a result word; an unset
  entry is the null pointer.
\<close>

type_synonym ('f, 's) isr80h_command = "'f \<Rightarrow> 's \<Rightarrow> (u32 \<times> 's) run"

definition isr80h_register_command ::
    "int \<Rightarrow> 'c \<Rightarrow> 'c option list \<Rightarrow> 'c option list run" where
  "isr80h_register_command command_id command isr80h_commands =
     (if command_id < 0 \<or> command_id \<ge> MAX_ISR80H_COMMANDS then Inl ''The command is out of bounds''
      else if isr80h_commands ! nat command_id \<noteq> None
      then Inl ''Your attempting to overwrite an existing command''
      else Inr (isr80h_commands[nat command_id := Some command]))"

definition isr80h_handle_command ::
    "('f, 's) isr80h_command option list \<Rightarrow> int \<Rightarrow> 'f \<Rightarrow> 's \<Rightarrow> (u32 \<times> 's) run" where
  "isr80h_handle_command isr80h_commands command frame s =
     (if command < 0 \<or> command \<ge> MAX_ISR80H_COMMANDS then Inr (0, s)
      else case isr80h_commands ! nat command of
          None \<Rightarrow> Inr (0, s)
        | Some command_func \<Rightarrow> command_func frame s)"

text \<open>\<open>isr80h.c\<close>: commands 0 and 4 (\<open>enum SystemCommands\<close>).\<close>

definition isr80h_register_commands :: "'c \<Rightarrow> 'c \<Rightarrow> 'c option list \<Rightarrow> 'c option list run" where
  "isr80h_register_commands command0_sum command4_sys_write t =
     (case isr80h_register_command 0 command0_sum t of
        Inl e \<Rightarrow> Inl e
      | Inr t \<Rightarrow> isr80h_register_command 4 command4_sys_write t)"

section \<open>Correctness of the tables\<close>

text \<open>C33: After \<open>idt_init\<close> the processor finds, for each of the 512 vectors, a ring-3 callable interrupt gate into the kernel code
  segment whose entry point is \<open>idt_zero\<close> for vector 0, the system-call wrapper for vector 0x80, the timer wrapper
  for vector 0x20 and the default stub for every other; the limit loaded is the table's last byte.\<close>

theorem idt_init_correct:
  assumes "i < 512" and "idt_init idt zero stub wrapper80 wrapper20 m = (r, m')"
  shows "gate m' (idt + i * 8) = kernel_gate
      (if i = 0 then zero else if i = 0x80 then wrapper80 else if i = 0x20 then wrapper20 else stub) \<and>
    idtr_base r = idt \<and> idtr_limit r = 4095"
proof -
  let ?m1 = "for_u32 0 TOTAL_INTERRUPTS (\<lambda>i m. idt_set idt i stub m) (memset m idt 0 4096)"
  have m': "m' = idt_set idt 0x20 wrapper20 (idt_set idt 0x80 wrapper80 (idt_set idt 0 zero ?m1))"
    and r: "r = \<lparr>idtr_limit = 4095, idtr_base = idt\<rparr>"
    using assms(2) by (simp_all add: idt_init_def Let_def)
  note table = gate_table [OF assms(1), of idt stub "memset m idt 0 4096"]
  note set_at = idt_set_gate [of idt] and other = idt_set_other [OF assms(1)]
  consider "i = 0x20" | "i = 0x80" | "i = 0" | "i \<noteq> 0" "i \<noteq> 0x80" "i \<noteq> 0x20" by blast
  then have "gate m' (idt + i * 8) = kernel_gate
      (if i = 0 then zero else if i = 0x80 then wrapper80 else if i = 0x20 then wrapper20 else stub)"
  proof cases
    case 1
    then show ?thesis using set_at [of "0x20"] by (simp add: m')
  next
    case 2
    then show ?thesis using other [of "0x20"] set_at [of "0x80"] by (simp add: m')
  next
    case 3
    then show ?thesis using other [of "0x20"] other [of "0x80"] set_at [of 0] by (simp add: m')
  next
    case 4
    then show ?thesis using other [of "0x20"] other [of "0x80"] other [of 0] table by (simp add: m')
  qed
  with r show ?thesis by simp
qed

lemma idt_init_correct_witness:
  "gate (snd (idt_init 0x10000 1 2 3 4 (\<lambda>_. 0))) (0x10000 + 0x80 * 8) = kernel_gate 3"
  using idt_init_correct [OF _ surjective_pairing, of "0x80" "0x10000" 1 2 3 4 "\<lambda>_. 0"] by simp

text \<open>System-call dispatch. Registering the two commands in an empty table succeeds; then command 0 and command 4 run
  their functions on the frame, every other command number, negative or beyond the table included,
  returns 0 and leaves the kernel's state alone, and registering outside the table or over an existing entry panics.\<close>

theorem isr80h_dispatch:
  "\<exists>t. isr80h_register_commands f0 f4 (replicate 1024 None) = Inr t \<and>
    (\<forall>c frame s. isr80h_handle_command t c frame s =
      (if c = 0 then f0 frame s else if c = 4 then f4 frame s else Inr (0, s))) \<and>
    (\<forall>c g. (\<exists>msg. isr80h_register_command c g t = Inl msg) \<longleftrightarrow> c < 0 \<or> 1024 \<le> c \<or> c = 0 \<or> c = 4)"
proof -
  let ?t = "(replicate 1024 None)[0 := Some f0, 4 := Some f4]"
  have nth: "?t ! nat c = (if c = 0 then Some f0 else if c = 4 then Some f4 else None)" if "0 \<le> c" "c < 1024" for c
    using that by (auto simp: nth_list_update nat_eq_iff)
  have "isr80h_register_commands f0 f4 (replicate 1024 None) = Inr ?t"
    by (simp add: isr80h_register_commands_def isr80h_register_command_def nth_list_update)
  then show ?thesis
    using nth by (intro exI [of _ ?t]) (auto simp: isr80h_handle_command_def isr80h_register_command_def)
qed

end
