(* ===== verification/Allocator.thy ===== *)
theory Allocator imports Prelude
begin

text \<open>
  The contract between the kernel's page allocators and their clients. A provider hands out
  non-null 4 KiB-aligned pages that nobody owns, answers 0 when none is left, and takes back
  a page that is owned. Clients (page-table construction, the heap, any sequence of
  allocations and releases) are verified against \<open>block_allocator\<close> once.
\<close>

definition page_aligned :: "u32 \<Rightarrow> bool" where
  "page_aligned a \<longleftrightarrow> a mod 4096 = 0"

text \<open>Allocating \<open>n\<close> pages one after the other.\<close>

fun alloc_many :: "('s \<Rightarrow> u32 \<times> 's) \<Rightarrow> nat \<Rightarrow> 's \<Rightarrow> u32 list \<times> 's" where
  "alloc_many alloc 0 s = ([], s)"
| "alloc_many alloc (Suc n) s =
     (let (p, s1) = alloc s; (ps, s2) = alloc_many alloc n s1 in (p # ps, s2))"

text \<open>
  The states a client can reach from \<open>s0\<close> by allocating, and by releasing pages it owns
  outside a protected set \<open>K\<close>.
\<close>

inductive alloc_reach ::
    "('s \<Rightarrow> u32 \<times> 's) \<Rightarrow> (u32 \<Rightarrow> 's \<Rightarrow> 's) \<Rightarrow> ('s \<Rightarrow> u32 set) \<Rightarrow> u32 set \<Rightarrow> 's \<Rightarrow> 's \<Rightarrow> bool"
  for alloc release owned K s0 where
  start: "alloc_reach alloc release owned K s0 s0"
| alloc: "alloc_reach alloc release owned K s0 s \<Longrightarrow> alloc_reach alloc release owned K s0 (snd (alloc s))"
| release: "alloc_reach alloc release owned K s0 s \<Longrightarrow> p \<in> owned s \<Longrightarrow> p \<notin> K \<Longrightarrow>
    alloc_reach alloc release owned K s0 (release p s)"

locale block_allocator =
  fixes alloc :: "'s \<Rightarrow> u32 \<times> 's"
    and release :: "u32 \<Rightarrow> 's \<Rightarrow> 's"
    and inv :: "'s \<Rightarrow> bool"
    and owned :: "'s \<Rightarrow> u32 set"
    and avail :: "'s \<Rightarrow> nat"
  assumes alloc_ok: "inv s \<Longrightarrow> 0 < avail s \<Longrightarrow>
      \<exists>p s'. alloc s = (p, s') \<and> p \<noteq> 0 \<and> page_aligned p \<and> p \<notin> owned s \<and>
        owned s' = insert p (owned s) \<and> inv s' \<and> avail s = Suc (avail s')"
    and alloc_fail: "inv s \<Longrightarrow> avail s = 0 \<Longrightarrow> alloc s = (0, s)"
    and release_ok: "inv s \<Longrightarrow> p \<in> owned s \<Longrightarrow> p \<noteq> 0 \<Longrightarrow>
      inv (release p s) \<and> owned (release p s) = owned s - {p} \<and> avail (release p s) = Suc (avail s)"
begin

lemma alloc_cases:
  assumes "inv s"
  obtains (some) p s' where "alloc s = (p, s')" "p \<noteq> 0" "page_aligned p" "p \<notin> owned s"
      "owned s' = insert p (owned s)" "inv s'" "avail s = Suc (avail s')"
  | (none) "alloc s = (0, s)" "avail s = 0"
  using alloc_ok [OF assms] alloc_fail [OF assms] by (cases "avail s = 0") auto

lemma alloc_inv: "inv s \<Longrightarrow> inv (snd (alloc s))"
  by (frule alloc_cases) auto

text \<open>While pages are left, a run of allocations returns distinct fresh pages.\<close>

lemma alloc_many_ok:
  "inv s \<Longrightarrow> n \<le> avail s \<Longrightarrow> alloc_many alloc n s = (ps, s') \<Longrightarrow>
    length ps = n \<and> distinct ps \<and> (\<forall>p \<in> set ps. p \<noteq> 0 \<and> page_aligned p \<and> p \<notin> owned s) \<and>
    owned s' = set ps \<union> owned s \<and> inv s' \<and> avail s = n + avail s'"
proof (induction n arbitrary: s ps)
  case (Suc n)
  from Suc.prems(1,2) alloc_ok [of s] obtain p s1 where
    p: "alloc s = (p, s1)" "p \<noteq> 0" "page_aligned p" "p \<notin> owned s"
      "owned s1 = insert p (owned s)" "inv s1" "avail s = Suc (avail s1)" by auto
  with Suc.prems(3) obtain qs where qs: "alloc_many alloc n s1 = (qs, s')" "ps = p # qs"
    by (auto split: prod.splits)
  from Suc.IH [OF p(6) _ qs(1)] p(7) Suc.prems(2) have
    "length qs = n \<and> distinct qs \<and> (\<forall>q \<in> set qs. q \<noteq> 0 \<and> page_aligned q \<and> q \<notin> owned s1) \<and>
     owned s' = set qs \<union> owned s1 \<and> inv s' \<and> avail s1 = n + avail s'" by auto
  then show ?case using p qs by auto
qed auto

text \<open>Releasing distinct owned pages gives all of them back.\<close>

lemma release_many_ok:
  "inv s \<Longrightarrow> distinct ps \<Longrightarrow> set ps \<subseteq> owned s \<Longrightarrow> 0 \<notin> set ps \<Longrightarrow>
    inv (fold release ps s) \<and> owned (fold release ps s) = owned s - set ps \<and>
    avail (fold release ps s) = length ps + avail s"
proof (induction ps arbitrary: s)
  case (Cons p ps)
  then have p: "inv (release p s)" "owned (release p s) = owned s - {p}"
      "avail (release p s) = Suc (avail s)"
    using release_ok [of s p] by auto
  from Cons.prems p have "set ps \<subseteq> owned (release p s)" "distinct ps" "0 \<notin> set ps" by auto
  from Cons.IH [OF p(1) this(2,1,3)] p show ?case by auto
qed auto

text \<open>Protected pages stay owned, and are never handed out, however the client behaves.\<close>

lemma reach_protects:
  assumes "alloc_reach alloc release owned K s0 s" and "inv s0" and "K \<subseteq> owned s0" and "0 \<in> K"
  shows "inv s \<and> K \<subseteq> owned s"
  using assms
proof (induction rule: alloc_reach.induct)
  case (alloc s)
  then have "inv s" "K \<subseteq> owned s" by auto
  from this(1) show ?case by (cases rule: alloc_cases) (use \<open>K \<subseteq> owned s\<close> \<open>inv s\<close> in auto)
next
  case (release s p)
  then have "inv s" "K \<subseteq> owned s" "p \<noteq> 0" by auto
  with release release_ok [of s p] show ?case by auto
qed auto

lemma reach_alloc_fresh:
  assumes "alloc_reach alloc release owned K s0 s" and "inv s0" and "K \<subseteq> owned s0" and "0 \<in> K"
    and "alloc s = (p, s')" and "p \<noteq> 0"
  shows "p \<notin> owned s \<and> p \<notin> K \<and> page_aligned p"
proof -
  from reach_protects [OF assms(1-4)] have s: "inv s" "K \<subseteq> owned s" by auto
  from this(1) show ?thesis by (cases rule: alloc_cases) (use assms(5,6) s in auto)
qed

end

end
