(* ===== verification/Pmm.thy ===== *)
theory Pmm imports Allocator
begin

text \<open>
  The physical memory manager, \<open>src/src/memory/pmm/pmm.c\<close>: a bitmap with one bit per 4 KiB
  block and three counters. The record holds the four globals of the file; the bitmap is the
  array \<open>pmm_memory_map\<close> indexed by word (\<open>pmm_bitmap_bounds\<close> shows that no operation on a
  well-formed state leaves its 32768 words).

  \<open>pmm_inv\<close> is the invariant of the component, \<open>alloc_set\<close> its abstraction: the set of blocks
  in use. \<open>block_allocator\<close> is the interface the heap and the page tables use.
\<close>

abbreviation (input) PMM_BLOCK_SIZE :: u32 where "PMM_BLOCK_SIZE \<equiv> 4096"
abbreviation (input) PMM_MAX_BLOCKS :: u32 where "PMM_MAX_BLOCKS \<equiv> 32768"

record pmm =
  pmm_memory_map :: "u32 \<Rightarrow> u32"
  pmm_used_blocks :: u32
  pmm_free_blocks :: u32
  pmm_system_memory_size :: u32

section \<open>The operations\<close>

definition pmm_memory_map_set :: "u32 \<Rightarrow> pmm \<Rightarrow> pmm" where
  "pmm_memory_map_set b s =
     (if b = 0 then
        s\<lparr>pmm_memory_map := (pmm_memory_map s)(0 := pmm_memory_map s 0 OR push_bit 0 1)\<rparr>
      else
        s\<lparr>pmm_memory_map := (pmm_memory_map s)
            (b div 32 := pmm_memory_map s (b div 32) OR push_bit (unat (b mod 32)) 1)\<rparr>)"

definition pmm_memory_map_unset :: "u32 \<Rightarrow> pmm \<Rightarrow> pmm" where
  "pmm_memory_map_unset b s =
     (if b = 0 then
        s\<lparr>pmm_memory_map := (pmm_memory_map s)(0 := pmm_memory_map s 0 AND NOT (push_bit 0 1))\<rparr>
      else
        s\<lparr>pmm_memory_map := (pmm_memory_map s)
            (b div 32 := pmm_memory_map s (b div 32) AND NOT (push_bit (unat (b mod 32)) 1))\<rparr>)"

definition pmm_memory_map_test :: "u32 \<Rightarrow> pmm \<Rightarrow> u8" where
  "pmm_memory_map_test b s =
     (if b = 0 then
        (if pmm_memory_map s 0 AND push_bit 0 1 \<noteq> 0 then 1 else 0)
      else
        (if pmm_memory_map s (b div 32) AND push_bit (unat (b mod 32)) 1 \<noteq> 0 then 1 else 0))"

definition pmm_get_block_count :: "pmm \<Rightarrow> u32" where
  "pmm_get_block_count s = pmm_system_memory_size s"

definition pmm_get_free_block_count :: "pmm \<Rightarrow> u32" where
  "pmm_get_free_block_count s = pmm_free_blocks s"

text \<open>The C \<open>int\<close> result is kept as a 32-bit word: \<open>-1\<close> when every block is in use.\<close>

definition pmm_get_first_free_block :: "pmm \<Rightarrow> u32" where
  "pmm_get_first_free_block s =
     (case find_u32 0 (pmm_get_block_count s) (\<lambda>i. pmm_memory_map_test i s = 0) of
        Some i \<Rightarrow> i
      | None \<Rightarrow> -1)"

definition pmm_allocate_block :: "pmm \<Rightarrow> u32 \<times> pmm" where
  "pmm_allocate_block s =
     (if pmm_free_blocks s \<le> 0 then (0, s)
      else
        let frame = pmm_get_first_free_block s in
        if frame \<le>s 0 then (0, s)
        else
          let s = pmm_memory_map_set frame s;
              s = s\<lparr>pmm_free_blocks := pmm_free_blocks s - 1\<rparr>;
              s = s\<lparr>pmm_used_blocks := pmm_used_blocks s + 1\<rparr>
          in (frame * PMM_BLOCK_SIZE, s))"

definition pmm_free_block :: "u32 \<Rightarrow> pmm \<Rightarrow> pmm" where
  "pmm_free_block ptr s =
     (let s = s\<lparr>pmm_free_blocks := pmm_free_blocks s + 1\<rparr>;
          s = s\<lparr>pmm_used_blocks := pmm_used_blocks s - 1\<rparr>
      in pmm_memory_map_unset (ptr div PMM_BLOCK_SIZE) s)"

definition pmm_init :: "u32 \<Rightarrow> u32 \<Rightarrow> pmm \<Rightarrow> pmm" where
  "pmm_init system_memory_size memory_reserved_for_kernel s =
     (let s = for_u32 0 PMM_MAX_BLOCKS pmm_memory_map_unset s;
          s = s\<lparr>pmm_system_memory_size := system_memory_size\<rparr>;
          s = s\<lparr>pmm_used_blocks := memory_reserved_for_kernel\<rparr>;
          s = s\<lparr>pmm_free_blocks := system_memory_size - pmm_used_blocks s\<rparr>
      in for_u32 0 memory_reserved_for_kernel pmm_memory_map_set s)"

definition pmm_check_range :: "u32 \<Rightarrow> u32 \<Rightarrow> pmm \<Rightarrow> u32" where
  "pmm_check_range start end_block s =
     (case find_u32 start end_block (\<lambda>i. pmm_memory_map_test i s = 1) of Some _ \<Rightarrow> 1 | None \<Rightarrow> 0)"

function pmm_first_n_loop :: "pmm \<Rightarrow> u32 \<Rightarrow> u32 \<Rightarrow> u32" where
  "pmm_first_n_loop s start_block end_block =
     (if end_block < pmm_system_memory_size s then
        (if pmm_check_range start_block end_block s = 0 then start_block
         else pmm_first_n_loop s (start_block + 1) (end_block + 1))
      else 0)"
  by pat_completeness auto
termination
  by (relation "measure (\<lambda>(s, b, e). unat (pmm_system_memory_size s) - unat e)")
     (auto simp: unat_inc_less word_less_nat_alt)

declare pmm_first_n_loop.simps [simp del]

definition pmm_get_first_n_blocks :: "u32 \<Rightarrow> pmm \<Rightarrow> u32" where
  "pmm_get_first_n_blocks n s = pmm_first_n_loop s 1 (1 + n)"

definition pmm_allocate_first_n_blocks :: "u32 \<Rightarrow> pmm \<Rightarrow> u32 \<times> pmm" where
  "pmm_allocate_first_n_blocks n s =
     (let start_block = pmm_get_first_n_blocks n s;
          s = for_u32 start_block (start_block + n) pmm_memory_map_set s
      in if start_block \<le> 0 then (0, s)
         else
           let s = s\<lparr>pmm_used_blocks := pmm_used_blocks s + n\<rparr>;
               s = s\<lparr>pmm_free_blocks := pmm_free_blocks s - n\<rparr>
           in (start_block * PMM_BLOCK_SIZE, s))"

section \<open>The bitmap as a set of blocks\<close>

definition allocated :: "pmm \<Rightarrow> u32 \<Rightarrow> bool" where
  "allocated s b \<longleftrightarrow> bit (pmm_memory_map s (b div 32)) (unat (b mod 32))"

lemma block_index_inject: "b div 32 = c div 32 \<Longrightarrow> b mod 32 = c mod 32 \<Longrightarrow> b = c" for b c :: u32
  by (metis div_mult_mod_eq)

lemma unat_mod_32: "unat (b mod 32) < 32" for b :: u32
  by (simp add: unat_mod)

text \<open>The special case for block 0 does what the general case would.\<close>

lemma set_general: "pmm_memory_map_set b s = s\<lparr>pmm_memory_map := (pmm_memory_map s)
    (b div 32 := pmm_memory_map s (b div 32) OR push_bit (unat (b mod 32)) 1)\<rparr>"
  by (simp add: pmm_memory_map_set_def)

lemma unset_general: "pmm_memory_map_unset b s = s\<lparr>pmm_memory_map := (pmm_memory_map s)
    (b div 32 := pmm_memory_map s (b div 32) AND NOT (push_bit (unat (b mod 32)) 1))\<rparr>"
  by (simp add: pmm_memory_map_unset_def)

lemma bit_set_word: "i < 32 \<Longrightarrow> bit (w OR 2 ^ k) i \<longleftrightarrow> bit w i \<or> i = k" for w :: u32
  by (auto simp: bit_simps)

lemma bit_clear_word: "i < 32 \<Longrightarrow> bit (w AND NOT (2 ^ k)) i \<longleftrightarrow> bit w i \<and> i \<noteq> k" for w :: u32
  by (auto simp: bit_simps)

lemma block_eq_iff: "b = c \<longleftrightarrow> b div 32 = c div 32 \<and> unat (b mod 32) = unat (c mod 32)" for b c :: u32
  using block_index_inject [of b c] by (auto intro: unsigned_word_eqI)

lemma allocated_set [simp]: "allocated (pmm_memory_map_set b s) c \<longleftrightarrow> c = b \<or> allocated s c"
  using unat_mod_32 [of c]
  by (auto simp: allocated_def set_general bit_set_word block_eq_iff [of c b])

lemma allocated_unset [simp]: "allocated (pmm_memory_map_unset b s) c \<longleftrightarrow> c \<noteq> b \<and> allocated s c"
  using unat_mod_32 [of c]
  by (auto simp: allocated_def unset_general bit_clear_word block_eq_iff [of c b])

lemma test_allocated: "pmm_memory_map_test b s = (if allocated s b then 1 else 0)"
proof -
  have "w AND push_bit n 1 \<noteq> 0 \<longleftrightarrow> bit w n" if "n < 32" for w :: u32 and n
  proof -
    have "bit (w AND push_bit n 1) i \<longleftrightarrow> i = n \<and> bit w n" for i
      using that by (auto simp: bit_simps)
    then show ?thesis using that by (auto simp: bit_eq_iff [of _ 0])
  qed
  from this [of "unat (b mod 32)"] this [of 0]
  show ?thesis using unat_mod_32 [of b] by (auto simp: pmm_memory_map_test_def allocated_def)
qed

lemma set_fields [simp]:
  "pmm_used_blocks (pmm_memory_map_set b s) = pmm_used_blocks s"
  "pmm_free_blocks (pmm_memory_map_set b s) = pmm_free_blocks s"
  "pmm_system_memory_size (pmm_memory_map_set b s) = pmm_system_memory_size s"
  by (simp_all add: pmm_memory_map_set_def)

lemma unset_fields [simp]:
  "pmm_used_blocks (pmm_memory_map_unset b s) = pmm_used_blocks s"
  "pmm_free_blocks (pmm_memory_map_unset b s) = pmm_free_blocks s"
  "pmm_system_memory_size (pmm_memory_map_unset b s) = pmm_system_memory_size s"
  by (simp_all add: pmm_memory_map_unset_def)

lemma allocated_counters [simp]:
  "allocated (s\<lparr>pmm_used_blocks := u\<rparr>) = allocated s"
  "allocated (s\<lparr>pmm_free_blocks := u\<rparr>) = allocated s"
  "allocated (s\<lparr>pmm_system_memory_size := u\<rparr>) = allocated s"
  by (simp_all add: allocated_def fun_eq_iff)

section \<open>Abstraction and invariant\<close>

definition alloc_set :: "pmm \<Rightarrow> u32 set" where
  "alloc_set s = {b. b < pmm_system_memory_size s \<and> allocated s b}"

text \<open>
  The bitmap covers the configured memory, the two counters count it exactly, and block 0,
  which holds the interrupt vectors and doubles as the null pointer, is in use.
\<close>

definition pmm_inv :: "pmm \<Rightarrow> bool" where
  "pmm_inv s \<longleftrightarrow>
     pmm_system_memory_size s \<le> 0x100000 \<and> allocated s 0 \<and>
     unat (pmm_used_blocks s) = card (alloc_set s) \<and>
     unat (pmm_used_blocks s) + unat (pmm_free_blocks s) = unat (pmm_system_memory_size s)"

lemma card_less_u32: "card {b :: u32. b < n} = unat n"
proof -
  have "k \<in> unat ` {b. b < n}" if "k < unat n" for k
  proof
    have "k < 4294967296" using that unat_u32_bound [of n] by linarith
    then show "k = unat (of_nat k :: u32)" by (simp add: unat_of_nat_u32)
    with that show "of_nat k \<in> {b. b < n}" by (simp add: word_less_nat_alt)
  qed
  then have "unat ` {b. b < n} = {..<unat n}"
    by (auto simp: word_less_nat_alt)
  moreover have "inj_on unat {b :: u32. b < n}"
    by (rule inj_onI) (rule unsigned_word_eqI)
  ultimately show ?thesis by (metis card_image card_lessThan)
qed

lemma alloc_set_subset: "alloc_set s \<subseteq> {b. b < pmm_system_memory_size s}"
  by (auto simp: alloc_set_def)

text \<open>A positive free counter means that some block of the system is not in use.\<close>

lemma free_block_exists:
  assumes "pmm_inv s" and "0 < pmm_free_blocks s"
  shows "\<exists>b < pmm_system_memory_size s. \<not> allocated s b"
proof (rule ccontr)
  assume "\<not> ?thesis"
  then have "alloc_set s = {b. b < pmm_system_memory_size s}"
    by (auto simp: alloc_set_def)
  then have "unat (pmm_used_blocks s) = unat (pmm_system_memory_size s)"
    using assms(1) by (simp add: pmm_inv_def card_less_u32)
  with assms show False by (simp add: pmm_inv_def word_less_nat_alt)
qed

lemma no_free_block:
  assumes "pmm_inv s" and "pmm_free_blocks s = 0" and "b < pmm_system_memory_size s"
  shows "allocated s b"
proof -
  have "card (alloc_set s) = card {b. b < pmm_system_memory_size s}"
    using assms by (simp add: pmm_inv_def card_less_u32)
  then have "alloc_set s = {b. b < pmm_system_memory_size s}"
    by (intro card_subset_eq alloc_set_subset) simp_all
  with assms(3) show ?thesis by (auto simp: alloc_set_def)
qed

section \<open>Single blocks\<close>

definition is_first_free :: "pmm \<Rightarrow> u32 \<Rightarrow> bool" where
  "is_first_free s b \<longleftrightarrow> b < pmm_system_memory_size s \<and> \<not> allocated s b \<and> (\<forall>c < b. allocated s c)"

lemma first_free_block:
  assumes "is_first_free s b"
  shows "pmm_get_first_free_block s = b"
proof -
  have "find_u32 0 (pmm_get_block_count s) (\<lambda>i. pmm_memory_map_test i s = 0) = Some b"
    using assms
    by (auto simp: find_u32_eq_Some_iff is_first_free_def pmm_get_block_count_def test_allocated)
  then show ?thesis by (simp add: pmm_get_first_free_block_def)
qed

lemma first_free_exists:
  assumes "pmm_inv s" and "0 < pmm_free_blocks s"
  shows "\<exists>b. is_first_free s b"
proof -
  let ?f = "find_u32 0 (pmm_system_memory_size s) (\<lambda>i. \<not> allocated s i)"
  have "?f \<noteq> None"
    using free_block_exists [OF assms] by (auto simp: find_u32_eq_None_iff)
  then obtain b where "?f = Some b" by blast
  from find_u32_Some [OF this] have "is_first_free s b" by (auto simp: is_first_free_def)
  then show ?thesis ..
qed

definition take_block :: "u32 \<Rightarrow> pmm \<Rightarrow> pmm" where
  "take_block b s = (pmm_memory_map_set b s)
     \<lparr>pmm_free_blocks := pmm_free_blocks s - 1, pmm_used_blocks := pmm_used_blocks s + 1\<rparr>"

lemma take_block_simps [simp]:
  "allocated (take_block b s) c \<longleftrightarrow> c = b \<or> allocated s c"
  "pmm_used_blocks (take_block b s) = pmm_used_blocks s + 1"
  "pmm_free_blocks (take_block b s) = pmm_free_blocks s - 1"
  "pmm_system_memory_size (take_block b s) = pmm_system_memory_size s"
  by (simp_all add: take_block_def)

lemma allocate_block_success:
  assumes "pmm_inv s" and "0 < pmm_free_blocks s" and b: "is_first_free s b"
  shows "pmm_allocate_block s = (b * PMM_BLOCK_SIZE, take_block b s)"
proof -
  have "b \<noteq> 0" using assms by (auto simp: pmm_inv_def is_first_free_def)
  moreover have "b < 0x100000" using assms by (auto simp: pmm_inv_def is_first_free_def)
  ultimately have "\<not> b \<le>s 0" by (auto simp: sle0_iff_u32 word_less_nat_alt word_le_nat_alt)
  then show ?thesis
    using assms(2) by (auto simp: pmm_allocate_block_def first_free_block [OF b] take_block_def)
qed

lemma allocate_block_failure:
  "pmm_free_blocks s = 0 \<Longrightarrow> pmm_allocate_block s = (0, s)"
  by (simp add: pmm_allocate_block_def)

lemma alloc_set_take: "b < pmm_system_memory_size s \<Longrightarrow> alloc_set (take_block b s) = insert b (alloc_set s)"
  by (auto simp: alloc_set_def)

lemma finite_alloc_set [simp]: "finite (alloc_set s)"
  by simp

lemma take_block_inv:
  assumes "pmm_inv s" and "0 < pmm_free_blocks s" and "b < pmm_system_memory_size s"
    and "\<not> allocated s b"
  shows "pmm_inv (take_block b s)"
proof -
  have "b \<notin> alloc_set s" using assms(4) by (simp add: alloc_set_def)
  then have "card (alloc_set (take_block b s)) = Suc (card (alloc_set s))"
    by (simp add: alloc_set_take [OF assms(3)])
  moreover have "unat (pmm_used_blocks s + 1) = Suc (unat (pmm_used_blocks s))"
    by (rule unat_inc_less [of _ "0x100001"])
       (use assms(1) in \<open>auto simp: pmm_inv_def word_less_nat_alt word_le_nat_alt\<close>)
  moreover have "unat (pmm_free_blocks s - 1) = unat (pmm_free_blocks s) - 1"
    using assms(2) by (simp add: unat_minus_one word_neq_0_conv)
  moreover have "allocated (take_block b s) 0"
    using assms(1) by (simp add: pmm_inv_def)
  ultimately show ?thesis
    using assms(1,2) by (auto simp: pmm_inv_def word_less_nat_alt)
qed

text \<open>Blocks and their addresses.\<close>

lemma unat_block_address: "b < 0x100000 \<Longrightarrow> unat (b * PMM_BLOCK_SIZE) = unat b * 4096" for b :: u32
  by (simp add: word_less_nat_alt unat_word_ariths)

lemma block_of_address [simp]: "b < 0x100000 \<Longrightarrow> b * PMM_BLOCK_SIZE div PMM_BLOCK_SIZE = b" for b :: u32
  by (simp add: word_unat_eq_iff unat_div unat_block_address)

lemma unset_set: "\<not> allocated s b \<Longrightarrow> pmm_memory_map_unset b (pmm_memory_map_set b s) = s"
proof -
  assume "\<not> allocated s b"
  then have "(pmm_memory_map s (b div 32) OR 2 ^ unat (b mod 32)) AND NOT (2 ^ unat (b mod 32))
      = pmm_memory_map s (b div 32)"
    by (intro bit_word_eqI) (auto simp: allocated_def bit_simps)
  then show ?thesis by (simp add: set_general unset_general)
qed

lemma free_take_block:
  "\<not> allocated s b \<Longrightarrow> b < 0x100000 \<Longrightarrow> pmm_free_block (b * PMM_BLOCK_SIZE) (take_block b s) = s"
  using unset_set [of s b]
  by (simp add: pmm_free_block_def take_block_def set_general unset_general)

lemma free_block_alloc_set:
  "b < 0x100000 \<Longrightarrow> alloc_set (pmm_free_block (b * PMM_BLOCK_SIZE) s) = alloc_set s - {b}"
  by (auto simp: alloc_set_def pmm_free_block_def Let_def)

lemma free_block_inv:
  assumes "pmm_inv s" and b: "b \<in> alloc_set s" and "b \<noteq> 0"
  shows "pmm_inv (pmm_free_block (b * PMM_BLOCK_SIZE) s)"
proof -
  have lt: "b < 0x100000" using assms(1) b by (auto simp: pmm_inv_def alloc_set_def)
  have pos: "0 < card (alloc_set s)" using b by (auto simp: card_gt_0_iff)
  have "card (alloc_set (pmm_free_block (b * PMM_BLOCK_SIZE) s)) = card (alloc_set s) - 1"
    using b by (simp add: free_block_alloc_set [OF lt])
  moreover have "unat (pmm_free_blocks s + 1) = Suc (unat (pmm_free_blocks s))"
    by (rule unat_inc_less [of _ "0x100000"])
       (use assms(1) pos in \<open>auto simp: pmm_inv_def word_less_nat_alt word_le_nat_alt\<close>)
  moreover have "unat (pmm_used_blocks s - 1) = unat (pmm_used_blocks s) - 1"
    using pos assms(1) by (intro unat_minus_one) (auto simp: pmm_inv_def)
  ultimately show ?thesis
    using assms(1,3) pos lt by (auto simp: pmm_inv_def pmm_free_block_def Let_def)
qed

section \<open>Runs of blocks\<close>

lemma allocated_mark_range:
  "allocated (for_u32 a e pmm_memory_map_set s) c \<longleftrightarrow> (a \<le> c \<and> c < e) \<or> allocated s c"
proof (cases "a \<le> e")
  case True
  let ?P = "\<lambda>j t. \<forall>c. allocated t c \<longleftrightarrow> (a \<le> c \<and> c < j) \<or> allocated s c"
  have "?P e (for_u32 a e pmm_memory_map_set s)"
    by (rule for_u32_invariant [OF refl True, where P = ?P]) (auto simp: less_inc_iff)
  then show ?thesis by blast
next
  case False
  then show ?thesis by auto
qed

lemma mark_range_fields [simp]:
  "pmm_used_blocks (for_u32 a e pmm_memory_map_set s) = pmm_used_blocks s"
  "pmm_free_blocks (for_u32 a e pmm_memory_map_set s) = pmm_free_blocks s"
  "pmm_system_memory_size (for_u32 a e pmm_memory_map_set s) = pmm_system_memory_size s"
proof -
  let ?P = "\<lambda>_ t. pmm_used_blocks t = pmm_used_blocks s \<and> pmm_free_blocks t = pmm_free_blocks s \<and>
    pmm_system_memory_size t = pmm_system_memory_size s"
  have "?P e (for_u32 a e pmm_memory_map_set s)"
  proof (cases "a \<le> e")
    case True
    show ?thesis by (rule for_u32_invariant [OF refl True, where P = ?P]) auto
  qed auto
  then show "pmm_used_blocks (for_u32 a e pmm_memory_map_set s) = pmm_used_blocks s"
    "pmm_free_blocks (for_u32 a e pmm_memory_map_set s) = pmm_free_blocks s"
    "pmm_system_memory_size (for_u32 a e pmm_memory_map_set s) = pmm_system_memory_size s"
    by auto
qed

text \<open>
  A run the search accepts: it starts after block 0, all its blocks are free, and it ends
  strictly before the last block of the system (the C loop compares the end with \<open><\<close>).
\<close>

definition is_free_run :: "pmm \<Rightarrow> u32 \<Rightarrow> u32 \<Rightarrow> bool" where
  "is_free_run s n k \<longleftrightarrow> 0 < k \<and> unat k + unat n < unat (pmm_system_memory_size s) \<and>
     (\<forall>i. k \<le> i \<and> i < k + n \<longrightarrow> \<not> allocated s i)"

lemma check_range_free: "pmm_check_range a e s = 0 \<longleftrightarrow> (\<forall>i. a \<le> i \<and> i < e \<longrightarrow> \<not> allocated s i)"
  by (auto simp: pmm_check_range_def test_allocated find_u32_eq_None_iff find_u32_eq_Some_iff
      split: option.splits)

lemma first_n_loop_spec:
  assumes "unat e = unat b + unat n" and "0 < b" and "pmm_first_n_loop s b e = k"
  shows "(k = 0 \<longrightarrow> (\<forall>j \<ge> b. \<not> is_free_run s n j)) \<and>
         (k \<noteq> 0 \<longrightarrow> b \<le> k \<and> is_free_run s n k \<and> (\<forall>j. b \<le> j \<and> j < k \<longrightarrow> \<not> is_free_run s n j))"
  using assms
proof (induction s b e rule: pmm_first_n_loop.induct)
  case (1 s b e)
  have e: "e = b + n" using "1.prems"(1) unat_u32_bound [of e]
    by (simp add: word_unat_eq_iff unat_word_ariths del: unat_u32_bound)
  show ?case
  proof (cases "e < pmm_system_memory_size s")
    case True
    show ?thesis
    proof (cases "pmm_check_range b e s = 0")
      case free: True
      then have "k = b" using True "1.prems"(3) by (simp add: pmm_first_n_loop.simps [of s b])
      moreover have "is_free_run s n b"
        using free True "1.prems"(1,2) by (simp add: is_free_run_def check_range_free e word_less_nat_alt)
      ultimately show ?thesis using "1.prems"(2) by auto
    next
      case busy: False
      then have k: "pmm_first_n_loop s (b + 1) (e + 1) = k"
        using True "1.prems"(3) by (simp add: pmm_first_n_loop.simps [of s b])
      have b1: "unat (b + 1) = Suc (unat b)"
        using True "1.prems"(1) by (intro unat_inc_less [of _ "pmm_system_memory_size s"])
          (simp add: word_less_nat_alt)
      have "\<not> is_free_run s n b" using busy by (auto simp: is_free_run_def check_range_free e)
      moreover have "b + 1 \<le> j \<longleftrightarrow> b \<le> j \<and> j \<noteq> b" for j
        using b1 by (auto simp: word_le_nat_alt word_unat_eq_iff)
      moreover have "unat (e + 1) = unat (b + 1) + unat n"
        using "1.prems"(1) b1 by (simp add: unat_inc_less [OF True])
      moreover have "0 < b + 1" using b1 by (simp add: word_less_nat_alt)
      ultimately show ?thesis using "1.IH" [OF True busy _ _ k] by (metis order.strict_implies_order)
    qed
  next
    case False
    then have "k = 0" using "1.prems"(3) by (simp add: pmm_first_n_loop.simps [of s b])
    moreover have "\<not> is_free_run s n j" if "b \<le> j" for j
      using that False "1.prems"(1)
      by (auto simp: is_free_run_def word_le_nat_alt word_less_nat_alt)
    ultimately show ?thesis by blast
  qed
qed

text \<open>The search for \<open>n\<close> consecutive blocks: 0, or the first acceptable run.\<close>

lemma get_first_n_blocks_spec:
  assumes "n < 0xFFFFFFFF"
  shows "pmm_get_first_n_blocks n s = 0 \<longleftrightarrow> (\<forall>j. \<not> is_free_run s n j)"
    and "pmm_get_first_n_blocks n s = k \<Longrightarrow> k \<noteq> 0 \<Longrightarrow>
      is_free_run s n k \<and> (\<forall>j < k. \<not> is_free_run s n j)"
proof -
  have "unat (1 + n) = unat (1 :: u32) + unat n"
    using unat_inc_less [OF assms] by (simp add: add.commute)
  from first_n_loop_spec [OF this _ refl, of s]
  have *: "let k = pmm_get_first_n_blocks n s in
      (k = 0 \<longrightarrow> (\<forall>j \<ge> 1. \<not> is_free_run s n j)) \<and>
      (k \<noteq> 0 \<longrightarrow> is_free_run s n k \<and> (\<forall>j. 1 \<le> j \<and> j < k \<longrightarrow> \<not> is_free_run s n j))"
    by (auto simp: pmm_get_first_n_blocks_def Let_def)
  have zero: "\<not> is_free_run s n j" if "\<not> 1 \<le> j" for j
    using that by (auto simp: is_free_run_def word_le_nat_alt word_less_nat_alt)
  from * zero show "pmm_get_first_n_blocks n s = 0 \<longleftrightarrow> (\<forall>j. \<not> is_free_run s n j)"
    by (auto simp: Let_def)
  assume "pmm_get_first_n_blocks n s = k" and "k \<noteq> 0"
  with * zero show "is_free_run s n k \<and> (\<forall>j < k. \<not> is_free_run s n j)"
    by (auto simp: Let_def)
qed

definition take_run :: "u32 \<Rightarrow> u32 \<Rightarrow> pmm \<Rightarrow> pmm" where
  "take_run k n s = (for_u32 k (k + n) pmm_memory_map_set s)
     \<lparr>pmm_used_blocks := pmm_used_blocks s + n, pmm_free_blocks := pmm_free_blocks s - n\<rparr>"

lemma allocate_n_success:
  assumes "pmm_get_first_n_blocks n s = k" and "k \<noteq> 0"
  shows "pmm_allocate_first_n_blocks n s = (k * PMM_BLOCK_SIZE, take_run k n s)"
  using assms by (simp add: pmm_allocate_first_n_blocks_def take_run_def Let_def)

lemma allocate_n_failure:
  assumes "pmm_get_first_n_blocks n s = 0"
  shows "pmm_allocate_first_n_blocks n s = (0, for_u32 0 n pmm_memory_map_set s)"
  using assms by (simp add: pmm_allocate_first_n_blocks_def Let_def)

lemma take_run_simps [simp]:
  "allocated (take_run k n s) c \<longleftrightarrow> (k \<le> c \<and> c < k + n) \<or> allocated s c"
  "pmm_used_blocks (take_run k n s) = pmm_used_blocks s + n"
  "pmm_free_blocks (take_run k n s) = pmm_free_blocks s - n"
  "pmm_system_memory_size (take_run k n s) = pmm_system_memory_size s"
  by (simp_all add: take_run_def allocated_mark_range)

lemma card_run: "unat k + unat n < 4294967296 \<Longrightarrow> card {b :: u32. k \<le> b \<and> b < k + n} = unat n"
proof -
  assume "unat k + unat n < 4294967296"
  then have sum: "unat (k + n) = unat k + unat n" by (simp add: unat_word_ariths)
  have "{b. k \<le> b \<and> b < k + n} = {b. b < k + n} - {b. b < k}" by auto
  moreover have "{b. b < k} \<subseteq> {b. b < k + n}" using sum by (auto simp: word_less_nat_alt)
  ultimately show ?thesis by (simp add: card_Diff_subset card_less_u32 sum)
qed

lemma take_run_alloc_set:
  assumes "is_free_run s n k"
  shows "alloc_set (take_run k n s) = {b. k \<le> b \<and> b < k + n} \<union> alloc_set s"
    and "{b. k \<le> b \<and> b < k + n} \<inter> alloc_set s = {}"
proof -
  have "unat (k + n) = unat k + unat n"
    using assms unat_u32_bound [of "pmm_system_memory_size s"]
    by (simp add: is_free_run_def unat_word_ariths del: unat_u32_bound)
  then have "k + n < pmm_system_memory_size s"
    using assms by (simp add: is_free_run_def word_less_nat_alt)
  then show "alloc_set (take_run k n s) = {b. k \<le> b \<and> b < k + n} \<union> alloc_set s"
    by (auto simp: alloc_set_def)
  show "{b. k \<le> b \<and> b < k + n} \<inter> alloc_set s = {}"
    using assms by (auto simp: alloc_set_def is_free_run_def)
qed

lemma take_run_card:
  assumes "pmm_inv s" and run: "is_free_run s n k"
  shows "card (alloc_set (take_run k n s)) = unat n + card (alloc_set s)"
proof -
  have "unat k + unat n < unat (pmm_system_memory_size s)" "unat (pmm_system_memory_size s) \<le> 0x100000"
    using assms by (auto simp: is_free_run_def pmm_inv_def word_le_nat_alt)
  then show ?thesis by (simp add: take_run_alloc_set [OF run] card_Un_disjoint card_run)
qed

lemma take_run_inv:
  assumes "pmm_inv s" and run: "is_free_run s n k"
  shows "pmm_inv (take_run k n s)" and "unat (pmm_free_blocks s) = unat n + unat (pmm_free_blocks (take_run k n s))"
proof -
  have size: "unat (pmm_system_memory_size s) \<le> 0x100000" using assms by (simp add: pmm_inv_def word_le_nat_alt)
  note card = take_run_card [OF assms]
  have "card (alloc_set (take_run k n s)) \<le> unat (pmm_system_memory_size s)"
    using card_mono [OF _ alloc_set_subset, of "take_run k n s"] by (simp add: card_less_u32)
  then have "unat (pmm_used_blocks s + n) = unat n + card (alloc_set s)"
    and free: "unat (pmm_free_blocks s - n) = unat (pmm_free_blocks s) - unat n"
    and le: "unat n \<le> unat (pmm_free_blocks s)"
    using card size assms(1)
    by (auto simp: pmm_inv_def unat_word_ariths unat_sub word_le_nat_alt)
  with card assms(1) show "pmm_inv (take_run k n s)"
    by (auto simp: pmm_inv_def)
  show "unat (pmm_free_blocks s) = unat n + unat (pmm_free_blocks (take_run k n s))" using free le by simp
qed

text \<open>With few enough blocks in use, one of the disjoint windows of \<open>n\<close> blocks after block 0 is free.\<close>

lemma free_run_exists:
  assumes inv: "pmm_inv s" and n: "0 < n" and few: "unat n * unat (pmm_used_blocks s) + 1 < unat (pmm_system_memory_size s)"
  shows "\<exists>k. is_free_run s n k"
proof (rule ccontr)
  assume none: "\<nexists>k. is_free_run s n k"
  let ?n = "unat n" and ?u = "unat (pmm_used_blocks s)" and ?M = "unat (pmm_system_memory_size s)"
  let ?window = "\<lambda>b :: u32. (unat b - 1) div ?n"
  have n0: "0 < ?n" using n by (simp add: word_less_nat_alt)
  have size: "?M \<le> 1048576" using inv by (simp add: pmm_inv_def word_le_nat_alt)
  have "i \<in> ?window ` (alloc_set s - {0})" if i: "i < ?u" for i
  proof -
    let ?k = "of_nat (1 + i * ?n) :: u32"
    have "Suc i * ?n \<le> ?n * ?u" using i by (simp add: mult.commute [of ?n] mult_le_mono1 Suc_leI del: mult_Suc)
    then have le: "1 + i * ?n + ?n < ?M" using few by simp
    then have k: "unat ?k = 1 + i * ?n" using size by (intro unat_of_nat_u32) simp
    have "\<not> is_free_run s n ?k" using none by blast
    moreover have "0 < ?k" "unat ?k + ?n < ?M" using k le by (simp_all add: word_less_nat_alt)
    ultimately obtain b where b: "?k \<le> b" "b < ?k + n" "allocated s b" unfolding is_free_run_def by blast
    have "unat (?k + n) = 1 + i * ?n + ?n" using k le size by (simp add: unat_word_ariths)
    then have u: "1 + i * ?n \<le> unat b" "unat b < 1 + i * ?n + ?n"
      using b(1,2) k by (simp_all add: word_le_nat_alt word_less_nat_alt)
    then have "?n * i \<le> unat b - 1" "unat b - 1 < ?n * Suc i" by (simp_all add: mult.commute [of ?n])
    then have "?window b = i" by (rule div_nat_eqI)
    moreover have "b \<in> alloc_set s - {0}" using b(3) u le by (auto simp: alloc_set_def word_less_nat_alt)
    ultimately show ?thesis by blast
  qed
  then have "{..< ?u} \<subseteq> ?window ` (alloc_set s - {0})" by blast
  then have "?u \<le> card (alloc_set s - {0})" by (metis surj_card_le card_lessThan finite)
  moreover have "0 \<in> alloc_set s" using inv few by (auto simp: alloc_set_def pmm_inv_def word_less_nat_alt)
  ultimately show False using inv card_Diff1_less [of "alloc_set s" 0] by (simp add: pmm_inv_def)
qed

section \<open>Initialisation\<close>

lemma unset_range:
  "a \<le> e \<Longrightarrow> allocated (for_u32 a e pmm_memory_map_unset s) c \<longleftrightarrow> \<not> (a \<le> c \<and> c < e) \<and> allocated s c"
proof -
  assume "a \<le> e"
  let ?P = "\<lambda>j t. \<forall>c. allocated t c \<longleftrightarrow> \<not> (a \<le> c \<and> c < j) \<and> allocated s c"
  have "?P e (for_u32 a e pmm_memory_map_unset s)"
    by (rule for_u32_invariant [OF refl \<open>a \<le> e\<close>, where P = ?P]) (auto simp: less_inc_iff)
  then show ?thesis by blast
qed

lemma pmm_init_simps [simp]:
  "allocated (pmm_init n r s) c \<longleftrightarrow> c < r \<or> (PMM_MAX_BLOCKS \<le> c \<and> allocated s c)"
  "pmm_used_blocks (pmm_init n r s) = r"
  "pmm_free_blocks (pmm_init n r s) = n - r"
  "pmm_system_memory_size (pmm_init n r s) = n"
  by (auto simp: pmm_init_def Let_def allocated_mark_range unset_range)

lemma pmm_init_inv:
  assumes "0 < r" and "r \<le> n" and "n \<le> 0x100000"
    and clear: "\<And>b. PMM_MAX_BLOCKS \<le> b \<Longrightarrow> b < n \<Longrightarrow> \<not> allocated s b"
  shows "pmm_inv (pmm_init n r s)" and "alloc_set (pmm_init n r s) = {b. b < r}"
proof -
  show *: "alloc_set (pmm_init n r s) = {b. b < r}"
    using assms by (auto simp: alloc_set_def)
  from assms(1-3) show "pmm_inv (pmm_init n r s)"
    by (simp add: pmm_inv_def * card_less_u32 unat_sub word_le_nat_alt)
qed

section \<open>The page allocator the rest of the kernel sees\<close>

definition owned_pages :: "pmm \<Rightarrow> u32 set" where
  "owned_pages s = (\<lambda>b. b * PMM_BLOCK_SIZE) ` alloc_set s"

lemma block_address_inject:
  "b < 0x100000 \<Longrightarrow> c < 0x100000 \<Longrightarrow> b * PMM_BLOCK_SIZE = c * PMM_BLOCK_SIZE \<longleftrightarrow> b = c" for b c :: u32
  by (metis block_of_address)

lemma owned_page_below:
  assumes "pmm_inv p" and "a \<in> owned_pages p"
  shows "unat a + 4096 \<le> unat (pmm_system_memory_size p) * 4096"
proof -
  obtain b where b: "a = b * PMM_BLOCK_SIZE" "b < pmm_system_memory_size p"
    using assms(2) by (auto simp: owned_pages_def alloc_set_def)
  then have "b < 0x100000" using assms(1) by (simp add: pmm_inv_def word_less_nat_alt word_le_nat_alt)
  then have "unat a = unat b * 4096" using b(1) by (simp add: unat_block_address)
  moreover have "Suc (unat b) * 4096 \<le> unat (pmm_system_memory_size p) * 4096"
    using b(2) by (simp add: word_less_nat_alt)
  ultimately show ?thesis by simp
qed

lemma block_address_aligned: "b < 0x100000 \<Longrightarrow> page_aligned (b * PMM_BLOCK_SIZE)"
  by (simp add: page_aligned_def word_unat_eq_iff unat_mod unat_block_address)

lemma alloc_set_small: "pmm_inv s \<Longrightarrow> b \<in> alloc_set s \<Longrightarrow> b < 0x100000"
  by (auto simp: pmm_inv_def alloc_set_def)

lemma owned_pages_iff:
  "pmm_inv s \<Longrightarrow> b < 0x100000 \<Longrightarrow> b * PMM_BLOCK_SIZE \<in> owned_pages s \<longleftrightarrow> b \<in> alloc_set s"
  using alloc_set_small [of s] block_address_inject [of b] by (auto simp: owned_pages_def)

interpretation pmm_pages: block_allocator pmm_allocate_block pmm_free_block pmm_inv owned_pages
    "\<lambda>s. unat (pmm_free_blocks s)"
proof
  fix s assume inv: "pmm_inv s" and "0 < unat (pmm_free_blocks s)"
  then have free: "0 < pmm_free_blocks s" by (simp add: word_less_nat_alt)
  obtain b where b: "is_first_free s b" using first_free_exists [OF inv free] ..
  have lt: "b < pmm_system_memory_size s" "\<not> allocated s b" "b < 0x100000" "b \<notin> alloc_set s"
    using b inv by (auto simp: is_first_free_def pmm_inv_def alloc_set_def)
  have "b \<noteq> 0" using lt inv by (auto simp: pmm_inv_def)
  then have "b * PMM_BLOCK_SIZE \<noteq> 0" using block_address_inject [of b 0] lt by simp
  moreover have "owned_pages (take_block b s) = insert (b * PMM_BLOCK_SIZE) (owned_pages s)"
    by (simp add: owned_pages_def alloc_set_take lt)
  moreover have "unat (pmm_free_blocks s) = Suc (unat (pmm_free_blocks (take_block b s)))"
    using free by (simp add: unat_minus_one word_neq_0_conv word_less_nat_alt)
  ultimately show "\<exists>p s'. pmm_allocate_block s = (p, s') \<and> p \<noteq> 0 \<and> page_aligned p \<and>
      p \<notin> owned_pages s \<and> owned_pages s' = insert p (owned_pages s) \<and> pmm_inv s' \<and>
      unat (pmm_free_blocks s) = Suc (unat (pmm_free_blocks s'))"
    using allocate_block_success [OF inv free b] take_block_inv [OF inv free lt(1,2)]
      owned_pages_iff [OF inv lt(3)] lt block_address_aligned by auto
next
  fix s assume "pmm_inv s" and "unat (pmm_free_blocks s) = 0"
  then show "pmm_allocate_block s = (0, s)"
    by (simp add: allocate_block_failure unat_eq_zero)
next
  fix s p assume inv: "pmm_inv s" and "p \<in> owned_pages s" and "p \<noteq> 0"
  then obtain b where b': "b \<in> alloc_set s" "p = b * PMM_BLOCK_SIZE"
    by (auto simp: owned_pages_def)
  then have b: "b \<in> alloc_set s" "p = b * PMM_BLOCK_SIZE" "b \<noteq> 0" using \<open>p \<noteq> 0\<close> by auto
  have lt: "b < 0x100000" using alloc_set_small [OF inv b(1)] .
  have "unat (pmm_free_blocks s + 1) = Suc (unat (pmm_free_blocks s))"
    by (rule unat_inc_less [of _ "0x100001"])
       (use inv in \<open>auto simp: pmm_inv_def word_less_nat_alt word_le_nat_alt\<close>)
  moreover have "inj_on (\<lambda>b. b * PMM_BLOCK_SIZE) (alloc_set s)"
    by (rule inj_onI) (use alloc_set_small [OF inv] block_address_inject in blast)
  then have "owned_pages (pmm_free_block p s) = owned_pages s - {p}"
    using b by (simp add: owned_pages_def free_block_alloc_set [OF lt] inj_on_image_set_diff)
  ultimately show "pmm_inv (pmm_free_block p s) \<and> owned_pages (pmm_free_block p s) = owned_pages s - {p} \<and>
      unat (pmm_free_blocks (pmm_free_block p s)) = Suc (unat (pmm_free_blocks s))"
    using free_block_inv [OF inv b(1,3)] b by (simp add: pmm_free_block_def Let_def)
qed

section \<open>Giving back restores the state\<close>

lemma pmm_roundtrip:
  assumes inv: "pmm_inv s" and alloc: "pmm_allocate_block s = (p, s')" and "p \<noteq> 0"
  shows "pmm_free_block p s' = s"
proof -
  have free: "0 < pmm_free_blocks s"
    using alloc \<open>p \<noteq> 0\<close> allocate_block_failure [of s] by (cases "pmm_free_blocks s = 0") (auto simp: word_neq_0_conv)
  obtain b where b: "is_first_free s b" using first_free_exists [OF inv free] ..
  with inv have "b < 0x100000" "\<not> allocated s b" by (auto simp: is_first_free_def pmm_inv_def)
  then show ?thesis using allocate_block_success [OF inv free b] alloc free_take_block by auto
qed

lemma block_word_index: "b div 32 < 0x8000000" for b :: u32
  using unat_u32_bound [of b] by (simp add: word_less_nat_alt unat_div del: unat_u32_bound)

lemma pmm_eqI:
  assumes bits: "\<And>c. allocated s c = allocated t c"
    and high: "\<And>i. 0x8000000 \<le> i \<Longrightarrow> pmm_memory_map s i = pmm_memory_map t i"
    and "pmm_used_blocks s = pmm_used_blocks t" "pmm_free_blocks s = pmm_free_blocks t"
      "pmm_system_memory_size s = pmm_system_memory_size t"
  shows "s = (t :: pmm)"
proof -
  have "pmm_memory_map s i = pmm_memory_map t i" for i
  proof (cases "0x8000000 \<le> i")
    case False
    then have i: "unat i < 0x8000000" by (simp add: word_less_nat_alt not_le)
    show ?thesis
    proof (rule bit_word_eqI)
      fix n :: nat assume n: "n < LENGTH(32)"
      let ?c = "of_nat (unat i * 32 + n) :: u32"
      have "unat ?c = unat i * 32 + n" using i n by (intro unat_of_nat_u32) simp
      then have "?c div 32 = i" "unat (?c mod 32) = n"
        using n by (simp_all add: word_unat_eq_iff unat_div unat_mod)
      with bits [of ?c] show "bit (pmm_memory_map s i) n = bit (pmm_memory_map t i) n"
        by (simp add: allocated_def)
    qed
  qed (rule high)
  then show ?thesis using assms(3-5) by (intro pmm.equality) auto
qed

lemma unset_high: "0x8000000 \<le> i \<Longrightarrow> pmm_memory_map (pmm_memory_map_unset b s) i = pmm_memory_map s i"
  using block_word_index [of b] by (auto simp: unset_general)

lemma set_high: "0x8000000 \<le> i \<Longrightarrow> pmm_memory_map (pmm_memory_map_set b s) i = pmm_memory_map s i"
  using block_word_index [of b] by (auto simp: set_general)

text \<open>The state after a number of single-block allocations, and after releasing blocks in any order.\<close>

lemma alloc_many_state:
  "pmm_inv s \<Longrightarrow> n \<le> unat (pmm_free_blocks s) \<Longrightarrow> alloc_many pmm_allocate_block n s = (ps, t) \<Longrightarrow>
    (\<forall>c. allocated t c \<longleftrightarrow> c \<in> (\<lambda>p. p div PMM_BLOCK_SIZE) ` set ps \<or> allocated s c) \<and>
    (\<forall>p \<in> set ps. \<not> allocated s (p div PMM_BLOCK_SIZE)) \<and> pmm_used_blocks t = pmm_used_blocks s + of_nat n \<and>
    pmm_free_blocks t = pmm_free_blocks s - of_nat n \<and> pmm_system_memory_size t = pmm_system_memory_size s \<and>
    (\<forall>i \<ge> 0x8000000. pmm_memory_map t i = pmm_memory_map s i)"
proof (induction n arbitrary: s ps)
  case (Suc n)
  from Suc.prems(2) have free: "0 < pmm_free_blocks s" by (simp add: word_less_nat_alt)
  obtain b where b: "is_first_free s b" using first_free_exists [OF Suc.prems(1) free] ..
  then have b': "b < pmm_system_memory_size s" "\<not> allocated s b" "b < 0x100000"
    using Suc.prems(1) by (auto simp: is_first_free_def pmm_inv_def)
  note a = allocate_block_success [OF Suc.prems(1) free b]
  obtain qs where qs: "alloc_many pmm_allocate_block n (take_block b s) = (qs, t)" "ps = b * PMM_BLOCK_SIZE # qs"
    using Suc.prems(3) a by (auto split: prod.splits)
  have inv: "pmm_inv (take_block b s)" using take_block_inv [OF Suc.prems(1) free b'(1,2)] .
  have "unat (pmm_free_blocks s - 1) = unat (pmm_free_blocks s) - 1"
    using free by (simp add: unat_minus_one word_neq_0_conv)
  then have "n \<le> unat (pmm_free_blocks (take_block b s))" using Suc.prems(2) by simp
  note ih = Suc.IH [OF inv this qs(1)]
  have "pmm_memory_map (take_block b s) i = pmm_memory_map s i" if "0x8000000 \<le> i" for i
    using set_high [OF that] by (simp add: take_block_def)
  then show ?case using ih b'(2) by (auto simp: qs(2) block_of_address [OF b'(3)] algebra_simps)
qed auto

lemma free_many_state:
  "(\<forall>c. allocated (fold pmm_free_block ps s) c \<longleftrightarrow> c \<notin> (\<lambda>p. p div PMM_BLOCK_SIZE) ` set ps \<and> allocated s c) \<and>
    pmm_used_blocks (fold pmm_free_block ps s) = pmm_used_blocks s - of_nat (length ps) \<and>
    pmm_free_blocks (fold pmm_free_block ps s) = pmm_free_blocks s + of_nat (length ps) \<and>
    pmm_system_memory_size (fold pmm_free_block ps s) = pmm_system_memory_size s \<and>
    (\<forall>i \<ge> 0x8000000. pmm_memory_map (fold pmm_free_block ps s) i = pmm_memory_map s i)"
proof (induction ps arbitrary: s)
  case (Cons p ps)
  have "pmm_memory_map (pmm_free_block p s) i = pmm_memory_map s i" if "0x8000000 \<le> i" for i
    using unset_high [OF that] by (simp add: pmm_free_block_def Let_def)
  then show ?case using Cons.IH [of "pmm_free_block p s"] by (auto simp: pmm_free_block_def Let_def)
qed simp

lemma pmm_many_roundtrip:
  assumes "pmm_inv s" and "n \<le> unat (pmm_free_blocks s)" and "alloc_many pmm_allocate_block n s = (ps, t)"
    and "set qs = set ps" and "length qs = n"
  shows "fold pmm_free_block qs t = s"
  using alloc_many_state [OF assms(1-3)] free_many_state [of qs t] assms(4,5) by (intro pmm_eqI) auto

lemma mark_range_high:
  "0x8000000 \<le> i \<Longrightarrow> pmm_memory_map (for_u32 a e pmm_memory_map_set s) i = pmm_memory_map s i"
proof (cases "a \<le> e")
  case True
  assume "0x8000000 \<le> i"
  then show ?thesis
    by (intro for_u32_invariant [OF refl True, where P = "\<lambda>_ t. pmm_memory_map t i = pmm_memory_map s i"])
      (auto simp: set_high)
qed auto

lemma free_run_loop:
  fixes s :: pmm
  assumes "unat k + unat n \<le> 0x100000"
    and t: "for_u32 0 n (\<lambda>i. pmm_free_block (k * PMM_BLOCK_SIZE + i * PMM_BLOCK_SIZE)) s = t"
  shows "allocated t c \<longleftrightarrow> \<not> (k \<le> c \<and> c < k + n) \<and> allocated s c"
    and "pmm_used_blocks t = pmm_used_blocks s - n"
    and "pmm_free_blocks t = pmm_free_blocks s + n"
    and "pmm_system_memory_size t = pmm_system_memory_size s"
    and "0x8000000 \<le> i \<Longrightarrow> pmm_memory_map t i = pmm_memory_map s i"
proof -
  let ?P = "\<lambda>j t. (\<forall>c. allocated t c \<longleftrightarrow> \<not> (k \<le> c \<and> c < k + j) \<and> allocated s c) \<and>
    pmm_used_blocks t = pmm_used_blocks s - j \<and> pmm_free_blocks t = pmm_free_blocks s + j \<and>
    pmm_system_memory_size t = pmm_system_memory_size s \<and>
    (\<forall>i \<ge> 0x8000000. pmm_memory_map t i = pmm_memory_map s i)"
  have "?P n t"
  proof (rule for_u32_invariant [OF t, where P = ?P])
    fix j u assume j: "0 \<le> j" "j < n" "?P j u"
    have kj: "unat (k + j) = unat k + unat j" "unat (k + j) < 0x100000"
      using assms(1) j(2) by (auto simp: unat_word_ariths word_less_nat_alt)
    have "(k * PMM_BLOCK_SIZE + j * PMM_BLOCK_SIZE) div PMM_BLOCK_SIZE = k + j"
      using block_of_address [of "k + j"] kj(2) by (simp add: word_less_nat_alt distrib_right)
    moreover have "c < k + (j + 1) \<longleftrightarrow> c < k + j \<or> c = k + j" for c
      using less_inc_iff [of "k + j" "0x100000" c] kj(2) by (simp add: word_less_nat_alt add.assoc)
    moreover have "k \<le> k + j" using kj(1) by (simp add: word_le_nat_alt)
    ultimately show "?P (j + 1) (pmm_free_block (k * PMM_BLOCK_SIZE + j * PMM_BLOCK_SIZE) u)"
      using j(3) by (auto simp: pmm_free_block_def Let_def unset_high)
  qed auto
  then show "allocated t c \<longleftrightarrow> \<not> (k \<le> c \<and> c < k + n) \<and> allocated s c"
    "pmm_used_blocks t = pmm_used_blocks s - n" "pmm_free_blocks t = pmm_free_blocks s + n"
    "pmm_system_memory_size t = pmm_system_memory_size s"
    "0x8000000 \<le> i \<Longrightarrow> pmm_memory_map t i = pmm_memory_map s i"
    by blast+
qed

lemma free_run_take_run:
  assumes "pmm_inv s" and run: "is_free_run s n k"
  shows "for_u32 0 n (\<lambda>i. pmm_free_block (k * PMM_BLOCK_SIZE + i * PMM_BLOCK_SIZE)) (take_run k n s) = s"
proof -
  have "unat k + unat n \<le> 0x100000"
    using assms by (auto simp: is_free_run_def pmm_inv_def word_le_nat_alt)
  note loop = free_run_loop [OF this refl]
  show ?thesis
  proof (rule pmm_eqI)
    fix c show "allocated (for_u32 0 n (\<lambda>i. pmm_free_block (k * PMM_BLOCK_SIZE + i * PMM_BLOCK_SIZE))
      (take_run k n s)) c = allocated s c"
      using run by (auto simp: loop is_free_run_def)
  next
    fix i :: u32 assume "0x8000000 \<le> i"
    then show "pmm_memory_map (for_u32 0 n (\<lambda>i. pmm_free_block (k * PMM_BLOCK_SIZE + i * PMM_BLOCK_SIZE))
      (take_run k n s)) i = pmm_memory_map s i"
      by (simp add: loop take_run_def mark_range_high)
  qed (simp_all add: loop)
qed

section \<open>The bounds of the bitmap array\<close>

lemma block_in_bitmap: "b < 0x100000 \<Longrightarrow> b div 32 < PMM_MAX_BLOCKS" for b :: u32
  by (simp add: word_less_nat_alt unat_div)

lemma set_bounds: "b < 0x100000 \<Longrightarrow> PMM_MAX_BLOCKS \<le> i \<Longrightarrow>
    pmm_memory_map (pmm_memory_map_set b s) i = pmm_memory_map s i"
  using block_in_bitmap [of b] by (auto simp: set_general)

lemma unset_bounds: "b < 0x100000 \<Longrightarrow> PMM_MAX_BLOCKS \<le> i \<Longrightarrow>
    pmm_memory_map (pmm_memory_map_unset b s) i = pmm_memory_map s i"
  using block_in_bitmap [of b] by (auto simp: unset_general)

lemma mark_range_bounds:
  assumes "e \<le> 0x100000" and "PMM_MAX_BLOCKS \<le> i"
  shows "pmm_memory_map (for_u32 a e pmm_memory_map_set s) i = pmm_memory_map s i"
proof (cases "a \<le> e")
  case True
  show ?thesis
    by (rule for_u32_invariant [OF refl True, where P = "\<lambda>_ t. pmm_memory_map t i = pmm_memory_map s i"])
       (use assms in \<open>auto simp: set_bounds\<close>)
qed auto

lemma clear_range_bounds:
  assumes "e \<le> 0x100000" and "PMM_MAX_BLOCKS \<le> i"
  shows "pmm_memory_map (for_u32 a e pmm_memory_map_unset s) i = pmm_memory_map s i"
proof (cases "a \<le> e")
  case True
  show ?thesis
    by (rule for_u32_invariant [OF refl True, where P = "\<lambda>_ t. pmm_memory_map t i = pmm_memory_map s i"])
       (use assms in \<open>auto simp: unset_bounds\<close>)
qed auto

lemma page_block_small: "p div PMM_BLOCK_SIZE < 0x100000" for p :: u32
  using unat_u32_bound [of p] by (simp add: word_less_nat_alt unat_div del: unat_u32_bound)

section \<open>The state at boot\<close>

text \<open>The globals as the loader leaves them (zeroed), and after \<open>kernel_main\<close>'s \<open>pmm_init(250000, 25000)\<close>.\<close>

definition pmm_bss :: pmm where
  "pmm_bss = \<lparr>pmm_memory_map = (\<lambda>_. 0), pmm_used_blocks = 0, pmm_free_blocks = 0, pmm_system_memory_size = 0\<rparr>"

definition pmm_boot :: pmm where
  "pmm_boot = pmm_init 250000 25000 pmm_bss"

lemma pmm_boot_simps [simp]:
  "pmm_used_blocks pmm_boot = 25000" "pmm_free_blocks pmm_boot = 225000"
  "pmm_system_memory_size pmm_boot = 250000"
  "allocated pmm_boot c \<longleftrightarrow> c < 25000"
  by (auto simp: pmm_boot_def pmm_bss_def allocated_def [of "\<lparr>pmm_memory_map = _, pmm_used_blocks = _,
      pmm_free_blocks = _, pmm_system_memory_size = _\<rparr>"])

lemma pmm_boot_inv: "pmm_inv pmm_boot" and pmm_boot_alloc_set: "alloc_set pmm_boot = {b. b < 25000}"
  unfolding pmm_boot_def by (rule pmm_init_inv; simp add: pmm_bss_def allocated_def)+

lemma pmm_boot_first_free: "is_first_free pmm_boot 25000"
  by (auto simp: is_first_free_def)

lemma pmm_boot_alloc: "pmm_allocate_block pmm_boot = (102400000, take_block 25000 pmm_boot)"
  using allocate_block_success [OF pmm_boot_inv _ pmm_boot_first_free] by simp

lemma pmm_boot_run: "pmm_get_first_n_blocks 3 pmm_boot = 25000"
proof -
  let ?k = "pmm_get_first_n_blocks 3 pmm_boot"
  have run: "is_free_run pmm_boot 3 25000"
    by (auto simp: is_free_run_def word_le_nat_alt word_less_nat_alt)
  then have "?k \<noteq> 0" using get_first_n_blocks_spec(1) [of 3 pmm_boot] by auto
  from get_first_n_blocks_spec(2) [of 3 pmm_boot ?k] this
  have k: "is_free_run pmm_boot 3 ?k" "\<forall>j < ?k. \<not> is_free_run pmm_boot 3 j" by auto
  have "?k < ?k + 3"
    using k(1) unat_word_ariths(1) [of ?k 3] by (simp add: is_free_run_def word_less_nat_alt)
  then have "\<not> ?k < 25000" using k(1) by (auto simp: is_free_run_def)
  moreover have "\<not> 25000 < ?k" using k(2) run by auto
  ultimately show ?thesis by simp
qed

section \<open>Correctness of the page allocator\<close>

text \<open>C2: Allocating one block. While the free counter is positive, \<open>pmm_allocate_block\<close> returns
  the address of the lowest block not in use (never block 0), marks exactly that block, moves one
  unit between the two counters and keeps the allocator's invariant; with no free block it
  returns the null pointer and leaves everything as it was.\<close>

theorem pmm_allocate_block_correct:
  assumes "pmm_inv s" and "pmm_allocate_block s = (p, s')"
  shows "if pmm_free_blocks s = 0 then p = 0 \<and> s' = s
    else \<exists>b. b \<noteq> 0 \<and> is_first_free s b \<and> p = b * 4096 \<and> unat p = unat b * 4096 \<and>
      alloc_set s' = insert b (alloc_set s) \<and> b \<notin> alloc_set s \<and>
      pmm_free_blocks s' = pmm_free_blocks s - 1 \<and> pmm_used_blocks s' = pmm_used_blocks s + 1 \<and>
      pmm_system_memory_size s' = pmm_system_memory_size s \<and> pmm_inv s'"
proof (cases "pmm_free_blocks s = 0")
  case True
  then show ?thesis using assms(2) allocate_block_failure by auto
next
  case False
  then have free: "0 < pmm_free_blocks s" by (simp add: word_neq_0_conv)
  obtain b where b: "is_first_free s b" using first_free_exists [OF assms(1) free] ..
  have lt: "b < pmm_system_memory_size s" "\<not> allocated s b" "b < 0x100000" "b \<noteq> 0" "b \<notin> alloc_set s"
    using b assms(1) by (auto simp: is_first_free_def pmm_inv_def alloc_set_def)
  show ?thesis
    using allocate_block_success [OF assms(1) free b] take_block_inv [OF assms(1) free lt(1,2)]
      unat_block_address [OF lt(3)] alloc_set_take [OF lt(1)] assms(2) False b lt
    by (auto intro!: exI [of _ b])
qed

lemma pmm_allocate_block_correct_witness:
  "pmm_inv pmm_boot \<and> (\<exists>p s'. pmm_allocate_block pmm_boot = (p, s') \<and> p = 102400000 \<and>
    pmm_free_blocks s' = 224999 \<and> pmm_inv s')"
  using pmm_allocate_block_correct [OF pmm_boot_inv pmm_boot_alloc]
  by (auto simp: pmm_boot_inv pmm_boot_alloc)

text \<open>Releasing a block that was just allocated restores the allocator exactly: the bitmap and
  both counters are those from before the allocation.\<close>

theorem pmm_free_block_restores:
  assumes "pmm_inv s" and "pmm_allocate_block s = (p, s')" and "p \<noteq> 0"
  shows "pmm_free_block p s' = s"
  by (rule pmm_roundtrip [OF assms])

lemma pmm_free_block_restores_witness:
  "\<exists>p s'. pmm_allocate_block pmm_boot = (p, s') \<and> p = 102400000 \<and> pmm_free_block p s' = pmm_boot"
  using pmm_free_block_restores [OF pmm_boot_inv pmm_boot_alloc] by (simp add: pmm_boot_alloc)

text \<open>C28: Allocating \<open>n\<close> consecutive blocks. The search returns the first block after block 0 from
  which \<open>n\<close> blocks are free and end before the last block of the system; those blocks and no
  others become used, the counters move by \<open>n\<close>, the invariant is kept, and releasing the run block
  by block restores the state. When there is no such run the result is null.\<close>

theorem pmm_allocate_run_correct:
  assumes "pmm_inv s" and "n < 0xFFFFFFFF" and "pmm_allocate_first_n_blocks n s = (p, s')"
  shows "if \<forall>j. \<not> is_free_run s n j then p = 0
    else \<exists>k. is_free_run s n k \<and> (\<forall>j < k. \<not> is_free_run s n j) \<and> p = k * 4096 \<and> pmm_inv s' \<and>
      alloc_set s' = {b. k \<le> b \<and> b < k + n} \<union> alloc_set s \<and> {b. k \<le> b \<and> b < k + n} \<inter> alloc_set s = {} \<and>
      pmm_used_blocks s' = pmm_used_blocks s + n \<and> pmm_free_blocks s' = pmm_free_blocks s - n \<and>
      for_u32 0 n (\<lambda>i. pmm_free_block (k * 4096 + i * 4096)) s' = s"
proof (cases "pmm_get_first_n_blocks n s = 0")
  case True
  then show ?thesis
    using get_first_n_blocks_spec(1) [OF assms(2), of s] assms(3) by (simp add: allocate_n_failure)
next
  case False
  let ?k = "pmm_get_first_n_blocks n s"
  from get_first_n_blocks_spec(2) [OF assms(2) refl False]
  have run: "is_free_run s n ?k" "\<forall>j < ?k. \<not> is_free_run s n j" by auto
  have "p = ?k * 4096" "s' = take_run ?k n s"
    using allocate_n_success [OF refl False] assms(3) by auto
  then show ?thesis
    using run take_run_inv [OF assms(1) run(1)] take_run_alloc_set [OF run(1)]
      free_run_take_run [OF assms(1) run(1)]
    by (auto intro!: exI [of _ ?k])
qed

lemma pmm_allocate_run_correct_witness:
  "\<exists>s'. pmm_allocate_first_n_blocks 3 pmm_boot = (102400000, s') \<and> pmm_inv s' \<and>
    pmm_free_blocks s' = 224997"
proof -
  have eq: "pmm_allocate_first_n_blocks 3 pmm_boot = (102400000, take_run 25000 3 pmm_boot)"
    using allocate_n_success [OF pmm_boot_run] by simp
  from pmm_allocate_run_correct [OF pmm_boot_inv _ eq] show ?thesis
    by (auto simp: eq split: if_splits)
qed

text \<open>C3: The memory reserved for the kernel is never handed out. After \<open>pmm_init\<close>, whatever sequence of
  single-block allocations and of releases of in-use blocks outside the reserved area follows, a
  single-block allocation that succeeds returns an aligned page above the reserved area that nobody holds. The
  restriction on the releases is needed: \<open>pmm_free_block\<close> has no guard, and once a reserved block has been released
  the next allocation hands out exactly that block.\<close>

theorem pmm_reserved_never_allocated:
  assumes "0 < r" and "r \<le> n" and "n \<le> 0x100000"
    and "\<And>b. 32768 \<le> b \<Longrightarrow> b < n \<Longrightarrow> \<not> allocated s0 b"
    and "alloc_reach pmm_allocate_block pmm_free_block owned_pages
      ((\<lambda>b. b * 4096) ` {b. b < r}) (pmm_init n r s0) s"
    and "pmm_allocate_block s = (p, s')" and "p \<noteq> 0"
  shows "p \<notin> owned_pages s \<and> unat r * 4096 \<le> unat p \<and> unat p < unat n * 4096 \<and> page_aligned p \<and>
    (\<forall>b. 0 < b \<and> b < r \<longrightarrow> fst (pmm_allocate_block (pmm_free_block (b * 4096) s)) = b * 4096)"
proof -
  note init = pmm_init_inv [OF assms(1-4)]
  let ?K = "(\<lambda>b. b * 4096) ` {b. b < r}"
  have K: "?K \<subseteq> owned_pages (pmm_init n r s0)" "0 \<in> ?K"
    using assms(1) by (auto simp: owned_pages_def init(2) intro: image_eqI [of _ _ 0])
  have p: "p \<notin> owned_pages s" "p \<notin> ?K" "page_aligned p"
    using pmm_pages.reach_alloc_fresh [OF assms(5) init(1) K assms(6,7)] by auto
  have inv: "pmm_inv s" and kept: "?K \<subseteq> owned_pages s" using pmm_pages.reach_protects [OF assms(5) init(1) K] by simp_all
  have sz: "pmm_system_memory_size s = n"
    using assms(5)
    by induction (auto simp: pmm_allocate_block_def pmm_free_block_def Let_def)
  have free: "0 < pmm_free_blocks s"
    using assms(6,7) allocate_block_failure [of s] by (cases "pmm_free_blocks s = 0") (auto simp: word_neq_0_conv)
  obtain b where b: "is_first_free s b" using first_free_exists [OF inv free] ..
  have pb: "p = b * 4096" using allocate_block_success [OF inv free b] assms(6) by simp
  have bn: "b < n" "b < 0x100000" using b sz assms(3) by (auto simp: is_first_free_def)
  have "\<not> b < r" using p(2) pb by auto
  moreover have "fst (pmm_allocate_block (pmm_free_block (c * 4096) s)) = c * 4096" if c: "0 < c" "c < r" for c
  proof -
    have small: "d < 0x100000 \<and> d \<in> alloc_set s" if "d < r" for d
    proof -
      have d: "d < 0x100000" using that assms(2,3) by auto
      moreover have "d * PMM_BLOCK_SIZE \<in> owned_pages s" using kept that by auto
      ultimately show ?thesis using owned_pages_iff [OF inv d] by simp
    qed
    let ?f = "pmm_free_block (c * PMM_BLOCK_SIZE) s"
    have f: "pmm_inv ?f" using free_block_inv [OF inv, of c] small [OF c(2)] c(1) by auto
    have "c < pmm_system_memory_size s" using c(2) assms(2) sz by simp
    then have first: "is_first_free ?f c"
      using small c(2) by (auto simp: is_first_free_def pmm_free_block_def Let_def alloc_set_def dest: less_trans)
    then have "c \<in> {c. c < pmm_system_memory_size ?f \<and> \<not> allocated ?f c}" by (simp add: is_first_free_def)
    then have "0 < pmm_free_blocks ?f"
      using f no_free_block [of ?f] by (auto simp: word_neq_0_conv [symmetric])
    from allocate_block_success [OF f this first] show ?thesis by simp
  qed
  ultimately show ?thesis
    using p pb bn unat_block_address [OF bn(2)] by (auto simp: word_less_nat_alt word_le_nat_alt)
qed

lemma pmm_reserved_never_allocated_witness:
  "unat (25000 :: u32) * 4096 \<le> unat (102400000 :: u32) \<and> page_aligned 102400000 \<and>
    (102400000 :: u32) \<notin> owned_pages pmm_boot \<and> fst (pmm_allocate_block (pmm_free_block (7 * 4096) pmm_boot)) = 7 * 4096"
  using pmm_reserved_never_allocated [of 25000 250000 pmm_bss pmm_boot 102400000 "take_block 25000 pmm_boot"]
  by (simp add: alloc_reach.start pmm_boot_def [symmetric] pmm_boot_alloc)
     (auto simp: pmm_bss_def allocated_def dest: spec [of _ 7])

text \<open>\<open>pmm_init\<close> marks exactly the reserved blocks when the bitmap behind its first 32768 bits
  was clear, and sets up the invariant; but the loop that clears the bitmap stops after 32768 of
  its 1048576 bits, so a block beyond that keeps whatever mark it had.\<close>

theorem pmm_init_correct:
  "(\<forall>b. allocated (pmm_init n r s) b \<longleftrightarrow> b < r \<or> (32768 \<le> b \<and> allocated s b)) \<and>
    pmm_used_blocks (pmm_init n r s) = r \<and> pmm_free_blocks (pmm_init n r s) = n - r \<and>
    pmm_system_memory_size (pmm_init n r s) = n \<and>
    (0 < r \<and> r \<le> n \<and> n \<le> 0x100000 \<and> (\<forall>b. 32768 \<le> b \<and> b < n \<longrightarrow> \<not> allocated s b) \<longrightarrow>
      pmm_inv (pmm_init n r s))"
  using pmm_init_inv(1) by auto

lemma pmm_init_correct_witness:
  "pmm_inv (pmm_init 250000 25000 pmm_bss) \<and> allocated (pmm_init 40000 10 (pmm_memory_map_set 33000 pmm_bss)) 33000"
  using pmm_init_correct [of 250000 25000 pmm_bss]
    pmm_init_correct [of 40000 10 "pmm_memory_map_set 33000 pmm_bss"]
  by (simp add: pmm_bss_def allocated_def [of "\<lparr>pmm_memory_map = _, pmm_used_blocks = _,
      pmm_free_blocks = _, pmm_system_memory_size = _\<rparr>"])

text \<open>A failed request for \<open>n\<close> consecutive blocks is not harmless: it marks blocks 0 to
  \<open>n - 1\<close> as used without touching the counters, because the marking loop runs before the result
  of the search is looked at.\<close>

theorem pmm_failed_run_marks_low_blocks:
  assumes "n < 0xFFFFFFFF" and "\<forall>j. \<not> is_free_run s n j" and "pmm_allocate_first_n_blocks n s = (p, s')"
  shows "p = 0 \<and> (\<forall>c. allocated s' c \<longleftrightarrow> c < n \<or> allocated s c) \<and>
    pmm_free_blocks s' = pmm_free_blocks s \<and> pmm_used_blocks s' = pmm_used_blocks s"
proof -
  have "pmm_get_first_n_blocks n s = 0" using get_first_n_blocks_spec(1) [OF assms(1)] assms(2) by simp
  from allocate_n_failure [OF this] assms(3) show ?thesis by (auto simp: allocated_mark_range)
qed

lemma pmm_failed_run_marks_low_blocks_witness:
  "allocated (snd (pmm_allocate_first_n_blocks 240000 pmm_boot)) 239999 \<and>
    pmm_free_blocks (snd (pmm_allocate_first_n_blocks 240000 pmm_boot)) = 225000"
proof -
  have "\<not> is_free_run pmm_boot 240000 j" for j
  proof
    assume run: "is_free_run pmm_boot 240000 j"
    then have "unat j < 10000" by (simp add: is_free_run_def)
    then have "j < j + 240000" "j < 25000"
      using unat_word_ariths(1) [of j 240000] by (simp_all add: word_less_nat_alt)
    with run show False by (auto simp: is_free_run_def)
  qed
  then show ?thesis
    using pmm_failed_run_marks_low_blocks [of 240000 pmm_boot, OF _ _ surjective_pairing] by simp
qed



end
