(* ===== verification/KHeap.thy ===== *)
theory KHeap imports Memory Pmm "HOL-Library.Multiset"
begin

text \<open>
  The kernel heap, \<open>src/src/memory/heap/kheap.c\<close>. Requests of up to 4096 bytes get one
  block; larger ones get a run of blocks, recorded in the table \<open>big_blocks\<close> so that \<open>kfree\<close>
  can give the whole run back. \<open>kmem\<close> is the memory state the rest of the kernel works on:
  the RAM contents, the block bitmap and this table.
\<close>

abbreviation (input) BIG_ADDRESS :: nat where "BIG_ADDRESS \<equiv> 100"

record big_address =
  starting_address :: u32
  blocks :: u32

record kmem =
  ram :: mem
  phys :: pmm
  big_blocks :: "big_address list"

section \<open>The operations\<close>

abbreviation (input) no_big :: big_address where
  "no_big \<equiv> \<lparr>starting_address = 0, blocks = 0\<rparr>"

definition big_blocks_init :: "kmem \<Rightarrow> kmem" where
  "big_blocks_init s = s\<lparr>big_blocks := replicate BIG_ADDRESS no_big\<rparr>"

text \<open>The C function returns \<open>-1\<close> whether or not it found a free entry.\<close>

definition insert_in_big_blocks :: "u32 \<Rightarrow> u32 \<Rightarrow> kmem \<Rightarrow> int \<times> kmem" where
  "insert_in_big_blocks addr n s =
     (case first_index (\<lambda>e. starting_address e = 0) (big_blocks s) of
        Some i \<Rightarrow> (-1, s\<lparr>big_blocks := (big_blocks s)[i := \<lparr>starting_address = addr, blocks = n\<rparr>]\<rparr>)
      | None \<Rightarrow> (-1, s))"

definition search_address :: "u32 \<Rightarrow> kmem \<Rightarrow> int" where
  "search_address item_addr s =
     (case first_index (\<lambda>e. starting_address e = item_addr) (big_blocks s) of
        Some i \<Rightarrow> int i
      | None \<Rightarrow> -1)"

definition free_big_blocks :: "u32 \<Rightarrow> kmem \<Rightarrow> kmem" where
  "free_big_blocks addr s =
     (let index = search_address addr s in
      if index = -1 then s
      else
        let e = big_blocks s ! nat index;
            s = s\<lparr>phys := for_u32 0 (blocks e) (\<lambda>i. pmm_free_block (addr + i * PMM_BLOCK_SIZE)) (phys s)\<rparr>
        in s\<lparr>big_blocks := (big_blocks s)[nat index := no_big]\<rparr>)"

definition blocks_for :: "u32 \<Rightarrow> u32" where
  "blocks_for sz = (if sz mod 4096 = 0 then sz div 4096 else sz div 4096 + 1)"

definition kmallac :: "u32 \<Rightarrow> kmem \<Rightarrow> u32 \<times> kmem" where
  "kmallac sz s =
     (if sz > 4096 then
        let blocks_to_allocate = blocks_for sz;
            (addr, p) = pmm_allocate_first_n_blocks blocks_to_allocate (phys s);
            s = s\<lparr>phys := p\<rparr>
        in if addr \<le> 0 then (0, s)
           else (addr, snd (insert_in_big_blocks addr blocks_to_allocate s))
      else
        let (addr, p) = pmm_allocate_block (phys s) in (addr, s\<lparr>phys := p\<rparr>))"

definition kfree :: "u32 \<Rightarrow> kmem \<Rightarrow> kmem" where
  "kfree addr s =
     (if addr mod 4096 \<noteq> 0 then s
      else if search_address addr s \<ge> 0 then free_big_blocks addr s
      else s\<lparr>phys := pmm_free_block addr (phys s)\<rparr>)"

text \<open>\<open>kzalloc\<close> clears the bytes it was given without looking at the pointer.\<close>

definition kzalloc :: "u32 \<Rightarrow> kmem \<Rightarrow> u32 \<times> kmem" where
  "kzalloc sz s =
     (let (temp, s) = kmallac sz s
      in (temp, s\<lparr>ram := memset (ram s) temp 0 sz\<rparr>))"

section \<open>Invariant\<close>

definition big_region :: "big_address \<Rightarrow> u32 set" where
  "big_region e = (\<lambda>i. starting_address e + i * PMM_BLOCK_SIZE) ` {i. i < blocks e}"

text \<open>
  The table has its 100 entries; an entry in use starts at a page that is not page 0 and
  names at most a million blocks, all of them in use; an unused entry names none; no page
  belongs to two entries.
\<close>

definition entry_ok :: "pmm \<Rightarrow> big_address \<Rightarrow> bool" where
  "entry_ok p e \<longleftrightarrow>
     (starting_address e = 0 \<longrightarrow> blocks e = 0) \<and>
     (starting_address e \<noteq> 0 \<longrightarrow> 0 < blocks e) \<and>
     page_aligned (starting_address e) \<and> blocks e \<le> 0x100000 \<and>
     big_region e \<subseteq> owned_pages p - {0}"

definition kheap_inv :: "kmem \<Rightarrow> bool" where
  "kheap_inv s \<longleftrightarrow>
     pmm_inv (phys s) \<and> length (big_blocks s) = BIG_ADDRESS \<and>
     (\<forall>e \<in> set (big_blocks s). entry_ok (phys s) e) \<and>
     (\<forall>i < BIG_ADDRESS. \<forall>j < BIG_ADDRESS. i \<noteq> j \<longrightarrow>
        big_region (big_blocks s ! i) \<inter> big_region (big_blocks s ! j) = {})"

text \<open>The pages handed out one at a time: those in use outside every recorded run.\<close>

definition single_pages :: "kmem \<Rightarrow> u32 set" where
  "single_pages s = owned_pages (phys s) - \<Union> (big_region ` set (big_blocks s))"

lemma start_in_region: "entry_ok p e \<Longrightarrow> starting_address e \<noteq> 0 \<Longrightarrow> starting_address e \<in> big_region e"
  by (auto simp: entry_ok_def big_region_def intro: image_eqI [of _ _ 0])

lemma search_address_single:
  assumes "kheap_inv s" and "a \<in> single_pages s" and "a \<noteq> 0"
  shows "search_address a s = -1"
proof -
  have "starting_address e \<noteq> a" if "e \<in> set (big_blocks s)" for e
    using assms that start_in_region [of "phys s" e]
    by (auto simp: kheap_inv_def single_pages_def)
  then have "first_index (\<lambda>e. starting_address e = a) (big_blocks s) = None"
    by (simp add: first_index_None)
  then show ?thesis by (simp add: search_address_def)
qed

lemma kheap_inv_phys:
  assumes "kheap_inv s" and "pmm_inv p"
    and "\<And>e. e \<in> set (big_blocks s) \<Longrightarrow> big_region e \<subseteq> owned_pages p"
  shows "kheap_inv (s\<lparr>phys := p\<rparr>)"
  using assms by (fastforce simp: kheap_inv_def entry_ok_def)

lemma region_owned: "kheap_inv s \<Longrightarrow> e \<in> set (big_blocks s) \<Longrightarrow> big_region e \<subseteq> owned_pages (phys s) - {0}"
  by (auto simp: kheap_inv_def entry_ok_def)

lemma owned_page_aligned: "pmm_inv p \<Longrightarrow> a \<in> owned_pages p \<Longrightarrow> page_aligned a"
  using alloc_set_small block_address_aligned by (auto simp: owned_pages_def)

section \<open>Requests of at most one block\<close>

lemma kmallac_small: "sz \<le> 4096 \<Longrightarrow>
    kmallac sz s = (fst (pmm_allocate_block (phys s)), s\<lparr>phys := snd (pmm_allocate_block (phys s))\<rparr>)"
  by (auto simp: kmallac_def split_def Let_def)

lemma kfree_single:
  assumes "kheap_inv s" and "a \<in> single_pages s" and "a \<noteq> 0"
  shows "kfree a s = s\<lparr>phys := pmm_free_block a (phys s)\<rparr>"
proof -
  have "page_aligned a"
    using assms owned_page_aligned by (auto simp: single_pages_def kheap_inv_def)
  then show ?thesis
    using search_address_single [OF assms] by (simp add: kfree_def page_aligned_def)
qed

interpretation heap_pages: block_allocator "kmallac 4096" kfree kheap_inv single_pages
    "\<lambda>s. unat (pmm_free_blocks (phys s))"
proof
  fix s assume inv: "kheap_inv s" and "0 < unat (pmm_free_blocks (phys s))"
  then obtain p t where t: "pmm_allocate_block (phys s) = (p, t)" "p \<noteq> 0" "page_aligned p"
      "p \<notin> owned_pages (phys s)" "owned_pages t = insert p (owned_pages (phys s))" "pmm_inv t"
      "unat (pmm_free_blocks (phys s)) = Suc (unat (pmm_free_blocks t))"
    using pmm_pages.alloc_ok [of "phys s"] by (auto simp: kheap_inv_def)
  have "kheap_inv (s\<lparr>phys := t\<rparr>)"
    using region_owned [OF inv] t by (intro kheap_inv_phys [OF inv]) auto
  moreover have "single_pages (s\<lparr>phys := t\<rparr>) = insert p (single_pages s)"
    using region_owned [OF inv] t by (auto simp: single_pages_def)
  ultimately show "\<exists>p s'. kmallac 4096 s = (p, s') \<and> p \<noteq> 0 \<and> page_aligned p \<and>
      p \<notin> single_pages s \<and> single_pages s' = insert p (single_pages s) \<and> kheap_inv s' \<and>
      unat (pmm_free_blocks (phys s)) = Suc (unat (pmm_free_blocks (phys s')))"
    using t by (auto simp: kmallac_small single_pages_def)
next
  fix s assume inv: "kheap_inv s" and "unat (pmm_free_blocks (phys s)) = 0"
  then show "kmallac 4096 s = (0, s)"
    using pmm_pages.alloc_fail [of "phys s"] by (simp add: kmallac_small kheap_inv_def)
next
  fix s p assume inv: "kheap_inv s" and p: "p \<in> single_pages s" "p \<noteq> 0"
  let ?t = "pmm_free_block p (phys s)"
  have t: "pmm_inv ?t" "owned_pages ?t = owned_pages (phys s) - {p}"
      "unat (pmm_free_blocks ?t) = Suc (unat (pmm_free_blocks (phys s)))"
    using pmm_pages.release_ok [of "phys s" p] inv p by (auto simp: kheap_inv_def single_pages_def)
  moreover have "kheap_inv (s\<lparr>phys := ?t\<rparr>)"
    using region_owned [OF inv] t p by (intro kheap_inv_phys [OF inv]) (auto simp: single_pages_def)
  ultimately show "kheap_inv (kfree p s) \<and> single_pages (kfree p s) = single_pages s - {p} \<and>
      unat (pmm_free_blocks (phys (kfree p s))) = Suc (unat (pmm_free_blocks (phys s)))"
    by (auto simp: kfree_single [OF inv p] single_pages_def)
qed

text \<open>Several single-page requests and releases act on the physical memory alone.\<close>

lemma kmallac_many:
  "alloc_many (kmallac 4096) n s =
    (fst (alloc_many pmm_allocate_block n (phys s)), s\<lparr>phys := snd (alloc_many pmm_allocate_block n (phys s))\<rparr>)"
  by (induction n arbitrary: s) (simp_all add: kmallac_small split_def Let_def)

lemma kfree_many:
  "kheap_inv s \<Longrightarrow> distinct qs \<Longrightarrow> set qs \<subseteq> single_pages s \<Longrightarrow> 0 \<notin> set qs \<Longrightarrow>
    fold kfree qs s = s\<lparr>phys := fold pmm_free_block qs (phys s)\<rparr>"
proof (induction qs arbitrary: s)
  case (Cons q qs)
  from Cons.prems have q: "q \<in> single_pages s" "q \<noteq> 0" by auto
  from heap_pages.release_ok [OF Cons.prems(1) q] Cons.prems have
    "fold kfree qs (kfree q s) = (kfree q s)\<lparr>phys := fold pmm_free_block qs (phys (kfree q s))\<rparr>"
    by (intro Cons.IH) auto
  then show ?case by (simp add: kfree_single [OF Cons.prems(1) q])
qed simp

lemma kmallac_small_roundtrip:
  assumes "kheap_inv s" and "sz \<le> 4096" and "kmallac sz s = (p, s')" and "p \<noteq> 0"
  shows "kfree p s' = s"
proof -
  from assms(2,3) have p: "pmm_allocate_block (phys s) = (p, phys s')" "s' = s\<lparr>phys := phys s'\<rparr>"
    by (auto simp: kmallac_small prod_eq_iff)
  have "kmallac 4096 s = (p, s')" using assms(2,3) by (simp add: kmallac_small)
  with heap_pages.alloc_ok [OF assms(1)] heap_pages.alloc_fail [OF assms(1)] assms(4)
  have s': "kheap_inv s'" "p \<in> single_pages s'" by (cases "pmm_free_blocks (phys s) = 0"; force simp: unat_eq_zero)+
  have "pmm_free_block p (phys s') = phys s"
    using pmm_roundtrip [OF _ p(1) assms(4)] assms(1) by (simp add: kheap_inv_def)
  then show ?thesis
    using kfree_single [OF s' assms(4)] p(2) by (metis kmem.surjective kmem.update_convs(2))
qed

section \<open>Larger requests\<close>

lemma unat_blocks_for: "unat (blocks_for sz) = (unat sz + 4095) div 4096"
proof -
  have lt: "sz div 4096 < 0x100000"
    using unat_u32_bound [of sz] by (simp add: word_less_nat_alt unat_div del: unat_u32_bound)
  have "unat sz = unat sz div 4096 * 4096 + unat sz mod 4096" by simp
  moreover have "(4096 * q + r + 4095) div 4096 = (if r = 0 then q else Suc q)" if "r < 4096" for q r :: nat
    using that by (cases "r = 0") (auto intro!: div_nat_eqI)
  ultimately have "(unat sz + 4095) div 4096 =
      (if unat sz mod 4096 = 0 then unat sz div 4096 else Suc (unat sz div 4096))"
    by (metis mod_less_divisor mult.commute zero_less_numeral)
  then show ?thesis
    using unat_inc_less [OF lt] by (simp add: blocks_for_def unat_div unat_mod word_unat_eq_iff)
qed

lemma blocks_for_bounds: "0 < sz \<Longrightarrow> 0 < blocks_for sz \<and> blocks_for sz \<le> 0x100000"
  using unat_u32_bound [of sz]
  by (auto simp: word_less_nat_alt word_le_nat_alt unat_blocks_for simp del: unat_u32_bound)

text \<open>The pages of a run, as addresses and as blocks.\<close>

lemma run_pages:
  assumes "unat k + unat n \<le> 0x100000"
  shows "big_region \<lparr>starting_address = k * PMM_BLOCK_SIZE, blocks = n\<rparr> =
    (\<lambda>b. b * PMM_BLOCK_SIZE) ` {b. k \<le> b \<and> b < k + n}"
proof -
  have "(\<lambda>i. k + i) ` {i. i < n} = {b. k \<le> b \<and> b < k + n}"
  proof (intro set_eqI iffI)
    fix b assume "b \<in> (\<lambda>i. k + i) ` {i. i < n}"
    then show "b \<in> {b. k \<le> b \<and> b < k + n}"
      using assms by (auto simp: word_le_nat_alt word_less_nat_alt unat_word_ariths)
  next
    fix b assume b: "b \<in> {b. k \<le> b \<and> b < k + n}"
    then have "b - k < n"
      using assms by (auto simp: word_le_nat_alt word_less_nat_alt unat_sub unat_word_ariths)
    moreover have "b = k + (b - k)" by simp
    ultimately show "b \<in> (\<lambda>i. k + i) ` {i. i < n}" by blast
  qed
  from this [symmetric] show ?thesis by (simp add: big_region_def image_image distrib_right)
qed

lemma kmallac_big_success:
  assumes "sz > 4096" and "pmm_get_first_n_blocks (blocks_for sz) (phys s) = k" and "k \<noteq> 0"
    and "k < 0x100000"
  shows "kmallac sz s = (k * PMM_BLOCK_SIZE,
    snd (insert_in_big_blocks (k * PMM_BLOCK_SIZE) (blocks_for sz) (s\<lparr>phys := take_run k (blocks_for sz) (phys s)\<rparr>)))"
proof -
  have "k * PMM_BLOCK_SIZE \<noteq> 0" using block_address_inject [of k 0] assms by simp
  then show ?thesis
    using assms by (simp add: kmallac_def allocate_n_success Let_def)
qed

lemma insert_big_free:
  "first_index (\<lambda>e. starting_address e = 0) (big_blocks s) = Some j \<Longrightarrow>
    snd (insert_in_big_blocks a n s) = s\<lparr>big_blocks := (big_blocks s)[j := \<lparr>starting_address = a, blocks = n\<rparr>]\<rparr>"
  by (simp add: insert_in_big_blocks_def)

lemma insert_big_full:
  "first_index (\<lambda>e. starting_address e = 0) (big_blocks s) = None \<Longrightarrow>
    snd (insert_in_big_blocks a n s) = s"
  by (simp add: insert_in_big_blocks_def)

text \<open>What a successful large request establishes.\<close>

lemma big_run:
  assumes "kheap_inv s" and "sz > 4096"
    and k: "pmm_get_first_n_blocks (blocks_for sz) (phys s) = k" "k \<noteq> 0"
  shows "is_free_run (phys s) (blocks_for sz) k" and "k < 0x100000"
    and "unat k + unat (blocks_for sz) \<le> 0x100000" and "0 < blocks_for sz"
proof -
  have n: "0 < blocks_for sz" "blocks_for sz \<le> 0x100000"
    using blocks_for_bounds [of sz] assms(2) by (auto simp: word_less_nat_alt)
  then have "blocks_for sz < 0xFFFFFFFF" by (auto simp: word_less_nat_alt word_le_nat_alt)
  from get_first_n_blocks_spec(2) [OF this k] show run: "is_free_run (phys s) (blocks_for sz) k" by blast
  show "0 < blocks_for sz" by (rule n)
  show "unat k + unat (blocks_for sz) \<le> 0x100000" and "k < 0x100000"
    using run assms(1) n by (auto simp: is_free_run_def kheap_inv_def pmm_inv_def word_le_nat_alt word_less_nat_alt)
qed

lemma owned_pages_take_run:
  assumes "is_free_run p n k" and "unat k + unat n \<le> 0x100000"
  shows "owned_pages (take_run k n p) =
    big_region \<lparr>starting_address = k * PMM_BLOCK_SIZE, blocks = n\<rparr> \<union> owned_pages p"
  by (simp add: owned_pages_def run_pages [OF assms(2)] take_run_alloc_set(1) [OF assms(1)] image_Un)

lemma run_pages_fresh:
  assumes "pmm_inv p" and "is_free_run p n k" and "unat k + unat n \<le> 0x100000"
  shows "big_region \<lparr>starting_address = k * PMM_BLOCK_SIZE, blocks = n\<rparr> \<inter> owned_pages p = {}"
    and "0 \<notin> big_region \<lparr>starting_address = k * PMM_BLOCK_SIZE, blocks = n\<rparr>"
proof -
  let ?B = "{b. k \<le> b \<and> b < k + n}"
  have small: "b < 0x100000" if "b \<in> ?B" for b
    using that assms(3) by (auto simp: word_less_nat_alt word_le_nat_alt unat_word_ariths)
  then have "b * PMM_BLOCK_SIZE \<notin> owned_pages p" if "b \<in> ?B" for b
    using that take_run_alloc_set(2) [OF assms(2)] owned_pages_iff [OF assms(1)] by blast
  then show "big_region \<lparr>starting_address = k * PMM_BLOCK_SIZE, blocks = n\<rparr> \<inter> owned_pages p = {}"
    by (auto simp: run_pages [OF assms(3)])
  have "0 \<in> owned_pages p"
    using owned_pages_iff [OF assms(1), of 0] assms(1,2)
    by (auto simp: pmm_inv_def alloc_set_def is_free_run_def word_less_nat_alt)
  with \<open>big_region _ \<inter> owned_pages p = {}\<close>
  show "0 \<notin> big_region \<lparr>starting_address = k * PMM_BLOCK_SIZE, blocks = n\<rparr>" by blast
qed

lemma empty_entry: "kheap_inv s \<Longrightarrow> j < BIG_ADDRESS \<Longrightarrow> starting_address (big_blocks s ! j) = 0 \<Longrightarrow>
    big_blocks s ! j = no_big"
  by (auto simp: kheap_inv_def entry_ok_def intro!: big_address.equality)

lemma nth_disjoint_update:
  assumes "\<forall>i < n. \<forall>l < n. i \<noteq> l \<longrightarrow> R (xs ! i) \<inter> R (xs ! l) = {}" and "length xs = n" and "j < n"
    and "\<And>x. x \<in> set xs \<Longrightarrow> R y \<inter> R x = {}"
  shows "\<forall>i < n. \<forall>l < n. i \<noteq> l \<longrightarrow> R (xs[j := y] ! i) \<inter> R (xs[j := y] ! l) = {}"
proof (intro allI impI)
  fix i l assume *: "i < n" "l < n" "i \<noteq> l"
  have y: "R y \<inter> R (xs ! m) = {}" if "m < n" for m
    using that assms(2,4) by (metis nth_mem)
  show "R (xs[j := y] ! i) \<inter> R (xs[j := y] ! l) = {}"
    using * assms(1,2,3) y [of i] y [of l] by (simp add: nth_list_update Int_commute)
qed

lemma insert_run_inv:
  assumes inv: "kheap_inv s" and run: "is_free_run (phys s) n k" and "0 < n"
    and small: "unat k + unat n \<le> 0x100000" and "k < 0x100000" and "k \<noteq> 0"
    and j: "first_index (\<lambda>e. starting_address e = 0) (big_blocks s) = Some j"
  shows "kheap_inv (s\<lparr>phys := take_run k n (phys s),
    big_blocks := (big_blocks s)[j := \<lparr>starting_address = k * PMM_BLOCK_SIZE, blocks = n\<rparr>]\<rparr>)"
proof -
  let ?e = "\<lparr>starting_address = k * PMM_BLOCK_SIZE, blocks = n\<rparr>"
  let ?p = "take_run k n (phys s)"
  have p: "pmm_inv (phys s)" using inv by (simp add: kheap_inv_def)
  note fresh = run_pages_fresh [OF p run small]
  note owned = owned_pages_take_run [OF run small]
  have jlt: "j < BIG_ADDRESS" using j inv by (auto simp: first_index_Some kheap_inv_def)
  have "k * PMM_BLOCK_SIZE \<noteq> 0" using block_address_inject [of k 0] assms by simp
  then have "entry_ok ?p ?e"
    using fresh owned small \<open>0 < n\<close> block_address_aligned [OF \<open>k < 0x100000\<close>]
    by (auto simp: entry_ok_def word_le_nat_alt)
  moreover have "entry_ok ?p e" if "e \<in> set (big_blocks s)" for e
    using that inv owned by (auto simp: kheap_inv_def entry_ok_def)
  ultimately have entries: "\<forall>e \<in> set ((big_blocks s)[j := ?e]). entry_ok ?p e"
    using set_update_subset_insert [of "big_blocks s" j ?e] by blast
  have "big_region ?e \<inter> big_region e = {}" if "e \<in> set (big_blocks s)" for e
    using region_owned [OF inv that] fresh by blast
  then have "\<forall>i < BIG_ADDRESS. \<forall>l < BIG_ADDRESS. i \<noteq> l \<longrightarrow>
      big_region ((big_blocks s)[j := ?e] ! i) \<inter> big_region ((big_blocks s)[j := ?e] ! l) = {}"
    using inv jlt by (intro nth_disjoint_update) (auto simp: kheap_inv_def)
  with entries show ?thesis
    using take_run_inv [OF p run] inv by (simp add: kheap_inv_def)
qed

text \<open>Looking up the address of a recorded run finds its entry.\<close>

lemma search_recorded:
  assumes inv: "kheap_inv s" and "j < BIG_ADDRESS" and "starting_address (big_blocks s ! j) = a" and "a \<noteq> 0"
  shows "search_address a s = int j"
proof -
  have len: "length (big_blocks s) = BIG_ADDRESS" using inv by (simp add: kheap_inv_def)
  have "starting_address (big_blocks s ! i) \<noteq> a" if "i < j" for i
  proof
    assume "starting_address (big_blocks s ! i) = a"
    moreover have "entry_ok (phys s) (big_blocks s ! i)" "entry_ok (phys s) (big_blocks s ! j)"
      using inv that \<open>j < BIG_ADDRESS\<close> by (auto simp: kheap_inv_def)
    ultimately have "a \<in> big_region (big_blocks s ! i) \<inter> big_region (big_blocks s ! j)"
      using assms(3,4) start_in_region by fastforce
    with inv that \<open>j < BIG_ADDRESS\<close> show False by (auto simp: kheap_inv_def)
  qed
  then have "first_index (\<lambda>e. starting_address e = a) (big_blocks s) = Some j"
    using assms len by (simp add: first_index_Some)
  then show ?thesis by (simp add: search_address_def)
qed

lemma kmallac_big_roundtrip:
  assumes inv: "kheap_inv s" and "sz > 4096" and alloc: "kmallac sz s = (p, s')" and "p \<noteq> 0"
    and j: "first_index (\<lambda>e. starting_address e = 0) (big_blocks s) = Some j"
  shows "kheap_inv s'" and "kfree p s' = s"
proof -
  let ?n = "blocks_for sz"
  define k where "k = pmm_get_first_n_blocks ?n (phys s)"
  have "k \<noteq> 0"
  proof
    assume "k = 0"
    with alloc \<open>sz > 4096\<close> have "p = 0"
      by (auto simp: kmallac_def Let_def k_def allocate_n_failure)
    with \<open>p \<noteq> 0\<close> show False ..
  qed
  note run = big_run [OF inv \<open>sz > 4096\<close> k_def [symmetric] this]
  let ?e = "\<lparr>starting_address = k * PMM_BLOCK_SIZE, blocks = ?n\<rparr>"
  have s': "s' = s\<lparr>phys := take_run k ?n (phys s), big_blocks := (big_blocks s)[j := ?e]\<rparr>"
    and p: "p = k * PMM_BLOCK_SIZE"
    using alloc kmallac_big_success [OF \<open>sz > 4096\<close> k_def [symmetric] \<open>k \<noteq> 0\<close> run(2)] j
    by (auto simp: insert_big_free)
  show inv': "kheap_inv s'"
    unfolding s' by (rule insert_run_inv [OF inv run(1,4,3,2) \<open>k \<noteq> 0\<close> j])
  have jlt: "j < BIG_ADDRESS" and empty: "starting_address (big_blocks s ! j) = 0"
    and len: "length (big_blocks s) = BIG_ADDRESS"
    using j inv by (auto simp: first_index_Some kheap_inv_def)
  have "search_address p s' = int j"
    using jlt len \<open>p \<noteq> 0\<close> by (intro search_recorded [OF inv']) (auto simp: s' p)
  then have "kfree p s' = s'\<lparr>phys := for_u32 0 ?n (\<lambda>i. pmm_free_block (p + i * PMM_BLOCK_SIZE)) (phys s'),
      big_blocks := (big_blocks s')[j := no_big]\<rparr>"
    using block_address_aligned [OF run(2)] jlt len
    by (simp add: kfree_def free_big_blocks_def Let_def p page_aligned_def s')
  also have "\<dots> = s\<lparr>phys := phys s, big_blocks := (big_blocks s)[j := big_blocks s ! j]\<rparr>"
    using free_run_take_run [OF _ run(1)] inv empty_entry [OF inv jlt empty]
    by (simp add: s' p kheap_inv_def)
  also have "\<dots> = s" by simp
  finally show "kfree p s' = s" .
qed

section \<open>The state at boot\<close>

definition kmem_boot :: kmem where
  "kmem_boot = big_blocks_init \<lparr>ram = (\<lambda>_. 0), phys = pmm_boot, big_blocks = []\<rparr>"

lemma kmem_boot_simps [simp]:
  "ram kmem_boot = (\<lambda>_. 0)" "phys kmem_boot = pmm_boot"
  "big_blocks kmem_boot = replicate BIG_ADDRESS no_big"
  by (simp_all add: kmem_boot_def big_blocks_init_def)

lemma big_region_empty [simp]: "blocks e = 0 \<Longrightarrow> big_region e = {}"
  by (simp add: big_region_def)

lemma kmem_boot_inv: "kheap_inv kmem_boot"
  by (simp add: kheap_inv_def entry_ok_def pmm_boot_inv page_aligned_def nth_replicate)

lemma kmem_boot_alloc:
  "sz \<le> 4096 \<Longrightarrow> kmallac sz kmem_boot = (102400000, kmem_boot\<lparr>phys := take_block 25000 pmm_boot\<rparr>)"
  by (simp add: kmallac_small pmm_boot_alloc)

lemma kmem_boot_big:
  "kmallac 10000 kmem_boot = (102400000, kmem_boot\<lparr>phys := take_run 25000 3 pmm_boot,
     big_blocks := no_big\<lparr>starting_address := 102400000, blocks := 3\<rparr> # replicate 99 no_big\<rparr>)"
proof -
  have n: "blocks_for 10000 = 3" by (simp add: blocks_for_def)
  have "replicate 100 no_big = no_big # replicate 99 no_big"
    using replicate_Suc [of 99 no_big] by simp
  then show ?thesis
    using kmallac_big_success [of 10000 kmem_boot 25000] pmm_boot_run
    by (simp add: n insert_in_big_blocks_def)
qed

section \<open>Correctness of the heap\<close>

text \<open>C27: A request of at most one page. \<open>kmallac\<close> returns a page nobody owned, non-null and
  page-aligned, and keeps the heap's invariant; it fails exactly when no block is free, changing
  nothing; and \<open>kfree\<close> of the result restores the heap, its table and the allocator.\<close>

theorem kmallac_page_correct:
  assumes "kheap_inv s" and "sz \<le> 4096" and "kmallac sz s = (p, s')"
  shows "if pmm_free_blocks (phys s) = 0 then p = 0 \<and> s' = s
    else p \<noteq> 0 \<and> page_aligned p \<and> p \<notin> owned_pages (phys s) \<and>
      single_pages s' = insert p (single_pages s) \<and> kheap_inv s' \<and>
      ram s' = ram s \<and> big_blocks s' = big_blocks s \<and> kfree p s' = s"
proof (cases "pmm_free_blocks (phys s) = 0")
  case True
  then show ?thesis
    using assms heap_pages.alloc_fail [OF assms(1)] by (simp add: kmallac_small)
next
  case False
  have eq: "kmallac 4096 s = (p, s')" using assms(2,3) by (simp add: kmallac_small)
  have pos: "0 < unat (pmm_free_blocks (phys s))" using False by (simp add: unat_gt_0)
  have "pmm_inv (phys s)" using assms(1) by (simp add: kheap_inv_def)
  from pmm_pages.alloc_ok [OF this pos] have "p \<notin> owned_pages (phys s)"
    using eq by (auto simp: kmallac_small)
  moreover have "ram s' = ram s" "big_blocks s' = big_blocks s" using eq by (auto simp: kmallac_small)
  ultimately show ?thesis
    using heap_pages.alloc_ok [OF assms(1) pos] eq kmallac_small_roundtrip [OF assms] False by auto
qed

lemma kmallac_page_correct_witness:
  "\<exists>s'. kmallac 76 kmem_boot = (102400000, s') \<and> kheap_inv s' \<and> kfree 102400000 s' = kmem_boot"
  using kmallac_page_correct [OF kmem_boot_inv _ kmem_boot_alloc, of 76] by (simp add: kmem_boot_alloc)

text \<open>C20: A request of more than one page, while the table of runs has a free entry. The result is
  null exactly when no run of enough blocks is free; otherwise it is a page-aligned run that covers the request, whose
  pages nobody owned, it is recorded, the invariant holds, and \<open>kfree\<close> gives back the whole run, restoring
  the state.\<close>

theorem kmallac_run_correct:
  assumes "kheap_inv s" and "sz > 4096" and "\<exists>e \<in> set (big_blocks s). starting_address e = 0"
    and "kmallac sz s = (p, s')"
  shows "unat sz \<le> unat (blocks_for sz) * 4096 \<and>
    (p = 0 \<longleftrightarrow> (\<forall>j. \<not> is_free_run (phys s) (blocks_for sz) j)) \<and>
    (p \<noteq> 0 \<longrightarrow> page_aligned p \<and> kheap_inv s' \<and> ram s' = ram s \<and> kfree p s' = s \<and>
      \<lparr>starting_address = p, blocks = blocks_for sz\<rparr> \<in> set (big_blocks s') \<and>
      big_region \<lparr>starting_address = p, blocks = blocks_for sz\<rparr> \<inter> owned_pages (phys s) = {} \<and>
      owned_pages (phys s') = big_region \<lparr>starting_address = p, blocks = blocks_for sz\<rparr> \<union> owned_pages (phys s))"
proof -
  let ?n = "blocks_for sz"
  let ?k = "pmm_get_first_n_blocks ?n (phys s)"
  obtain j where j: "first_index (\<lambda>e. starting_address e = 0) (big_blocks s) = Some j"
    using assms(3) by (cases "first_index (\<lambda>e. starting_address e = 0) (big_blocks s)") (auto simp: first_index_None)
  then have jlt: "j < length (big_blocks s)" by (simp add: first_index_Some)
  have n: "?n < 0xFFFFFFFF"
    using blocks_for_bounds [of sz] assms(2) by (auto simp: word_less_nat_alt word_le_nat_alt)
  have size_ok: "unat sz \<le> unat ?n * 4096"
    using div_mult_mod_eq [of "unat sz + 4095" 4096] mod_less_divisor [of 4096 "unat sz + 4095"]
    unfolding unat_blocks_for by linarith
  show ?thesis
  proof (cases "?k = 0")
    case True
    then show ?thesis
      using assms(2,4) size_ok get_first_n_blocks_spec(1) [OF n, of "phys s"]
      by (auto simp: kmallac_def allocate_n_failure Let_def)
  next
    case False
    note run = big_run [OF assms(1,2) refl False]
    have eq: "p = ?k * 4096" "s' = s\<lparr>phys := take_run ?k ?n (phys s),
        big_blocks := (big_blocks s)[j := \<lparr>starting_address = ?k * 4096, blocks = ?n\<rparr>]\<rparr>"
      using assms(4) kmallac_big_success [OF assms(2) refl False run(2)] j by (auto simp: insert_big_free)
    have p: "p \<noteq> 0" using block_address_inject [of ?k 0] False run(2) eq by simp
    have inv: "pmm_inv (phys s)" using assms(1) by (simp add: kheap_inv_def)
    have "\<not> (\<forall>j. \<not> is_free_run (phys s) ?n j)" using run(1) by blast
    moreover note kmallac_big_roundtrip [OF assms(1,2,4) p j]
    moreover have "\<lparr>starting_address = p, blocks = ?n\<rparr> \<in> set (big_blocks s')"
      using jlt by (simp add: eq set_update_memI)
    ultimately show ?thesis
      using size_ok p run_pages_fresh(1) [OF inv run(1,3)] owned_pages_take_run [OF run(1,3)]
        block_address_aligned [OF run(2)] by (simp add: eq)
  qed
qed

lemma kmallac_run_correct_witness:
  "\<exists>s'. kmallac 10000 kmem_boot = (102400000, s') \<and> kheap_inv s' \<and> kfree 102400000 s' = kmem_boot"
  using kmallac_run_correct [OF kmem_boot_inv _ _ kmem_boot_big] by (simp add: kmem_boot_big)

text \<open>Once the table of runs is full, a large allocation still succeeds but is not recorded:
  \<open>kfree\<close> of its result then gives back only its first block, and the rest stays in use.\<close>

theorem kmallac_unrecorded_run_leaks:
  assumes "kheap_inv s" and "sz > 4096" and "\<forall>e \<in> set (big_blocks s). starting_address e \<noteq> 0"
    and "kmallac sz s = (p, s')" and "p \<noteq> 0"
  shows "\<exists>k. p = k * 4096 \<and> is_free_run (phys s) (blocks_for sz) k \<and> 1 < blocks_for sz \<and>
    (\<forall>c. allocated (phys (kfree p s')) c \<longleftrightarrow> (k < c \<and> c < k + blocks_for sz) \<or> allocated (phys s) c)"
proof -
  let ?n = "blocks_for sz"
  let ?k = "pmm_get_first_n_blocks ?n (phys s)"
  have full: "first_index (\<lambda>e. starting_address e = 0) (big_blocks s) = None"
    using assms(3) by (simp add: first_index_None)
  have "?k \<noteq> 0"
    using assms(2,4,5) by (auto simp: kmallac_def allocate_n_failure Let_def)
  note run = big_run [OF assms(1,2) refl this]
  have eq: "p = ?k * 4096" "s' = s\<lparr>phys := take_run ?k ?n (phys s)\<rparr>"
    using assms(4) kmallac_big_success [OF assms(2) refl \<open>?k \<noteq> 0\<close> run(2)] full by (auto simp: insert_big_full)
  have inv: "pmm_inv (phys s)" using assms(1) by (simp add: kheap_inv_def)
  have "p \<in> big_region \<lparr>starting_address = ?k * 4096, blocks = ?n\<rparr>"
    using run(4) by (auto simp: big_region_def eq intro: image_eqI [of _ _ 0])
  then have fresh: "p \<notin> owned_pages (phys s)" using run_pages_fresh(1) [OF inv run(1,3)] by blast
  have "starting_address e \<noteq> p" if "e \<in> set (big_blocks s)" for e
    using that region_owned [OF assms(1) that] start_in_region [of "phys s" e] assms(1,3) fresh
    by (auto simp: kheap_inv_def)
  then have "search_address p s' = -1"
    using first_index_None [of "\<lambda>e. starting_address e = p" "big_blocks s"]
    by (auto simp: search_address_def eq(2) split: option.splits)
  then have "kfree p s' = s'\<lparr>phys := pmm_free_block p (phys s')\<rparr>"
    using block_address_aligned [OF run(2)] by (simp add: kfree_def eq(1) page_aligned_def)
  moreover have "p div 4096 = ?k" using run(2) eq by simp
  moreover have lt: "?k < ?k + ?n"
    using run(3,4) unat_word_ariths(1) [of ?k ?n] by (simp add: word_less_nat_alt)
  moreover have "\<not> allocated (phys s) ?k" using run(1) lt by (simp add: is_free_run_def)
  ultimately have "allocated (phys (kfree p s')) c \<longleftrightarrow> (?k < c \<and> c < ?k + ?n) \<or> allocated (phys s) c" for c
    by (auto simp: pmm_free_block_def Let_def eq(2))
  moreover have "1 < ?n" using assms(2) by (simp add: word_less_nat_alt unat_blocks_for)
  ultimately show ?thesis using run(1) eq(1) by blast
qed

text \<open>A heap whose table is full: a hundred runs of one block each.\<close>

definition kmem_full :: kmem where
  "kmem_full = kmem_boot\<lparr>phys := take_run 30000 100 pmm_boot,
     big_blocks := map (\<lambda>i. \<lparr>starting_address = (30000 + of_nat i) * 4096, blocks = 1\<rparr>) [0..<100]\<rparr>"

lemma kmem_full_run: "is_free_run pmm_boot 100 30000"
  by (auto simp: is_free_run_def word_le_nat_alt word_less_nat_alt)

lemma kmem_full_entry:
  assumes "i < 100"
  shows "big_region \<lparr>starting_address = (30000 + of_nat i) * 4096, blocks = 1\<rparr> = {(30000 + of_nat i) * 4096}"
    and "(30000 + of_nat i :: u32) < 0x100000"
proof -
  have "unat (30000 + of_nat i :: u32) = 30000 + i"
    using assms by (simp add: unat_word_ariths unat_of_nat_u32)
  then show "(30000 + of_nat i :: u32) < 0x100000" using assms by (simp add: word_less_nat_alt)
  have "{i :: u32. i < 1} = {0}" by (auto simp: word_less_nat_alt unat_eq_zero)
  then show "big_region \<lparr>starting_address = (30000 + of_nat i) * 4096, blocks = 1\<rparr> = {(30000 + of_nat i) * 4096}"
    by (simp add: big_region_def)
qed

lemma kmem_full_address:
  assumes "i < 100" "j < 100"
  shows "(30000 + of_nat i :: u32) * 4096 = (30000 + of_nat j) * 4096 \<longleftrightarrow> i = j"
proof -
  have "(of_nat i :: u32) = of_nat j \<longleftrightarrow> i = j" using assms by (intro of_nat_u32_inject) simp_all
  then show ?thesis
    using block_address_inject [OF kmem_full_entry(2) [OF assms(1)] kmem_full_entry(2) [OF assms(2)]]
    by (metis add_left_cancel)
qed

lemma kmem_full_inv: "kheap_inv kmem_full"
proof -
  let ?e = "\<lambda>i. \<lparr>starting_address = (30000 + of_nat i) * 4096, blocks = 1 :: u32\<rparr>"
  have inv: "pmm_inv (take_run 30000 100 pmm_boot)"
    by (rule take_run_inv [OF pmm_boot_inv kmem_full_run])
  have "entry_ok (take_run 30000 100 pmm_boot) (?e i)" if i: "i < 100" for i
  proof -
    have lt: "(30000 + of_nat i :: u32) < 0x100000" by (rule kmem_full_entry(2) [OF i])
    have u: "unat (30000 + of_nat i :: u32) = 30000 + i"
      using i by (simp add: unat_word_ariths unat_of_nat_u32)
    have "(30000 + of_nat i :: u32) \<noteq> 0"
    proof
      assume "(30000 + of_nat i :: u32) = 0"
      then have "unat (30000 + of_nat i :: u32) = unat (0 :: u32)" by (rule arg_cong)
      with u show False by simp
    qed
    then have nz: "(30000 + of_nat i :: u32) * 4096 \<noteq> 0" using block_address_inject [OF lt, of 0] by simp
    have "30000 + of_nat i \<in> alloc_set (take_run 30000 100 pmm_boot)"
      using i u by (simp add: alloc_set_def word_le_nat_alt word_less_nat_alt)
    then have "(30000 + of_nat i) * 4096 \<in> owned_pages (take_run 30000 100 pmm_boot)"
      using owned_pages_iff [OF inv lt] by simp
    then show ?thesis
      using nz block_address_aligned [OF lt] kmem_full_entry(1) [OF i]
      by (simp add: entry_ok_def)
  qed
  moreover have "big_region (?e i) \<inter> big_region (?e j) = {}" if "i < 100" "j < 100" "i \<noteq> j" for i j
    using that kmem_full_entry(1) kmem_full_address by simp
  ultimately show ?thesis
    using inv by (simp add: kheap_inv_def kmem_full_def del: upt_rec_numeral)
qed

lemma kmem_full_simps:
  "phys kmem_full = take_run 30000 100 pmm_boot"
  "e \<in> set (big_blocks kmem_full) \<Longrightarrow> starting_address e \<noteq> 0"
proof -
  show "phys kmem_full = take_run 30000 100 pmm_boot" by (simp add: kmem_full_def)
  assume "e \<in> set (big_blocks kmem_full)"
  then obtain i where i: "i < 100" "e = \<lparr>starting_address = (30000 + of_nat i) * 4096, blocks = 1\<rparr>"
    by (auto simp: kmem_full_def simp del: upt_rec_numeral)
  then have "e \<in> set (big_blocks kmem_full)" "blocks e \<noteq> 0"
    by (auto simp: kmem_full_def simp del: upt_rec_numeral)
  then show "starting_address e \<noteq> 0"
    using kmem_full_inv by (auto simp: kheap_inv_def entry_ok_def)
qed

lemma kmem_full_run_3: "\<not> (\<forall>j. \<not> is_free_run (phys kmem_full) 3 j)"
proof -
  have "is_free_run (phys kmem_full) 3 25000"
    by (auto simp: kmem_full_simps is_free_run_def word_le_nat_alt word_less_nat_alt)
  then show ?thesis by blast
qed

lemma kmem_full_alloc: "fst (kmallac 10000 kmem_full) \<noteq> 0"
proof -
  let ?k = "pmm_get_first_n_blocks (blocks_for 10000) (phys kmem_full)"
  have k0: "?k \<noteq> 0"
    using kmem_full_run_3 get_first_n_blocks_spec(1) [of 3 "phys kmem_full"] by (simp add: blocks_for_def)
  have "?k < 0x100000" using big_run(2) [OF kmem_full_inv _ refl k0] by simp
  then have "?k * 4096 \<noteq> 0" using block_address_inject [of ?k 0] k0 by simp
  then show ?thesis
    using kmallac_big_success [OF _ refl k0 \<open>?k < 0x100000\<close>] by simp
qed

lemma kmallac_unrecorded_run_leaks_witness:
  "\<exists>c. \<not> allocated (phys kmem_full) c \<and>
     allocated (phys (kfree (fst (kmallac 10000 kmem_full)) (snd (kmallac 10000 kmem_full)))) c"
proof -
  from kmallac_unrecorded_run_leaks [OF kmem_full_inv _ _ surjective_pairing kmem_full_alloc] kmem_full_simps(2)
  obtain k where k: "is_free_run (phys kmem_full) (blocks_for 10000) k" and
    c: "\<And>c. allocated (phys (kfree (fst (kmallac 10000 kmem_full)) (snd (kmallac 10000 kmem_full)))) c \<longleftrightarrow>
      (k < c \<and> c < k + blocks_for 10000) \<or> allocated (phys kmem_full) c" by auto
  have n: "blocks_for 10000 = 3" by (simp add: blocks_for_def)
  have "unat k + 3 < 250000" using k by (simp add: n is_free_run_def kmem_full_simps)
  then have "unat (k + 1) = unat k + 1" "unat (k + 3) = unat k + 3"
    by (simp_all add: unat_word_ariths)
  then have "k \<le> k + 1" "k < k + 1" "k + 1 < k + 3" by (simp_all add: word_less_nat_alt word_le_nat_alt)
  then show ?thesis using k c [of "k + 1"] n by (auto simp: is_free_run_def)
qed

text \<open>C36: A sequence of single-page requests. While enough blocks are free, \<open>n\<close> successive calls return
  \<open>n\<close> distinct non-null aligned pages that were not in use for anything, neither as single pages nor inside a recorded
  run; the pages in use grow by exactly these and the table of runs is unchanged. Freeing them in any order restores the whole
  state of the heap.\<close>

theorem kmallac_sequence_distinct:
  assumes "kheap_inv s" and "n \<le> unat (pmm_free_blocks (phys s))"
    and "alloc_many (kmallac 4096) n s = (ps, s')" and "mset qs = mset ps"
  shows "length ps = n \<and> distinct ps \<and> (\<forall>p \<in> set ps. p \<noteq> 0 \<and> page_aligned p \<and> p \<notin> owned_pages (phys s)) \<and>
    kheap_inv s' \<and> owned_pages (phys s') = set ps \<union> owned_pages (phys s) \<and> big_blocks s' = big_blocks s \<and>
    fold kfree qs s' = s"
proof -
  obtain t where t: "alloc_many pmm_allocate_block n (phys s) = (ps, t)" "s' = s\<lparr>phys := t\<rparr>"
    using kmallac_many [of n s] assms(3) by (cases "alloc_many pmm_allocate_block n (phys s)") auto
  have inv: "pmm_inv (phys s)" using assms(1) by (simp add: kheap_inv_def)
  note p = pmm_pages.alloc_many_ok [OF inv assms(2) t(1)]
  from heap_pages.alloc_many_ok [OF assms(1-3)] have a: "distinct ps" "single_pages s' = set ps \<union> single_pages s"
    "kheap_inv s'" by blast+
  have qs: "distinct qs" "set qs = set ps" "length qs = n"
    using p assms(4) by (metis mset_eq_imp_distinct_iff, metis mset_eq_setD, metis mset_eq_length)
  have "fold kfree qs s' = s'\<lparr>phys := fold pmm_free_block qs (phys s')\<rparr>"
    using a p qs by (intro kfree_many) auto
  also have "\<dots> = s" using pmm_many_roundtrip [OF inv assms(2) t(1) qs(2,3)] t(2) by simp
  finally show ?thesis using p a t(2) by auto
qed

lemma kmallac_sequence_distinct_witness:
  "distinct (fst (alloc_many (kmallac 4096) 1026 kmem_boot)) \<and>
    length (fst (alloc_many (kmallac 4096) 1026 kmem_boot)) = 1026 \<and>
    fold kfree (rev (fst (alloc_many (kmallac 4096) 1026 kmem_boot))) (snd (alloc_many (kmallac 4096) 1026 kmem_boot)) = kmem_boot"
  using kmallac_sequence_distinct [OF kmem_boot_inv _ surjective_pairing mset_rev, of 1026] by simp

text \<open>\<open>kfree(0)\<close>. While the table of runs has an unused entry the null pointer matches that entry and
  nothing happens. With the table full, \<open>kfree(0)\<close> releases block 0, and then every later
  request of at most one page fails although blocks are free.\<close>

theorem kfree_null:
  assumes "kheap_inv s"
  shows "if \<exists>e \<in> set (big_blocks s). starting_address e = 0 then kfree 0 s = s
    else \<not> allocated (phys (kfree 0 s)) 0 \<and> (\<forall>sz \<le> 4096. kmallac sz (kfree 0 s) = (0, kfree 0 s))"
proof (cases "\<exists>e \<in> set (big_blocks s). starting_address e = 0")
  case True
  then obtain j where j: "first_index (\<lambda>e. starting_address e = 0) (big_blocks s) = Some j"
    by (cases "first_index (\<lambda>e. starting_address e = 0) (big_blocks s)") (auto simp: first_index_None)
  then have "j < BIG_ADDRESS" "starting_address (big_blocks s ! j) = 0"
    using assms by (auto simp: first_index_Some kheap_inv_def)
  from empty_entry [OF assms this] have e: "big_blocks s ! j = no_big" .
  have "(big_blocks s)[j := no_big] = big_blocks s" using list_update_id [of "big_blocks s" j] e by simp
  then have "kfree 0 s = s"
    using j e by (simp add: kfree_def free_big_blocks_def search_address_def Let_def)
  with True show ?thesis by simp
next
  case False
  then have "first_index (\<lambda>e. starting_address e = 0) (big_blocks s) = None"
    by (auto simp: first_index_None)
  then have k: "kfree 0 s = s\<lparr>phys := pmm_free_block 0 (phys s)\<rparr>"
    by (simp add: kfree_def search_address_def)
  let ?p = "pmm_free_block 0 (phys s)"
  have free0: "\<not> allocated ?p 0" by (simp add: pmm_free_block_def Let_def)
  have "pmm_get_first_free_block ?p \<le>s 0"
  proof (cases "0 < pmm_system_memory_size ?p")
    case True
    then have "is_first_free ?p 0" using free0 by (simp add: is_first_free_def)
    then show ?thesis by (simp add: first_free_block)
  next
    case False
    then show ?thesis
      by (simp add: pmm_get_first_free_block_def pmm_get_block_count_def find_u32.simps sle0_iff_u32)
  qed
  then have "pmm_allocate_block ?p = (0, ?p)" by (simp add: pmm_allocate_block_def)
  then show ?thesis using False free0 k by (simp add: kmallac_small)
qed

lemma kfree_null_witness:
  "kfree 0 kmem_boot = kmem_boot \<and> fst (kmallac 16 (kfree 0 kmem_full)) = 0"
proof -
  have "(\<exists>e \<in> set (big_blocks kmem_boot). starting_address e = 0)" by simp
  then have "kfree 0 kmem_boot = kmem_boot" using kfree_null [OF kmem_boot_inv] by (simp only: if_True)
  moreover have "kmallac 16 (kfree 0 kmem_full) = (0, kfree 0 kmem_full)"
    using kfree_null [OF kmem_full_inv] kmem_full_simps(2) by (auto split: if_splits)
  ultimately show ?thesis by simp
qed

text \<open>\<open>kzalloc\<close> returns what \<open>kmallac\<close> returns and zeroes exactly the requested bytes from that
  address. The pointer is not checked: when memory is exhausted the bytes zeroed are those at address 0.\<close>

theorem kzalloc_correct:
  assumes "kzalloc sz s = (p, s')"
  shows "\<exists>t. kmallac sz s = (p, t) \<and> phys s' = phys t \<and> big_blocks s' = big_blocks t \<and>
    (\<forall>a. ram s' a = (if a - p < sz then 0 else ram s a)) \<and>
    (sz \<le> 4096 \<and> pmm_free_blocks (phys s) = 0 \<longrightarrow> p = 0 \<and> (\<forall>a < sz. ram s' a = 0))"
proof -
  obtain t where t: "kmallac sz s = (p, t)" "s' = t\<lparr>ram := memset (ram t) p 0 sz\<rparr>"
    using assms by (auto simp: kzalloc_def split: prod.splits)
  have "ram t = ram s"
    using t(1) by (auto simp: kmallac_def insert_in_big_blocks_def Let_def split: prod.splits if_splits option.splits)
  moreover have "p = 0" if "sz \<le> 4096" "pmm_free_blocks (phys s) = 0"
    using that t(1) by (simp add: kmallac_small allocate_block_failure)
  ultimately show ?thesis using t by (auto simp: memset_apply)
qed

lemma kzalloc_correct_witness:
  "ram (snd (kzalloc 64 (kmem_boot\<lparr>ram := (\<lambda>_. 7)\<rparr>))) 102400000 = 0 \<and>
    ram (snd (kzalloc 64 (kmem_boot\<lparr>ram := (\<lambda>_. 7)\<rparr>))) 102400064 = 7"
proof -
  have "fst (kzalloc 64 (kmem_boot\<lparr>ram := (\<lambda>_. 7)\<rparr>)) = 102400000"
    by (simp add: kzalloc_def kmallac_small pmm_boot_alloc split_def)
  then show ?thesis
    using kzalloc_correct [OF surjective_pairing, of 64 "kmem_boot\<lparr>ram := (\<lambda>_. 7)\<rparr>"] by auto
qed

end
