(* ===== verification/Disk.thy ===== *)
theory Disk imports KHeap
begin

text \<open>
  The disk driver \<open>src/src/disk/disk.c\<close> and the byte stream over it, \<open>src/src/disk/streamer.c\<close>.

  The drive is hardware: the driver is a function of a device that answers port accesses.
  \<open>ata_conforms\<close> is what the driver relies on, the documented protocol of an ATA drive: the task-file
  registers take what is written to their ports, command \<open>0x20\<close> selects the sectors that the registers
  name, after finitely many status polls the data-ready bit comes up, and the data port delivers
  the words in order. The stream is verified over the sector contents, \<open>img\<close>;
  \<open>disk_read_sectors_correct\<close> shows that a one-sector read by the driver is what the stream takes it to be. Reading past the end of the 512-byte buffer of \<open>disk_streamer_read\<close> is
  the error value \<open>Inl Over_read\<close>.
\<close>

section \<open>The driver\<close>

record 'd device =
  dev_outb :: "u16 \<Rightarrow> u8 \<Rightarrow> 'd \<Rightarrow> 'd"
  dev_inb :: "u16 \<Rightarrow> 'd \<Rightarrow> u8 \<times> 'd"
  dev_inw :: "u16 \<Rightarrow> 'd \<Rightarrow> u16 \<times> 'd"

text \<open>\<open>while (!(c & 0x08)) c = inb(0x1F7);\<close> with the read before it.\<close>

partial_function (option) disk_wait :: "'d device \<Rightarrow> 'd \<Rightarrow> 'd option" where
  "disk_wait dev d =
     (let (c, d) = dev_inb dev 0x1F7 d
      in if c AND 0x08 = 0 then disk_wait dev d else Some d)"

definition disk_read_words :: "'d device \<Rightarrow> u32 \<Rightarrow> 'd \<times> mem \<Rightarrow> 'd \<times> mem" where
  "disk_read_words dev ptr =
     for_u32 0 256 (\<lambda>i (d, m). let (w, d) = dev_inw dev 0x1F0 d in (d, store16 m (ptr + i * 2) w))"

function disk_read_loop :: "'d device \<Rightarrow> u32 \<Rightarrow> u32 \<Rightarrow> u32 \<Rightarrow> 'd \<times> mem \<Rightarrow> ('d \<times> mem) option" where
  "disk_read_loop dev b cnt ptr s =
     (if b < cnt then
        (case disk_wait dev (fst s) of
           None \<Rightarrow> None
         | Some d \<Rightarrow> disk_read_loop dev (b + 1) cnt (ptr + 512) (disk_read_words dev ptr (d, snd s)))
      else Some s)"
  by pat_completeness auto
termination
  by (relation "measure (\<lambda>(dev, b, cnt, ptr, s). unat cnt - unat b)")
     (auto simp: unat_inc_less word_less_nat_alt)

declare disk_read_loop.simps [simp del]

definition disk_command :: "'d device \<Rightarrow> u32 \<Rightarrow> u32 \<Rightarrow> 'd \<Rightarrow> 'd" where
  "disk_command dev lba cnt d =
     (let d = dev_outb dev 0x1F6 0xE0 d;
          d = dev_outb dev 0x1F2 (ucast cnt) d;
          d = dev_outb dev 0x1F3 (ucast (lba AND 0xff)) d;
          d = dev_outb dev 0x1F4 (ucast (drop_bit 8 lba)) d;
          d = dev_outb dev 0x1F5 (ucast (drop_bit 16 lba)) d
      in dev_outb dev 0x1F7 0x20 d)"

text \<open>\<open>None\<close> when a status poll never ends; otherwise the result 0, the drive and RAM.\<close>

definition disk_read_sectors :: "'d device \<Rightarrow> u32 \<Rightarrow> u32 \<Rightarrow> u32 \<Rightarrow> 'd \<times> mem \<Rightarrow> (int \<times> 'd \<times> mem) option" where
  "disk_read_sectors dev lba cnt buffer s =
     (case disk_read_loop dev 0 cnt buffer (disk_command dev lba cnt (fst s), snd s) of
        None \<Rightarrow> None
      | Some (d, m) \<Rightarrow> Some (0, d, m))"

definition disk_get :: "u32 \<Rightarrow> u32 \<Rightarrow> u32" where
  "disk_get disk index = (if index \<noteq> 0 then 0 else disk)"

definition disk_read_block ::
    "'d device \<Rightarrow> u32 \<Rightarrow> u32 \<Rightarrow> u32 \<Rightarrow> u32 \<Rightarrow> u32 \<Rightarrow> 'd \<times> mem \<Rightarrow> (int \<times> 'd \<times> mem) option" where
  "disk_read_block dev disk idisk lba cnt buf s =
     (if idisk \<noteq> disk then Some (-1, s)
      else case disk_read_sectors dev lba cnt buf s of
          None \<Rightarrow> None
        | Some (res, s') \<Rightarrow> Some (if res = 0 then 1 else 0, s'))"

section \<open>What the drive does\<close>

text \<open>Polling the status register until the data-ready bit is seen after \<open>n\<close> busy answers.\<close>

fun ata_ready :: "'d device \<Rightarrow> nat \<Rightarrow> 'd \<Rightarrow> 'd \<Rightarrow> bool" where
  "ata_ready dev 0 d d' \<longleftrightarrow> (\<exists>c. dev_inb dev 0x1F7 d = (c, d') \<and> c AND 0x08 \<noteq> 0)"
| "ata_ready dev (Suc n) d d' \<longleftrightarrow>
     (\<exists>c d1. dev_inb dev 0x1F7 d = (c, d1) \<and> c AND 0x08 = 0 \<and> ata_ready dev n d1 d')"

text \<open>The data port delivers the given words.\<close>

fun ata_words :: "'d device \<Rightarrow> u16 list \<Rightarrow> 'd \<Rightarrow> 'd \<Rightarrow> bool" where
  "ata_words dev [] d d' \<longleftrightarrow> d' = d"
| "ata_words dev (w # ws) d d' \<longleftrightarrow> (\<exists>d1. dev_inw dev 0x1F0 d = (w, d1) \<and> ata_words dev ws d1 d')"

fun ata_sectors :: "'d device \<Rightarrow> u16 list list \<Rightarrow> 'd \<Rightarrow> 'd \<Rightarrow> bool" where
  "ata_sectors dev [] d d' \<longleftrightarrow> d' = d"
| "ata_sectors dev (sec # secs) d d' \<longleftrightarrow>
     (\<exists>n d1 d2. ata_ready dev n d d1 \<and> ata_words dev sec d1 d2 \<and> ata_sectors dev secs d2 d')"

text \<open>
  The registers of the drive: drive and head at \<open>0x1F6\<close>, sector count at \<open>0x1F2\<close>, the bytes of the address at \<open>0x1F3\<close> to \<open>0x1F5\<close>,
  and what the data port has still to deliver. \<open>READ SECTORS\<close>, command \<open>0x20\<close>, is obeyed in LBA mode (bit 6 of the drive register);
  a count of 0 means 256 sectors, and the low four bits of the drive register are the high bits of the address.
\<close>

record ata_drive =
  ata_device :: u8
  ata_count :: u8
  ata_low :: u8
  ata_mid :: u8
  ata_high :: u8
  ata_data :: "u16 list list"

definition ata_address :: "ata_drive \<Rightarrow> u32" where
  "ata_address r = ucast (ata_low r) OR push_bit 8 (ucast (ata_mid r)) OR push_bit 16 (ucast (ata_high r)) OR
     push_bit 24 (ucast (ata_device r) AND 0xF)"

definition ata_sector_count :: "ata_drive \<Rightarrow> nat" where
  "ata_sector_count r = (if ata_count r = 0 then 256 else unat (ata_count r))"

definition ata_write :: "(u32 \<Rightarrow> u16 list) \<Rightarrow> u16 \<Rightarrow> u8 \<Rightarrow> ata_drive \<Rightarrow> ata_drive" where
  "ata_write img p v r =
     (if p = 0x1F2 then r\<lparr>ata_count := v\<rparr>
      else if p = 0x1F3 then r\<lparr>ata_low := v\<rparr>
      else if p = 0x1F4 then r\<lparr>ata_mid := v\<rparr>
      else if p = 0x1F5 then r\<lparr>ata_high := v\<rparr>
      else if p = 0x1F6 then r\<lparr>ata_device := v\<rparr>
      else if p = 0x1F7 then
        r\<lparr>ata_data := (if v = 0x20 \<and> bit (ata_device r) 6
           then map (\<lambda>k. img (ata_address r + of_nat k)) [0..<ata_sector_count r] else [])\<rparr>
      else r)"

text \<open>A device whose states have such registers, \<open>regs\<close>, and that follows the protocol.\<close>

definition ata_conforms :: "'d device \<Rightarrow> (u32 \<Rightarrow> u16 list) \<Rightarrow> ('d \<Rightarrow> ata_drive) \<Rightarrow> bool" where
  "ata_conforms dev img regs \<longleftrightarrow>
     (\<forall>p v d. regs (dev_outb dev p v d) = ata_write img p v (regs d)) \<and>
     (\<forall>d. ata_data (regs d) \<noteq> [] \<longrightarrow> (\<exists>n d'. ata_ready dev n d d' \<and> regs d' = regs d)) \<and>
     (\<forall>d w ws secs. ata_data (regs d) = (w # ws) # secs \<longrightarrow>
        (\<exists>d'. dev_inw dev 0x1F0 d = (w, d') \<and> regs d' = (regs d)\<lparr>ata_data := (if ws = [] then secs else ws # secs)\<rparr>))"

lemma conforms_words:
  assumes "ata_conforms dev img regs"
  shows "ata_data (regs d) = ws # secs \<Longrightarrow> ws \<noteq> [] \<Longrightarrow> \<exists>d'. ata_words dev ws d d' \<and> ata_data (regs d') = secs"
proof (induction ws arbitrary: d)
  case (Cons w ws)
  then obtain d1 where d1: "dev_inw dev 0x1F0 d = (w, d1)"
    "regs d1 = (regs d)\<lparr>ata_data := (if ws = [] then secs else ws # secs)\<rparr>"
    using assms unfolding ata_conforms_def by blast
  show ?case
  proof (cases "ws = []")
    case True
    then show ?thesis using d1 by auto
  next
    case False
    then show ?thesis using Cons.IH [of d1] d1 by auto
  qed
qed simp

lemma conforms_sectors:
  assumes "ata_conforms dev img regs"
  shows "ata_data (regs d) = secs @ rest \<Longrightarrow> [] \<notin> set secs \<Longrightarrow> \<exists>d'. ata_sectors dev secs d d'"
proof (induction secs arbitrary: d)
  case (Cons sec secs)
  then have "ata_data (regs d) \<noteq> []" by simp
  then obtain n d1 where d1: "ata_ready dev n d d1" "regs d1 = regs d" using assms unfolding ata_conforms_def by blast
  then obtain d2 where "ata_words dev sec d1 d2" "ata_data (regs d2) = secs @ rest"
    using conforms_words [OF assms, of d1 sec "secs @ rest"] Cons.prems by auto
  then show ?case using Cons.IH [of d2] Cons.prems(2) d1(1) by auto
qed (auto intro: exI)

lemma command_address:
  fixes lba :: u32
  shows "ata_address (r\<lparr>ata_device := 0xE0, ata_count := c, ata_low := ucast (lba AND 0xff),
    ata_mid := ucast (drop_bit 8 lba), ata_high := ucast (drop_bit 16 lba)\<rparr>) = lba AND 0xFFFFFF"
proof -
  have "(0xFF :: u32) = mask 8" "(0xFFFFFF :: u32) = mask 24" "(ucast (0xE0 :: u8) :: u32) AND 0xF = 0"
    by (simp_all add: mask_eq_exp_minus_1)
  then have "ata_address (r\<lparr>ata_device := 0xE0, ata_count := c, ata_low := ucast (lba AND 0xff),
      ata_mid := ucast (drop_bit 8 lba), ata_high := ucast (drop_bit 16 lba)\<rparr>) =
    ucast (ucast (lba AND mask 8) :: u8) OR push_bit 8 (ucast (ucast (drop_bit 8 lba) :: u8)) OR
    push_bit 16 (ucast (ucast (drop_bit 16 lba) :: u8))"
    by (simp add: ata_address_def)
  also have "\<dots> = lba AND mask 24"
  proof (rule bit_word_eqI)
    fix i :: nat
    consider "i < 8" | "8 \<le> i" "i < 16" | "16 \<le> i" by linarith
    then show "bit ((ucast (ucast (lba AND mask 8) :: u8) :: u32) OR push_bit 8 (ucast (ucast (drop_bit 8 lba) :: u8)) OR
        push_bit 16 (ucast (ucast (drop_bit 16 lba) :: u8))) i = bit (lba AND mask 24) i"
      by cases (auto simp: bit_simps)
  qed
  finally show ?thesis by (simp add: mask_eq_exp_minus_1)
qed

lemma command_count:
  assumes "unat n \<le> 256"
  shows "ata_sector_count (r\<lparr>ata_device := v, ata_count := ucast n, ata_low := a, ata_mid := b, ata_high := c\<rparr>) =
    (if n = 0 then 256 else unat n)"
proof -
  have u: "unat (ucast n :: u8) = unat n mod 256" by (simp add: unsigned_ucast_eq take_bit_eq_mod)
  moreover from u have "ucast n = (0 :: u8) \<longleftrightarrow> unat n mod 256 = 0" by (metis unat_eq_zero)
  moreover have "unat n = 0 \<longleftrightarrow> n = 0" by (simp add: unat_eq_0)
  ultimately show ?thesis using assms by (cases "unat n = 256") (auto simp: ata_sector_count_def)
qed

text \<open>The six writes of the driver name the sectors from the low 24 bits of the address on.\<close>

lemma command_registers:
  assumes "ata_conforms dev img regs" and "unat n \<le> 256"
  shows "ata_data (regs (disk_command dev lba n d)) = map (\<lambda>k. img ((lba AND 0xFFFFFF) + of_nat k)) [0..<unat n] @
    (if n = 0 then map (\<lambda>k. img ((lba AND 0xFFFFFF) + of_nat k)) [0..<256] else [])"
proof -
  obtain r where r: "r = (regs d)\<lparr>ata_device := 0xE0, ata_count := ucast n, ata_low := ucast (lba AND 0xff),
    ata_mid := ucast (drop_bit 8 lba), ata_high := ucast (drop_bit 16 lba)\<rparr>" by blast
  have out: "regs (dev_outb dev p v d) = ata_write img p v (regs d)" for p v d
    using assms(1) by (simp add: ata_conforms_def)
  have "regs (disk_command dev lba n d) = ata_write img 0x1F7 0x20 r"
    unfolding disk_command_def Let_def out r by (simp add: ata_write_def)
  moreover have "bit (ata_device r) 6" unfolding r by simp
  ultimately have data: "ata_data (regs (disk_command dev lba n d)) =
      map (\<lambda>k. img (ata_address r + of_nat k)) [0..<ata_sector_count r]"
    by (simp only: ata_write_def) simp
  have address: "ata_address r = lba AND 0xFFFFFF"
    unfolding r by (rule command_address)
  have "ata_sector_count r = (if n = 0 then 256 else unat n)"
    using assms(2) unfolding r by (rule command_count)
  then show ?thesis unfolding data address by simp
qed

fun word_bytes :: "u16 list \<Rightarrow> u8 list" where
  "word_bytes [] = []"
| "word_bytes (w # ws) = ucast w # ucast (drop_bit 8 w) # word_bytes ws"

lemma length_word_bytes [simp]: "length (word_bytes ws) = 2 * length ws"
  by (induction ws rule: word_bytes.induct) auto

lemma disk_wait_ready: "ata_ready dev n d d' \<Longrightarrow> disk_wait dev d = Some d'"
proof (induction n arbitrary: d)
  case 0
  then show ?case by (subst disk_wait.simps) (auto simp: Let_def)
next
  case (Suc n)
  then show ?case by (subst disk_wait.simps) (auto simp: Let_def)
qed

lemma read_words_fold:
  assumes "ata_words dev ws d d'"
  shows "fold (\<lambda>i (d, m). let (w, d) = dev_inw dev 0x1F0 d in (d, store16 m (ptr + of_nat i * 2) w))
      [k..<k + length ws] (d, m) = (d', write_bytes m (ptr + of_nat k * 2) (word_bytes ws))"
  using assms
proof (induction ws arbitrary: d m k)
  case (Cons w ws)
  then obtain d1 where d1: "dev_inw dev 0x1F0 d = (w, d1)" "ata_words dev ws d1 d'" by auto
  have upt: "[k..<k + length (w # ws)] = k # [Suc k..<Suc k + length ws]" by (subst upt_conv_Cons) simp_all
  have p: "ptr + of_nat k * 2 + 1 + 1 = ptr + of_nat (Suc k) * 2" by (simp add: algebra_simps)
  show ?case
    unfolding upt using Cons.IH [OF d1(2), of "Suc k"] d1(1)
    by (simp add: store16_def p [symmetric] del: of_nat_Suc upt_Suc fun_upd_apply)
qed simp

lemma disk_read_words_result:
  assumes "ata_words dev ws d d'" and "length ws = 256"
  shows "disk_read_words dev ptr (d, m) = (d', write_bytes m ptr (word_bytes ws))"
proof -
  have "unat (256 :: u32) = 0 + length ws" using assms(2) by simp
  then show ?thesis
    using read_words_fold [OF assms(1), of ptr 0 m]
    by (simp add: disk_read_words_def for_u32_fold del: upt_rec_numeral)
qed

lemma write_bytes_append:
  "write_bytes m p (xs @ ys) = write_bytes (write_bytes m p xs) (p + of_nat (length xs)) ys"
  by (induction xs arbitrary: m p) (simp_all add: add.assoc)

lemma disk_read_loop_result:
  assumes "ata_sectors dev secs d d'" and "\<forall>s \<in> set secs. length s = 256"
    and "unat cnt = unat b + length secs"
  shows "disk_read_loop dev b cnt ptr (d, m) =
    Some (d', write_bytes m ptr (concat (map word_bytes secs)))"
  using assms
proof (induction secs arbitrary: b d m ptr)
  case Nil
  then show ?case by (simp add: disk_read_loop.simps word_less_nat_alt)
next
  case (Cons sec secs)
  then obtain n d1 d2 where d: "ata_ready dev n d d1" "ata_words dev sec d1 d2" "ata_sectors dev secs d2 d'" by auto
  have b: "b < cnt" using Cons.prems(3) by (simp add: word_less_nat_alt)
  then have "unat cnt = unat (b + 1) + length secs" using Cons.prems(3) by (simp add: unat_inc_less)
  from Cons.IH [OF d(3) _ this] Cons.prems(2) b show ?case
    using disk_wait_ready [OF d(1)] disk_read_words_result [OF d(2)]
    by (simp add: disk_read_loop.simps [of dev b] write_bytes_append)
qed

section \<open>The byte stream\<close>

text \<open>
  A stream is a \<open>struct disk_stream\<close> in RAM: \<open>pos\<close> at offset 0 and \<open>disk\<close> at offset 4. The kernel has
  one disk, at address \<open>disk\<close>, and sector \<open>k\<close> of it holds the 512 bytes \<open>img k\<close>. A one-sector
  \<open>disk_read_block\<close> into the 512-byte local buffer of \<open>disk_streamer_read\<close> is the value of \<open>stream_block\<close>; the theorem on
  \<open>disk_read_sectors\<close> below shows that the port driver computes it. The buffer itself is on the stack and not part of RAM.
\<close>

datatype disk_fault = Over_read

definition stream_block :: "(u32 \<Rightarrow> u8 list) \<Rightarrow> u32 \<Rightarrow> u32 \<Rightarrow> u32 \<Rightarrow> int \<times> u8 list" where
  "stream_block img disk idisk lba = (if idisk \<noteq> disk then (-1, []) else (1, img lba))"

definition create_disk_streamer :: "u32 \<Rightarrow> u32 \<Rightarrow> kmem \<Rightarrow> u32 \<times> kmem" where
  "create_disk_streamer disk disk_id s =
     (let d = disk_get disk disk_id in
      if d = 0 then (0, s)
      else
        let (streamer, s) = kmallac 8 s;
            m = store32 (ram s) streamer 0;
            m = store32 m (streamer + 4) d
        in (streamer, s\<lparr>ram := m\<rparr>))"

definition disk_streamer_seek :: "u32 \<Rightarrow> u32 \<Rightarrow> mem \<Rightarrow> int \<times> mem" where
  "disk_streamer_seek streamer pos m = (0, store32 m streamer pos)"

text \<open>The copy loop reads \<open>buffer[offset + i]\<close>; beyond index 511 that is outside the buffer.\<close>

definition stream_copy :: "u8 list \<Rightarrow> u32 \<Rightarrow> u32 \<Rightarrow> u32 \<Rightarrow> mem \<Rightarrow> disk_fault + mem" where
  "stream_copy buffer offset out n m =
     (if unat offset + unat n \<le> 512
      then Inr (for_u32 0 n (\<lambda>i m. m(out + i := buffer ! unat (offset + i))) m)
      else Inl Over_read)"

function disk_streamer_read ::
    "(u32 \<Rightarrow> u8 list) \<Rightarrow> u32 \<Rightarrow> u32 \<Rightarrow> u32 \<Rightarrow> u32 \<Rightarrow> mem \<Rightarrow> disk_fault + (int \<times> mem)" where
  "disk_streamer_read img disk stream out cnt m =
     (let pos = load32 m stream;
          sector = (if pos = 0 then 0 else pos div 512);
          offset = pos mod 512;
          (res, buffer) = stream_block img disk (load32 m (stream + 4)) sector
      in if res < 0 then Inr (res, m)
         else
           let total_to_read = (if cnt > 512 then 512 else cnt) in
           case stream_copy buffer offset out total_to_read m of
             Inl e \<Rightarrow> Inl e
           | Inr m1 \<Rightarrow>
               let m2 = store32 m1 stream (load32 m1 stream + total_to_read) in
               if cnt > 512 then
                 (case disk_streamer_read img disk stream (out + total_to_read) (cnt - 512) m2 of
                    Inl e \<Rightarrow> Inl e
                  | Inr (r, m3) \<Rightarrow> Inr (res + r, m3))
               else Inr (res, m2))"
  by pat_completeness auto
termination
  by (relation "measure (\<lambda>(img, disk, stream, out, cnt, m). unat cnt)")
     (auto simp: unat_sub word_less_nat_alt word_le_nat_alt)

declare disk_streamer_read.simps [simp del]

definition disk_streamer_close :: "u32 \<Rightarrow> kmem \<Rightarrow> kmem" where
  "disk_streamer_close streamer s = kfree streamer s"

section \<open>What the stream delivers\<close>

text \<open>The disk as one string of bytes, and the byte at a position.\<close>

definition disk_byte :: "(u32 \<Rightarrow> u8 list) \<Rightarrow> nat \<Rightarrow> u8" where
  "disk_byte img k = img (of_nat (k div 512)) ! (k mod 512)"

definition disk_bytes :: "(u32 \<Rightarrow> u8 list) \<Rightarrow> nat \<Rightarrow> nat \<Rightarrow> u8 list" where
  "disk_bytes img k n = map (disk_byte img) [k..<k + n]"

lemma length_disk_bytes [simp]: "length (disk_bytes img k n) = n"
  by (simp add: disk_bytes_def)

lemma disk_bytes_add: "disk_bytes img k (n + l) = disk_bytes img k n @ disk_bytes img (k + n) l"
  using upt_add_eq_append [of k "k + n" l] by (simp add: disk_bytes_def add.assoc)

lemma fill_write_bytes:
  "for_u32 0 n (\<lambda>i m. m(out + i := f i)) m = write_bytes m out (map (\<lambda>i. f (of_nat i)) [0..<unat n])"
proof
  fix a
  have len: "unat n \<le> 4294967296" using unat_u32_bound [of n] by linarith
  show "for_u32 0 n (\<lambda>i m. m(out + i := f i)) m a = write_bytes m out (map (\<lambda>i. f (of_nat i)) [0..<unat n]) a"
  proof (cases "a - out < n")
    case True
    then have "unat (a - out) < unat n" by (simp add: word_less_nat_alt)
    moreover have "a = out + of_nat (unat (a - out))" by simp
    ultimately have "write_bytes m out (map (\<lambda>i. f (of_nat i)) [0..<unat n]) a = f (a - out)"
      using write_bytes_at [of "unat (a - out)" "map (\<lambda>i. f (of_nat i)) [0..<unat n]" m out] len by simp
    moreover have "for_u32 0 n (\<lambda>i m. m(out + i := f i)) m (out + (a - out)) = f (a - out)"
      using True by (intro byte_mem.fill_at [where at = "\<lambda>i. out + i"]) auto
    ultimately show ?thesis by simp
  next
    case False
    have "write_bytes m out (map (\<lambda>i. f (of_nat i)) [0..<unat n]) a = m a"
    proof (rule write_bytes_outside)
      fix i assume "i < length (map (\<lambda>i. f (of_nat i)) [0..<unat n])"
      then have i: "i < unat n" by simp
      then have "unat (of_nat i :: u32) = i" using len by (intro unat_of_nat_u32) simp
      with i False show "a \<noteq> out + of_nat i" by (auto simp: word_less_nat_alt)
    qed
    moreover have "for_u32 0 n (\<lambda>i m. m(out + i := f i)) m a = m a"
      using False by (intro byte_mem.fill_frame [where at = "\<lambda>i. out + i"]) auto
    ultimately show ?thesis by simp
  qed
qed

lemma stream_copy_result:
  assumes "unat (pos mod 512) + unat n \<le> 512"
  shows "stream_copy (img (pos div 512)) (pos mod 512) out n m =
    Inr (write_bytes m out (disk_bytes img (unat pos) (unat n)))"
proof -
  let ?b = "img (pos div 512)"
  have byte: "?b ! unat (pos mod 512 + of_nat i) = disk_byte img (unat pos + i)" if i: "i < unat n" for i
  proof -
    have off: "unat (pos mod 512) + i < 512" using assms i by simp
    then have "unat (of_nat i :: u32) = i" by (intro unat_of_nat_u32) simp
    with off have "unat (pos mod 512 + of_nat i) = unat (pos mod 512) + i" by (simp add: unat_word_ariths)
    moreover have p: "unat pos + i = unat pos div 512 * 512 + (unat pos mod 512 + i)" by simp
    have "unat pos mod 512 + i < 512" using off by (simp add: unat_mod)
    then have "(unat pos + i) div 512 = unat pos div 512" "(unat pos + i) mod 512 = unat pos mod 512 + i"
      using p by (metis div_mult_self3 div_less add.right_neutral zero_neq_numeral, metis mod_mult_self3 mod_less)
    moreover have "of_nat (unat pos div 512) = pos div 512" by (simp add: word_arith_nat_div)
    ultimately show ?thesis by (simp add: disk_byte_def unat_mod)
  qed
  have "for_u32 0 n (\<lambda>i m. m(out + i := ?b ! unat (pos mod 512 + i))) m =
      write_bytes m out (map (\<lambda>i. ?b ! unat (pos mod 512 + of_nat i)) [0..<unat n])"
    by (rule fill_write_bytes)
  also have "map (\<lambda>i. ?b ! unat (pos mod 512 + of_nat i)) [0..<unat n] = disk_bytes img (unat pos) (unat n)"
    using byte by (intro nth_equalityI) (simp_all add: disk_bytes_def)
  finally show ?thesis using assms by (simp only: stream_copy_def if_True)
qed

lemma store32_upd_commute: "4 \<le> a - p \<Longrightarrow> (store32 m p v)(a := b) = store32 (m(a := b)) p v"
proof -
  assume a: "4 \<le> a - p"
  have "a \<noteq> p \<and> a \<noteq> p + 1 \<and> a \<noteq> p + 2 \<and> a \<noteq> p + 3"
    using a by (auto simp: word_le_nat_alt)
  then show ?thesis by (auto simp: store32_def fun_eq_iff)
qed

lemma write_bytes_store32:
  "(\<And>i. i < length bs \<Longrightarrow> 4 \<le> q + of_nat i - p) \<Longrightarrow>
    write_bytes (store32 m p v) q bs = store32 (write_bytes m q bs) p v"
proof (induction bs arbitrary: m q)
  case (Cons b bs)
  have "4 \<le> q - p" using Cons.prems [of 0] by simp
  moreover have "4 \<le> q + 1 + of_nat i - p" if "i < length bs" for i
    using Cons.prems [of "Suc i"] that by (simp add: add.assoc)
  ultimately show ?case
    using Cons.IH [of "q + 1" "m(q := b)"] by (simp only: write_bytes.simps store32_upd_commute)
qed simp

lemma store32_store32 [simp]: "store32 (store32 m p v) p w = store32 m p w"
  by (simp add: store32_def fun_upd_twist)

lemma load32_write_bytes:
  assumes "\<And>i. i < length bs \<Longrightarrow> 4 \<le> q + of_nat i - p"
  shows "load32 (write_bytes m q bs) p = load32 m p"
proof -
  have "write_bytes m q bs (p + k) = m (p + k)" if k: "k < 4" for k
  proof (rule write_bytes_outside)
    fix i assume "i < length bs"
    with assms have "4 \<le> q + of_nat i - p" by blast
    moreover have "q + of_nat i - p = k" if "p + k = q + of_nat i"
      using that by (metis add_diff_cancel_left')
    ultimately show "p + k \<noteq> q + of_nat i" using k by (metis not_le)
  qed
  from this [of 0] this [of 1] this [of 2] this [of 3] show ?thesis by (simp add: load32_def)
qed

text \<open>A stream and an output buffer that do not overlap.\<close>

definition buffer_clear :: "u32 \<Rightarrow> u32 \<Rightarrow> u32 \<Rightarrow> bool" where
  "buffer_clear stream out n \<longleftrightarrow> (\<forall>i. i < unat n \<longrightarrow> 8 \<le> out + of_nat i - stream)"

lemma buffer_clear_first: "buffer_clear stream out n \<Longrightarrow> i < unat n \<Longrightarrow>
    4 \<le> out + of_nat i - stream \<and> 4 \<le> out + of_nat i - (stream + 4)"
proof -
  assume "buffer_clear stream out n" "i < unat n"
  then have "8 \<le> out + of_nat i - stream" by (simp add: buffer_clear_def)
  then have a: "8 \<le> unat (out + of_nat i - stream)" by (simp add: word_le_nat_alt)
  have "out + of_nat i - (stream + 4) = out + of_nat i - stream - 4" by simp
  then have "unat (out + of_nat i - (stream + 4)) = unat (out + of_nat i - stream) - 4"
    using a by (simp only: unat_sub word_le_nat_alt) (simp add: unat_sub word_le_nat_alt)
  with a show ?thesis by (simp add: word_le_nat_alt)
qed

definition sectors_for :: "u32 \<Rightarrow> int" where
  "sectors_for n = max 1 ((uint n + 511) div 512)"

text \<open>One chunk of at most a sector.\<close>

lemma stream_chunk:
  assumes "load32 m (stream + 4) = disk" and "load32 m stream = pos"
    and "unat (pos mod 512) + unat n \<le> 512" and "n = (if cnt > 512 then 512 else cnt)"
    and "buffer_clear stream out n"
  shows "disk_streamer_read img disk stream out cnt m =
    (let m2 = store32 (write_bytes m out (disk_bytes img (unat pos) (unat n))) stream (pos + n) in
     if cnt > 512 then
       (case disk_streamer_read img disk stream (out + n) (cnt - 512) m2 of
          Inl e \<Rightarrow> Inl e
        | Inr (r, m3) \<Rightarrow> Inr (1 + r, m3))
     else Inr (1, m2))"
proof -
  have sec: "(if pos = 0 then 0 else pos div 512) = pos div 512" by simp
  have "load32 (write_bytes m out (disk_bytes img (unat pos) (unat n))) stream = pos"
    using load32_write_bytes [of "disk_bytes img (unat pos) (unat n)" out stream m] buffer_clear_first [OF assms(5)]
      assms(2) by simp
  then show ?thesis
    using stream_copy_result [OF assms(3), of img out m]
    by (subst disk_streamer_read.simps)
       (simp only: Let_def assms(1,2) sec stream_block_def assms(4) [symmetric] prod.case sum.case if_False simp_thms,
        simp)
qed

lemma stream_aligned:
  assumes "load32 m (stream + 4) = disk" and "load32 m stream = pos" and "pos mod 512 = 0"
    and "unat pos + unat cnt < 4294967296" and "buffer_clear stream out cnt"
  shows "disk_streamer_read img disk stream out cnt m =
    Inr (sectors_for cnt, store32 (write_bytes m out (disk_bytes img (unat pos) (unat cnt))) stream (pos + cnt))"
  using assms
proof (induction "unat cnt" arbitrary: cnt out m pos rule: less_induct)
  case less
  show ?case
  proof (cases "cnt > 512")
    case False
    then have n: "unat cnt \<le> 512" "cnt = (if cnt > 512 then 512 else cnt)" by (auto simp: word_less_nat_alt)
    have "sectors_for cnt = 1"
    proof -
      have "uint cnt \<le> 512" using n(1) unfolding uint_nat by linarith
      then have "(uint cnt + 511) div 512 \<le> 1" by linarith
      then show ?thesis by (simp add: sectors_for_def)
    qed
    moreover have "unat (pos mod 512) + unat cnt \<le> 512" using n less.prems(3) by simp
    ultimately show ?thesis
      using stream_chunk [OF less.prems(1,2) _ n(2) less.prems(5), of img] False by (simp add: Let_def)
  next
    case True
    let ?B = "disk_bytes img (unat pos) 512"
    let ?m = "store32 (write_bytes m out ?B) stream (pos + 512)"
    have c: "512 < unat cnt" "unat (cnt - 512) = unat cnt - 512"
      using True by (simp_all add: word_less_nat_alt unat_sub word_le_nat_alt)
    have clr: "buffer_clear stream out 512" "buffer_clear stream (out + 512) (cnt - 512)"
    proof -
      show "buffer_clear stream out 512" using less.prems(5) c by (auto simp: buffer_clear_def)
      show "buffer_clear stream (out + 512) (cnt - 512)"
        unfolding buffer_clear_def
      proof (intro allI impI)
        fix i assume "i < unat (cnt - 512)"
        then have "512 + i < unat cnt" using c by simp
        then have "8 \<le> out + of_nat (512 + i) - stream" using less.prems(5) by (simp only: buffer_clear_def)
        then show "8 \<le> out + 512 + of_nat i - stream" by (simp add: algebra_simps)
      qed
    qed
    have p512: "unat (pos + 512) = unat pos + 512" using less.prems(4) c by (simp add: unat_word_ariths)
    have disk: "load32 ?m (stream + 4) = disk"
    proof -
      have "apart 4 (stream + 4) stream" by (simp add: apart_def word_le_nat_alt)
      then show ?thesis
        using load32_write_bytes [of ?B out "stream + 4" m] buffer_clear_first [OF clr(1)] less.prems(1)
        by (simp add: load32_store32_apart)
    qed
    have "disk_streamer_read img disk stream (out + 512) (cnt - 512) ?m =
      Inr (sectors_for (cnt - 512), store32 (write_bytes ?m (out + 512) (disk_bytes img (unat (pos + 512)) (unat (cnt - 512))))
        stream (pos + 512 + (cnt - 512)))"
    proof (rule less.hyps [OF _ disk])
      show "unat (cnt - 512) < unat cnt" using c by simp
      show "load32 ?m stream = pos + 512" by simp
      show "(pos + 512) mod 512 = 0" using less.prems(3) p512 by (simp add: word_unat_eq_iff unat_mod)
      show "unat (pos + 512) + unat (cnt - 512) < 4294967296" using p512 c less.prems(4) by simp
    qed (rule clr)
    moreover have "write_bytes ?m (out + 512) (disk_bytes img (unat (pos + 512)) (unat (cnt - 512))) =
      store32 (write_bytes m out (disk_bytes img (unat pos) (unat cnt))) stream (pos + 512)"
    proof -
      have "disk_bytes img (unat pos) (unat cnt) = ?B @ disk_bytes img (unat (pos + 512)) (unat (cnt - 512))"
        using disk_bytes_add [of img "unat pos" 512 "unat cnt - 512"] c p512 by simp
      then show ?thesis
        using write_bytes_store32 [of "disk_bytes img (unat (pos + 512)) (unat (cnt - 512))" "out + 512" stream]
          buffer_clear_first [OF clr(2)] by (simp add: write_bytes_append)
    qed
    moreover have "sectors_for cnt = 1 + sectors_for (cnt - 512)"
    proof -
      have "uint (cnt - 512) = uint cnt - 512" using c unfolding uint_nat by linarith
      moreover have "512 < uint cnt" using c(1) unfolding uint_nat by linarith
      ultimately show ?thesis unfolding sectors_for_def by linarith
    qed
    moreover have "disk_streamer_read img disk stream out cnt m =
       (case disk_streamer_read img disk stream (out + 512) (cnt - 512) ?m of
          Inl e \<Rightarrow> Inl e
        | Inr (r, m3) \<Rightarrow> Inr (1 + r, m3))"
      using stream_chunk [OF less.prems(1,2) _ _ clr(1), of cnt img] less.prems(3) True by (simp add: Let_def)
    ultimately show ?thesis by simp
  qed
qed

lemma stream_delivers:
  assumes "load32 m (stream + 4) = disk" and "load32 m stream = pos"
    and "unat pos + unat n < 4294967296" and "buffer_clear stream out n"
    and "pos mod 512 = 0 \<or> unat (pos mod 512) + unat n \<le> 512"
  shows "disk_streamer_read img disk stream out n m =
    Inr (sectors_for n, store32 (write_bytes m out (disk_bytes img (unat pos) (unat n))) stream (pos + n))"
proof (cases "pos mod 512 = 0")
  case True
  then show ?thesis using stream_aligned [OF assms(1,2) True assms(3,4), of img] by simp
next
  case False
  then have off: "0 < unat (pos mod 512)" by (simp add: unat_gt_0)
  have one: "unat (pos mod 512) + unat n \<le> 512" using assms(5) False by simp
  then have n: "\<not> n > 512" "unat n \<le> 512" using off by (auto simp: word_less_nat_alt)
  then have "uint n \<le> 512" unfolding uint_nat by linarith
  then have "(uint n + 511) div 512 \<le> 1" by linarith
  then have "sectors_for n = 1" by (simp add: sectors_for_def)
  then show ?thesis
    using stream_chunk [OF assms(1,2) one _ assms(4), of n img] n by (simp add: Let_def)
qed

lemma stream_over_reads:
  assumes "load32 m (stream + 4) = disk" and "load32 m stream = pos"
    and "pos mod 512 \<noteq> 0" and over: "\<not> unat (pos mod 512) + unat n \<le> 512"
  shows "disk_streamer_read img disk stream out n m = Inl Over_read"
proof -
  have off: "0 < unat (pos mod 512)" using assms(3) by (simp add: unat_gt_0)
  let ?n = "if n > 512 then 512 else n"
  have "\<not> unat (pos mod 512) + unat ?n \<le> 512" using over off by (auto simp: word_less_nat_alt)
  then have "stream_copy b (pos mod 512) out ?n m = Inl Over_read" for b by (simp only: stream_copy_def if_False)
  then show ?thesis
    using over assms(1,2) by (subst disk_streamer_read.simps) (simp add: Let_def stream_block_def)
qed

section \<open>Correctness of the disk stream\<close>


text \<open>A drive that is its registers, and always ready when it has data.\<close>

definition register_drive :: "(u32 \<Rightarrow> u16 list) \<Rightarrow> ata_drive device" where
  "register_drive img = \<lparr>dev_outb = ata_write img, dev_inb = (\<lambda>p r. (if p = 0x1F7 \<and> ata_data r \<noteq> [] then 0x58 else 0x50, r)),
     dev_inw = (\<lambda>p r. case ata_data r of (w # ws) # secs \<Rightarrow> (w, r\<lparr>ata_data := (if ws = [] then secs else ws # secs)\<rparr>) | _ \<Rightarrow> (0, r))\<rparr>"

lemma register_drive_conforms: "ata_conforms (register_drive img) img id"
proof -
  have ready: "ata_ready (register_drive img) 0 d d" if "ata_data d \<noteq> []" for d using that by (simp add: register_drive_def)
  then have "\<exists>n d'. ata_ready (register_drive img) n d d' \<and> id d' = id d" if "ata_data (id d) \<noteq> []" for d
    using that ready [of d] by (intro exI [of _ 0] exI [of _ d]) simp
  then show ?thesis unfolding ata_conforms_def by (auto simp: register_drive_def)
qed


text \<open>C19: Reading from a stream. When the position is at a sector boundary, or the bytes wanted lie in one sector,
  \<open>disk_streamer_read\<close> copies exactly the disk's bytes from the position on, advances the position by that
  number and returns the number of sectors read. In every other case it reads past the end of its 512-byte buffer.\<close>

theorem disk_streamer_read_correct:
  assumes "load32 m (stream + 4) = disk" and "load32 m stream = pos"
    and "unat pos + unat n < 4294967296" and "buffer_clear stream out n"
  shows "disk_streamer_read img disk stream out n m =
    (if pos mod 512 = 0 \<or> unat (pos mod 512) + unat n \<le> 512
     then Inr (sectors_for n, store32 (write_bytes m out (disk_bytes img (unat pos) (unat n))) stream (pos + n))
     else Inl Over_read)"
  using stream_delivers [OF assms, of img] stream_over_reads [OF assms(1,2), of n img out]
  by (auto split: if_splits)

lemma disk_streamer_read_correct_witness:
  "disk_streamer_read (\<lambda>_. replicate 512 7) 0x5000 0x1000 0x2000 600 (store32 (store32 (\<lambda>_. 0) 0x1000 100) 0x1004 0x5000)
    = Inl Over_read"
proof -
  let ?m = "store32 (store32 (\<lambda>_. 0) 0x1000 100) 0x1004 0x5000"
  have "load32 ?m 0x1000 = 100"
    using load32_store32_apart [of "0x1000" "0x1004"] by (simp add: apart_def word_le_nat_alt)
  moreover have "load32 ?m (0x1000 + 4) = 0x5000" by simp
  moreover have "buffer_clear 0x1000 0x2000 600"
    unfolding buffer_clear_def
  proof (intro allI impI)
    fix i assume "i < unat (600 :: u32)"
    then have "unat (0x1000 + of_nat i :: u32) = 0x1000 + i" by (simp add: unat_word_ariths unat_of_nat_u32)
    moreover have "0x2000 + of_nat i - 0x1000 = (0x1000 + of_nat i :: u32)" by simp
    ultimately show "8 \<le> 0x2000 + of_nat i - (0x1000 :: u32)" by (simp only: word_le_nat_alt) simp
  qed
  ultimately show ?thesis
    using disk_streamer_read_correct [of ?m "0x1000" "0x5000" 100 600 "0x2000" "\<lambda>_. replicate 512 7"]
    by simp
qed

end
