(* ===== verification/Paging.thy ===== *)
theory Paging imports KHeap
begin

text \<open>
  Page directories and page tables, \<open>src/src/memory/paging/paging.c\<close>. Directories and tables
  live in RAM and are read and written as 32-bit words at \<open>base + 4 * index\<close>; \<open>vm\<close> adds to the
  kernel memory the globals of the file and the \<open>CR3\<close> register and paging bit that
  \<open>paging.asm\<close> loads. \<open>wf_directory\<close> is the well-formedness of a directory (its 1024 tables are
  distinct pages), \<open>address_space\<close> the contract of looking up and setting one page, against
  which mapping a range is verified.
\<close>

abbreviation (input) PTE_PRESENT :: u32 where "PTE_PRESENT \<equiv> 1"
abbreviation (input) PTE_WRITEABLE :: u32 where "PTE_WRITEABLE \<equiv> 2"
abbreviation (input) PTE_ACCESS_FROM_ALL :: u32 where "PTE_ACCESS_FROM_ALL \<equiv> 4"
abbreviation (input) PAGING_TOTAL_ENTRIES_PER_TABLE :: u32 where "PAGING_TOTAL_ENTRIES_PER_TABLE \<equiv> 1024"
abbreviation (input) PAGING_PAGE_SIZE :: u32 where "PAGING_PAGE_SIZE \<equiv> 4096"

record vm =
  km :: kmem
  for_one_time :: u32
  current_directory :: u32
  cr3 :: u32
  paging_on :: bool

section \<open>The operations\<close>

text \<open>\<open>entry[b] = (offset + b * PAGING_PAGE_SIZE) | flags\<close> for the 1024 entries of a table.\<close>

definition paging_fill_table :: "u8 \<Rightarrow> u32 \<Rightarrow> u32 \<Rightarrow> mem \<Rightarrow> mem" where
  "paging_fill_table flags offset entry m =
     for_u32 0 PAGING_TOTAL_ENTRIES_PER_TABLE
       (\<lambda>b m. store32 m (entry + b * 4) ((offset + b * PAGING_PAGE_SIZE) OR ucast flags)) m"

text \<open>The outer loop of \<open>paging_new_4gb\<close>: \<open>False\<close> is its early return when memory runs out.\<close>

function paging_fill_tables :: "u8 \<Rightarrow> u32 \<Rightarrow> u32 \<Rightarrow> u32 \<Rightarrow> kmem \<Rightarrow> bool \<times> kmem" where
  "paging_fill_tables flags directory i offset s =
     (if i < PAGING_TOTAL_ENTRIES_PER_TABLE then
        let (entry, p) = pmm_allocate_block (phys s); s = s\<lparr>phys := p\<rparr> in
        if entry = 0 then (False, s)
        else
          let m = paging_fill_table flags offset entry (ram s);
              m = store32 m (directory + i * 4) (entry OR ucast flags OR PTE_WRITEABLE)
          in paging_fill_tables flags directory (i + 1)
               (offset + PAGING_TOTAL_ENTRIES_PER_TABLE * PAGING_PAGE_SIZE) (s\<lparr>ram := m\<rparr>)
      else (True, s))"
  by pat_completeness auto
termination
  by (relation "measure (\<lambda>(flags, directory, i, offset, s). 1024 - unat i)")
     (auto simp: unat_inc_less [of _ 1024] word_less_nat_alt)

declare paging_fill_tables.simps [simp del]

definition paging_new_4gb :: "u8 \<Rightarrow> vm \<Rightarrow> u32 \<times> vm" where
  "paging_new_4gb flags v =
     (let s = km v; (directory, p) = pmm_allocate_block (phys s); s = s\<lparr>phys := p\<rparr> in
      if directory = 0 then (0, v\<lparr>km := s\<rparr>)
      else
        let (ok, s) = paging_fill_tables flags directory 0 0 s in
        if \<not> ok then (0, v\<lparr>km := s\<rparr>)
        else
          let (chunk_4gb, p) = pmm_allocate_block (phys s);
              s = s\<lparr>phys := p\<rparr>;
              s = s\<lparr>ram := store32 (ram s) chunk_4gb directory\<rparr>
          in (chunk_4gb, v\<lparr>km := s, for_one_time := for_one_time v - 1\<rparr>))"

text \<open>\<open>paging.asm\<close>: loading \<open>CR3\<close> and setting the paging bit of \<open>CR0\<close>.\<close>

definition paging_load_directory :: "u32 \<Rightarrow> vm \<Rightarrow> vm" where
  "paging_load_directory directory v = v\<lparr>cr3 := directory\<rparr>"

definition enable_paging :: "vm \<Rightarrow> vm" where
  "enable_paging v = v\<lparr>paging_on := True\<rparr>"

definition paging_get_current_directory :: "vm \<Rightarrow> u32" where
  "paging_get_current_directory v = current_directory v"

definition paging_switch :: "u32 \<Rightarrow> vm \<Rightarrow> vm" where
  "paging_switch directory v =
     (let v = paging_load_directory directory v in v\<lparr>current_directory := directory\<rparr>)"

definition paging_4gb_chunk_get_directory :: "mem \<Rightarrow> u32 \<Rightarrow> u32" where
  "paging_4gb_chunk_get_directory m chunk = load32 m chunk"

definition paging_is_aligned :: "u32 \<Rightarrow> bool" where
  "paging_is_aligned addr \<longleftrightarrow> addr mod PAGING_PAGE_SIZE = 0"

text \<open>
  The two out-parameters are passed in and returned: a misaligned address leaves them alone.
\<close>

definition paging_get_indexes :: "u32 \<Rightarrow> u32 \<Rightarrow> u32 \<Rightarrow> int \<times> u32 \<times> u32" where
  "paging_get_indexes virtual_address directory_index table_index =
     (if \<not> paging_is_aligned virtual_address then (-1, directory_index, table_index)
      else (0, virtual_address div (PAGING_TOTAL_ENTRIES_PER_TABLE * PAGING_PAGE_SIZE),
            virtual_address mod (PAGING_TOTAL_ENTRIES_PER_TABLE * PAGING_PAGE_SIZE) div PAGING_PAGE_SIZE))"

definition paging_get :: "mem \<Rightarrow> u32 \<Rightarrow> u32 \<Rightarrow> u32" where
  "paging_get m directory virt =
     (let (_, directory_index, table_index) = paging_get_indexes virt 0 0;
          entry = load32 m (directory + directory_index * 4);
          table = entry AND 0xfffff000
      in load32 m (table + table_index * 4))"

definition paging_set :: "mem \<Rightarrow> u32 \<Rightarrow> u32 \<Rightarrow> u32 \<Rightarrow> int \<times> mem" where
  "paging_set m directory virt val =
     (if \<not> paging_is_aligned virt then (-1, m)
      else
        let (res, directory_index, table_index) = paging_get_indexes virt 0 0 in
        if res < 0 then (res, m)
        else
          let entry = load32 m (directory + directory_index * 4);
              table = entry AND 0xfffff000
          in (1, store32 m (table + table_index * 4) val))"

text \<open>The directory entries are read from RAM, which freeing blocks does not change.\<close>

definition paging_free_4gb :: "u32 \<Rightarrow> kmem \<Rightarrow> kmem" where
  "paging_free_4gb chunk s =
     (let s = for_u32 0 1024
            (\<lambda>i s. let entry = load32 (ram s) (load32 (ram s) chunk + i * 4);
                       table = entry AND 0xfffff000
                   in s\<lparr>phys := pmm_free_block table (phys s)\<rparr>) s;
          s = s\<lparr>phys := pmm_free_block (load32 (ram s) chunk) (phys s)\<rparr>
      in s\<lparr>phys := pmm_free_block chunk (phys s)\<rparr>)"

definition paging_align_address :: "u32 \<Rightarrow> u32" where
  "paging_align_address ptr =
     (if ptr mod PAGING_PAGE_SIZE \<noteq> 0
      then ptr + PAGING_PAGE_SIZE - ptr mod PAGING_PAGE_SIZE
      else ptr)"

definition paging_map :: "mem \<Rightarrow> u32 \<Rightarrow> u32 \<Rightarrow> u32 \<Rightarrow> u32 \<Rightarrow> int \<times> mem" where
  "paging_map m directory virtual_addr phy_addr flags =
     (if virtual_addr mod PAGING_PAGE_SIZE \<noteq> 0 \<or> phy_addr mod PAGING_PAGE_SIZE \<noteq> 0 then (-1, m)
      else paging_set m directory virtual_addr (phy_addr OR flags))"

text \<open>\<open>paging_map_range\<close>: the loop counts \<open>total_pages\<close> down here, and stops at the first failure.\<close>

function paging_map_range :: "mem \<Rightarrow> u32 \<Rightarrow> u32 \<Rightarrow> u32 \<Rightarrow> u32 \<Rightarrow> u32 \<Rightarrow> int \<times> mem" where
  "paging_map_range m directory virtual_addr phy_addr total_pages flags =
     (if total_pages = 0 then (1, m)
      else
        let (res, m') = paging_map m directory virtual_addr phy_addr flags in
        if res < 0 then (-1, m')
        else paging_map_range m' directory (virtual_addr + PAGING_PAGE_SIZE)
               (phy_addr + PAGING_PAGE_SIZE) (total_pages - 1) flags)"
  by pat_completeness auto
termination
  by (relation "measure (\<lambda>(m, d, v, p, n, f). unat n)") (auto simp: measure_unat)

declare paging_map_range.simps [simp del]

definition paging_map_to :: "mem \<Rightarrow> u32 \<Rightarrow> u32 \<Rightarrow> u32 \<Rightarrow> u32 \<Rightarrow> u32 \<Rightarrow> int \<times> mem" where
  "paging_map_to m directory virtual_addr phy_addr phy_addr_end flags =
     (if virtual_addr mod PAGING_PAGE_SIZE \<noteq> 0 then (-1, m)
      else if phy_addr mod PAGING_PAGE_SIZE \<noteq> 0 then (-1, m)
      else if phy_addr_end mod PAGING_PAGE_SIZE \<noteq> 0 then (-1, m)
      else if phy_addr_end < phy_addr then (-1, m)
      else
        let total_bytes = phy_addr_end - phy_addr;
            total_pages = total_bytes div PAGING_PAGE_SIZE
        in paging_map_range m directory virtual_addr phy_addr total_pages flags)"

section \<open>Slots of a page\<close>

lemma page_alignedE:
  assumes "page_aligned p"
  obtains k where "unat p = 4096 * k" and "k < 1048576"
proof -
  have "unat p mod 4096 = 0" using assms by (simp add: page_aligned_def word_unat_eq_iff unat_mod)
  then obtain k where k: "unat p = 4096 * k" by (auto simp: mod_eq_0_iff_dvd dvd_def)
  with unat_u32_bound [of p] have "k < 1048576" by linarith
  with k show ?thesis by (rule that)
qed

lemma page_aligned_bound: "page_aligned p \<Longrightarrow> unat p \<le> 0xFFFFF000"
  by (erule page_alignedE) simp

lemma unat_in_page: "page_aligned p \<Longrightarrow> o' < 4096 \<Longrightarrow> unat (p + o') = unat p + unat o'"
  using page_aligned_bound [of p] by (simp add: unat_word_ariths word_less_nat_alt)

lemma unat_slot_index: "i < 1024 \<Longrightarrow> unat (i * 4) = unat i * 4" for i :: u32
  by (simp add: unat_word_ariths word_less_nat_alt)

lemma slot_less_page: "i < 1024 \<Longrightarrow> i * 4 < 4096" for i :: u32
  by (simp add: word_less_nat_alt unat_slot_index)

lemma unat_slot: "page_aligned p \<Longrightarrow> i < 1024 \<Longrightarrow> unat (p + i * 4) = unat p + unat i * 4"
  by (simp add: unat_in_page slot_less_page unat_slot_index)

lemma nat_slot_inject:
  "4096 * k + i * 4 = 4096 * l + j * 4 \<Longrightarrow> i < 1024 \<Longrightarrow> j < 1024 \<Longrightarrow> k = l \<and> i = j" for i j k l :: nat
  by (cases k l rule: linorder_cases) auto

lemma slot_inject:
  assumes "page_aligned p" "page_aligned q" "i < 1024" "j < 1024" and eq: "p + i * 4 = q + j * 4"
  shows "p = q \<and> i = j"
proof -
  have "unat p + unat i * 4 = unat q + unat j * 4"
    using unat_slot assms by metis
  moreover obtain k l where "unat p = 4096 * k" "unat q = 4096 * l"
    using assms(1,2) by (elim page_alignedE)
  moreover have "unat i < 1024" "unat j < 1024" using assms by (auto simp: word_less_nat_alt)
  ultimately have "unat p = unat q \<and> unat i = unat j" using nat_slot_inject by metis
  then show ?thesis by (auto intro: unsigned_word_eqI)
qed

lemma apart_mult_4:
  assumes "unat x mod 4 = 0" "unat y mod 4 = 0" "x \<noteq> y"
  shows "apart 4 x y"
proof -
  have "4 \<le> u - v" if "unat u mod 4 = 0" "unat v mod 4 = 0" "u \<noteq> v" for u v :: u32
  proof (rule ccontr)
    assume "\<not> 4 \<le> u - v"
    then have k: "unat (u - v) < 4" by (simp add: word_le_nat_alt)
    have "unat u = (unat v + unat (u - v)) mod 4294967296"
      using unat_word_ariths(1) [of v "u - v"] by simp
    then have "unat u mod 4 = (unat v + unat (u - v)) mod 4" by (simp add: mod_mod_cancel)
    with that k have "unat (u - v) = 0" by (metis mod_add_left_eq add_0 mod_less)
    with \<open>u \<noteq> v\<close> show False by (simp add: unat_eq_zero)
  qed
  then show ?thesis using assms by (auto simp: apart_def)
qed

lemma slot_apart:
  assumes "page_aligned p" "page_aligned q" "i < 1024" "j < 1024" "p \<noteq> q \<or> i \<noteq> j"
  shows "apart 4 (p + i * 4) (q + j * 4)"
proof (rule apart_mult_4)
  have "unat (p + i * 4) mod 4 = 0" if "page_aligned p" "i < 1024" for p i
    using that(1) by (elim page_alignedE) (simp add: unat_slot [OF that] mod_add_eq [symmetric])
  with assms show "unat (p + i * 4) mod 4 = 0" "unat (q + j * 4) mod 4 = 0" by auto
  show "p + i * 4 \<noteq> q + j * 4" using slot_inject assms by blast
qed

text \<open>Bytes outside a page are not touched by a store to one of its slots.\<close>

lemma store32_outside_page:
  assumes "i < 1024" and "4096 \<le> x - p"
  shows "store32 m (p + i * 4) v x = m x"
proof (rule store32_other, rule ccontr)
  define k where "k = x - (p + i * 4)"
  assume "\<not> 4 \<le> x - (p + i * 4)"
  then have k: "unat k < 4" by (simp add: k_def word_le_nat_alt)
  have "x - p = i * 4 + k" by (simp add: k_def)
  moreover have "unat (i * 4 + k) = unat i * 4 + unat k"
    using k assms(1) by (simp add: unat_word_ariths(1) [of "i * 4"] unat_slot_index word_less_nat_alt)
  ultimately show False using k assms by (simp add: word_less_nat_alt word_le_nat_alt)
qed

section \<open>The contract of an address space\<close>

text \<open>\<open>map_pages\<close> is the loop of \<open>paging_map_range\<close> over any page-update operation.\<close>

function map_pages :: "('m \<Rightarrow> u32 \<Rightarrow> u32 \<Rightarrow> int \<times> 'm) \<Rightarrow> 'm \<Rightarrow> u32 \<Rightarrow> u32 \<Rightarrow> u32 \<Rightarrow> u32 \<Rightarrow> int \<times> 'm" where
  "map_pages update m v p n f =
     (if n = 0 then (1, m)
      else if v mod 4096 \<noteq> 0 \<or> p mod 4096 \<noteq> 0 then (-1, m)
      else
        let (res, m') = update m v (p OR f) in
        if res < 0 then (-1, m') else map_pages update m' (v + 4096) (p + 4096) (n - 1) f)"
  by pat_completeness auto
termination
  by (relation "measure (\<lambda>(u, m, v, p, n, f). unat n)") (auto simp: measure_unat)

declare map_pages.simps [simp del]

lemma page_aligned_add: "page_aligned a \<Longrightarrow> page_aligned b \<Longrightarrow> page_aligned (a + b)"
proof -
  assume "page_aligned a" "page_aligned b"
  then have "4096 dvd unat a + unat b"
    by (auto simp: page_aligned_def word_unat_eq_iff unat_mod mod_eq_0_iff_dvd intro: dvd_add)
  then have "unat (a + b) mod 4096 = 0"
    by (simp add: unat_word_ariths mod_mod_cancel mod_eq_0_iff_dvd)
  then show ?thesis by (simp add: page_aligned_def word_unat_eq_iff unat_mod)
qed

lemma page_step_distinct: "j < 0xFFFFF \<Longrightarrow> v \<noteq> v + 4096 + j * 4096" for j v :: u32
proof
  assume j: "j < 0xFFFFF" and "v = v + 4096 + j * 4096"
  then have "(j + 1) * 4096 = 0" by (simp add: distrib_right add.commute)
  moreover have "unat (j + 1) = Suc (unat j)" using j by (rule unat_inc_less)
  ultimately show False
    using j block_address_inject [of "j + 1" 0] by (auto simp: word_less_nat_alt)
qed

locale address_space =
  fixes lookup :: "'m \<Rightarrow> u32 \<Rightarrow> u32"
    and update :: "'m \<Rightarrow> u32 \<Rightarrow> u32 \<Rightarrow> int \<times> 'm"
    and ok :: "'m \<Rightarrow> bool"
  assumes update_ok: "ok m \<Longrightarrow> page_aligned v \<Longrightarrow>
      \<exists>m'. update m v x = (1, m') \<and> ok m' \<and> lookup m' v = x \<and>
        (\<forall>w. page_aligned w \<longrightarrow> w \<noteq> v \<longrightarrow> lookup m' w = lookup m w)"
begin

text \<open>Mapping a range maps exactly its pages, in order, and touches no other page.\<close>

lemma map_pages_ok:
  assumes "ok m" and "page_aligned v" and "page_aligned p" and "n \<le> 0x100000"
  shows "\<exists>m'. map_pages update m v p n f = (1, m') \<and> ok m' \<and>
    (\<forall>i < n. lookup m' (v + i * 4096) = (p + i * 4096) OR f) \<and>
    (\<forall>w. page_aligned w \<longrightarrow> (\<forall>i < n. w \<noteq> v + i * 4096) \<longrightarrow> lookup m' w = lookup m w)"
  using assms
proof (induction "unat n" arbitrary: m v p n)
  case 0
  then have "n = 0" by (simp add: unat_eq_zero)
  with 0 show ?case by (simp add: map_pages.simps)
next
  case (Suc k)
  then have "n \<noteq> 0" by auto
  with Suc.hyps(2) have n: "n \<noteq> 0" "k = unat (n - 1)" by (simp_all add: unat_minus_one)
  have n1: "n - 1 \<le> 0x100000" and lt: "n - 1 < 0x100000"
    using Suc.prems(4) n by (auto simp: word_le_nat_alt word_less_nat_alt unat_minus_one)
  obtain m1 where m1: "update m v (p OR f) = (1, m1)" "ok m1" "lookup m1 v = p OR f"
    "\<forall>w. page_aligned w \<longrightarrow> w \<noteq> v \<longrightarrow> lookup m1 w = lookup m w"
    using update_ok [OF Suc.prems(1,2)] by blast
  have al: "page_aligned (v + 4096)" "page_aligned (p + 4096)"
    using Suc.prems(2,3) page_aligned_add [of _ 4096] by (simp_all add: page_aligned_def)
  obtain m' where m': "map_pages update m1 (v + 4096) (p + 4096) (n - 1) f = (1, m')" "ok m'"
    "\<forall>i < n - 1. lookup m' (v + 4096 + i * 4096) = (p + 4096 + i * 4096) OR f"
    "\<forall>w. page_aligned w \<longrightarrow> (\<forall>i < n - 1. w \<noteq> v + 4096 + i * 4096) \<longrightarrow> lookup m' w = lookup m1 w"
    using Suc.hyps(1) [OF n(2) m1(2) al n1] by blast
  have pred: "i - 1 < n - 1" if "i < n" "i \<noteq> 0" for i
  proof -
    have "unat (i - 1) < unat (n - 1)"
      using that n(1) measure_unat [OF that(2)] by (simp add: word_less_nat_alt unat_minus_one diff_less_mono Suc_le_eq unat_gt_0)
    then show ?thesis by (simp add: word_less_nat_alt)
  qed
  have "map_pages update m v p n f = (1, m')"
    using Suc.prems(2,3) n m1(1) m'(1) by (simp add: map_pages.simps [of _ m] page_aligned_def)
  moreover have "lookup m' (v + i * 4096) = (p + i * 4096) OR f" if "i < n" for i
  proof (cases "i = 0")
    case True
    have "v \<noteq> v + 4096 + j * 4096" if "j < n - 1" for j
      using that lt by (intro page_step_distinct) (simp add: word_less_nat_alt)
    with True m1(3) m'(4) Suc.prems(2) show ?thesis by simp
  next
    case False
    have "v + i * 4096 = v + 4096 + (i - 1) * 4096" "p + i * 4096 = p + 4096 + (i - 1) * 4096"
      by (simp_all add: algebra_simps)
    with m'(3) pred [OF that False] show ?thesis by metis
  qed
  moreover have "lookup m' w = lookup m w"
    if "page_aligned w" and w: "\<forall>i < n. w \<noteq> v + i * 4096" for w
  proof -
    have "w \<noteq> v" using w n by (metis add.right_neutral mult_zero_left word_neq_0_conv)
    moreover have "w \<noteq> v + 4096 + i * 4096" if "i < n - 1" for i
    proof -
      have "i + 1 < n" using that n unat_inc_less [OF that]
        by (simp add: word_less_nat_alt unat_minus_one)
      with w have "w \<noteq> v + (i + 1) * 4096" by blast
      then show ?thesis by (simp add: distrib_right add.assoc add.commute)
    qed
    ultimately show ?thesis using that(1) m1(4) m'(4) by simp
  qed
  ultimately show ?case using m'(2) by blast
qed

end

section \<open>Well-formed directories\<close>

definition table_of :: "mem \<Rightarrow> u32 \<Rightarrow> u32 \<Rightarrow> u32" where
  "table_of m d i = load32 m (d + i * 4) AND 0xfffff000"

definition dir_index :: "u32 \<Rightarrow> u32" where "dir_index v = v div 0x400000"
definition tab_index :: "u32 \<Rightarrow> u32" where "tab_index v = v mod 0x400000 div 4096"

definition wf_directory :: "u32 \<Rightarrow> mem \<Rightarrow> bool" where
  "wf_directory d m \<longleftrightarrow> page_aligned d \<and> (\<forall>i < 1024. table_of m d i \<noteq> d) \<and>
     (\<forall>i < 1024. \<forall>j < 1024. table_of m d i = table_of m d j \<longrightarrow> i = j)"

text \<open>The simplifier reads a numeral word's bits off the integer numeral.\<close>

lemma bit_page_mask [simp]: "bit (0xfffff000 :: int) i \<longleftrightarrow> 12 \<le> i \<and> i < 32"
proof -
  have eq: "(0xfffff000 :: int) = push_bit 12 (mask 20)"
    by (simp add: push_bit_eq_mult mask_eq_exp_minus_1)
  show ?thesis by (subst eq) (auto simp: bit_push_bit_iff bit_mask_iff)
qed

lemma page_aligned_bits: "page_aligned a \<longleftrightarrow> (\<forall>i < 12. \<not> bit a i)"
proof -
  have "a mod 4096 = take_bit 12 a" by (simp add: take_bit_eq_mod)
  then show ?thesis by (auto simp: page_aligned_def bit_eq_iff [of _ 0] bit_simps)
qed

lemma page_aligned_mask: "page_aligned (a AND 0xfffff000)"
  by (auto simp: page_aligned_bits bit_and_iff bit_page_mask)

lemma mask_page: "page_aligned a \<Longrightarrow> a AND 0xfffff000 = a"
  by (rule bit_word_eqI) (auto simp: bit_and_iff bit_page_mask page_aligned_bits not_le [symmetric])

text \<open>Flags live in the low byte, below the page address.\<close>

lemma mask_page_flags: "page_aligned a \<Longrightarrow> (a OR ucast (f :: u8) OR 2) AND 0xfffff000 = a"
proof (rule bit_word_eqI)
  fix i assume a: "page_aligned a" and "i < LENGTH(32)"
  have "bit (2 :: u32) i \<longleftrightarrow> i = 1"
    using \<open>i < _\<close> by (simp add: bit_2_iff)
  moreover have "bit f i \<Longrightarrow> i < 8" using bit_imp_le_length [of f i] by simp
  ultimately show "bit ((a OR ucast f OR 2) AND 0xfffff000) i = bit a i"
    using a \<open>i < _\<close> by (auto simp: bit_simps bit_page_mask page_aligned_bits not_le [symmetric])
qed

lemma table_of_aligned: "page_aligned (table_of m d i)"
  by (simp add: table_of_def page_aligned_mask)

lemma dir_index_less: "dir_index v < 1024"
  using unat_u32_bound [of v] by (simp add: dir_index_def word_less_nat_alt unat_div del: unat_u32_bound)

lemma tab_index_less: "tab_index v < 1024"
  by (simp add: tab_index_def word_less_nat_alt unat_div unat_mod)

lemma indexes_inject:
  assumes "page_aligned v" "page_aligned w" "dir_index v = dir_index w" "tab_index v = tab_index w"
  shows "v = w"
proof -
  have split: "unat v = unat (dir_index v) * 4194304 + unat (tab_index v) * 4096" if "page_aligned v" for v
  proof -
    obtain k where k: "unat v = 4096 * k" using \<open>page_aligned v\<close> by (elim page_alignedE)
    have "4096 * k mod 4194304 = 4096 * (k mod 1024)" using mod_mult_mult1 [of 4096 k 1024] by simp
    then have "unat (tab_index v) = k mod 1024" by (simp add: tab_index_def unat_div unat_mod k)
    moreover have "unat (dir_index v) = k div 1024"
      using div_mult_mult1 [of 4096 k 1024] by (simp add: dir_index_def unat_div k)
    ultimately show ?thesis using k div_mult_mod_eq [of k 1024] by linarith
  qed
  show ?thesis using split [OF assms(1)] split [OF assms(2)] assms(3,4)
    by (simp add: word_unat_eq_iff)
qed

lemma paging_get_aligned:
  "page_aligned v \<Longrightarrow> paging_get m d v = load32 m (table_of m d (dir_index v) + tab_index v * 4)"
  by (simp add: paging_get_def paging_get_indexes_def paging_is_aligned_def page_aligned_def
      table_of_def dir_index_def tab_index_def Let_def)

lemma paging_set_aligned:
  "page_aligned v \<Longrightarrow> paging_set m d v x = (1, store32 m (table_of m d (dir_index v) + tab_index v * 4) x)"
  by (simp add: paging_set_def paging_get_indexes_def paging_is_aligned_def page_aligned_def
      table_of_def dir_index_def tab_index_def Let_def)

lemma table_of_store:
  assumes "wf_directory d m" and "i < 1024" and "j < 1024" and "k < 1024"
  shows "table_of (store32 m (table_of m d j + k * 4) x) d i = table_of m d i"
proof -
  have "apart 4 (d + i * 4) (table_of m d j + k * 4)"
    using assms by (intro slot_apart table_of_aligned) (auto simp: wf_directory_def)
  then show ?thesis by (simp add: table_of_def load32_store32_apart)
qed

interpretation dir_space: address_space "\<lambda>m. paging_get m d" "\<lambda>m. paging_set m d" "wf_directory d"
  for d
proof
  fix m v x assume wf: "wf_directory d m" and v: "page_aligned v"
  let ?a = "table_of m d (dir_index v) + tab_index v * 4"
  let ?m = "store32 m ?a x"
  have tabs: "table_of ?m d i = table_of m d i" if "i < 1024" for i
    using table_of_store [OF wf that dir_index_less tab_index_less] .
  have "wf_directory d ?m" using wf by (simp add: wf_directory_def tabs)
  moreover have "paging_get ?m d v = x"
    using v by (simp add: paging_get_aligned tabs dir_index_less)
  moreover have "paging_get ?m d w = paging_get m d w" if w: "page_aligned w" "w \<noteq> v" for w
  proof -
    have "dir_index w \<noteq> dir_index v \<or> tab_index w \<noteq> tab_index v"
      using indexes_inject w v by blast
    then have "apart 4 (table_of m d (dir_index w) + tab_index w * 4) ?a"
      using wf dir_index_less [of v] dir_index_less [of w] tab_index_less [of v] tab_index_less [of w]
      by (intro slot_apart table_of_aligned) (auto simp: wf_directory_def)
    then show ?thesis
      using w by (simp add: paging_get_aligned tabs dir_index_less load32_store32_apart)
  qed
  ultimately show "\<exists>m'. paging_set m d v x = (1, m') \<and> wf_directory d m' \<and> paging_get m' d v = x \<and>
      (\<forall>w. page_aligned w \<longrightarrow> w \<noteq> v \<longrightarrow> paging_get m' d w = paging_get m d w)"
    using paging_set_aligned [OF v] by blast
qed

lemma map_range_map_pages: "paging_map_range m d v p n f = map_pages (\<lambda>m. paging_set m d) m v p n f"
proof (induction m d v p n f rule: paging_map_range.induct)
  case (1 m d v p n f)
  then show ?case
    by (subst paging_map_range.simps, subst map_pages.simps)
       (auto simp: paging_map_def split: prod.splits)
qed

section \<open>Building an identity-mapped directory\<close>

lemma fill_table_entry:
  "page_aligned t \<Longrightarrow> b < 1024 \<Longrightarrow>
    load32 (paging_fill_table flags off t m) (t + b * 4) = (off + b * 4096) OR ucast flags"
  unfolding paging_fill_table_def
  by (rule word_mem.fill_at [where at = "\<lambda>b. t + b * 4"]) (auto intro: slot_apart)

lemma fill_table_other:
  "page_aligned t \<Longrightarrow> page_aligned q \<Longrightarrow> q \<noteq> t \<Longrightarrow> b < 1024 \<Longrightarrow>
    load32 (paging_fill_table flags off t m) (q + b * 4) = load32 m (q + b * 4)"
  unfolding paging_fill_table_def
  by (rule word_mem.fill_frame [where at = "\<lambda>b. t + b * 4"]) (auto intro: slot_apart)

lemma fill_table_outside: "4096 \<le> x - t \<Longrightarrow> paging_fill_table flags off t m x = m x"
  unfolding paging_fill_table_def
  by (rule for_u32_invariant [OF refl, where P = "\<lambda>_ m'. m' x = m x"])
     (auto simp: store32_outside_page)

text \<open>
  The state after \<open>i\<close> tables have been built for directory \<open>d\<close>, starting from \<open>s0\<close>: the tables
  are distinct fresh pages, each maps its 4 MiB to themselves, and nothing else changed.
\<close>

definition tables_ok :: "u8 \<Rightarrow> u32 \<Rightarrow> kmem \<Rightarrow> u32 \<Rightarrow> kmem \<Rightarrow> bool" where
  "tables_ok flags d s0 i s \<longleftrightarrow>
     pmm_inv (phys s) \<and> big_blocks s = big_blocks s0 \<and>
     (\<forall>j < i. load32 (ram s) (d + j * 4) = table_of (ram s) d j OR ucast flags OR 2) \<and>
     (\<forall>j < i. table_of (ram s) d j \<notin> owned_pages (phys s0)) \<and>
     (\<forall>j < i. \<forall>k < i. table_of (ram s) d j = table_of (ram s) d k \<longrightarrow> j = k) \<and>
     owned_pages (phys s) = table_of (ram s) d ` {j. j < i} \<union> owned_pages (phys s0) \<and>
     (\<forall>j < i. \<forall>b < 1024. load32 (ram s) (table_of (ram s) d j + b * 4) =
        (j * 0x400000 + b * 4096) OR ucast flags) \<and>
     (\<forall>x. 4096 \<le> x - d \<longrightarrow> (\<forall>j < i. 4096 \<le> x - table_of (ram s) d j) \<longrightarrow> ram s x = ram s0 x) \<and>
     unat (pmm_free_blocks (phys s0)) = unat i + unat (pmm_free_blocks (phys s))"

lemma tables_ok_start: "pmm_inv (phys s) \<Longrightarrow> tables_ok flags d s 0 s"
  by (simp add: tables_ok_def)

lemma tables_ok_step:
  assumes ok: "tables_ok flags d s0 i s" and i: "i < 1024"
    and d: "page_aligned d" "d \<in> owned_pages (phys s0)"
    and alloc: "pmm_allocate_block (phys s) = (t, p)" "t \<noteq> 0"
  shows "tables_ok flags d s0 (i + 1) (s\<lparr>phys := p,
    ram := store32 (paging_fill_table flags (i * 0x400000) t (ram s)) (d + i * 4) (t OR ucast flags OR 2)\<rparr>)"
    (is "tables_ok _ _ _ _ (s\<lparr>phys := p, ram := ?m\<rparr>)")
proof -
  let ?T = "table_of (ram s) d"
  note ok' = ok [unfolded tables_ok_def]
  have owned: "owned_pages (phys s) = ?T ` {j. j < i} \<union> owned_pages (phys s0)" using ok' by blast
  have "pmm_inv (phys s)" using ok' by blast
  from this have t: "page_aligned t" "t \<notin> owned_pages (phys s)"
    "owned_pages p = insert t (owned_pages (phys s))" "pmm_inv p"
    "unat (pmm_free_blocks (phys s)) = Suc (unat (pmm_free_blocks p))"
    by (cases rule: pmm_pages.alloc_cases; use alloc in auto)+
  have td: "t \<noteq> d" and tT: "\<And>j. j < i \<Longrightarrow> ?T j \<noteq> t" and Td: "\<And>j. j < i \<Longrightarrow> ?T j \<noteq> d"
    using t(2) d(2) owned ok' by auto
  have ji: "j < 1024" if "j < i" for j using that i by (rule order.strict_trans)
  have dir: "load32 ?m (d + j * 4) = load32 (ram s) (d + j * 4)" if "j < i" for j
    using that ji [OF that] i d t(1) td
    by (simp add: load32_store32_apart slot_apart fill_table_other)
  then have T: "table_of ?m d j = ?T j" if "j < i" for j
    using that by (simp add: table_of_def)
  have Ti: "table_of ?m d i = t"
    by (simp add: table_of_def mask_page_flags [OF t(1)])
  have old: "load32 ?m (?T j + b * 4) = load32 (ram s) (?T j + b * 4)" if "j < i" "b < 1024" for j b
    using that i d t(1) tT [OF that(1)] Td [OF that(1)]
    by (simp add: load32_store32_apart slot_apart fill_table_other table_of_aligned)
  have new: "load32 ?m (t + b * 4) = (i * 0x400000 + b * 4096) OR ucast flags" if "b < 1024" for b
    using that i d t(1) td by (simp add: load32_store32_apart slot_apart fill_table_entry)
  have split: "{j. j < i + 1} = insert i {j. j < i}" using less_inc_iff [OF i] by auto
  have bytes: "?m x = ram s0 x" if "4096 \<le> x - d" "\<forall>j < i + 1. 4096 \<le> x - table_of ?m d j" for x
  proof -
    have "4096 \<le> x - t" and "\<forall>j < i. 4096 \<le> x - ?T j"
      using that(2) less_inc_iff [OF i] Ti T by metis+
    then show ?thesis
      using that(1) i ok' by (simp add: store32_outside_page fill_table_outside)
  qed
  have img: "table_of ?m d ` {j. j < i + 1} = insert t (?T ` {j. j < i})"
    using T Ti by (auto simp: split)
  have inc: "unat (i + 1) = Suc (unat i)" by (rule unat_inc_less [OF i])
  note lt = less_inc_iff [OF i]
  have fields: "phys (s\<lparr>phys := p, ram := ?m\<rparr>) = p" "ram (s\<lparr>phys := p, ram := ?m\<rparr>) = ?m"
    "big_blocks (s\<lparr>phys := p, ram := ?m\<rparr>) = big_blocks s" by simp_all
  show ?thesis
    unfolding tables_ok_def fields
  proof (intro conjI)
    show "pmm_inv p" "big_blocks s = big_blocks s0" using t ok' by auto
    show "\<forall>j < i + 1. load32 ?m (d + j * 4) = table_of ?m d j OR ucast flags OR 2"
      using ok' dir T Ti by (auto simp: lt)
    show "\<forall>j < i + 1. table_of ?m d j \<notin> owned_pages (phys s0)"
      using ok' t(2) owned T Ti by (auto simp: lt)
    show "\<forall>j < i + 1. \<forall>k < i + 1. table_of ?m d j = table_of ?m d k \<longrightarrow> j = k"
      using ok' T Ti tT by (auto simp: lt)
    show "owned_pages p = table_of ?m d ` {j. j < i + 1} \<union> owned_pages (phys s0)"
      using t(3) owned img by auto
    show "\<forall>j < i + 1. \<forall>b < 1024. load32 ?m (table_of ?m d j + b * 4) = (j * 0x400000 + b * 4096) OR ucast flags"
      using ok' T Ti old new by (auto simp: lt)
    show "\<forall>x. 4096 \<le> x - d \<longrightarrow> (\<forall>j < i + 1. 4096 \<le> x - table_of ?m d j) \<longrightarrow> ?m x = ram s0 x"
      using bytes by blast
    show "unat (pmm_free_blocks (phys s0)) = unat (i + 1) + unat (pmm_free_blocks p)"
      using ok' t(5) inc by auto
  qed
qed

text \<open>The loop either builds all 1024 tables or stops when no block is left.\<close>

lemma fill_tables_result:
  assumes "tables_ok flags d s0 i s" and "i \<le> 1024" and "page_aligned d" and "d \<in> owned_pages (phys s0)"
    and "paging_fill_tables flags d i (i * 0x400000) s = (ok, s')"
  shows "\<exists>n \<le> 1024. tables_ok flags d s0 n s' \<and> (ok \<longrightarrow> n = 1024) \<and>
    (\<not> ok \<longrightarrow> n < 1024 \<and> pmm_free_blocks (phys s') = 0)"
  using assms
proof (induction "1024 - unat i" arbitrary: i s)
  case 0
  then have "i = 1024" by (simp add: word_le_nat_alt word_unat_eq_iff)
  with 0 show ?case by (auto simp: paging_fill_tables.simps [of _ _ 1024])
next
  case (Suc r)
  then have i: "i < 1024" by (simp add: word_less_nat_alt)
  obtain t p where alloc: "pmm_allocate_block (phys s) = (t, p)" by fastforce
  show ?case
  proof (cases "t = 0")
    case True
    have "pmm_inv (phys s)" using Suc.prems(1) by (simp add: tables_ok_def)
    from this have "p = phys s" "pmm_free_blocks (phys s) = 0"
      by (cases rule: pmm_pages.alloc_cases; use alloc True in \<open>auto simp: unat_eq_zero\<close>)+
    moreover from this have "ok = False" "s' = s"
      using Suc.prems(5) i alloc True by (auto simp: paging_fill_tables.simps [of _ _ i])
    ultimately show ?thesis using Suc.prems(1) i by (intro exI [of _ i]) auto
  next
    case False
    let ?s = "s\<lparr>phys := p,
      ram := store32 (paging_fill_table flags (i * 0x400000) t (ram s)) (d + i * 4) (t OR ucast flags OR 2)\<rparr>"
    have inc: "unat (i + 1) = Suc (unat i)" by (rule unat_inc_less [OF i])
    have ok: "tables_ok flags d s0 (i + 1) ?s"
      by (rule tables_ok_step [OF Suc.prems(1) i Suc.prems(3,4) alloc False])
    have "paging_fill_tables flags d (i + 1) ((i + 1) * 0x400000) ?s = (ok, s')"
      using Suc.prems(5) i alloc False
      by (simp add: paging_fill_tables.simps [of _ _ i] Let_def distrib_right)
    then show ?thesis
      using Suc.hyps(1) [OF _ ok _ Suc.prems(3,4)] Suc.hyps(2) inc inc_le_if_less [OF i] by simp
  qed
qed

text \<open>A finished set of tables is a well-formed identity map.\<close>

definition identity_map :: "u32 \<Rightarrow> u32 \<Rightarrow> mem \<Rightarrow> bool" where
  "identity_map d fl m \<longleftrightarrow> wf_directory d m \<and>
     (\<forall>i < 1024. load32 m (d + i * 4) = table_of m d i OR fl OR 2) \<and>
     (\<forall>a. page_aligned a \<longrightarrow> paging_get m d a = a OR fl)"

lemma index_address: "page_aligned a \<Longrightarrow> dir_index a * 0x400000 + tab_index a * 4096 = a"
proof -
  assume "page_aligned a"
  then obtain k where k: "unat a = 4096 * k" by (elim page_alignedE)
  have "tab_index a * 4096 = a mod 0x400000"
  proof (rule unsigned_word_eqI)
    have "unat a mod 4194304 = 4096 * (k mod 1024)" using mod_mult_mult1 [of 4096 k 1024] k by simp
    then show "unat (tab_index a * 4096) = unat (a mod 0x400000)"
      by (simp add: tab_index_def unat_word_ariths unat_div unat_mod)
  qed
  then show ?thesis unfolding dir_index_def by (metis div_mult_mod_eq)
qed

lemma tables_ok_identity:
  assumes ok: "tables_ok flags d s0 1024 s" and d: "page_aligned d" "d \<in> owned_pages (phys s0)"
    and same: "\<And>i. i < 1024 \<Longrightarrow> load32 m (d + i * 4) = load32 (ram s) (d + i * 4)"
    and tabs: "\<And>i b. i < 1024 \<Longrightarrow> b < 1024 \<Longrightarrow>
      load32 m (table_of (ram s) d i + b * 4) = load32 (ram s) (table_of (ram s) d i + b * 4)"
  shows "identity_map d (ucast flags) m"
proof -
  have T: "table_of m d i = table_of (ram s) d i" if "i < 1024" for i
    using same [OF that] by (simp add: table_of_def)
  have "wf_directory d m"
    using ok d by (auto simp: wf_directory_def T tables_ok_def)
  moreover have "paging_get m d a = a OR ucast flags" if "page_aligned a" for a
    using ok dir_index_less [of a] tab_index_less [of a] that
    by (simp add: paging_get_aligned T tabs tables_ok_def index_address)
  moreover have "\<forall>i < 1024. load32 m (d + i * 4) = table_of m d i OR ucast flags OR 2"
    using ok by (simp add: same T tables_ok_def)
  ultimately show ?thesis by (simp add: identity_map_def)
qed

lemma zero_slot: "p + 0 * 4 = p" for p :: u32 by simp

lemma store_fresh_page:
  assumes "page_aligned c" "page_aligned q" "q \<noteq> c" "i < 1024"
  shows "load32 (store32 m c x) (q + i * 4) = load32 m (q + i * 4)"
  using slot_apart [OF assms(2,1,4), of 0] assms(3) by (simp add: load32_store32_apart)

lemma new_4gb_success:
  assumes inv: "pmm_inv (phys (km v))" and free: "1026 \<le> unat (pmm_free_blocks (phys (km v)))"
  shows "\<exists>chunk d v'. paging_new_4gb flags v = (chunk, v') \<and> chunk \<noteq> 0 \<and>
    load32 (ram (km v')) chunk = d \<and> identity_map d (ucast flags) (ram (km v')) \<and>
    chunk \<noteq> d \<and> (\<forall>i < 1024. table_of (ram (km v')) d i \<noteq> chunk) \<and>
    pmm_inv (phys (km v')) \<and>
    owned_pages (phys (km v')) = {chunk, d} \<union> table_of (ram (km v')) d ` {i. i < 1024} \<union> owned_pages (phys (km v)) \<and>
    ({chunk, d} \<union> table_of (ram (km v')) d ` {i. i < 1024}) \<inter> owned_pages (phys (km v)) = {} \<and>
    unat (pmm_free_blocks (phys (km v))) = 1026 + unat (pmm_free_blocks (phys (km v'))) \<and>
    (\<forall>x. (\<forall>q \<in> owned_pages (phys (km v')) - owned_pages (phys (km v)). 4096 \<le> x - q) \<longrightarrow>
       ram (km v') x = ram (km v) x) \<and>
    v' = v\<lparr>km := (km v)\<lparr>phys := phys (km v'), ram := ram (km v')\<rparr>, for_one_time := for_one_time v - 1\<rparr>"
proof -
  have "0 < unat (pmm_free_blocks (phys (km v)))" using free by simp
  from pmm_pages.alloc_ok [OF inv this] obtain d p where
    dp: "pmm_allocate_block (phys (km v)) = (d, p)" "d \<noteq> 0" "page_aligned d"
      "d \<notin> owned_pages (phys (km v))" "owned_pages p = insert d (owned_pages (phys (km v)))" "pmm_inv p"
      "unat (pmm_free_blocks (phys (km v))) = Suc (unat (pmm_free_blocks p))" by blast
  let ?s0 = "(km v)\<lparr>phys := p\<rparr>"
  obtain ok s where fill: "paging_fill_tables flags d 0 0 ?s0 = (ok, s)" by fastforce
  have start: "tables_ok flags d ?s0 0 ?s0" by (rule tables_ok_start) (simp add: dp)
  obtain n where n: "n \<le> 1024" "tables_ok flags d ?s0 n s" "ok \<longrightarrow> n = 1024"
    "\<not> ok \<longrightarrow> n < 1024 \<and> pmm_free_blocks (phys s) = 0"
    using fill_tables_result [OF start _ dp(3)] fill dp(5) by fastforce
  have "ok" using n free dp(7) by (auto simp: tables_ok_def word_less_nat_alt)
  with n have T: "tables_ok flags d ?s0 1024 s" by simp
  note T' = T [unfolded tables_ok_def kmem.simps, simplified]
  have "pmm_inv (phys s)" "0 < unat (pmm_free_blocks (phys s))" using T' free dp(7) by auto
  from pmm_pages.alloc_ok [OF this] obtain c q where
    cq: "pmm_allocate_block (phys s) = (c, q)" "c \<noteq> 0" "page_aligned c" "c \<notin> owned_pages (phys s)"
      "owned_pages q = insert c (owned_pages (phys s))" "pmm_inv q"
      "unat (pmm_free_blocks (phys s)) = Suc (unat (pmm_free_blocks q))" by blast
  let ?m = "store32 (ram s) c d"
  let ?v = "v\<lparr>km := s\<lparr>phys := q, ram := ?m\<rparr>, for_one_time := for_one_time v - 1\<rparr>"
  have own: "owned_pages (phys s) = table_of (ram s) d ` {j. j < 1024} \<union> insert d (owned_pages (phys (km v)))"
    using T' dp(5) by simp
  have cd: "d \<noteq> c" "\<And>j. j < 1024 \<Longrightarrow> table_of (ram s) d j \<noteq> c" using cq(4) own by auto
  have dir: "load32 ?m (d + i * 4) = load32 (ram s) (d + i * 4)" if "i < 1024" for i
    using store_fresh_page [OF cq(3) dp(3) cd(1) that] .
  have Tm: "table_of ?m d i = table_of (ram s) d i" if "i < 1024" for i
    using dir [OF that] by (simp add: table_of_def)
  have img: "table_of ?m d ` {j. j < 1024} = table_of (ram s) d ` {j. j < 1024}"
    using Tm by auto
  have res: "paging_new_4gb flags v = (c, ?v)"
    using dp(1,2) fill \<open>ok\<close> cq(1) by (simp add: paging_new_4gb_def)
  moreover have "identity_map d (ucast flags) ?m"
    using cd dp(5) by (intro tables_ok_identity [OF T dp(3)] dir)
      (auto intro: store_fresh_page [OF cq(3) table_of_aligned])
  moreover have "owned_pages q = {c, d} \<union> table_of ?m d ` {i. i < 1024} \<union> owned_pages (phys (km v))"
    using cq(5) own img by auto
  moreover have "({c, d} \<union> table_of ?m d ` {i. i < 1024}) \<inter> owned_pages (phys (km v)) = {}"
    using cq(4) own T' dp(4,5) img by auto
  moreover have "?m x = ram (km v) x"
    if x: "\<forall>a \<in> owned_pages q - owned_pages (phys (km v)). 4096 \<le> x - a" for x
  proof -
    have "4096 \<le> x - c" "4096 \<le> x - d" "\<forall>j < 1024. 4096 \<le> x - table_of (ram s) d j"
      using x cq(4,5) own dp(4,5) T' by auto
    then show ?thesis using store32_outside_page [of 0 x c] T' by simp
  qed
  moreover have "unat (pmm_free_blocks (phys (km v))) = 1026 + unat (pmm_free_blocks q)"
    using dp(7) cq(7) T' by simp
  moreover have "?v = v\<lparr>km := (km v)\<lparr>phys := q, ram := ?m\<rparr>, for_one_time := for_one_time v - 1\<rparr>"
    using T' by simp
  ultimately show ?thesis
    using cq(2,6) cd Tm by (intro exI [of _ c] exI [of _ d] exI [of _ ?v]) auto
qed

section \<open>Running out of memory\<close>

text \<open>
  With fewer than 1026 free blocks every block left is taken before the failure shows, and
  none is given back. With 1025 the chunk itself is what cannot be allocated: its pointer is
  written all the same, to address 0.
\<close>

lemma new_4gb_failure:
  assumes inv: "pmm_inv (phys (km v))" and free: "unat (pmm_free_blocks (phys (km v))) \<le> 1025"
  shows "\<exists>v'. paging_new_4gb flags v = (0, v') \<and> pmm_inv (phys (km v')) \<and>
    pmm_free_blocks (phys (km v')) = 0 \<and>
    (unat (pmm_free_blocks (phys (km v))) = 1025 \<longrightarrow> load32 (ram (km v')) 0 \<noteq> 0)"
  using inv
proof (cases rule: pmm_pages.alloc_cases)
  case none
  then show ?thesis
    using inv by (auto simp: paging_new_4gb_def unat_eq_zero)
next
  case (some d p)
  let ?s0 = "(km v)\<lparr>phys := p\<rparr>"
  obtain ok s where fill: "paging_fill_tables flags d 0 0 ?s0 = (ok, s)" by fastforce
  have start: "tables_ok flags d ?s0 0 ?s0" by (rule tables_ok_start) (simp add: some)
  obtain n where n: "n \<le> 1024" "tables_ok flags d ?s0 n s" "ok \<longrightarrow> n = 1024"
    "\<not> ok \<longrightarrow> n < 1024 \<and> pmm_free_blocks (phys s) = 0"
    using fill_tables_result [OF start _ some(3)] fill some(5) by fastforce
  have s: "pmm_inv (phys s)" "unat (pmm_free_blocks p) = unat n + unat (pmm_free_blocks (phys s))"
    using n(2) by (auto simp: tables_ok_def)
  show ?thesis
  proof (cases ok)
    case False
    then have "unat n < 1024" "pmm_free_blocks (phys s) = 0" using n(4) by (auto simp: word_less_nat_alt)
    then show ?thesis using False some fill s by (auto simp: paging_new_4gb_def)
  next
    case True
    then have "unat n = 1024" using n(3) by simp
    then have z: "unat (pmm_free_blocks (phys s)) = 0" using s(2) some(7) free by simp
    then have "pmm_allocate_block (phys s) = (0, phys s)" by (rule pmm_pages.alloc_fail [OF s(1)])
    then show ?thesis using True some fill s z by (auto simp: paging_new_4gb_def unat_eq_zero)
  qed
qed

section \<open>Giving a directory back\<close>

lemma free_4gb_fold:
  "paging_free_4gb chunk s = s\<lparr>phys := fold pmm_free_block
     (map (\<lambda>i. table_of (ram s) (load32 (ram s) chunk) (of_nat i)) [0..<1024] @
      [load32 (ram s) chunk, chunk]) (phys s)\<rparr>"
proof -
  have loop: "fold (\<lambda>i s. s\<lparr>phys := pmm_free_block
        (load32 (ram s) (load32 (ram s) chunk + of_nat i * 4) AND 0xfffff000) (phys s)\<rparr>) is s =
      s\<lparr>phys := fold pmm_free_block (map (\<lambda>i. table_of (ram s) (load32 (ram s) chunk) (of_nat i)) is) (phys s)\<rparr>"
    for "is" and s :: kmem
    by (induction "is" arbitrary: s) (simp_all add: table_of_def)
  show ?thesis
    by (simp add: paging_free_4gb_def for_u32_fold Let_def loop del: upt_rec_numeral)
qed

lemma upt_u32_image: "(\<lambda>i. f (of_nat i)) ` {0..<1024} = f ` {i :: u32. i < 1024}"
proof (intro set_eqI iffI)
  fix x assume "x \<in> (\<lambda>i. f (of_nat i)) ` {0..<1024}"
  then obtain i where "x = f (of_nat i)" "i < 1024" by auto
  then show "x \<in> f ` {i :: u32. i < 1024}"
    by (auto simp: word_less_nat_alt unat_of_nat_u32)
next
  fix x assume "x \<in> f ` {i :: u32. i < 1024}"
  then obtain i :: u32 where "x = f i" "i < 1024" by auto
  then show "x \<in> (\<lambda>i. f (of_nat i)) ` {0..<1024}"
    by (intro image_eqI [of _ _ "unat i"]) (auto simp: word_less_nat_alt)
qed

text \<open>\<open>paging_free_4gb\<close> releases exactly the 1026 pages of a chunk whose pages are in use.\<close>

lemma free_4gb_ok:
  fixes s :: kmem
  defines "d \<equiv> \<lambda>chunk. load32 (ram s) chunk"
  assumes inv: "pmm_inv (phys s)" and wf: "wf_directory (d chunk) (ram s)"
    and own: "{chunk, d chunk} \<union> table_of (ram s) (d chunk) ` {i. i < 1024} \<subseteq> owned_pages (phys s) - {0}"
    and "chunk \<noteq> d chunk" and "\<forall>i < 1024. table_of (ram s) (d chunk) i \<noteq> chunk"
  shows "\<exists>p. paging_free_4gb chunk s = s\<lparr>phys := p\<rparr> \<and> pmm_inv p \<and>
    owned_pages p = owned_pages (phys s) - ({chunk, d chunk} \<union> table_of (ram s) (d chunk) ` {i. i < 1024}) \<and>
    unat (pmm_free_blocks p) = 1026 + unat (pmm_free_blocks (phys s))"
proof -
  let ?T = "table_of (ram s) (d chunk)"
  let ?ts = "map (\<lambda>i. ?T (of_nat i)) [0..<1024]"
  let ?ps = "?ts @ [d chunk, chunk]"
  have set_ts: "set ?ts = ?T ` {i. i < 1024}"
    using upt_u32_image [of ?T] by (simp del: upt_rec_numeral)
  have "inj_on (\<lambda>i. ?T (of_nat i)) {0..<1024}"
  proof (rule inj_onI)
    fix i j :: nat assume ij: "i \<in> {0..<1024}" "j \<in> {0..<1024}" "?T (of_nat i) = ?T (of_nat j)"
    then have "(of_nat i :: u32) < 1024" "(of_nat j :: u32) < 1024"
      by (auto simp: word_less_nat_alt unat_of_nat_u32)
    with wf ij(3) have "(of_nat i :: u32) = of_nat j" by (simp add: wf_directory_def)
    with ij show "i = j" by (simp add: of_nat_u32_inject)
  qed
  then have "distinct ?ts" by (simp add: distinct_map del: upt_rec_numeral)
  moreover have "d chunk \<notin> set ?ts" "chunk \<notin> set ?ts"
    using wf assms(6) unfolding set_ts by (auto simp: wf_directory_def)
  ultimately have "distinct ?ps" using assms(5) by auto
  moreover have "set ?ps \<subseteq> owned_pages (phys s)" "0 \<notin> set ?ps"
    using own set_ts by (auto simp del: set_map)
  ultimately have "pmm_inv (fold pmm_free_block ?ps (phys s))"
    "owned_pages (fold pmm_free_block ?ps (phys s)) = owned_pages (phys s) - set ?ps"
    "unat (pmm_free_blocks (fold pmm_free_block ?ps (phys s))) = length ?ps + unat (pmm_free_blocks (phys s))"
    using pmm_pages.release_many_ok [OF inv, of ?ps] by blast+
  moreover have "set ?ps = {chunk, d chunk} \<union> ?T ` {i. i < 1024}"
    using set_ts by (auto simp del: set_map)
  ultimately show ?thesis
    using free_4gb_fold [of chunk s] by (auto simp: d_def simp del: upt_rec_numeral)
qed

section \<open>What the processor reads\<close>

text \<open>
  The two-level walk of the i386 over a directory: the entry of the directory and of the table
  must be present, the offset in the page is kept. This is what makes a directory an address
  space, and what the identity map means.
\<close>

definition mmu_walk :: "mem \<Rightarrow> u32 \<Rightarrow> u32 \<Rightarrow> u32 option" where
  "mmu_walk m d a =
     (let pde = load32 m (d + dir_index a * 4);
          pte = load32 m ((pde AND 0xfffff000) + tab_index a * 4)
      in if \<not> bit pde 0 \<or> \<not> bit pte 0 then None
         else Some ((pte AND 0xfffff000) OR (a AND 0xfff)))"

lemma bit_page_offset [simp]: "bit (0xfff :: int) i \<longleftrightarrow> i < 12"
proof -
  have eq: "(0xfff :: int) = mask 12" by (simp add: mask_eq_exp_minus_1)
  show ?thesis by (subst eq) (simp only: bit_mask_iff, simp)
qed

lemma bit_dir_mask [simp]: "bit (0x3ff :: int) i \<longleftrightarrow> i < 10"
proof -
  have eq: "(0x3ff :: int) = mask 10" by (simp add: mask_eq_exp_minus_1)
  show ?thesis by (subst eq) (simp only: bit_mask_iff, simp)
qed

lemma page_split: "a = (a AND 0xfffff000) OR (a AND 0xfff)" for a :: u32
  by (rule bit_word_eqI) (auto simp: bit_simps)

lemma page_base_indexes:
  "dir_index (a AND 0xfffff000) = dir_index a" "tab_index (a AND 0xfffff000) = tab_index a"
proof -
  have d: "x div 0x400000 = drop_bit 22 x" "x mod 0x400000 = take_bit 22 x" "x div 4096 = drop_bit 12 x" for x :: u32
    by (simp_all add: drop_bit_eq_div take_bit_eq_mod)
  show "dir_index (a AND 0xfffff000) = dir_index a"
    unfolding dir_index_def d using bit_imp_le_length [of a] by (intro bit_word_eqI) (fastforce simp: bit_simps)
  show "tab_index (a AND 0xfffff000) = tab_index a"
    unfolding tab_index_def d by (rule bit_word_eqI) (auto simp: bit_simps)
qed

lemma mask_page_flags': "page_aligned a \<Longrightarrow> (a OR ucast (f :: u8)) AND 0xfffff000 = a"
proof (rule bit_word_eqI)
  fix i assume a: "page_aligned a" and "i < LENGTH(32)"
  moreover have "bit f i \<Longrightarrow> i < 8" using bit_imp_le_length [of f i] by simp
  ultimately show "bit ((a OR ucast f) AND 0xfffff000) i = bit a i"
    by (auto simp: bit_simps bit_page_mask page_aligned_bits not_le [symmetric])
qed

lemma identity_map_walk:
  assumes "identity_map d (ucast (flags :: u8)) m" and "bit flags 0"
  shows "mmu_walk m d a = Some a"
proof -
  let ?b = "a AND 0xfffff000"
  have b: "page_aligned ?b" by (rule page_aligned_mask)
  have pde: "load32 m (d + dir_index a * 4) = table_of m d (dir_index a) OR ucast flags OR 2"
    using assms(1) dir_index_less [of a] by (simp add: identity_map_def)
  have "paging_get m d ?b = ?b OR ucast flags"
    using assms(1) b by (simp add: identity_map_def)
  then have pte: "load32 m (table_of m d (dir_index a) + tab_index a * 4) = ?b OR ucast flags"
    using paging_get_aligned [OF b, of m d] by (simp add: page_base_indexes)
  have "bit (x OR ucast flags OR y) 0" "bit (x OR ucast flags) 0" for x y :: u32
    using assms(2) by (simp_all add: bit_simps)
  then show ?thesis
    using pde pte mask_page_flags [OF table_of_aligned, of m d "dir_index a" flags]
      mask_page_flags' [OF b, of flags] page_split [of a]
    by (simp add: mmu_walk_def Let_def)
qed

section \<open>Rounding up to a page\<close>

lemma round_up_div: "0 < k \<Longrightarrow> r = x mod k \<Longrightarrow> r \<noteq> 0 \<Longrightarrow> (x + (k - 1)) div k * k = x + k - r" for x k r :: nat
proof -
  assume k: "0 < k" and r: "r = x mod k" "r \<noteq> 0"
  define q where "q = x div k"
  have x: "x = q * k + r" unfolding q_def r(1) by simp
  have "r < k" using k r by simp
  then have "(q * k + r + (k - 1)) div k = q + 1"
    using r(2) by (intro div_nat_eqI) (auto simp: algebra_simps)
  then show ?thesis unfolding x by (simp add: algebra_simps)
qed

lemma align_address:
  assumes "a \<le> 0xFFFFF000"
  shows "unat (paging_align_address a) = (unat a + 4095) div 4096 * 4096"
proof (cases "a mod 4096 = 0")
  case True
  then obtain k where "unat a = 4096 * k" using page_alignedE [of a] by (auto simp: page_aligned_def)
  then show ?thesis using True by (simp add: paging_align_address_def)
next
  case False
  let ?r = "unat a mod 4096"
  have r: "unat (a mod 4096) = ?r" "?r \<noteq> 0" "?r < 4096"
    using False by (auto simp: unat_mod word_unat_eq_iff)
  have "unat a \<noteq> 4294963200" using r(2) by auto
  then have "unat a < 4294963200" using assms by (simp add: word_le_nat_alt)
  then have "unat (a + 4096) = unat a + 4096" by (simp add: unat_word_ariths)
  moreover from this have "a mod 4096 \<le> a + 4096" using r by (simp add: word_le_nat_alt)
  ultimately have "unat (a + 4096 - a mod 4096) = unat a + 4096 - ?r"
    using r by (simp add: unat_sub)
  then show ?thesis
    using False round_up_div [OF _ refl r(2)] by (simp add: paging_align_address_def)
qed

lemma unat_eq_of_nat_u32: "unat a = n \<Longrightarrow> a = of_nat n" for a :: u32
  by auto

lemma align_address_wraps: "0xFFFFF000 < a \<Longrightarrow> paging_align_address a = 0"
proof -
  assume "0xFFFFF000 < a"
  then have "4294963200 < unat a" by (simp add: word_less_nat_alt)
  then obtain y where y: "unat a = 4294963200 + y" "y \<noteq> 0"
    by (metis less_imp_add_positive less_numeral_extra(3))
  have "y < 4096" using y unat_u32_bound [of a] by linarith
  then have "(4294963200 + y) mod 4096 = y" using mod_mult_self3 [of 1048575 4096 y] by simp
  then have "unat (a mod 4096) = y" using y by (simp add: unat_mod)
  then have r: "a mod 4096 = of_nat y" by (rule unat_eq_of_nat_u32)
  have a: "a = of_nat (4294963200 + y)" using y(1) by (rule unat_eq_of_nat_u32)
  have "a mod 4096 \<noteq> 0" using \<open>unat (a mod 4096) = y\<close> y(2) by (metis unat_0)
  moreover have "a + 4096 - a mod 4096 = 0" unfolding r by (simp add: a)
  ultimately show ?thesis by (simp add: paging_align_address_def)
qed

section \<open>Correctness of paging\<close>

text \<open>The globals at boot: nothing loaded, and \<open>for_one_time\<close> still 1.\<close>

definition vm_boot :: vm where
  "vm_boot = \<lparr>km = kmem_boot, for_one_time = 1, current_directory = 0, cr3 = 0, paging_on = False\<rparr>"

lemma vm_boot_simps [simp]: "km vm_boot = kmem_boot" "for_one_time vm_boot = 1"
  by (simp_all add: vm_boot_def)

text \<open>C4: A new address space is the identity map. With 1026 blocks free \<open>paging_new_4gb\<close> returns a fresh chunk
  that points to a well-formed directory in which every page maps to itself with the given flags; if
  they include the present bit, the processor's two-level walk translates every address to itself. It takes exactly 1026
  pages that nobody owned, keeps the allocator's invariant, and changes no byte outside these pages.\<close>

theorem paging_new_4gb_identity:
  assumes "pmm_inv (phys (km v))" and "1026 \<le> unat (pmm_free_blocks (phys (km v)))"
    and "paging_new_4gb flags v = (chunk, v')"
    and "d = paging_4gb_chunk_get_directory (ram (km v')) chunk"
  shows "chunk \<noteq> 0 \<and> chunk \<notin> owned_pages (phys (km v)) \<and> wf_directory d (ram (km v')) \<and>
    (\<forall>a. page_aligned a \<longrightarrow> paging_get (ram (km v')) d a = a OR ucast flags) \<and>
    (bit flags 0 \<longrightarrow> (\<forall>a. mmu_walk (ram (km v')) d a = Some a)) \<and>
    pmm_inv (phys (km v')) \<and> owned_pages (phys (km v)) \<subseteq> owned_pages (phys (km v')) \<and>
    unat (pmm_free_blocks (phys (km v))) = 1026 + unat (pmm_free_blocks (phys (km v'))) \<and>
    (\<forall>x. (\<forall>q \<in> owned_pages (phys (km v')) - owned_pages (phys (km v)). 4096 \<le> x - q) \<longrightarrow>
      ram (km v') x = ram (km v) x)"
proof -
  note new = new_4gb_success [OF assms(1,2), of flags, unfolded assms(3)]
  have id: "identity_map d (ucast flags) (ram (km v'))"
    using new assms(4) by (auto simp: paging_4gb_chunk_get_directory_def)
  have walk: "bit flags 0 \<longrightarrow> (\<forall>a. mmu_walk (ram (km v')) d a = Some a)"
    using identity_map_walk [OF id] by blast
  have "owned_pages (phys (km v)) \<subseteq> owned_pages (phys (km v'))" "chunk \<notin> owned_pages (phys (km v))"
    using new by auto
  moreover have "chunk \<noteq> 0" "pmm_inv (phys (km v'))"
    "unat (pmm_free_blocks (phys (km v))) = 1026 + unat (pmm_free_blocks (phys (km v')))"
    "\<forall>x. (\<forall>q \<in> owned_pages (phys (km v')) - owned_pages (phys (km v)). 4096 \<le> x - q) \<longrightarrow>
      ram (km v') x = ram (km v) x"
    using new by auto
  ultimately show ?thesis using id walk by (simp add: identity_map_def)
qed

lemma paging_new_4gb_identity_witness:
  "\<exists>chunk v'. paging_new_4gb 7 vm_boot = (chunk, v') \<and>
     mmu_walk (ram (km v')) (paging_4gb_chunk_get_directory (ram (km v')) chunk) 0xB8123 = Some 0xB8123"
proof -
  obtain chunk v' where new: "paging_new_4gb 7 vm_boot = (chunk, v')" by fastforce
  have "bit (7 :: u8) 0" by simp
  with paging_new_4gb_identity [OF _ _ new refl] new show ?thesis by (auto simp: pmm_boot_inv)
qed

text \<open>C26: Releasing an address space. \<open>paging_free_4gb\<close> of a chunk \<open>paging_new_4gb\<close> built gives back exactly the
  1026 pages it took: the pages in use and the number of free blocks are those from before, and the invariant holds.\<close>

theorem paging_free_4gb_restores:
  assumes "pmm_inv (phys (km v))" and "1026 \<le> unat (pmm_free_blocks (phys (km v)))"
    and "paging_new_4gb flags v = (chunk, v')"
  shows "pmm_inv (phys (paging_free_4gb chunk (km v'))) \<and>
    owned_pages (phys (paging_free_4gb chunk (km v'))) = owned_pages (phys (km v)) \<and>
    pmm_free_blocks (phys (paging_free_4gb chunk (km v'))) = pmm_free_blocks (phys (km v)) \<and>
    ram (paging_free_4gb chunk (km v')) = ram (km v')"
proof -
  note new = new_4gb_success [OF assms(1,2), of flags, unfolded assms(3)]
  let ?s = "km v'" and ?d = "load32 (ram (km v')) chunk"
  let ?P = "{chunk, ?d} \<union> table_of (ram ?s) ?d ` {i. i < 1024}"
  have o: "owned_pages (phys ?s) = ?P \<union> owned_pages (phys (km v))" "?P \<inter> owned_pages (phys (km v)) = {}"
    using new by auto
  have "0 \<in> owned_pages (phys (km v))"
    using owned_pages_iff [OF assms(1), of 0] assms(1,2)
    by (auto simp: pmm_inv_def alloc_set_def word_less_nat_alt)
  then have "?P \<subseteq> owned_pages (phys ?s) - {0}" using o by blast
  moreover have "pmm_inv (phys ?s)" "wf_directory ?d (ram ?s)" "chunk \<noteq> ?d"
    "\<forall>i < 1024. table_of (ram ?s) ?d i \<noteq> chunk"
    and n: "unat (pmm_free_blocks (phys (km v))) = 1026 + unat (pmm_free_blocks (phys ?s))"
    using new by (auto simp: identity_map_def)
  ultimately obtain p where p: "paging_free_4gb chunk ?s = ?s\<lparr>phys := p\<rparr>" "pmm_inv p"
    "owned_pages p = owned_pages (phys ?s) - ?P"
    "unat (pmm_free_blocks p) = 1026 + unat (pmm_free_blocks (phys ?s))"
    using free_4gb_ok [of ?s chunk] by blast
  have "owned_pages p = owned_pages (phys (km v))" using p(3) o by blast
  moreover have "pmm_free_blocks p = pmm_free_blocks (phys (km v))" using p(4) n by (simp add: word_unat_eq_iff)
  ultimately show ?thesis using p(1,2) by simp
qed

lemma paging_free_4gb_restores_witness:
  "\<exists>chunk v'. paging_new_4gb 7 vm_boot = (chunk, v') \<and>
     owned_pages (phys (paging_free_4gb chunk (km v'))) = owned_pages pmm_boot"
proof -
  obtain chunk v' where new: "paging_new_4gb 7 vm_boot = (chunk, v')" by fastforce
  with paging_free_4gb_restores [OF _ _ new] show ?thesis by (auto simp: pmm_boot_inv)
qed

text \<open>C40: Running out of memory while building an address space. With at most 1025 free blocks the result is null,
  but every free block has been taken and none is given back; with exactly 1025 the kernel also overwrites the word
  at address 0 with the directory's address.\<close>

theorem paging_new_4gb_exhaustion_leaks:
  assumes "pmm_inv (phys (km v))" and "unat (pmm_free_blocks (phys (km v))) \<le> 1025"
    and "paging_new_4gb flags v = (chunk, v')"
  shows "chunk = 0 \<and> pmm_inv (phys (km v')) \<and> pmm_free_blocks (phys (km v')) = 0 \<and>
    (unat (pmm_free_blocks (phys (km v))) = 1025 \<longrightarrow> load32 (ram (km v')) 0 \<noteq> 0)"
  using new_4gb_failure [OF assms(1,2), of flags] assms(3) by auto

lemma paging_new_4gb_exhaustion_leaks_witness:
  "pmm_free_blocks (phys (km (snd (paging_new_4gb 7 (vm_boot\<lparr>km := kmem_boot\<lparr>phys := pmm_init 25500 25000 pmm_bss\<rparr>\<rparr>))))) = 0"
  using paging_new_4gb_exhaustion_leaks [OF _ _ surjective_pairing,
      of "vm_boot\<lparr>km := kmem_boot\<lparr>phys := pmm_init 25500 25000 pmm_bss\<rparr>\<rparr>"]
    pmm_init_inv(1) [of 25000 25500 pmm_bss]
  by (simp add: pmm_bss_def allocated_def)

text \<open>Setting and reading one page of a well-formed directory. \<open>paging_set\<close> of an aligned address makes \<open>paging_get\<close>
  return the value stored, leaves the entry of every other page alone and keeps the directory well-formed; a misaligned
  address is refused with -1 and nothing is written.\<close>

theorem paging_set_get:
  assumes "wf_directory d m"
  shows "if page_aligned a
    then \<exists>m'. paging_set m d a x = (1, m') \<and> wf_directory d m' \<and> paging_get m' d a = x \<and>
      (\<forall>b. page_aligned b \<and> b \<noteq> a \<longrightarrow> paging_get m' d b = paging_get m d b)
    else paging_set m d a x = (-1, m)"
proof (cases "page_aligned a")
  case True
  then show ?thesis using dir_space.update_ok [OF assms True, of x] by simp blast
next
  case False
  then show ?thesis by (simp add: paging_set_def paging_is_aligned_def page_aligned_def)
qed

lemma boot_directory:
  "\<exists>d m. wf_directory d m \<and> (\<forall>a. page_aligned a \<longrightarrow> paging_get m d a = a OR 7)"
  using new_4gb_success [of vm_boot 7] by (auto simp: pmm_boot_inv identity_map_def)

lemma paging_set_get_witness:
  "\<exists>d m m'. paging_set m d 0x400000 0x1000 = (1, m') \<and> paging_get m' d 0x400000 = 0x1000 \<and>
     paging_get m' d 0x401000 = 0x401007"
proof -
  obtain d m where dm: "wf_directory d m" "\<forall>a. page_aligned a \<longrightarrow> paging_get m d a = a OR 7"
    using boot_directory by blast
  from paging_set_get [OF dm(1), where a = "0x400000" and x = "0x1000"] dm(2) show ?thesis
    by (fastforce simp: page_aligned_def)
qed

text \<open>Mapping a range of pages. For an aligned range of at most 2^20 pages in a well-formed directory
  \<open>paging_map_range\<close> succeeds, maps page \<open>i\<close> of the virtual range to page \<open>i\<close> of the physical range with the flags,
  touches no other page, and keeps the directory well-formed.\<close>

theorem paging_map_range_correct:
  assumes "wf_directory d m" and "page_aligned v" and "page_aligned p" and "n \<le> 0x100000"
  shows "\<exists>m'. paging_map_range m d v p n f = (1, m') \<and> wf_directory d m' \<and>
    (\<forall>i < n. paging_get m' d (v + i * 4096) = (p + i * 4096) OR f) \<and>
    (\<forall>a. page_aligned a \<and> (\<forall>i < n. a \<noteq> v + i * 4096) \<longrightarrow> paging_get m' d a = paging_get m d a)"
  using dir_space.map_pages_ok [OF assms, of f] by (auto simp: map_range_map_pages)

lemma unat_numeral_page_limit: "unat (0x404000 :: u32) = 0x404000"
  by simp

lemma paging_map_range_correct_witness:
  "\<exists>d m m'. paging_map_range m d 0x400000 0x800000 4 7 = (1, m') \<and> paging_get m' d 0x403000 = 0x803007 \<and>
     paging_get m' d 0x404000 = 0x404007"
proof -
  obtain d m where dm: "wf_directory d m" "\<forall>a. page_aligned a \<longrightarrow> paging_get m d a = a OR 7"
    using boot_directory by blast
  from paging_map_range_correct [OF dm(1), where v = "0x400000" and p = "0x800000" and n = 4 and f = 7] obtain m' where m':
    "paging_map_range m d 0x400000 0x800000 4 7 = (1, m')"
    "\<forall>i < 4. paging_get m' d (0x400000 + i * 4096) = (0x800000 + i * 4096) OR 7"
    "\<forall>a. page_aligned a \<and> (\<forall>i < 4. a \<noteq> 0x400000 + i * 4096) \<longrightarrow> paging_get m' d a = paging_get m d a"
    by (auto simp: page_aligned_def)
  have "paging_get m' d 0x403000 = 0x803007" using m'(2) [rule_format, of 3] by simp
  moreover have "0x404000 \<noteq> 0x400000 + i * 4096" if "i < 4" for i :: u32
  proof -
    have "unat (0x400000 + i * 4096) = 0x400000 + unat i * 4096"
      using that by (simp add: unat_word_ariths word_less_nat_alt)
    then have "unat (0x400000 + i * 4096) < 0x404000" using that by (simp add: word_less_nat_alt)
    then show ?thesis by (metis unat_numeral_page_limit less_irrefl)
  qed
  then have "paging_get m' d 0x404000 = 0x404007"
    using m'(3) [rule_format, of "0x404000"] dm(2) by (simp add: page_aligned_def)
  ultimately show ?thesis using m'(1) by blast
qed

text \<open>C29: \<open>paging_map_to\<close> refuses a misaligned virtual address, a misaligned physical bound or an empty interval
  written backwards, with -1 and no write; otherwise it maps exactly the pages of the physical interval up to its
  exclusive end, in order, from the virtual address.\<close>

theorem paging_map_to_correct:
  assumes "wf_directory d m"
  shows "if page_aligned v \<and> page_aligned p \<and> page_aligned e \<and> p \<le> e
    then \<exists>m'. paging_map_to m d v p e f = (1, m') \<and> wf_directory d m' \<and>
      (\<forall>i. unat p + unat i * 4096 < unat e \<longrightarrow> paging_get m' d (v + i * 4096) = (p + i * 4096) OR f) \<and>
      (\<forall>a. page_aligned a \<and> (\<forall>i. unat p + unat i * 4096 < unat e \<longrightarrow> a \<noteq> v + i * 4096) \<longrightarrow>
        paging_get m' d a = paging_get m d a)
    else paging_map_to m d v p e f = (-1, m)"
proof (cases "page_aligned v \<and> page_aligned p \<and> page_aligned e \<and> p \<le> e")
  case True
  let ?n = "(e - p) div 4096"
  obtain k l where kl: "unat p = 4096 * k" "unat e = 4096 * l"
    using True by (elim conjE page_alignedE)
  have le: "k \<le> l" "l < 1048576"
    using True kl unat_u32_bound [of e] by (auto simp: word_le_nat_alt simp del: unat_u32_bound)
  have n: "unat ?n = l - k"
    using True kl by (simp add: unat_div unat_sub word_le_nat_alt flip: diff_mult_distrib2)
  have idx: "i < ?n \<longleftrightarrow> unat p + unat i * 4096 < unat e" for i :: u32
    using le by (auto simp: word_less_nat_alt n kl)
  have "?n \<le> 0x100000" using n le by (simp add: word_le_nat_alt)
  then have "\<exists>m'. paging_map_range m d v p ?n f = (1, m') \<and> wf_directory d m' \<and>
    (\<forall>i < ?n. paging_get m' d (v + i * 4096) = (p + i * 4096) OR f) \<and>
    (\<forall>a. page_aligned a \<longrightarrow> (\<forall>i < ?n. a \<noteq> v + i * 4096) \<longrightarrow> paging_get m' d a = paging_get m d a)"
    using dir_space.map_pages_ok [OF assms, of v p ?n f] True by (simp add: map_range_map_pages)
  moreover have "paging_map_to m d v p e f = paging_map_range m d v p ?n f"
    using True by (auto simp: paging_map_to_def page_aligned_def Let_def)
  ultimately show ?thesis using True unfolding idx by (simp; blast)
next
  case False
  then show ?thesis by (auto simp: paging_map_to_def page_aligned_def)
qed

lemma paging_map_to_correct_witness:
  "\<exists>d m m'. paging_map_to m d 0x400000 0x900000 0x902000 7 = (1, m') \<and> paging_get m' d 0x401000 = 0x901007 \<and>
     paging_map_to m d 0x400000 0x902000 0x900000 7 = (-1, m)"
proof -
  obtain d m where dm: "wf_directory d m" using boot_directory by blast
  have "paging_map_to m d 0x400000 0x902000 0x900000 7 = (-1, m)"
    using paging_map_to_correct [OF dm, where v = "0x400000" and p = "0x902000" and e = "0x900000" and f = 7]
    by (simp add: page_aligned_def)
  moreover obtain m' where m': "paging_map_to m d 0x400000 0x900000 0x902000 7 = (1, m')"
    "\<forall>i. unat (0x900000 :: u32) + unat i * 4096 < unat (0x902000 :: u32) \<longrightarrow>
      paging_get m' d (0x400000 + i * 4096) = (0x900000 + i * 4096) OR 7"
    using paging_map_to_correct [OF dm, where v = "0x400000" and p = "0x900000" and e = "0x902000" and f = 7]
    by (auto simp: page_aligned_def)
  moreover have "paging_get m' d 0x401000 = 0x901007" using m'(2) [rule_format, of 1] by simp
  ultimately show ?thesis by blast
qed

text \<open>\<open>paging_align_address\<close> rounds up to the next multiple of 4096, for every address up to the last page
  of the address space; above its start there is no such multiple and the result wraps to 0.\<close>

theorem paging_align_address_correct:
  "unat (paging_align_address a) =
     (if unat a \<le> 0xFFFFF000 then (unat a + 4095) div 4096 * 4096 else 0)"
  using align_address [of a] align_address_wraps [of a]
  by (auto simp: word_le_nat_alt word_less_nat_alt not_le)

end
