(* ===== verification/Pages.thy ===== *)
theory Pages imports Paging CString
begin

text \<open>
  Structures on pages of their own: words of a structure, the page an address lies on, memory that a page is
  left alone by, and what a small \<open>kzalloc\<close> gives. The clients of the heap (tasks, paths, file descriptors)
  place each structure on its own page, since \<open>kmallac\<close> hands out whole pages.
\<close>

text \<open>Word \<open>i\<close> of a structure.\<close>

definition field :: "u32 \<Rightarrow> u32 \<Rightarrow> u32" where "field t i = t + i * 4"

lemma load_store_field:
  assumes "page_aligned t" "page_aligned u" "i < 1024" "j < 1024"
  shows "load32 (store32 m (field t i) v) (field u j) = (if t = u \<and> i = j then v else load32 m (field u j))"
proof (cases "t = u \<and> i = j")
  case False
  then have "apart 4 (field u j) (field t i)"
    unfolding field_def using assms by (intro slot_apart) auto
  with False show ?thesis by (auto simp: load32_store32_apart)
qed auto

lemma other_page_far:
  assumes "page_aligned u" "page_aligned q" "u \<noteq> q" "x - u < 4096"
  shows "4096 \<le> x - q"
proof (rule ccontr)
  assume "\<not> 4096 \<le> x - q"
  then have q: "x - q < 4096" by simp
  have "unat x = unat p + unat (x - p)" if "page_aligned p" "x - p < 4096" for p
    using unat_in_page [OF that] by simp
  from this [OF assms(1,4)] this [OF assms(2) q]
  have e: "unat u + unat (x - u) = unat q + unat (x - q)" by simp
  obtain k l where kl: "unat u = 4096 * k" "unat q = 4096 * l"
    using assms(1,2) by (metis page_alignedE)
  have "unat (x - u) < 4096" "unat (x - q) < 4096"
    using assms(4) q by (simp_all add: word_less_nat_alt)
  then have "k = (unat u + unat (x - u)) div 4096" "l = (unat q + unat (x - q)) div 4096"
    by (simp_all add: kl)
  then have "unat u = unat q" using e kl by simp
  with assms(3) show False by (simp add: word_unat_eq_iff)
qed

definition same_page :: "mem \<Rightarrow> mem \<Rightarrow> u32 \<Rightarrow> bool" where
  "same_page m m' u \<longleftrightarrow> (\<forall>x. x - u < 4096 \<longrightarrow> m' x = m x)"

lemma same_page_load:
  assumes "same_page m m' u" and "j < 1024"
  shows "load32 m' (field u j) = load32 m (field u j)"
proof -
  have "m' (field u j + i) = m (field u j + i)" if i: "i < 4" for i
  proof -
    have "field u j + i - u = j * 4 + i" by (simp add: field_def)
    moreover have "unat (j * 4 + i) = unat j * 4 + unat i"
      using assms(2) i by (simp add: unat_word_ariths word_less_nat_alt)
    moreover have "unat j * 4 + unat i < 4096" using assms(2) i by (simp add: word_less_nat_alt)
    ultimately have "field u j + i - u < 4096" by (simp only: word_less_nat_alt) simp
    then show ?thesis using assms(1) by (simp add: same_page_def)
  qed
  from this [of 0] this [of 1] this [of 2] this [of 3] show ?thesis by (simp add: load32_def)
qed

lemma same_page_refl [simp]: "same_page m m u"
  by (simp add: same_page_def)

lemma same_page_trans: "same_page m1 m2 u \<Longrightarrow> same_page m2 m3 u \<Longrightarrow> same_page m1 m3 u"
  by (simp add: same_page_def)

lemma store_same_page:
  assumes "page_aligned t" "page_aligned u" "u \<noteq> t" "j < 1024"
  shows "same_page m (store32 m (field t j) v) u"
  unfolding same_page_def field_def
  using store32_outside_page [OF assms(4)] other_page_far [OF assms(2,1,3)] by auto

lemma memset_same_page:
  assumes "page_aligned t" "page_aligned u" "u \<noteq> t" "n \<le> 4096"
  shows "same_page m (memset m t c n) u"
  unfolding same_page_def memset_apply
  using other_page_far [OF assms(2,1,3)] assms(4) by (auto dest: order.strict_trans2 leD)

lemma memset_zero_field:
  assumes "page_aligned t" and "j < 16"
  shows "load32 (memset m t 0 64) (field t j) = 0"
proof -
  have "memset m t 0 64 (field t j + i) = 0" if i: "i < 4" for i
  proof -
    have "field t j + i - t = j * 4 + i" by (simp add: field_def)
    moreover have "unat (j * 4 + i) = unat j * 4 + unat i"
      using assms(2) i by (simp add: unat_word_ariths word_less_nat_alt)
    moreover have "unat j * 4 + unat i < 64" using assms(2) i by (simp add: word_less_nat_alt)
    ultimately have "field t j + i - t < 64" by (simp only: word_less_nat_alt) simp
    then show ?thesis by (simp add: memset_apply)
  qed
  from this [of 0] this [of 1] this [of 2] this [of 3] show ?thesis by (simp add: load32_def)
qed

lemma of_nat_below:
  assumes "i < unat n" shows "(of_nat i :: u32) < n" "unat (of_nat i :: u32) = i"
proof -
  have "i < 4294967296" using assms unat_u32_bound [of n] by linarith
  then show "unat (of_nat i :: u32) = i" by (rule unat_of_nat_u32)
  then show "(of_nat i :: u32) < n" using assms by (simp add: word_less_nat_alt)
qed

definition page_of :: "u32 \<Rightarrow> u32" where "page_of a = a AND 0xfffff000"

lemma page_of_aligned [simp]: "page_aligned (page_of a)"
  by (simp add: page_of_def page_aligned_mask)

lemma page_of_page [simp]: "page_aligned p \<Longrightarrow> page_of p = p"
  by (simp add: page_of_def mask_page)

lemma page_offset: "a - page_of a = a AND 0xfff"
proof -
  have "(a AND 0xfffff000) AND (a AND 0xfff) = 0" by (rule bit_word_eqI) (auto simp: bit_simps)
  then have "a = page_of a + (a AND 0xfff)"
    unfolding page_of_def using page_split [of a] by (subst word_plus_and_or [symmetric]) simp
  then show ?thesis by (metis add_diff_cancel_left')
qed

lemma in_page_of: "a - page_of a < 4096"
proof -
  have "a AND 0xfff \<le> 0xfff" by (rule word_and_le1)
  then show ?thesis unfolding page_offset by unat_arith
qed

lemma far_from_page: "page_aligned u \<Longrightarrow> u \<noteq> page_of a \<Longrightarrow> 4096 \<le> a - u"
  using other_page_far [OF page_of_aligned _ _ in_page_of] by metis

lemma page_of_in: "page_aligned p \<Longrightarrow> a - p < 4096 \<Longrightarrow> page_of a = p"
  using far_from_page [of p a] by (metis not_le)

text \<open>An offset is its page number and the rest.\<close>

lemma offset_split:
  obtains i r :: u32 where "k = i * 4096 + r" "r < 4096" "unat k = unat i * 4096 + unat r"
proof
  let ?i = "k div 4096" and ?r = "k mod 4096"
  have "unat ?i * 4096 + unat ?r = unat k" by (simp add: unat_div unat_mod)
  then show "unat k = unat ?i * 4096 + unat ?r" by simp
  show "k = ?i * 4096 + ?r" by (simp add: div_mult_mod_eq)
  show "?r < 4096" by (simp add: word_less_nat_alt unat_mod)
qed

lemma page_times: "page_aligned (i * 4096)"
  by (simp add: page_aligned_def word_unat_eq_iff unat_mod unat_word_ariths mod_mod_cancel)

lemma page_of_split:
  assumes q: "page_aligned q" and k: "k = i * 4096 + r" "r < 4096"
  shows "page_of (q + k) = q + i * 4096" "(q + k) AND 0xfff = r"
proof -
  have "page_aligned (q + i * 4096)" using q page_times by (rule page_aligned_add)
  moreover have "q + k - (q + i * 4096) < 4096" using k by simp
  ultimately show "page_of (q + k) = q + i * 4096" by (rule page_of_in)
  then show "(q + k) AND 0xfff = r" using page_offset [of "q + k"] k(1) by simp
qed

text \<open>An address near a field of a structure is near the structure.\<close>

lemma near_within: "x - (p + k) < n \<Longrightarrow> unat k + unat n \<le> unat N \<Longrightarrow> x - p < N" for x p k n N :: u32
proof -
  assume h: "x - (p + k) < n" "unat k + unat n \<le> unat N"
  obtain z where z: "z = x - (p + k)" by blast
  then have "x - p = z + k" by simp
  moreover have "unat z + unat k < unat N" using h unfolding z [symmetric] by (simp add: word_less_nat_alt)
  then have "z + k < N" using unat_u32_bound [of N] by (simp add: word_less_nat_alt unat_word_ariths del: unat_u32_bound)
  ultimately show ?thesis by (simp only:)
qed

lemma write_bytes_pages:
  assumes "\<And>i. i < length bs \<Longrightarrow> page_of (p + of_nat i) \<noteq> u" and "page_aligned u"
  shows "same_page m (write_bytes m p bs) u"
  unfolding same_page_def
proof (intro allI impI write_bytes_outside)
  fix x i assume "x - u < 4096" "i < length bs"
  then show "x \<noteq> p + of_nat i" using page_of_in [OF assms(2)] assms(1) by metis
qed

lemma kheap_inv_grow:
  assumes "kheap_inv s" and "pmm_inv (phys s')" and "big_blocks s' = big_blocks s"
    and "owned_pages (phys s) \<subseteq> owned_pages (phys s')"
  shows "kheap_inv s'"
proof -
  have "kheap_inv (s\<lparr>phys := phys s'\<rparr>)"
    using region_owned [OF assms(1)] assms(4) by (intro kheap_inv_phys [OF assms(1,2)]) blast
  then show ?thesis using assms(3) by (simp add: kheap_inv_def)
qed

lemma kzalloc_small:
  assumes "kheap_inv s" and "sz \<le> 4096" and "0 < unat (pmm_free_blocks (phys s))"
  shows "\<exists>a s'. kzalloc sz s = (a, s') \<and> a \<noteq> 0 \<and> page_aligned a \<and> a \<notin> owned_pages (phys s) \<and>
    owned_pages (phys s') = insert a (owned_pages (phys s)) \<and> ram s' = memset (ram s) a 0 sz \<and>
    big_blocks s' = big_blocks s \<and> kheap_inv s' \<and>
    unat (pmm_free_blocks (phys s)) = Suc (unat (pmm_free_blocks (phys s'))) \<and> kfree a s' = s\<lparr>ram := memset (ram s) a 0 sz\<rparr>"
proof -
  have inv: "pmm_inv (phys s)" using assms(1) by (simp add: kheap_inv_def)
  from pmm_pages.alloc_ok [OF this assms(3)] obtain a p where
    a: "pmm_allocate_block (phys s) = (a, p)" "a \<noteq> 0" "page_aligned a" "a \<notin> owned_pages (phys s)"
      "owned_pages p = insert a (owned_pages (phys s))" "pmm_inv p"
      "unat (pmm_free_blocks (phys s)) = Suc (unat (pmm_free_blocks p))" by blast
  let ?s = "s\<lparr>phys := p, ram := memset (ram s) a 0 sz\<rparr>"
  have run: "kzalloc sz s = (a, ?s)" using a(1) assms(2) by (simp add: kzalloc_def kmallac_small)
  have "kheap_inv (s\<lparr>phys := p\<rparr>)"
    using region_owned [OF assms(1)] a by (intro kheap_inv_phys [OF assms(1)]) auto
  then have s': "kheap_inv ?s" by (simp add: kheap_inv_def)
  have "a \<in> single_pages ?s" using a(4,5) region_owned [OF assms(1)] by (auto simp: single_pages_def)
  then have "kfree a ?s = s\<lparr>ram := memset (ram s) a 0 sz\<rparr>"
    using kfree_single [OF s' _ a(2)] pmm_roundtrip [OF inv a(1,2)] by simp
  then show ?thesis using run a s' by (intro exI [of _ a] exI [of _ ?s]) simp
qed

section \<open>What others' pages keep\<close>

text \<open>The heap never changes the size of the memory it manages.\<close>

lemma pmm_size_fixed [simp]:
  "pmm_system_memory_size (snd (pmm_allocate_block p)) = pmm_system_memory_size p"
  "pmm_system_memory_size (snd (pmm_allocate_first_n_blocks n p)) = pmm_system_memory_size p"
  "pmm_system_memory_size (pmm_free_block a p) = pmm_system_memory_size p"
  by (simp_all add: pmm_allocate_block_def pmm_allocate_first_n_blocks_def pmm_free_block_def Let_def)

lemma insert_big_phys [simp]: "phys (snd (insert_in_big_blocks a n s)) = phys s"
  by (simp add: insert_in_big_blocks_def split: option.split)

lemma kzalloc_size: "kzalloc sz s = (a, s') \<Longrightarrow> pmm_system_memory_size (phys s') = pmm_system_memory_size (phys s)"
  by (auto simp: kzalloc_def kmallac_def Let_def prod_eq_iff split: prod.splits if_splits)

text \<open>From one heap state to a later one: pages in use stay in use, with their contents.\<close>

definition keeps :: "kmem \<Rightarrow> kmem \<Rightarrow> bool" where
  "keeps s s' \<longleftrightarrow> owned_pages (phys s) \<subseteq> owned_pages (phys s') \<and>
     pmm_system_memory_size (phys s') = pmm_system_memory_size (phys s) \<and>
     (\<forall>x. page_of x \<in> owned_pages (phys s) \<longrightarrow> ram s' x = ram s x)"

lemma keeps_refl [simp]: "keeps s s"
  by (simp add: keeps_def)

lemma keeps_trans: "keeps s1 s2 \<Longrightarrow> keeps s2 s3 \<Longrightarrow> keeps s1 s3"
  by (auto simp: keeps_def)

lemma page_of_offset: "page_aligned p \<Longrightarrow> i < 4096 \<Longrightarrow> page_of (p + i) = p"
  by (rule page_of_in) simp_all

lemma page_of_nat_offset: "page_aligned p \<Longrightarrow> i < 4096 \<Longrightarrow> page_of (p + of_nat i) = p"
  by (rule page_of_offset) (simp_all add: word_less_nat_alt unat_of_nat_u32)

lemma load32_cong:
  assumes "\<And>j. j < 4 \<Longrightarrow> m' (a + j) = m (a + j)" shows "load32 m' a = load32 m a"
  using assms [of 0] assms [of 1] assms [of 2] assms [of 3] by (simp add: load32_def)

lemma keeps_load32:
  assumes "keeps s s'" "page_aligned p" "p \<in> owned_pages (phys s)" "i \<le> 4092"
  shows "load32 (ram s') (p + i) = load32 (ram s) (p + i)"
proof -
  have "ram s' (p + i + j) = ram s (p + i + j)" if "j < 4" for j
  proof -
    have "i + j < 4096" using assms(4) that by unat_arith
    then have "page_of (p + (i + j)) = p" by (rule page_of_offset [OF assms(2)])
    then show ?thesis using assms(1,3) by (simp add: keeps_def add.assoc)
  qed
  from this [of 0] this [of 1] this [of 2] this [of 3] show ?thesis by (simp add: load32_def)
qed

lemma cstring_cong:
  "cstring m p xs \<Longrightarrow> (\<And>i. i \<le> length xs \<Longrightarrow> m' (p + of_nat i) = m (p + of_nat i)) \<Longrightarrow> cstring m' p xs"
proof (induction xs arbitrary: p)
  case Nil
  then show ?case using Nil.prems(2) [of 0] by simp
next
  case (Cons c cs)
  have "cstring m' (p + 1) cs"
    using Cons.prems(1) Cons.prems(2) [of "Suc _"] by (intro Cons.IH) (auto simp: add.assoc)
  then show ?case using Cons.prems(1) Cons.prems(2) [of 0] by simp
qed

text \<open>A region of memory in pages in use.\<close>

definition region_in_use :: "kmem \<Rightarrow> u32 \<Rightarrow> nat \<Rightarrow> bool" where
  "region_in_use s p n \<longleftrightarrow> (\<forall>i < n. page_of (p + of_nat i) \<in> owned_pages (phys s))"

lemma region_keeps: "region_in_use s p n \<Longrightarrow> keeps s s' \<Longrightarrow> region_in_use s' p n"
  by (auto simp: region_in_use_def keeps_def)

lemma keeps_cstring:
  "keeps s s' \<Longrightarrow> region_in_use s p (Suc (length xs)) \<Longrightarrow> cstring (ram s) p xs \<Longrightarrow> cstring (ram s') p xs"
  by (erule cstring_cong) (simp add: keeps_def region_in_use_def)

text \<open>Writing to a fresh page.\<close>

lemma keeps_write:
  assumes "p \<notin> owned_pages (phys s)" and "owned_pages (phys s) \<subseteq> owned_pages (phys s')"
    and "pmm_system_memory_size (phys s') = pmm_system_memory_size (phys s)"
    and "\<And>x. page_of x \<noteq> p \<Longrightarrow> ram s' x = ram s x"
  shows "keeps s s'"
  unfolding keeps_def
proof (intro conjI allI impI)
  fix x assume "page_of x \<in> owned_pages (phys s)"
  then have "page_of x \<noteq> p" using assms(1) by metis
  then show "ram s' x = ram s x" by (rule assms(4))
qed (rule assms(2), rule assms(3))

lemma keeps_write_after:
  assumes "keeps s s2" and "p \<notin> owned_pages (phys s)" and "owned_pages (phys s2) \<subseteq> owned_pages (phys s')"
    and "pmm_system_memory_size (phys s') = pmm_system_memory_size (phys s2)"
    and "\<And>x. page_of x \<noteq> p \<Longrightarrow> ram s' x = ram s2 x"
  shows "keeps s s'"
  unfolding keeps_def
proof (intro conjI allI impI)
  fix x assume x: "page_of x \<in> owned_pages (phys s)"
  then have "page_of x \<noteq> p" using assms(2) by metis
  then have "ram s' x = ram s2 x" by (rule assms(5))
  then show "ram s' x = ram s x" using assms(1) x by (simp add: keeps_def)
qed (use assms(1,3,4) in \<open>auto simp: keeps_def\<close>)

lemma far_word:
  assumes "page_aligned p" "i \<le> 4092" "page_of x \<noteq> p"
  shows "4 \<le> x - (p + i)"
proof (rule ccontr)
  assume "\<not> 4 \<le> x - (p + i)"
  then have "i + (x - (p + i)) < 4096" using assms(2) by unat_arith
  then have "page_of (p + (i + (x - (p + i)))) = p" by (rule page_of_offset [OF assms(1)])
  then show False using assms(3) by simp
qed

lemma store32_page: "page_aligned p \<Longrightarrow> i \<le> 4092 \<Longrightarrow> page_of x \<noteq> p \<Longrightarrow> store32 m (p + i) v x = m x"
  by (rule store32_other [OF far_word])

lemma write_bytes_page:
  assumes "page_aligned p" "i + length bs \<le> 4096" "page_of x \<noteq> p"
  shows "write_bytes m (p + of_nat i) bs x = m x"
proof (rule write_bytes_outside)
  fix j assume "j < length bs"
  then have "page_of (p + of_nat (i + j)) = p" using assms(2) by (intro page_of_nat_offset [OF assms(1)]) simp
  then show "x \<noteq> p + of_nat i + of_nat j" using assms(3) by (auto simp: add.assoc)
qed

lemma kzalloc_keeps:
  assumes "kheap_inv s" and "sz \<le> 4096" and "0 < unat (pmm_free_blocks (phys s))"
  shows "\<exists>a s'. kzalloc sz s = (a, s') \<and> a \<noteq> 0 \<and> page_aligned a \<and> a \<notin> owned_pages (phys s) \<and> keeps s s' \<and>
    owned_pages (phys s') = insert a (owned_pages (phys s)) \<and> ram s' = memset (ram s) a 0 sz \<and>
    big_blocks s' = big_blocks s \<and> kheap_inv s' \<and>
    unat (pmm_free_blocks (phys s)) = Suc (unat (pmm_free_blocks (phys s')))"
proof -
  from kzalloc_small [OF assms] obtain a s' where a: "kzalloc sz s = (a, s')" "a \<noteq> 0" "page_aligned a"
    "a \<notin> owned_pages (phys s)" "owned_pages (phys s') = insert a (owned_pages (phys s))"
    "ram s' = memset (ram s) a 0 sz" "big_blocks s' = big_blocks s" "kheap_inv s'"
    "unat (pmm_free_blocks (phys s)) = Suc (unat (pmm_free_blocks (phys s')))" by blast
  have "ram s' x = ram s x" if "page_of x \<noteq> a" for x
  proof -
    from assms(2) far_from_page [OF a(3) that [symmetric]] have "sz \<le> x - a" by (rule order.trans)
    then show ?thesis by (simp add: a(6) memset_apply leD)
  qed
  then have "keeps s s'" using a(4,5) kzalloc_size [OF a(1)] by (intro keeps_write) auto
  with a show ?thesis by blast
qed

text \<open>A request of several pages, when few enough blocks are in use.\<close>

lemma kzalloc_run:
  assumes inv: "kheap_inv s" and sz: "4096 < sz"
    and few: "unat (blocks_for sz) * unat (pmm_used_blocks (phys s)) + 1 < unat (pmm_system_memory_size (phys s))"
  shows "\<exists>a s'. kzalloc sz s = (a, s') \<and> a \<noteq> 0 \<and> page_aligned a \<and> unat a + unat sz \<le> 0xFFFFF000 \<and> keeps s s' \<and>
    (\<forall>i < sz. page_of (a + i) \<in> owned_pages (phys s') - owned_pages (phys s)) \<and> ram s' = memset (ram s) a 0 sz \<and>
    kheap_inv s' \<and> unat (pmm_free_blocks (phys s)) = unat (blocks_for sz) + unat (pmm_free_blocks (phys s')) \<and>
    single_pages s \<subseteq> single_pages s'"
proof -
  let ?n = "blocks_for sz"
  let ?k = "pmm_get_first_n_blocks ?n (phys s)"
  let ?e = "\<lparr>starting_address = ?k * PMM_BLOCK_SIZE, blocks = ?n\<rparr>" and ?p = "take_run ?k ?n (phys s)"
  have p: "pmm_inv (phys s)" using inv by (simp add: kheap_inv_def)
  have n: "0 < ?n" "?n < 0xFFFFFFFF"
    using blocks_for_bounds [of sz] sz by (auto simp: word_less_nat_alt word_le_nat_alt)
  have "?k \<noteq> 0" using free_run_exists [OF p n(1) few] get_first_n_blocks_spec(1) [OF n(2)] by blast
  note run = big_run [OF inv sz refl this]
  note fresh = run_pages_fresh [OF p run(1,3)] and own = owned_pages_take_run [OF run(1,3)]
  let ?a = "?k * PMM_BLOCK_SIZE"
  obtain s1 where s1: "kmallac sz s = (?a, s1)" "phys s1 = ?p" "ram s1 = ram s" "kheap_inv s1"
    "set (big_blocks s1) \<subseteq> insert ?e (set (big_blocks s))"
  proof (cases "first_index (\<lambda>e. starting_address e = 0) (big_blocks s)")
    case None
    have "big_region e \<subseteq> owned_pages ?p" if "e \<in> set (big_blocks s)" for e
      using region_owned [OF inv that] own by blast
    then have "kheap_inv (s\<lparr>phys := ?p\<rparr>)" by (intro kheap_inv_phys [OF inv take_run_inv(1) [OF p run(1)]])
    then show ?thesis
      using that kmallac_big_success [OF sz refl \<open>?k \<noteq> 0\<close> run(2)] None by (auto simp: insert_big_full)
  next
    case (Some j)
    from that insert_run_inv [OF inv run(1,4,3,2) \<open>?k \<noteq> 0\<close> Some] show ?thesis
      using kmallac_big_success [OF sz refl \<open>?k \<noteq> 0\<close> run(2)] Some set_update_subset_insert [of "big_blocks s" j ?e]
      by (simp add: insert_big_free)
  qed
  have cover: "unat sz \<le> unat ?n * 4096"
    using div_mult_mod_eq [of "unat sz + 4095" 4096] mod_less_divisor [of 4096 "unat sz + 4095"]
    unfolding unat_blocks_for by linarith
  have al: "page_aligned ?a" by (rule block_address_aligned [OF run(2)])
  have page: "page_of (?a + i) \<in> big_region ?e" if "i < sz" for i
  proof -
    obtain b r :: u32 where k: "i = b * 4096 + r" "r < 4096" "unat i = unat b * 4096 + unat r" by (rule offset_split)
    have "unat i < unat sz" using that by (simp add: word_less_nat_alt)
    then have "unat b < unat ?n" using k(3) cover by simp
    then show ?thesis using page_of_split(1) [OF al k(1,2)] by (auto simp: big_region_def word_less_nat_alt)
  qed
  let ?s = "s1\<lparr>ram := memset (ram s) ?a 0 sz\<rparr>"
  have "kzalloc sz s = (?a, ?s)" using s1(1,3) by (simp add: kzalloc_def)
  moreover have "keeps s ?s"
    unfolding keeps_def
  proof (intro conjI allI impI)
    fix x assume x: "page_of x \<in> owned_pages (phys s)"
    have "\<not> x - ?a < sz" using page [of "x - ?a"] fresh(1) x by auto
    then show "ram ?s x = ram s x" by (simp add: memset_apply)
  qed (use own s1(2) in auto)
  moreover have "?a \<noteq> 0" using block_address_inject [of ?k 0] \<open>?k \<noteq> 0\<close> run(2) by simp
  moreover have "unat ?a + unat sz \<le> 0xFFFFF000"
  proof -
    have "unat ?k + unat ?n < 0x100000"
      using run(1) p by (simp add: is_free_run_def pmm_inv_def word_le_nat_alt)
    moreover have "unat ?a = unat ?k * 4096" using run(2) by (simp add: unat_block_address)
    ultimately show ?thesis using cover by simp
  qed
  moreover have "unat (pmm_free_blocks (phys s)) = unat ?n + unat (pmm_free_blocks (phys ?s))"
    using take_run_inv(2) [OF p run(1)] s1(2) by simp
  moreover have "kheap_inv ?s" using s1(4) by (simp add: kheap_inv_def)
  moreover have "page_of (?a + i) \<in> owned_pages (phys ?s) - owned_pages (phys s)" if "i < sz" for i
    using page [OF that] fresh(1) own s1(2) by auto
  moreover have "single_pages s \<subseteq> single_pages ?s"
  proof
    fix x assume x: "x \<in> single_pages s"
    have "x \<notin> big_region e" if "e \<in> set (big_blocks ?s)" for e
      using that x fresh(1) s1(5) by (auto simp: single_pages_def)
    then show "x \<in> single_pages ?s" using x own s1(2) by (simp add: single_pages_def)
  qed
  ultimately show ?thesis using al by (intro exI [of _ ?a] exI [of _ ?s]) simp
qed

text \<open>A zeroed region of any size, on pages of its own.\<close>

lemma kzalloc_region:
  assumes inv: "kheap_inv s" and sz: "0 < sz"
    and few: "unat (blocks_for sz) * unat (pmm_used_blocks (phys s)) + 1 < unat (pmm_system_memory_size (phys s))"
  shows "\<exists>r s'. kzalloc sz s = (r, s') \<and> r \<noteq> 0 \<and> page_aligned r \<and> keeps s s' \<and>
    (\<forall>i < sz. page_of (r + i) \<in> owned_pages (phys s') - owned_pages (phys s)) \<and> kheap_inv s' \<and>
    single_pages s \<subseteq> single_pages s' \<and>
    unat (pmm_free_blocks (phys s)) = unat (blocks_for sz) + unat (pmm_free_blocks (phys s')) \<and>
    (pmm_system_memory_size (phys s) < 0x100000 \<longrightarrow> unat r + unat sz \<le> 0xFFFFF000)"
proof (cases "sz \<le> 4096")
  case True
  have "0 < unat sz" "unat sz \<le> 4096" using sz True by (simp_all add: word_less_nat_alt word_le_nat_alt)
  then have "(unat sz + 4095) div 4096 = 1" by (intro div_nat_eqI) auto
  then have one: "unat (blocks_for sz) = 1" by (simp add: unat_blocks_for)
  have "pmm_inv (phys s)" using inv by (simp add: kheap_inv_def)
  then have "0 < unat (pmm_free_blocks (phys s))" using few one by (simp add: pmm_inv_def)
  from kzalloc_keeps [OF inv True this] obtain r s' where r: "kzalloc sz s = (r, s')" "r \<noteq> 0" "page_aligned r"
    "r \<notin> owned_pages (phys s)" "keeps s s'" "owned_pages (phys s') = insert r (owned_pages (phys s))"
    "big_blocks s' = big_blocks s" "kheap_inv s'" "unat (pmm_free_blocks (phys s)) = Suc (unat (pmm_free_blocks (phys s')))" by blast
  have "page_of (r + i) = r" if "i < sz" for i
    using page_of_offset [OF r(3) order.strict_trans2 [OF that True]] .
  moreover have "single_pages s \<subseteq> single_pages s'" using r(6,7) by (auto simp: single_pages_def)
  moreover have "unat r + unat sz \<le> 0xFFFFF000" if "pmm_system_memory_size (phys s) < 0x100000"
  proof -
    have "pmm_inv (phys s')" "pmm_system_memory_size (phys s') = pmm_system_memory_size (phys s)"
      using r(5,8) by (simp_all add: kheap_inv_def keeps_def)
    then have "unat r + 4096 \<le> unat (pmm_system_memory_size (phys s)) * 4096" using owned_page_below [of "phys s'" r] r(6) by simp
    then show ?thesis using that \<open>unat sz \<le> 4096\<close> by (simp add: word_less_nat_alt)
  qed
  ultimately show ?thesis using r one by (intro exI [of _ r] exI [of _ s']) simp
next
  case False
  with kzalloc_run [OF inv _ few] show ?thesis by (simp add: not_le) blast
qed

lemma kfree_page:
  assumes inv: "kheap_inv s" and a: "a \<in> owned_pages (phys s)" "a \<noteq> 0"
    and old: "kheap_inv s0" "big_blocks s = big_blocks s0" "a \<notin> owned_pages (phys s0)"
  shows "\<exists>p. kfree a s = s\<lparr>phys := p\<rparr> \<and> kheap_inv (s\<lparr>phys := p\<rparr>) \<and> owned_pages p = owned_pages (phys s) - {a} \<and>
    pmm_system_memory_size p = pmm_system_memory_size (phys s) \<and> unat (pmm_free_blocks p) = Suc (unat (pmm_free_blocks (phys s)))"
proof -
  have "a \<in> single_pages s" using a old region_owned [OF old(1)] by (auto simp: single_pages_def)
  then have k: "kfree a s = s\<lparr>phys := pmm_free_block a (phys s)\<rparr>" "kheap_inv (kfree a s)"
    using kfree_single [OF inv _ a(2)] heap_pages.release_ok [OF inv _ a(2)] by auto
  moreover have "owned_pages (pmm_free_block a (phys s)) = owned_pages (phys s) - {a}"
    "unat (pmm_free_blocks (pmm_free_block a (phys s))) = Suc (unat (pmm_free_blocks (phys s)))"
    using pmm_pages.release_ok [of "phys s" a] inv a by (auto simp: kheap_inv_def)
  ultimately show ?thesis by auto
qed

section \<open>Pages in use from the start\<close>

lemma boot_pages: "b < 25000 \<Longrightarrow> b * 4096 \<in> owned_pages pmm_boot"
  by (auto simp: owned_pages_def pmm_boot_alloc_set)

lemma boot_page_of:
  assumes "page_aligned p" "p div 4096 < 25000" "i < 4096" shows "page_of (p + i) \<in> owned_pages pmm_boot"
proof -
  have "p + i - p < 4096" using assms(3) by simp
  then have "page_of (p + i) = p" by (rule page_of_in [OF assms(1)])
  moreover obtain b where "unat p = 4096 * b" "b < 1048576" using assms(1) by (rule page_alignedE)
  then have "p = p div 4096 * 4096" by (simp add: word_unat_eq_iff unat_word_ariths unat_div)
  ultimately show ?thesis using boot_pages [OF assms(2)] by simp
qed

end
