(* ===== verification/PathParser.thy ===== *)
theory PathParser imports Pages
begin

text \<open>
  Paths, \<open>src/src/fs/path_parser.c\<close>: \<open>0:/bin/shell\<close> becomes a \<open>struct path_root\<close> (drive at 0, first part at
  4) and a chain of \<open>struct path_part\<close> (string at 0, next at 4) on the heap. The parameter \<open>char **path\<close> is
  the cursor, passed and returned. The copying loops run until they meet a separator or a terminator: \<open>None\<close>
  is a run that meets neither.
\<close>

abbreviation (input) MAX_PATH :: u32 where "MAX_PATH \<equiv> 108"

section \<open>The operations\<close>

text \<open>\<open>memcmp(&str[1], ":/", 2)\<close> compares with the two bytes of the literal.\<close>

definition pathparser_path_valid_format :: "mem \<Rightarrow> u32 \<Rightarrow> bool" where
  "pathparser_path_valid_format m str =
     (let len = strnlen m str MAX_PATH in
      if len \<le>s 3 then False
      else if \<not> is_digit (m str) then False
      else if m (str + 1) \<noteq> 58 \<or> m (str + 2) \<noteq> 47 then False
      else True)"

definition pathparser_get_drive_by_path :: "mem \<Rightarrow> u32 \<Rightarrow> int \<times> u32" where
  "pathparser_get_drive_by_path m path =
     (if \<not> pathparser_path_valid_format m path then (-1, path)
      else (to_numeric_digit (m path), path + 3))"

definition pathparser_create_path_root :: "u32 \<Rightarrow> kmem \<Rightarrow> u32 \<times> u32 \<times> kmem" where
  "pathparser_create_path_root path s =
     (let (temp, s) = kzalloc 8 s;
          (drive, path) = pathparser_get_drive_by_path (ram s) path;
          m = store32 (ram s) temp (word_of_int drive);
          m = store32 m (temp + 4) 0
      in (temp, path, s\<lparr>ram := m\<rparr>))"

text \<open>\<open>while (**path != '/' && **path != 0)\<close>\<close>

partial_function (option) path_part_loop :: "mem \<Rightarrow> u32 \<Rightarrow> u32 \<Rightarrow> u32 \<Rightarrow> (mem \<times> u32 \<times> u32) option" where
  "path_part_loop m c_temp path i =
     (if m path \<noteq> 47 \<and> m path \<noteq> 0
      then path_part_loop (m(c_temp + i := m path)) c_temp (path + 1) (i + 1)
      else Some (m, path, i))"

definition pathparser_get_path_part :: "u32 \<Rightarrow> kmem \<Rightarrow> (u32 \<times> u32 \<times> kmem) option" where
  "pathparser_get_path_part path s =
     (let (temp, s) = kzalloc 8 s; (c_temp, s) = kzalloc MAX_PATH s in
      case path_part_loop (ram s) c_temp path 0 of
        None \<Rightarrow> None
      | Some (m, path, i) \<Rightarrow>
          let m = m(c_temp + i := 0);
              path = (if m path = 47 then path + 1 else path)
          in if i = 0 then Some (0, path, kfree temp (s\<lparr>ram := m\<rparr>))
             else Some (temp, path, s\<lparr>ram := store32 m temp c_temp\<rparr>))"

partial_function (option) path_parts_loop :: "u32 \<Rightarrow> u32 \<Rightarrow> kmem \<Rightarrow> (u32 \<times> kmem) option" where
  "path_parts_loop current_path_part path s =
     (if current_path_part \<noteq> 0 then
        (case pathparser_get_path_part path s of
           None \<Rightarrow> None
         | Some (next', path, s) \<Rightarrow>
             let s = s\<lparr>ram := store32 (ram s) (current_path_part + 4) next'\<rparr>
             in path_parts_loop (load32 (ram s) (current_path_part + 4)) path s)
      else Some (path, s))"

definition pathparser_create_path_part :: "u32 \<Rightarrow> kmem \<Rightarrow> (u32 \<times> u32 \<times> kmem) option" where
  "pathparser_create_path_part path s =
     (case pathparser_get_path_part path s of
        None \<Rightarrow> None
      | Some (temp, path, s) \<Rightarrow>
          (case path_parts_loop temp path s of
             None \<Rightarrow> None
           | Some (path, s) \<Rightarrow> Some (temp, path, s)))"

definition Pathparser_parse :: "u32 \<Rightarrow> kmem \<Rightarrow> (u32 \<times> u32 \<times> kmem) option" where
  "Pathparser_parse path s =
     (let (root, path, s) = pathparser_create_path_root path s in
      case pathparser_create_path_part path s of
        None \<Rightarrow> None
      | Some (first, path, s) \<Rightarrow> Some (root, path, s\<lparr>ram := store32 (ram s) (root + 4) first\<rparr>))"

section \<open>One component\<close>

lemma path_part_loop_result:
  assumes "cstring m path bs" and "page_aligned c" and "unat i + length (takeWhile (\<lambda>b. b \<noteq> 47) bs) < 4096"
    and "\<And>j. j \<le> length bs \<Longrightarrow> page_of (path + of_nat j) \<noteq> c"
  shows "path_part_loop m c path i = (let w = takeWhile (\<lambda>b. b \<noteq> 47) bs in
    Some (write_bytes m (c + i) w, path + of_nat (length w), i + of_nat (length w)))"
  using assms
proof (induction bs arbitrary: m path i)
  case Nil
  then show ?case by (subst path_part_loop.simps) simp
next
  case (Cons b bs)
  show ?case
  proof (cases "b = 47")
    case True
    then show ?thesis using Cons.prems(1) by (subst path_part_loop.simps) simp
  next
    case False
    let ?m = "m(c + i := b)"
    have i: "i < 4096" "unat (i + 1) = Suc (unat i)"
      using Cons.prems(3) False by (auto simp: word_less_nat_alt unat_word_ariths)
    have "page_of (c + i) = c" by (rule page_of_offset [OF assms(2) i(1)])
    then have ne: "path + of_nat j \<noteq> c + i" if "j \<le> length (b # bs)" for j
      using Cons.prems(4) [OF that] by metis
    have "cstring ?m (path + 1) bs"
    proof (rule cstring_cong)
      show "cstring m (path + 1) bs" using Cons.prems(1) by simp
      fix j assume "j \<le> length bs"
      then show "?m (path + 1 + of_nat j) = m (path + 1 + of_nat j)" using ne [of "Suc j"] by (simp add: add.assoc)
    qed
    note str = this
    have far: "page_of (path + 1 + of_nat j) \<noteq> c" if "j \<le> length bs" for j
      using Cons.prems(4) [of "Suc j"] that by (simp add: add.assoc)
    have w: "unat (i + 1) + length (takeWhile (\<lambda>b. b \<noteq> 47) bs) < 4096" using Cons.prems(3) False i(2) by simp
    have "path_part_loop ?m c (path + 1) (i + 1) = (let w = takeWhile (\<lambda>b. b \<noteq> 47) bs in
        Some (write_bytes ?m (c + (i + 1)) w, path + 1 + of_nat (length w), i + 1 + of_nat (length w)))"
      by (rule Cons.IH [where m = ?m, OF str assms(2) w far])
    then show ?thesis
      using Cons.prems(1) False by (subst path_part_loop.simps) (simp add: Let_def add.assoc)
  qed
qed

lemma cstring_drop: "cstring m p (xs @ ys) \<Longrightarrow> cstring m (p + of_nat (length xs)) ys"
  by (induction xs arbitrary: p) (auto simp: add.assoc [symmetric])

text \<open>The first component of a path, what is left after it, and where the cursor then stands.\<close>

definition part_of :: "u8 list \<Rightarrow> u8 list" where "part_of bs = takeWhile (\<lambda>b. b \<noteq> 47) bs"
definition after_part :: "u8 list \<Rightarrow> u8 list" where "after_part bs = tl (dropWhile (\<lambda>b. b \<noteq> 47) bs)"

lemma part_split: "bs = part_of bs @ (if length (part_of bs) < length bs then 47 # after_part bs else [])"
proof (induction bs)
  case (Cons b bs)
  then show ?case by (cases "b = 47") (auto simp: part_of_def after_part_def)
qed (simp add: part_of_def)

lemma length_part: "length (part_of bs) \<le> length bs"
  by (simp add: part_of_def length_takeWhile_le)

lemma after_part_length:
  assumes "part_of bs \<noteq> []" shows "length (after_part bs) < length bs"
proof -
  have "length bs = length (part_of bs) + (if length (part_of bs) < length bs then Suc (length (after_part bs)) else 0)"
    using arg_cong [OF part_split [of bs], of length] by (simp split: if_splits)
  moreover have "after_part bs = []" if "\<not> length (part_of bs) < length bs"
  proof -
    have "part_of bs = bs" using that part_split [of bs] by simp
    then show ?thesis unfolding part_of_def after_part_def
      by (metis append_Nil2 dropWhile_eq_Nil_conv list.sel(2) takeWhile_eq_all_conv)
  qed
  ultimately show ?thesis using assms by (cases bs) (auto split: if_splits)
qed

definition cursor_after :: "u32 \<Rightarrow> u8 list \<Rightarrow> u32" where
  "cursor_after path bs = path + of_nat (length bs - length (after_part bs))"

lemma cursor_string:
  assumes "cstring m path bs"
  shows "m (path + of_nat (length (part_of bs))) = (if length (part_of bs) < length bs then 47 else 0)"
    "cstring m (cursor_after path bs) (after_part bs)"
    "cursor_after path bs = (if length (part_of bs) < length bs then path + of_nat (length (part_of bs)) + 1
      else path + of_nat (length (part_of bs)))"
proof -
  have len: "length bs = length (part_of bs) + (if length (part_of bs) < length bs then Suc (length (after_part bs)) else 0)"
    using arg_cong [OF part_split [of bs], of length] by (simp split: if_splits)
  have d: "cstring m (path + of_nat (length (part_of bs)))
      (if length (part_of bs) < length bs then 47 # after_part bs else [])"
    using cstring_drop [of m path "part_of bs"] assms part_split [of bs] by metis
  then show "m (path + of_nat (length (part_of bs))) = (if length (part_of bs) < length bs then 47 else 0)"
    by (auto split: if_splits)
  show c: "cursor_after path bs = (if length (part_of bs) < length bs then path + of_nat (length (part_of bs)) + 1
      else path + of_nat (length (part_of bs)))"
  proof (cases "length (part_of bs) < length bs")
    case True
    then have "length bs - length (after_part bs) = Suc (length (part_of bs))" using len by simp
    then show ?thesis using True by (simp add: cursor_after_def)
  next
    case False
    then have l: "length bs = length (part_of bs)" using length_part [of bs] by simp
    then have "part_of bs = bs" using part_split [of bs] by simp
    then have "after_part bs = []" unfolding part_of_def after_part_def by (metis append_Nil2 dropWhile_eq_Nil_conv list.sel(2) takeWhile_eq_all_conv)
    then show ?thesis using False l by (simp add: cursor_after_def)
  qed
  show "cstring m (cursor_after path bs) (after_part bs)"
  proof (cases "length (part_of bs) < length bs")
    case True
    then show ?thesis using d c by (simp add: add.assoc)
  next
    case False
    then have "part_of bs = bs" using part_split [of bs] by simp
    then have "after_part bs = []" unfolding part_of_def after_part_def by (metis append_Nil2 dropWhile_eq_Nil_conv list.sel(2) takeWhile_eq_all_conv)
    then show ?thesis using False d c by simp
  qed
qed

lemma get_path_part_ok:
  assumes inv: "kheap_inv s" and free: "2 \<le> unat (pmm_free_blocks (phys s))"
    and str: "cstring (ram s) path bs" and use: "region_in_use s path (Suc (length bs))" and w: "length (part_of bs) < 4095"
  shows "\<exists>p s'. pathparser_get_path_part path s = Some (p, cursor_after path bs, s') \<and> keeps s s' \<and> kheap_inv s' \<and>
    (if part_of bs = [] then p = 0 \<and> unat (pmm_free_blocks (phys s)) = Suc (unat (pmm_free_blocks (phys s')))
     else p \<noteq> 0 \<and> p \<notin> owned_pages (phys s) \<and> p \<in> owned_pages (phys s') \<and> page_aligned p \<and>
       page_aligned (load32 (ram s') p) \<and> load32 (ram s') p \<in> owned_pages (phys s') - {p} - owned_pages (phys s) \<and>
       cstring (ram s') (load32 (ram s') p) (part_of bs) \<and>
       unat (pmm_free_blocks (phys s)) = 2 + unat (pmm_free_blocks (phys s')))"
proof -
  let ?w = "part_of bs"
  from kzalloc_keeps [OF inv, of 8] free obtain t s1 where
    t: "kzalloc 8 s = (t, s1)" "t \<noteq> 0" "page_aligned t" "t \<notin> owned_pages (phys s)" "keeps s s1"
      "owned_pages (phys s1) = insert t (owned_pages (phys s))" "big_blocks s1 = big_blocks s" "kheap_inv s1"
      "unat (pmm_free_blocks (phys s)) = Suc (unat (pmm_free_blocks (phys s1)))" by auto
  from kzalloc_keeps [OF t(8), of 108] free t(9) obtain c s2 where
    c: "kzalloc 108 s1 = (c, s2)" "page_aligned c" "c \<notin> owned_pages (phys s1)" "keeps s1 s2"
      "owned_pages (phys s2) = insert c (owned_pages (phys s1))" "big_blocks s2 = big_blocks s1" "kheap_inv s2"
      "unat (pmm_free_blocks (phys s1)) = Suc (unat (pmm_free_blocks (phys s2)))" by auto
  have k2: "keeps s s2" using t(5) c(4) by (rule keeps_trans)
  have str2: "cstring (ram s2) path bs" by (rule keeps_cstring [OF k2 use str])
  have far: "page_of (path + of_nat j) \<noteq> c" "page_of (path + of_nat j) \<noteq> t" if "j \<le> length bs" for j
    using use that c(3) t(4,6) by (auto simp: region_in_use_def)
  let ?m = "write_bytes (ram s2) c (?w @ [0])"
  let ?s = "s2\<lparr>ram := ?m\<rparr>"
  have loop: "path_part_loop (ram s2) c path 0 =
      Some (write_bytes (ram s2) c ?w, path + of_nat (length ?w), of_nat (length ?w))"
    using path_part_loop_result [OF str2 c(2) _ far(1), of 0] w by (simp add: part_of_def Let_def)
  have m: "?m = (write_bytes (ram s2) c ?w)(c + of_nat (length ?w) := 0)" by (rule write_bytes_snoc)
  have mfar: "?m x = ram s2 x" if "page_of x \<noteq> c" for x
    using write_bytes_page [OF c(2) _ that, of 0 "?w @ [0]"] w by simp
  have "?m (path + of_nat (length ?w)) = ram s2 (path + of_nat (length ?w))"
    using mfar far(1) length_part by blast
  then have cur: "(if ?m (path + of_nat (length ?w)) = 47 then path + of_nat (length ?w) + 1 else path + of_nat (length ?w)) =
      cursor_after path bs"
    using cursor_string(1,3) [OF str2] by simp
  have cs: "c \<notin> owned_pages (phys s)" using c(3) t(6) by blast
  have k3: "keeps s ?s" using mfar by (intro keeps_write_after [OF k2 cs]) simp_all
  have inv3: "kheap_inv ?s" using c(7) by (simp add: kheap_inv_def)
  have run: "pathparser_get_path_part path s = (if (of_nat (length ?w) :: u32) = 0
      then Some (0, cursor_after path bs, kfree t ?s)
      else Some (t, cursor_after path bs, ?s\<lparr>ram := store32 ?m t c\<rparr>))"
  proof -
    obtain n m1 where n: "n = (of_nat (length ?w) :: u32)" "m1 = write_bytes (ram s2) c ?w" by simp
    show ?thesis
      using cur unfolding pathparser_get_path_part_def t(1) c(1) n(1) [symmetric]
      by (simp add: c(1) loop [folded n] m [folded n, symmetric] del: fun_upd_apply)
  qed
  have lz: "(of_nat (length ?w) :: u32) = 0 \<longleftrightarrow> ?w = []"
    using of_nat_u32_inject [of "length ?w" 0] w by simp
  show ?thesis
  proof (cases "?w = []")
    case True
    have "t \<in> owned_pages (phys ?s)" using c(5) t(6) by simp
    from kfree_page [OF inv3 this t(2) inv] t(4,7) c(6) obtain p where
      p: "kfree t ?s = ?s\<lparr>phys := p\<rparr>" "kheap_inv (?s\<lparr>phys := p\<rparr>)" "owned_pages p = owned_pages (phys ?s) - {t}" "pmm_system_memory_size p = pmm_system_memory_size (phys ?s)"
        "unat (pmm_free_blocks p) = Suc (unat (pmm_free_blocks (phys ?s)))" by auto
    have "keeps s (?s\<lparr>phys := p\<rparr>)" using k3 p(3,4) t(4) by (auto simp: keeps_def)
    then show ?thesis using run lz True p t(9) c(8) by (intro exI [of _ 0] exI [of _ "?s\<lparr>phys := p\<rparr>"]) simp
  next
    case False
    let ?s' = "?s\<lparr>ram := store32 ?m t c\<rparr>"
    have tfar: "store32 ?m t c x = ?m x" if "page_of x \<noteq> t" for x
      using store32_page [OF t(3) _ that, of 0] by simp
    have ks: "keeps s ?s'" using tfar by (intro keeps_write_after [OF k3 t(4)]) simp_all
    have nz: "0 \<notin> set ?w"
      using cstring_nth [OF str] set_takeWhileD [of 0 "\<lambda>b. b \<noteq> 47" bs] by (auto simp: part_of_def in_set_conv_nth)
    have ct: "c \<noteq> t" using c(3) t(6) by blast
    have "cstring ?m c ?w" using nz w by (intro cstring_write_bytes) auto
    then have "cstring (store32 ?m t c) c ?w"
    proof (rule cstring_cong)
      fix i assume "i \<le> length ?w"
      then have "page_of (c + of_nat i) = c" using w by (intro page_of_nat_offset [OF c(2)]) simp
      then show "store32 ?m t c (c + of_nat i) = ?m (c + of_nat i)" using ct by (intro tfar) simp
    qed
    then have s': "page_aligned (load32 (ram ?s') t)" "load32 (ram ?s') t \<in> owned_pages (phys ?s') - {t} - owned_pages (phys s)"
      "cstring (ram ?s') (load32 (ram ?s') t) ?w" "t \<in> owned_pages (phys ?s')"
      using c(2,5) ct cs t(6) by auto
    have "kheap_inv ?s'" using inv3 by (simp add: kheap_inv_def)
    moreover have "unat (pmm_free_blocks (phys s)) = 2 + unat (pmm_free_blocks (phys ?s'))" using t(9) c(8) by simp
    ultimately show ?thesis using run lz False ks s' t(2-4) by (intro exI [of _ t] exI [of _ ?s']) simp
  qed
qed

section \<open>The chain of components\<close>

text \<open>The components a path is split into: up to the first empty one.\<close>

function components :: "u8 list \<Rightarrow> u8 list list" where
  "components bs = (if part_of bs = [] then [] else part_of bs # components (after_part bs))"
  by pat_completeness auto
termination
  by (relation "measure length") (auto simp: after_part_length)

declare components.simps [simp del]

fun path_list :: "mem \<Rightarrow> u32 \<Rightarrow> u8 list list \<Rightarrow> bool" where
  "path_list m p [] \<longleftrightarrow> p = 0"
| "path_list m p (w # ws) \<longleftrightarrow> p \<noteq> 0 \<and> page_aligned p \<and> page_aligned (load32 m p) \<and> length w < 4095 \<and>
     cstring m (load32 m p) w \<and> path_list m (load32 m (p + 4)) ws"

fun path_pages :: "mem \<Rightarrow> u32 \<Rightarrow> u8 list list \<Rightarrow> u32 set" where
  "path_pages m p [] = {}"
| "path_pages m p (w # ws) = {p, load32 m p} \<union> path_pages m (load32 m (p + 4)) ws"

lemma path_list_cong:
  assumes "path_list m p ws" and "\<And>x. page_of x \<in> path_pages m p ws \<Longrightarrow> m' x = m x"
  shows "path_list m' p ws \<and> path_pages m' p ws = path_pages m p ws"
  using assms
proof (induction ws arbitrary: p)
  case (Cons w ws)
  have p: "page_aligned p" "page_aligned (load32 m p)" "length w < 4095" using Cons.prems(1) by auto
  have pg: "m' (p + j) = m (p + j)" if "j < 4096" for j
    using Cons.prems(2) page_of_offset [OF p(1) that] by simp
  have small: "j < 4096" "4 + j < 4096" if "j < 4" for j :: u32 using that by unat_arith+
  have l: "load32 m' p = load32 m p" "load32 m' (p + 4) = load32 m (p + 4)"
    using pg small by (auto intro!: load32_cong simp: add.assoc)
  have "cstring m' (load32 m p) w"
  proof (rule cstring_cong)
    fix i assume "i \<le> length w"
    then have "page_of (load32 m p + of_nat i) = load32 m p" using p(3) by (intro page_of_nat_offset [OF p(2)]) simp
    then show "m' (load32 m p + of_nat i) = m (load32 m p + of_nat i)" using Cons.prems(2) by simp
  qed (use Cons.prems(1) in simp)
  moreover have "path_list m' (load32 m (p + 4)) ws \<and> path_pages m' (load32 m (p + 4)) ws = path_pages m (load32 m (p + 4)) ws"
    using Cons.prems by (intro Cons.IH) auto
  ultimately show ?case using Cons.prems(1) by (simp add: l)
qed simp

text \<open>The rest of the path lies where the path lay, and the head of a chain survives what is done to its tail.\<close>

lemma cursor_pages:
  assumes "part_of bs \<noteq> []" and "region_in_use s path (Suc (length bs))" and "j \<le> length (after_part bs)"
  shows "page_of (cursor_after path bs + of_nat j) \<in> owned_pages (phys s)"
proof -
  have e: "cursor_after path bs + of_nat j = path + of_nat (length bs - length (after_part bs) + j)"
    "length bs - length (after_part bs) + j \<le> length bs"
    using assms(3) after_part_length [OF assms(1)] by (simp_all add: cursor_after_def add.assoc)
  have "page_of (path + of_nat i) \<in> owned_pages (phys s)" if "i \<le> length bs" for i
    using assms(2) that by (simp add: region_in_use_def)
  then show ?thesis unfolding e(1) using e(2) by blast
qed

lemma chain_head:
  assumes q: "q \<noteq> 0" "page_aligned q" "q \<in> P" and c: "load32 m q = c" "page_aligned c" "c \<in> P" "c \<noteq> q"
    and w: "cstring m c w" "length w < 4095"
    and frame: "\<forall>x. page_of x \<in> P \<longrightarrow> 4 \<le> x - (q + 4) \<longrightarrow> m' x = m x"
    and tail: "path_list m' (load32 m' (q + 4)) ws"
  shows "path_list m' q (w # ws)" "load32 m' q = c" "\<And>x. page_of x \<in> P \<Longrightarrow> page_of x \<noteq> q \<Longrightarrow> m' x = m x"
proof -
  show keep: "m' x = m x" if "page_of x \<in> P" "page_of x \<noteq> q" for x
    using frame that far_word [OF q(2) _ that(2), of 4] by simp
  have "load32 m' q = load32 m q"
  proof (rule load32_cong)
    fix j :: u32 assume j: "j < 4"
    have "4 \<le> q + j - (q + 4)" "j < 4096"
      using j by (simp_all add: word_le_nat_alt word_less_nat_alt unat_sub_if')
    then show "m' (q + j) = m (q + j)" using frame q(3) page_of_offset [OF q(2)] by simp
  qed
  then show l: "load32 m' q = c" using c(1) by simp
  have "cstring m' c w"
  proof (rule cstring_cong [OF w(1)])
    fix i assume "i \<le> length w"
    then have "page_of (c + of_nat i) = c" using w(2) by (intro page_of_nat_offset [OF c(2)]) simp
    then show "m' (c + of_nat i) = m (c + of_nat i)" using keep c(3,4) by simp
  qed
  then show "path_list m' q (w # ws)" using q c(2) w(2) tail l by simp
qed

lemma path_parts_loop_ok:
  assumes "kheap_inv s" and "p \<noteq> 0" "page_aligned p" "p \<in> owned_pages (phys s)"
    and "cstring (ram s) path bs" "region_in_use s path (Suc (length bs))" "\<forall>j \<le> length bs. page_of (path + of_nat j) \<noteq> p"
    and "\<forall>w \<in> set (components bs). length w < 4095" and "2 * length (components bs) + 2 \<le> unat (pmm_free_blocks (phys s))"
  shows "\<exists>path' s'. path_parts_loop p path s = Some (path', s') \<and> kheap_inv s' \<and>
    owned_pages (phys s) \<subseteq> owned_pages (phys s') \<and> pmm_system_memory_size (phys s') = pmm_system_memory_size (phys s) \<and>
    (\<forall>x. page_of x \<in> owned_pages (phys s) \<longrightarrow> 4 \<le> x - (p + 4) \<longrightarrow> ram s' x = ram s x) \<and>
    path_list (ram s') (load32 (ram s') (p + 4)) (components bs) \<and>
    path_pages (ram s') (load32 (ram s') (p + 4)) (components bs) \<subseteq> owned_pages (phys s') - owned_pages (phys s) \<and>
    unat (pmm_free_blocks (phys s)) = 2 * length (components bs) + 1 + unat (pmm_free_blocks (phys s'))"
  using assms
proof (induction bs arbitrary: p path s rule: components.induct)
  case (1 bs)
  note p = 1(3-5) and str = 1(6,7,8)
  have w: "length (part_of bs) < 4095" using 1(9) by (cases "part_of bs = []") (auto simp: components.simps [of bs])
  have free2: "2 \<le> unat (pmm_free_blocks (phys s))" using 1(10) by simp
  from get_path_part_ok [OF 1(2) free2 str(1,2) w] obtain q s1 where
    q: "pathparser_get_path_part path s = Some (q, cursor_after path bs, s1)" "keeps s s1" "kheap_inv s1"
      "if part_of bs = [] then q = 0 \<and> unat (pmm_free_blocks (phys s)) = Suc (unat (pmm_free_blocks (phys s1)))
       else q \<noteq> 0 \<and> q \<notin> owned_pages (phys s) \<and> q \<in> owned_pages (phys s1) \<and> page_aligned q \<and>
         page_aligned (load32 (ram s1) q) \<and> load32 (ram s1) q \<in> owned_pages (phys s1) - {q} - owned_pages (phys s) \<and>
         cstring (ram s1) (load32 (ram s1) q) (part_of bs) \<and>
         unat (pmm_free_blocks (phys s)) = 2 + unat (pmm_free_blocks (phys s1))" by blast
  let ?s2 = "s1\<lparr>ram := store32 (ram s1) (p + 4) q\<rparr>"
  have inv2: "kheap_inv ?s2" using q(3) by (simp add: kheap_inv_def)
  have own: "owned_pages (phys s) \<subseteq> owned_pages (phys s1)" "pmm_system_memory_size (phys s1) = pmm_system_memory_size (phys s)"
    using q(2) by (simp_all add: keeps_def)
  have far2: "ram ?s2 x = ram s1 x" if "page_of x \<noteq> p" for x using store32_page [OF p(2) _ that, of 4] by simp
  have old2: "ram ?s2 x = ram s x" if "page_of x \<in> owned_pages (phys s)" "4 \<le> x - (p + 4)" for x
    using that store32_other [OF that(2)] q(2) by (simp add: keeps_def)
  have step: "path_parts_loop p path s = path_parts_loop q (cursor_after path bs) ?s2"
    by (subst path_parts_loop.simps) (simp add: p(1) q(1) Let_def)
  show ?case
  proof (cases "part_of bs = []")
    case True
    then have "path_parts_loop p path s = Some (cursor_after path bs, ?s2)"
      using step q(4) by (simp add: path_parts_loop.simps)
    then show ?thesis using True q(4) inv2 own old2 by (auto simp: components.simps [of bs])
  next
    case False
    obtain c where c: "c = load32 (ram s1) q" by blast
    have n: "q \<noteq> 0" "q \<notin> owned_pages (phys s)" "q \<in> owned_pages (phys s1)" "page_aligned q" "page_aligned c"
      "c \<in> owned_pages (phys s1)" "c \<noteq> q" "c \<notin> owned_pages (phys s)" "cstring (ram s1) c (part_of bs)"
      "unat (pmm_free_blocks (phys s)) = 2 + unat (pmm_free_blocks (phys s1))"
      using q(4) False c by auto
    have comps: "components bs = part_of bs # components (after_part bs)" using False by (simp add: components.simps [of bs])
    have pages: "page_of (path + of_nat j) \<in> owned_pages (phys s)" "page_of (path + of_nat j) \<noteq> p" if "j \<le> length bs" for j
      using str(2,3) that by (auto simp: region_in_use_def)
    have "cstring (ram ?s2) path bs"
      by (rule cstring_cong [OF str(1)]) (use far2 pages q(2) in \<open>simp add: keeps_def\<close>)
    then have str2: "cstring (ram ?s2) (cursor_after path bs) (after_part bs)" by (rule cursor_string(2))
    note cp = cursor_pages [OF False str(2)]
    have use2: "region_in_use ?s2 (cursor_after path bs) (Suc (length (after_part bs)))"
      using cp own by (auto simp: region_in_use_def less_Suc_eq_le)
    have neq: "\<forall>j \<le> length (after_part bs). page_of (cursor_after path bs + of_nat j) \<noteq> q"
      using cp n(2) by metis
    have "q \<in> owned_pages (phys ?s2)" "2 * length (components (after_part bs)) + 2 \<le> unat (pmm_free_blocks (phys ?s2))"
      "\<forall>w \<in> set (components (after_part bs)). length w < 4095"
      using n(3,10) 1(9,10) comps by auto
    from 1(1) [OF False inv2 n(1,4) this(1) str2 use2 neq this(3,2)] obtain path' s' where
      r: "path_parts_loop q (cursor_after path bs) ?s2 = Some (path', s')" "kheap_inv s'"
        "owned_pages (phys ?s2) \<subseteq> owned_pages (phys s') \<and> pmm_system_memory_size (phys s') = pmm_system_memory_size (phys ?s2)"
        "\<forall>x. page_of x \<in> owned_pages (phys ?s2) \<longrightarrow> 4 \<le> x - (q + 4) \<longrightarrow> ram s' x = ram ?s2 x"
        "path_list (ram s') (load32 (ram s') (q + 4)) (components (after_part bs))"
        "path_pages (ram s') (load32 (ram s') (q + 4)) (components (after_part bs)) \<subseteq> owned_pages (phys s') - owned_pages (phys ?s2)"
        "unat (pmm_free_blocks (phys ?s2)) = 2 * length (components (after_part bs)) + 1 + unat (pmm_free_blocks (phys s'))"
      by blast
    have qp: "q \<noteq> p" "p \<in> owned_pages (phys s1)" "c \<noteq> p" using p(3) n(2,8) own by auto
    have small: "j < 4096" "4 + j < 4096" if "j < 4" for j :: u32 using that by unat_arith+
    have c2: "load32 (ram ?s2) q = c" "cstring (ram ?s2) c (part_of bs)"
    proof -
      have "load32 (ram ?s2) q = load32 (ram s1) q"
        using far2 page_of_offset [OF n(4) small(1)] qp(1) by (intro load32_cong) simp
      then show "load32 (ram ?s2) q = c" using c by simp
      have "ram ?s2 (c + of_nat i) = ram s1 (c + of_nat i)" if "i \<le> length (part_of bs)" for i
        using that w page_of_nat_offset [OF n(5), of i] qp(3) by (intro far2) simp
      then show "cstring (ram ?s2) c (part_of bs)" by (rule cstring_cong [OF n(9)])
    qed
    have o2: "q \<in> owned_pages (phys ?s2)" "c \<in> owned_pages (phys ?s2)" using n(3,6) by simp_all
    note h = chain_head [OF n(1,4) o2(1) c2(1) n(5) o2(2) n(7) c2(2) w r(4,5)]
    have keep: "ram s' x = ram ?s2 x" if "page_of x \<in> owned_pages (phys s1)" "page_of x \<noteq> q" for x
      using h(3) that by simp
    have "load32 (ram s') (p + 4) = load32 (ram ?s2) (p + 4)"
    proof (rule load32_cong)
      fix j :: u32 assume "j < 4"
      from page_of_offset [OF p(2) small(2) [OF this]] have "page_of (p + 4 + j) = p" by (simp add: add.assoc)
      then show "ram s' (p + 4 + j) = ram ?s2 (p + 4 + j)" using keep qp(1,2) by simp
    qed
    then have next': "load32 (ram s') (p + 4) = q" by simp
    have "path_list (ram s') (load32 (ram s') (p + 4)) (components bs)"
      "path_pages (ram s') (load32 (ram s') (p + 4)) (components bs) \<subseteq> owned_pages (phys s') - owned_pages (phys s)"
      using h(1) r(3,6) n own by (auto simp: next' comps h(2))
    moreover have "ram s' x = ram s x" if "page_of x \<in> owned_pages (phys s)" "4 \<le> x - (p + 4)" for x
      using keep [of x] old2 [OF that] that(1) own n(2) by auto
    ultimately show ?thesis
      using step r(1,2,3,7) own n(10) comps by (intro exI [of _ path'] exI [of _ s']) auto
  qed
qed

section \<open>The whole path\<close>

lemma strnlen_cstring:
  assumes "cstring m p xs" and "0 <s n"
  shows "strnlen m p n = of_nat (min (length xs) (unat n))"
proof -
  have up: "upto_int n = n"
    using assms(2) by (auto simp: upto_int_def sless0_iff_u32 sle0_iff_u32 word_less_nat_alt word_le_nat_alt)
  have zero: "m (p + i) \<noteq> 0" if "unat i < length xs" for i
    using cstring_nth [OF assms(1) that] by simp
  show ?thesis
  proof (cases "length xs < unat n")
    case True
    have "unat (of_nat (length xs) :: u32) = length xs" using cstring_length [OF assms(1)] by (rule unat_of_nat_u32)
    then have "find_u32 0 n (\<lambda>i. m (p + i) = 0) = Some (of_nat (length xs))"
      using True cstring_end [OF assms(1)] zero by (subst find_u32_eq_Some_iff) (auto simp: word_less_nat_alt)
    then show ?thesis using True by (simp add: strnlen_def up)
  next
    case False
    then have "find_u32 0 n (\<lambda>i. m (p + i) = 0) = None"
      using zero by (subst find_u32_eq_None_iff) (auto simp: word_less_nat_alt)
    then show ?thesis using False by (simp add: strnlen_def up)
  qed
qed

definition valid_path :: "u8 list \<Rightarrow> bool" where
  "valid_path bs \<longleftrightarrow> 3 < length bs \<and> is_digit (bs ! 0) \<and> bs ! 1 = 58 \<and> bs ! 2 = 47"

lemma valid_format: "cstring m p bs \<Longrightarrow> pathparser_path_valid_format m p = valid_path bs"
proof -
  assume s: "cstring m p bs"
  have len: "strnlen m p 108 = of_nat (min (length bs) 108)"
    using strnlen_cstring [OF s, of 108] by (simp add: sless0_iff_u32)
  have "(of_nat (min (length bs) 108) :: u32) \<le>s 3 \<longleftrightarrow> min (length bs) 108 \<le> 3"
  proof -
    have u: "unat (of_nat (min (length bs) 108) :: u32) = min (length bs) 108" by (rule unat_of_nat_u32) linarith
    then have "(of_nat (min (length bs) 108) :: u32) < 0x80000000" by (simp add: word_less_nat_alt)
    then show ?thesis using u by (simp add: word_sle_eq sint_u32 uint_nat)
  qed
  then have l: "strnlen m p 108 \<le>s 3 \<longleftrightarrow> length bs \<le> 3" by (simp only: len) linarith
  show ?thesis
  proof (cases "length bs \<le> 3")
    case True
    then show ?thesis using l by (simp add: pathparser_path_valid_format_def valid_path_def)
  next
    case False
    then have "bs \<noteq> []" by auto
    then have "m p = bs ! 0" "m (p + 1) = bs ! 1" "m (p + 2) = bs ! 2"
      using False cstring_nth [OF s, of 0] cstring_nth [OF s, of 1] cstring_nth [OF s, of 2] by auto
    then show ?thesis using False l by (auto simp: pathparser_path_valid_format_def valid_path_def Let_def)
  qed
qed

lemma create_path_part_ok:
  assumes inv: "kheap_inv s" and str: "cstring (ram s) path bs" "region_in_use s path (Suc (length bs))"
    and small: "\<forall>w \<in> set (components bs). length w < 4095"
    and free: "2 * length (components bs) + 2 \<le> unat (pmm_free_blocks (phys s))"
  shows "\<exists>p path' s'. pathparser_create_path_part path s = Some (p, path', s') \<and> keeps s s' \<and> kheap_inv s' \<and>
    path_list (ram s') p (components bs) \<and> path_pages (ram s') p (components bs) \<subseteq> owned_pages (phys s') - owned_pages (phys s) \<and>
    unat (pmm_free_blocks (phys s)) = 2 * length (components bs) + 1 + unat (pmm_free_blocks (phys s'))"
proof -
  have w: "length (part_of bs) < 4095" using small by (cases "part_of bs = []") (auto simp: components.simps [of bs])
  have free2: "2 \<le> unat (pmm_free_blocks (phys s))" using free by simp
  from get_path_part_ok [OF inv free2 str w] obtain q s1 where
    q: "pathparser_get_path_part path s = Some (q, cursor_after path bs, s1)" "keeps s s1" "kheap_inv s1"
      "if part_of bs = [] then q = 0 \<and> unat (pmm_free_blocks (phys s)) = Suc (unat (pmm_free_blocks (phys s1)))
       else q \<noteq> 0 \<and> q \<notin> owned_pages (phys s) \<and> q \<in> owned_pages (phys s1) \<and> page_aligned q \<and>
         page_aligned (load32 (ram s1) q) \<and> load32 (ram s1) q \<in> owned_pages (phys s1) - {q} - owned_pages (phys s) \<and>
         cstring (ram s1) (load32 (ram s1) q) (part_of bs) \<and>
         unat (pmm_free_blocks (phys s)) = 2 + unat (pmm_free_blocks (phys s1))" by blast
  show ?thesis
  proof (cases "part_of bs = []")
    case True
    then show ?thesis using q
      by (intro exI [of _ 0] exI [of _ "cursor_after path bs"] exI [of _ s1])
        (simp add: pathparser_create_path_part_def path_parts_loop.simps components.simps [of bs])
  next
    case False
    have comps: "components bs = part_of bs # components (after_part bs)" using False by (simp add: components.simps [of bs])
    have n: "q \<noteq> 0" "q \<notin> owned_pages (phys s)" "q \<in> owned_pages (phys s1)" "page_aligned q"
      "unat (pmm_free_blocks (phys s)) = 2 + unat (pmm_free_blocks (phys s1))" using q(4) False by auto
    note cp = cursor_pages [OF False str(2)]
    have use1: "region_in_use s1 (cursor_after path bs) (Suc (length (after_part bs)))"
      using cp q(2) by (auto simp: region_in_use_def keeps_def less_Suc_eq_le)
    have str1: "cstring (ram s1) (cursor_after path bs) (after_part bs)"
      by (rule cursor_string(2) [OF keeps_cstring [OF q(2) str(2,1)]])
    have neq: "\<forall>j \<le> length (after_part bs). page_of (cursor_after path bs + of_nat j) \<noteq> q" using cp n(2) by metis
    have "\<forall>w \<in> set (components (after_part bs)). length w < 4095"
      "2 * length (components (after_part bs)) + 2 \<le> unat (pmm_free_blocks (phys s1))"
      using small free n(5) comps by auto
    from path_parts_loop_ok [OF q(3) n(1,4,3) str1 use1 neq this] obtain path' s' where
      r: "path_parts_loop q (cursor_after path bs) s1 = Some (path', s')" "kheap_inv s'"
        "owned_pages (phys s1) \<subseteq> owned_pages (phys s') \<and> pmm_system_memory_size (phys s') = pmm_system_memory_size (phys s1)"
        "\<forall>x. page_of x \<in> owned_pages (phys s1) \<longrightarrow> 4 \<le> x - (q + 4) \<longrightarrow> ram s' x = ram s1 x"
        "path_list (ram s') (load32 (ram s') (q + 4)) (components (after_part bs))"
        "path_pages (ram s') (load32 (ram s') (q + 4)) (components (after_part bs)) \<subseteq> owned_pages (phys s') - owned_pages (phys s1)"
        "unat (pmm_free_blocks (phys s1)) = 2 * length (components (after_part bs)) + 1 + unat (pmm_free_blocks (phys s'))"
      by blast
    obtain c where c: "load32 (ram s1) q = c" by blast
    have n': "page_aligned c" "c \<in> owned_pages (phys s1)" "c \<noteq> q" "c \<notin> owned_pages (phys s)" "cstring (ram s1) c (part_of bs)"
      using q(4) False c by auto
    note h = chain_head [OF n(1,4,3) c n'(1-3,5) w r(4,5)]
    have "ram s' x = ram s x" if "page_of x \<in> owned_pages (phys s)" for x
    proof -
      have "page_of x \<noteq> q" "page_of x \<in> owned_pages (phys s1)" using that n(2) q(2) by (auto simp: keeps_def)
      then show ?thesis using h(3) q(2) that by (simp add: keeps_def)
    qed
    then have "keeps s s'" using q(2) r(3) by (auto simp: keeps_def)
    moreover have "path_pages (ram s') q (components bs) \<subseteq> owned_pages (phys s') - owned_pages (phys s)"
      using r(3,6) n(2,3) n'(2,4) q(2) by (auto simp: comps h(2) keeps_def)
    moreover have "unat (pmm_free_blocks (phys s)) = 2 * length (components bs) + 1 + unat (pmm_free_blocks (phys s'))"
      using n(5) r(7) comps by simp
    ultimately show ?thesis using q(1) r(1,2) h(1) comps
      by (intro exI [of _ q] exI [of _ path'] exI [of _ s']) (simp add: pathparser_create_path_part_def)
  qed
qed

lemma parse_ok:
  assumes inv: "kheap_inv s" and str: "cstring (ram s) path bs" "region_in_use s path (Suc (length bs))"
    and cs: "cs = components (if valid_path bs then drop 3 bs else bs)"
    and small: "\<forall>w \<in> set cs. length w < 4095" and free: "2 * length cs + 3 \<le> unat (pmm_free_blocks (phys s))"
  shows "\<exists>root path' s'. Pathparser_parse path s = Some (root, path', s') \<and> root \<noteq> 0 \<and> root \<notin> owned_pages (phys s) \<and>
    load32 (ram s') root = word_of_int (if valid_path bs then sint (hd bs) - 48 else -1) \<and>
    path_list (ram s') (load32 (ram s') (root + 4)) cs \<and> keeps s s' \<and> kheap_inv s' \<and>
    path_pages (ram s') (load32 (ram s') (root + 4)) cs \<subseteq> owned_pages (phys s') - owned_pages (phys s) \<and>
    unat (pmm_free_blocks (phys s)) = 2 * length cs + 2 + unat (pmm_free_blocks (phys s'))"
proof -
  from kzalloc_keeps [OF inv, of 8] free obtain t s1 where
    t: "kzalloc 8 s = (t, s1)" "t \<noteq> 0" "page_aligned t" "t \<notin> owned_pages (phys s)" "keeps s s1"
      "owned_pages (phys s1) = insert t (owned_pages (phys s))" "kheap_inv s1"
      "unat (pmm_free_blocks (phys s)) = Suc (unat (pmm_free_blocks (phys s1)))" by auto
  let ?bs = "if valid_path bs then drop 3 bs else bs" and ?d = "if valid_path bs then sint (hd bs) - 48 else -1"
  let ?path = "if valid_path bs then path + 3 else path"
  let ?s2 = "s1\<lparr>ram := store32 (store32 (ram s1) t (word_of_int ?d)) (t + 4) 0\<rparr>"
  have str1: "cstring (ram s1) path bs" by (rule keeps_cstring [OF t(5) str(2,1)])
  have hd: "ram s1 path = hd bs" if "valid_path bs"
    using cstring_nth [OF str1, of 0] that by (cases bs) (auto simp: valid_path_def)
  have root: "pathparser_create_path_root path s = (t, ?path, ?s2)"
    using hd by (simp add: pathparser_create_path_root_def pathparser_get_drive_by_path_def t(1)
        valid_format [OF str1] to_numeric_digit_def)
  have k2: "keeps s ?s2"
    using store32_page [OF t(3), of 0] store32_page [OF t(3), of 4] by (intro keeps_write_after [OF t(5,4)]) auto
  have inv2: "kheap_inv ?s2" using t(7) by (simp add: kheap_inv_def)
  have str2: "cstring (ram ?s2) path bs" by (rule keeps_cstring [OF k2 str(2,1)])
  have "cstring (ram ?s2) ?path ?bs"
  proof (cases "valid_path bs")
    case True
    then have "bs = take 3 bs @ drop 3 bs" "length (take 3 bs) = 3" by (simp_all add: valid_path_def)
    then show ?thesis using True str2 cstring_drop [of "ram ?s2" path "take 3 bs" "drop 3 bs"] by simp
  qed (use str2 in simp)
  moreover have "region_in_use ?s2 ?path (Suc (length ?bs))"
  proof (cases "valid_path bs")
    case True
    have "page_of (path + 3 + of_nat i) \<in> owned_pages (phys ?s2)" if "i < Suc (length bs - 3)" for i
    proof -
      have "3 < length bs" using True by (simp add: valid_path_def)
      then have "3 + i < Suc (length bs)" using that by linarith
      moreover have "path + 3 + of_nat i = path + of_nat (3 + i)" by simp
      ultimately have "page_of (path + 3 + of_nat i) = page_of (path + of_nat (3 + i))" "3 + i < Suc (length bs)" by metis+
      then show ?thesis using region_keeps [OF str(2) k2] unfolding region_in_use_def by metis
    qed
    then show ?thesis using True by (simp add: region_in_use_def)
  qed (use region_keeps [OF str(2) k2] in simp)
  moreover have "2 * length (components ?bs) + 2 \<le> unat (pmm_free_blocks (phys ?s2))"
    "\<forall>w \<in> set (components ?bs). length w < 4095" using free small t(8) cs by simp_all
  ultimately obtain p path' s3 where r: "pathparser_create_path_part ?path ?s2 = Some (p, path', s3)" "keeps ?s2 s3" "kheap_inv s3"
    "path_list (ram s3) p cs" "path_pages (ram s3) p cs \<subseteq> owned_pages (phys s3) - owned_pages (phys ?s2)"
    "unat (pmm_free_blocks (phys ?s2)) = 2 * length cs + 1 + unat (pmm_free_blocks (phys s3))"
    using create_path_part_ok [OF inv2, of ?path ?bs] unfolding cs by blast
  let ?s4 = "s3\<lparr>ram := store32 (ram s3) (t + 4) p\<rparr>"
  have far: "ram ?s4 x = ram s3 x" if "page_of x \<noteq> t" for x using store32_page [OF t(3) _ that, of 4] by simp
  have tP: "t \<notin> path_pages (ram s3) p cs" using r(5) t(6) by auto
  have "path_list (ram ?s4) p cs \<and> path_pages (ram ?s4) p cs = path_pages (ram s3) p cs"
    using tP by (intro path_list_cong [OF r(4)] far) metis
  moreover have "keeps s ?s4" using far by (intro keeps_write_after [OF keeps_trans [OF k2 r(2)] t(4)]) simp_all
  moreover have "load32 (ram ?s4) t = load32 (ram s3) t"
    by (simp add: load32_store32_apart apart_def)
  moreover have "load32 (ram s3) t = load32 (ram ?s2) t"
    using keeps_load32 [OF r(2) t(3), of 0] t(6) by simp
  moreover have "load32 (ram ?s2) t = word_of_int ?d"
    using load32_store32_apart [of t "t + 4"] by (simp add: apart_def)
  moreover have "kheap_inv ?s4" using r(3) by (simp add: kheap_inv_def)
  moreover have "Pathparser_parse path s = Some (t, path', ?s4)"
    by (simp add: Pathparser_parse_def root r(1))
  moreover have "path_pages (ram s3) p cs \<subseteq> owned_pages (phys ?s4) - owned_pages (phys s)" using r(5) t(6) by auto
  ultimately show ?thesis using t(2,4,8) r(6) by (intro exI [of _ t] exI [of _ path'] exI [of _ ?s4]) simp
qed

text \<open>C23: Parsing a path. With enough memory, \<open>Pathparser_parse\<close> returns a new root whose drive is the path's digit, or -1 when the path is not of
  the form digit, colon, slash and something, and whose chain of parts lists exactly the components of what follows, up
  to the first empty one; everything in use before is left alone. Besides the structures it returns, one page is lost.\<close>

theorem Pathparser_parse_correct:
  assumes inv: "kheap_inv s" and str: "cstring (ram s) path bs" "region_in_use s path (Suc (length bs))"
    and cs: "cs = components (if valid_path bs then drop 3 bs else bs)"
    and small: "\<forall>w \<in> set cs. length w < 4095" and free: "2 * length cs + 3 \<le> unat (pmm_free_blocks (phys s))"
  shows "\<exists>root path' s'. Pathparser_parse path s = Some (root, path', s') \<and> root \<noteq> 0 \<and> root \<notin> owned_pages (phys s) \<and>
    load32 (ram s') root = word_of_int (if valid_path bs then sint (hd bs) - 48 else -1) \<and>
    path_list (ram s') (load32 (ram s') (root + 4)) cs \<and> keeps s s' \<and> kheap_inv s' \<and>
    unat (pmm_free_blocks (phys s)) = 2 * length cs + 2 + unat (pmm_free_blocks (phys s'))"
  using parse_ok [OF assms] by blast

text \<open>The path \<open>0:/a/b\<close> at \<open>0x1000\<close>.\<close>

definition path_bytes :: "u8 list" where "path_bytes = [48, 58, 47, 97, 47, 98]"

definition path_boot :: kmem where
  "path_boot = kmem_boot\<lparr>ram := write_bytes (\<lambda>_. 0) 0x1000 (path_bytes @ [0])\<rparr>"

lemma Pathparser_parse_correct_witness:
  "\<exists>root path' s'. Pathparser_parse 0x1000 path_boot = Some (root, path', s') \<and> load32 (ram s') root = 0 \<and>
    path_list (ram s') (load32 (ram s') (root + 4)) [[97], [98]]"
proof -
  have inv: "kheap_inv path_boot" using kmem_boot_inv by (simp add: path_boot_def kheap_inv_def)
  have str: "cstring (ram path_boot) 0x1000 path_bytes"
    by (simp add: path_boot_def path_bytes_def)
  have "page_of (0x1000 + of_nat i) \<in> owned_pages pmm_boot" if "i < 4096" for i
    using that by (intro boot_page_of) (simp_all add: page_aligned_def word_less_nat_alt unat_of_nat_u32)
  then have use: "region_in_use path_boot 0x1000 (Suc (length path_bytes))"
    by (simp add: region_in_use_def path_boot_def path_bytes_def)
  have v: "valid_path path_bytes" by (simp add: valid_path_def path_bytes_def is_digit_def word_sle_eq sint_u8)
  have cs: "[[97], [98]] = components (if valid_path path_bytes then drop 3 path_bytes else path_bytes)"
    using v by (simp add: path_bytes_def components.simps part_of_def after_part_def)
  have "unat (pmm_free_blocks (phys path_boot)) = 225000" by (simp add: path_boot_def)
  with Pathparser_parse_correct [OF inv str use cs] v show ?thesis
    by (auto simp: path_bytes_def sint_u8)
qed

end
