(* ===== verification/Fat16.thy ===== *)
theory Fat16 imports Disk Pages "HOL-Library.Signed_Division"
begin

text \<open>
  The FAT16 filesystem, \<open>src/src/fs/fat16/fat16.c\<close>, over the disk stream and the heap. All structures are
  in RAM, at the offsets of the C layout; C \<open>int\<close>s are 32-bit words compared and divided as signed.
  The kernel has one disk: \<open>disk\<close> is the address of its \<open>struct disk\<close>, and \<open>img\<close> its sectors. Locals
  whose address the code takes live on the kernel stack, at the addresses of \<open>fat_stack\<close>.

  A function gives \<open>None\<close> when the code does not return (a directory without end mark, a string without end)
  or leaves the language (a stream read past its buffer, a division by zero).
\<close>

section \<open>Structures\<close>

record fat_stack =
  stk_item :: u32
  stk_result :: u32
  stk_name :: u32

text \<open>\<open>struct disk\<close>.\<close>

definition disk_sector_size :: "mem \<Rightarrow> u32 \<Rightarrow> u32" where "disk_sector_size m disk = load32 m (disk + 4)"
definition disk_id :: "mem \<Rightarrow> u32 \<Rightarrow> u32" where "disk_id m disk = load32 m (disk + 8)"
definition disk_filesystem :: "mem \<Rightarrow> u32 \<Rightarrow> u32" where "disk_filesystem m disk = load32 m (disk + 12)"
definition disk_fs_private :: "mem \<Rightarrow> u32 \<Rightarrow> u32" where "disk_fs_private m disk = load32 m (disk + 16)"

text \<open>\<open>struct fat16_header_primary\<close>, packed, at the start of \<open>struct fat16_private\<close>.\<close>

definition bytes_per_sector :: "mem \<Rightarrow> u32 \<Rightarrow> u32" where "bytes_per_sector m p = ucast (load16 m (p + 11))"
definition sectors_per_cluster :: "mem \<Rightarrow> u32 \<Rightarrow> u32" where "sectors_per_cluster m p = ucast (m (p + 13))"
definition reserved_sectors :: "mem \<Rightarrow> u32 \<Rightarrow> u32" where "reserved_sectors m p = ucast (load16 m (p + 14))"
definition fat_copies :: "mem \<Rightarrow> u32 \<Rightarrow> u32" where "fat_copies m p = ucast (m (p + 16))"
definition root_dir_entries :: "mem \<Rightarrow> u32 \<Rightarrow> u32" where "root_dir_entries m p = ucast (load16 m (p + 17))"
definition sectors_per_fat :: "mem \<Rightarrow> u32 \<Rightarrow> u32" where "sectors_per_fat m p = ucast (load16 m (p + 22))"
definition hidden_setors :: "mem \<Rightarrow> u32 \<Rightarrow> u32" where "hidden_setors m p = load32 m (p + 28)"
definition header_signature :: "mem \<Rightarrow> u32 \<Rightarrow> u8" where "header_signature m p = m (p + 38)"

text \<open>The rest of \<open>struct fat16_private\<close>: the root directory and the three streams.\<close>

definition private_root :: "u32 \<Rightarrow> u32" where "private_root p = p + 64"
definition cluster_read_stream :: "mem \<Rightarrow> u32 \<Rightarrow> u32" where "cluster_read_stream m p = load32 m (p + 80)"
definition fat_read_stream :: "mem \<Rightarrow> u32 \<Rightarrow> u32" where "fat_read_stream m p = load32 m (p + 84)"
definition directory_stream :: "mem \<Rightarrow> u32 \<Rightarrow> u32" where "directory_stream m p = load32 m (p + 88)"

text \<open>\<open>struct fat16_directory\<close>.\<close>

definition directory_item :: "mem \<Rightarrow> u32 \<Rightarrow> u32" where "directory_item m d = load32 m d"
definition total_entries :: "mem \<Rightarrow> u32 \<Rightarrow> u32" where "total_entries m d = load32 m (d + 4)"
definition ending_sector_pos :: "mem \<Rightarrow> u32 \<Rightarrow> u32" where "ending_sector_pos m d = load32 m (d + 12)"

text \<open>\<open>struct fat16_directory_item\<close>, packed, 32 bytes.\<close>

definition item_attribute :: "mem \<Rightarrow> u32 \<Rightarrow> u8" where "item_attribute m i = m (i + 11)"
definition item_filesize :: "mem \<Rightarrow> u32 \<Rightarrow> u32" where "item_filesize m i = load32 m (i + 28)"

text \<open>\<open>struct fat_item\<close>: a pointer (to an item or a directory) and the type; \<open>struct fat_file_descriptor\<close>.\<close>

definition fat_item_ptr :: "mem \<Rightarrow> u32 \<Rightarrow> u32" where "fat_item_ptr m f = load32 m f"
definition fat_item_type :: "mem \<Rightarrow> u32 \<Rightarrow> u32" where "fat_item_type m f = load32 m (f + 4)"
definition descriptor_item :: "mem \<Rightarrow> u32 \<Rightarrow> u32" where "descriptor_item m d = load32 m d"
definition descriptor_pos :: "mem \<Rightarrow> u32 \<Rightarrow> u32" where "descriptor_pos m d = load32 m (d + 4)"

abbreviation (input) FAT_ITEM_TYPE_DIRECTORY :: u32 where "FAT_ITEM_TYPE_DIRECTORY \<equiv> 0"
abbreviation (input) FAT_ITEM_TYPE_FILE :: u32 where "FAT_ITEM_TYPE_FILE \<equiv> 1"
abbreviation (input) FAT_FILE_READ_ONLY :: u8 where "FAT_FILE_READ_ONLY \<equiv> 0x01"
abbreviation (input) FAT_FILE_SUBDIRECTORY :: u8 where "FAT_FILE_SUBDIRECTORY \<equiv> 0x10"
abbreviation (input) MAX_PATH_NAME :: u32 where "MAX_PATH_NAME \<equiv> 108"

text \<open>Signed division and remainder of C, which trap on a zero divisor and on overflow.\<close>

definition int_div :: "u32 \<Rightarrow> u32 \<Rightarrow> u32 option" where
  "int_div a b = (if b = 0 \<or> a = 0x80000000 \<and> b = -1 then None else Some (word_of_int (sint a sdiv sint b)))"

definition int_mod :: "u32 \<Rightarrow> u32 \<Rightarrow> u32 option" where
  "int_mod a b = (if b = 0 \<or> a = 0x80000000 \<and> b = -1 then None else Some (word_of_int (sint a smod sint b)))"

section \<open>Streams and allocation\<close>

definition stream_read :: "(u32 \<Rightarrow> u8 list) \<Rightarrow> u32 \<Rightarrow> u32 \<Rightarrow> u32 \<Rightarrow> u32 \<Rightarrow> kmem \<Rightarrow> (int \<times> kmem) option" where
  "stream_read img disk stream out cnt s =
     (case disk_streamer_read img disk stream out cnt (ram s) of
        Inl e \<Rightarrow> None
      | Inr (res, m) \<Rightarrow> Some (res, s\<lparr>ram := m\<rparr>))"

definition stream_seek :: "u32 \<Rightarrow> u32 \<Rightarrow> kmem \<Rightarrow> int \<times> kmem" where
  "stream_seek stream pos s = (let (res, m) = disk_streamer_seek stream pos (ram s) in (res, s\<lparr>ram := m\<rparr>))"

definition set_word :: "u32 \<Rightarrow> u32 \<Rightarrow> kmem \<Rightarrow> kmem" where
  "set_word a v s = s\<lparr>ram := store32 (ram s) a v\<rparr>"

definition fat16_init_private :: "u32 \<Rightarrow> u32 \<Rightarrow> kmem \<Rightarrow> kmem" where
  "fat16_init_private disk private s =
     (let s = s\<lparr>ram := memset (ram s) private 0 92\<rparr>;
          (st, s) = create_disk_streamer disk (disk_id (ram s) disk) s;
          s = set_word (private + 80) st s;
          (st, s) = create_disk_streamer disk (disk_id (ram s) disk) s;
          s = set_word (private + 84) st s;
          (st, s) = create_disk_streamer disk (disk_id (ram s) disk) s
      in set_word (private + 88) st s)"

definition fat16_free_directory :: "u32 \<Rightarrow> kmem \<Rightarrow> kmem" where
  "fat16_free_directory directory s =
     (if directory = 0 then s
      else
        let s = (if directory_item (ram s) directory \<noteq> 0 then kfree (directory_item (ram s) directory) s else s)
        in kfree directory s)"

definition fat16_fat_item_free :: "u32 \<Rightarrow> kmem \<Rightarrow> kmem" where
  "fat16_fat_item_free item s =
     (let s = (if fat_item_type (ram s) item = FAT_ITEM_TYPE_DIRECTORY
               then fat16_free_directory (fat_item_ptr (ram s) item) s
               else if fat_item_type (ram s) item = FAT_ITEM_TYPE_FILE
               then kfree (fat_item_ptr (ram s) item) s
               else s)
      in kfree item s)"

section \<open>Directories on the disk\<close>

definition fat16_sectors_to_abosulute :: "mem \<Rightarrow> u32 \<Rightarrow> u32 \<Rightarrow> u32" where
  "fat16_sectors_to_abosulute m disk sector = disk_sector_size m disk * sector"

text \<open>\<open>while (1)\<close> over the directory's items.\<close>

partial_function (option) total_items_loop ::
    "(u32 \<Rightarrow> u8 list) \<Rightarrow> u32 \<Rightarrow> u32 \<Rightarrow> u32 \<Rightarrow> u32 \<Rightarrow> kmem \<Rightarrow> (u32 \<times> kmem) option" where
  "total_items_loop img disk stream item i s =
     (case stream_read img disk stream item 32 s of
        None \<Rightarrow> None
      | Some (res, s) \<Rightarrow>
          if res \<le> 0 then Some (-1, s)
          else if ram s item = 0x00 then Some (i, s)
          else if ram s item = 0xE5 then total_items_loop img disk stream item i s
          else total_items_loop img disk stream item (i + 1) s)"

definition fat16_get_total_items_for_directory ::
    "(u32 \<Rightarrow> u8 list) \<Rightarrow> fat_stack \<Rightarrow> u32 \<Rightarrow> u32 \<Rightarrow> kmem \<Rightarrow> (u32 \<times> kmem) option" where
  "fat16_get_total_items_for_directory img stk disk start_sector s =
     (let private = disk_fs_private (ram s) disk;
          s = s\<lparr>ram := memset (ram s) (stk_item stk) 0 32\<rparr>;
          stream = directory_stream (ram s) private;
          (res, s) = stream_seek stream (fat16_sectors_to_abosulute (ram s) disk start_sector) s
      in total_items_loop img disk stream (stk_item stk) 0 s)"

definition fat16_load_root_directory ::
    "(u32 \<Rightarrow> u8 list) \<Rightarrow> fat_stack \<Rightarrow> u32 \<Rightarrow> u32 \<Rightarrow> u32 \<Rightarrow> kmem \<Rightarrow> (u32 \<times> kmem) option" where
  "fat16_load_root_directory img stk disk private root_directory s =
     (let m = ram s; root_dir_size = root_dir_entries m private * 32; bps = bytes_per_sector m private in
      if bps = 0 then None
      else
        let root_sectors = root_dir_size div bps;
            root_sectors = (if root_dir_size mod bps = 0 then root_sectors else root_sectors + 1);
            reserved = hidden_setors m private + reserved_sectors m private;
            fat_sectors = fat_copies m private * sectors_per_fat m private;
            start = reserved + fat_sectors;
            (item, s) = kzalloc (root_sectors * bps) s;
            s = set_word (private_root private) item s;
            stream = directory_stream (ram s) private;
            (res, s) = stream_seek stream (fat16_sectors_to_abosulute (ram s) disk start) s
        in case stream_read img disk stream (directory_item (ram s) root_directory) (root_sectors * 512) s of
             None \<Rightarrow> None
           | Some (res, s) \<Rightarrow>
               if res \<le> 0 then Some (-1, s)
               else
                 let s = set_word (root_directory + 8) start s in
                 (case fat16_get_total_items_for_directory img stk disk start s of
                    None \<Rightarrow> None
                  | Some (total_items, s) \<Rightarrow>
                      let s = set_word (root_directory + 8) start s;
                          s = set_word (root_directory + 12) (start + root_sectors) s;
                          s = set_word (root_directory + 4) total_items s
                      in Some (1, s)))"

definition fat16_resolve :: "(u32 \<Rightarrow> u8 list) \<Rightarrow> fat_stack \<Rightarrow> u32 \<Rightarrow> kmem \<Rightarrow> (u32 \<times> kmem) option" where
  "fat16_resolve img stk disk s =
     (let (private, s) = kzalloc 92 s;
          s = fat16_init_private disk private s;
          (head_streamer, s) = create_disk_streamer disk (disk_id (ram s) disk) s
      in if head_streamer = 0 then Some (-1, s)
         else case stream_read img disk head_streamer private 62 s of
             None \<Rightarrow> None
           | Some (res, s) \<Rightarrow>
               if res \<le> 0 then Some (-1, s)
               else if header_signature (ram s) private \<noteq> 0x29 then Some (-1, s)
               else
                 let s = set_word (disk + 16) private s in
                 (case fat16_load_root_directory img stk disk private (private_root private) s of
                    None \<Rightarrow> None
                  | Some (res, s) \<Rightarrow>
                      if res \<noteq> 1 then Some (-1, s)
                      else Some (0, if head_streamer \<noteq> 0 then disk_streamer_close head_streamer s else s)))"

section \<open>Names\<close>

partial_function (option) proper_string_loop :: "mem \<Rightarrow> u32 \<Rightarrow> u32 \<Rightarrow> (mem \<times> u32 \<times> u32) option" where
  "proper_string_loop m out in' =
     (if m in' \<noteq> 0x00 \<and> m in' \<noteq> 0x20 then proper_string_loop (m(out := m in')) (out + 1) (in' + 1)
      else Some (m, out, in'))"

definition fat16_to_proper_string :: "u32 \<Rightarrow> u32 \<Rightarrow> mem \<Rightarrow> (u32 \<times> mem) option" where
  "fat16_to_proper_string out in' m =
     (case proper_string_loop m out in' of
        None \<Rightarrow> None
      | Some (m, out, in') \<Rightarrow> Some (out, if m in' = 0x20 then m(out := 0x00) else m))"

definition fat16_get_relative_path_name :: "u32 \<Rightarrow> u32 \<Rightarrow> u32 \<Rightarrow> mem \<Rightarrow> mem option" where
  "fat16_get_relative_path_name item out max_len m =
     (let m = memset m out 0 max_len in
      case fat16_to_proper_string out item m of
        None \<Rightarrow> None
      | Some (temp_out, m) \<Rightarrow>
          if m (item + 8) \<noteq> 0x00 \<and> m (item + 8) \<noteq> 0x20 then
            (case fat16_to_proper_string (temp_out + 1) (item + 8) (m(temp_out := 46)) of
               None \<Rightarrow> None
             | Some (temp_out, m) \<Rightarrow> Some m)
          else Some m)"

section \<open>Clusters\<close>

definition fat16_cluster_to_sector :: "mem \<Rightarrow> u32 \<Rightarrow> u32 \<Rightarrow> u32" where
  "fat16_cluster_to_sector m private cluster =
     ending_sector_pos m (private_root private) + (cluster - 2) * sectors_per_cluster m private"

definition fat16_get_first_cluster :: "mem \<Rightarrow> u32 \<Rightarrow> u32" where
  "fat16_get_first_cluster m item = ucast (load16 m (item + 20)) OR ucast (load16 m (item + 26))"

definition fat16_get_first_fat_sector :: "mem \<Rightarrow> u32 \<Rightarrow> u32" where
  "fat16_get_first_fat_sector m private = reserved_sectors m private + hidden_setors m private"

definition fat16_get_fat_entry ::
    "(u32 \<Rightarrow> u8 list) \<Rightarrow> fat_stack \<Rightarrow> u32 \<Rightarrow> u32 \<Rightarrow> kmem \<Rightarrow> (u32 \<times> kmem) option" where
  "fat16_get_fat_entry img stk disk cluster s =
     (let private = disk_fs_private (ram s) disk;
          stream = fat_read_stream (ram s) private;
          table_start = fat16_get_first_fat_sector (ram s) private * bytes_per_sector (ram s) private;
          offset = table_start + cluster * 2;
          (res, s) = stream_seek stream offset s
      in if res < 0 then Some (-1, s)
         else case stream_read img disk stream (stk_result stk) 2 s of
             None \<Rightarrow> None
           | Some (res, s) \<Rightarrow>
               if res < 0 then Some (-1, s) else Some (ucast (load16 (ram s) (stk_result stk)), s))"

partial_function (option) cluster_for_offset_loop ::
    "(u32 \<Rightarrow> u8 list) \<Rightarrow> fat_stack \<Rightarrow> u32 \<Rightarrow> u32 \<Rightarrow> u32 \<Rightarrow> u32 \<Rightarrow> kmem \<Rightarrow> (u32 \<times> kmem) option" where
  "cluster_for_offset_loop img stk disk i clusters_ahead cluster_to_use s =
     (if i <s clusters_ahead then
        (case fat16_get_fat_entry img stk disk cluster_to_use s of
           None \<Rightarrow> None
         | Some (entry, s) \<Rightarrow>
             if entry = 0xFF8 \<or> entry = 0xFFF then Some (-1, s)
             else if entry = 0xFF7 then Some (-1, s)
             else if entry = 0xFF0 \<or> entry = 0xFF6 then Some (-1, s)
             else if entry = 0x00 then Some (-1, s)
             else cluster_for_offset_loop img stk disk (i + 1) clusters_ahead entry s)
      else Some (cluster_to_use, s))"

definition fat16_get_cluster_for_offset ::
    "(u32 \<Rightarrow> u8 list) \<Rightarrow> fat_stack \<Rightarrow> u32 \<Rightarrow> u32 \<Rightarrow> u32 \<Rightarrow> kmem \<Rightarrow> (u32 \<times> kmem) option" where
  "fat16_get_cluster_for_offset img stk disk starting_cluster offset s =
     (let private = disk_fs_private (ram s) disk;
          size_of_cluster = sectors_per_cluster (ram s) private * disk_sector_size (ram s) disk
      in case int_div offset size_of_cluster of
           None \<Rightarrow> None
         | Some clusters_ahead \<Rightarrow> cluster_for_offset_loop img stk disk 0 clusters_ahead starting_cluster s)"

partial_function (option) fat16_read_internal_from_stream ::
    "(u32 \<Rightarrow> u8 list) \<Rightarrow> fat_stack \<Rightarrow> u32 \<Rightarrow> u32 \<Rightarrow> u32 \<Rightarrow> u32 \<Rightarrow> u32 \<Rightarrow> u32 \<Rightarrow> kmem \<Rightarrow> (u32 \<times> kmem) option" where
  "fat16_read_internal_from_stream img stk disk stream cluster offset cnt out s =
     (let private = disk_fs_private (ram s) disk;
          size_of_cluster = sectors_per_cluster (ram s) private * disk_sector_size (ram s) disk
      in case fat16_get_cluster_for_offset img stk disk cluster offset s of
           None \<Rightarrow> None
         | Some (cluster_to_use, s) \<Rightarrow>
             if cluster_to_use <s 0 then Some (-1, s)
             else case int_mod offset size_of_cluster of
                 None \<Rightarrow> None
               | Some offset_from_cluster \<Rightarrow>
                   let starting_sector = fat16_cluster_to_sector (ram s) private cluster_to_use;
                       starting_pos = starting_sector * disk_sector_size (ram s) disk + offset_from_cluster;
                       total_to_read = (if size_of_cluster <s cnt then size_of_cluster else cnt);
                       (res, s) = stream_seek stream starting_pos s
                   in if res < 0 then Some (-1, s)
                      else case stream_read img disk stream out cnt s of
                          None \<Rightarrow> None
                        | Some (res, s) \<Rightarrow>
                            if res < 0 then Some (-1, s)
                            else if 0 <s cnt - total_to_read
                            then fat16_read_internal_from_stream img stk disk stream cluster (offset + total_to_read)
                                   (cnt - total_to_read) (out + total_to_read) s
                            else Some (0, s))"

definition fat16_read_internal ::
    "(u32 \<Rightarrow> u8 list) \<Rightarrow> fat_stack \<Rightarrow> u32 \<Rightarrow> u32 \<Rightarrow> u32 \<Rightarrow> u32 \<Rightarrow> u32 \<Rightarrow> kmem \<Rightarrow> (u32 \<times> kmem) option" where
  "fat16_read_internal img stk disk starting_cluster offset cnt out s =
     (let private = disk_fs_private (ram s) disk;
          stream = cluster_read_stream (ram s) private
      in fat16_read_internal_from_stream img stk disk stream starting_cluster offset cnt out s)"

end
