(* ===== verification/FatVolume.thy ===== *)
theory FatVolume imports Fat16
begin

text \<open>
  What the FAT16 code reads. A mounted volume is described by the addresses of its structures and its
  geometry; \<open>volume_at m v\<close> says that memory holds it. The bytes these structures depend on are
  \<open>vol_cell\<close>, the bytes the reading functions scribble on (stream positions, a stack word) are
  \<open>vol_scratch\<close>.
\<close>

record fat_volume =
  v_disk :: u32
  v_private :: u32
  v_data :: u32
  v_fat :: u32
  v_result :: u32
  v_spc :: nat
  v_end :: nat
  v_table :: nat

definition volume_at :: "mem \<Rightarrow> fat_volume \<Rightarrow> bool" where
  "volume_at m v \<longleftrightarrow>
     disk_sector_size m (v_disk v) = 512 \<and> disk_fs_private m (v_disk v) = v_private v \<and>
     cluster_read_stream m (v_private v) = v_data v \<and> fat_read_stream m (v_private v) = v_fat v \<and>
     load32 m (v_data v + 4) = v_disk v \<and> load32 m (v_fat v + 4) = v_disk v \<and>
     unat (sectors_per_cluster m (v_private v)) = v_spc v \<and> 0 < v_spc v \<and>
     unat (ending_sector_pos m (private_root (v_private v))) = v_end v \<and>
     unat (fat16_get_first_fat_sector m (v_private v) * bytes_per_sector m (v_private v)) = v_table v \<and>
     even (v_table v)"

definition vol_cell :: "fat_volume \<Rightarrow> u32 \<Rightarrow> bool" where
  "vol_cell v x \<longleftrightarrow> x - v_disk v < 20 \<or> x - v_private v < 92 \<or> x - (v_data v + 4) < 4 \<or> x - (v_fat v + 4) < 4"

definition vol_scratch :: "fat_volume \<Rightarrow> u32 \<Rightarrow> bool" where
  "vol_scratch v x \<longleftrightarrow> x - v_data v < 4 \<or> x - v_fat v < 4 \<or> x - v_result v < 2"

text \<open>The structures of a volume do not overlap what is scribbled on.\<close>

definition vol_sep :: "fat_volume \<Rightarrow> bool" where
  "vol_sep v \<longleftrightarrow> (\<forall>x. vol_scratch v x \<longrightarrow> \<not> vol_cell v x) \<and>
     (\<forall>x. x - v_result v < 2 \<longrightarrow> \<not> x - v_fat v < 4)"

definition out_clear :: "fat_volume \<Rightarrow> u32 \<Rightarrow> nat \<Rightarrow> bool" where
  "out_clear v out n \<longleftrightarrow> (\<forall>i < n. \<not> vol_cell v (out + of_nat i) \<and> \<not> vol_scratch v (out + of_nat i))"

lemma volume_cong:
  assumes "volume_at m v" and "\<And>x. vol_cell v x \<Longrightarrow> m' x = m x"
  shows "volume_at m' v"
proof -
  have d: "m' (v_disk v + i) = m (v_disk v + i)" if "i < 20" for i
    using that by (intro assms(2)) (simp add: vol_cell_def)
  have p: "m' (v_private v + i) = m (v_private v + i)" if "i < 92" for i
    using that by (intro assms(2)) (simp add: vol_cell_def)
  have a: "m' (v_data v + 4 + i) = m (v_data v + 4 + i)" if "i < 4" for i
    using that by (intro assms(2)) (simp add: vol_cell_def)
  have b: "m' (v_fat v + 4 + i) = m (v_fat v + 4 + i)" if "i < 4" for i
    using that by (intro assms(2)) (simp add: vol_cell_def)
  have l: "load32 m' (q + k) = load32 m (q + k)"
    if "\<And>i. i < c \<Longrightarrow> m' (q + i) = m (q + i)" "k + 3 < c" "k < k + 3" for q k c :: u32
  proof (rule load32_cong)
    fix j :: u32 assume "j < 4"
    then have "k + j < c" using that(2,3) by unat_arith
    from that(1) [OF this] show "m' (q + k + j) = m (q + k + j)" by (simp add: add.assoc)
  qed
  have "load16 m' (q + k) = load16 m (q + k)"
    if "\<And>i. i < c \<Longrightarrow> m' (q + i) = m (q + i)" "k + 1 < c" "k < k + 1" for q k c :: u32
    using that(1) [of k] that(1) [of "k + 1"] that(2,3) by (simp add: load16_def add.assoc)
  note l16 = this [of 92 "v_private v", OF p]
  have "load32 m' (v_data v + 4) = load32 m (v_data v + 4)" "load32 m' (v_fat v + 4) = load32 m (v_fat v + 4)"
    using l [of 4 "v_data v + 4" 0, OF a] l [of 4 "v_fat v + 4" 0, OF b] by simp_all
  then show ?thesis
    using assms(1) l [of 20 "v_disk v" 4, OF d] l [of 20 "v_disk v" 16, OF d] l [of 92 "v_private v" 80, OF p]
      l [of 92 "v_private v" 84, OF p] l [of 92 "v_private v" 28, OF p] l [of 92 "v_private v" 76, OF p]
      l16 [of 11] l16 [of 14] p [of 13]
    by (simp add: volume_at_def disk_sector_size_def disk_fs_private_def cluster_read_stream_def fat_read_stream_def
        sectors_per_cluster_def ending_sector_pos_def private_root_def fat16_get_first_fat_sector_def
        reserved_sectors_def hidden_setors_def bytes_per_sector_def add.assoc)
qed

text \<open>The FAT and the position of a cluster on the disk.\<close>

definition fat_next :: "(u32 \<Rightarrow> u8 list) \<Rightarrow> fat_volume \<Rightarrow> nat \<Rightarrow> nat" where
  "fat_next img v c = unat (disk_byte img (v_table v + 2 * c)) + 256 * unat (disk_byte img (v_table v + 2 * c + 1))"

definition cluster_start :: "fat_volume \<Rightarrow> nat \<Rightarrow> nat" where
  "cluster_start v c = (v_end v + (c - 2) * v_spc v) * 512"

definition cluster_bytes :: "fat_volume \<Rightarrow> nat" where
  "cluster_bytes v = v_spc v * 512"

text \<open>The FAT entries the code follows.\<close>

definition fat_link :: "nat \<Rightarrow> bool" where
  "fat_link e \<longleftrightarrow> e \<notin> {0, 0xFF0, 0xFF6, 0xFF7, 0xFF8, 0xFFF}"

fun fat_chain :: "(u32 \<Rightarrow> u8 list) \<Rightarrow> fat_volume \<Rightarrow> nat list \<Rightarrow> bool" where
  "fat_chain img v [] \<longleftrightarrow> True"
| "fat_chain img v [c] \<longleftrightarrow> True"
| "fat_chain img v (c # d # cs) \<longleftrightarrow> fat_next img v c = d \<and> fat_link d \<and> fat_chain img v (d # cs)"

text \<open>The clusters lie on the disk, so that the positions fit 32 bits.\<close>

definition chain_fits :: "fat_volume \<Rightarrow> nat list \<Rightarrow> nat \<Rightarrow> bool" where
  "chain_fits v cs n \<longleftrightarrow> (\<forall>c \<in> set cs. 2 \<le> c \<and> c < 65536 \<and> v_table v + 2 * c + 2 < 4294967296 \<and>
     cluster_start v c + cluster_bytes v + n < 4294967296)"

lemma fat_chain_nth: "fat_chain img v cs \<Longrightarrow> Suc i < length cs \<Longrightarrow>
    fat_next img v (cs ! i) = cs ! Suc i \<and> fat_link (cs ! Suc i)"
  by (induction img v cs arbitrary: i rule: fat_chain.induct) (auto simp: nth_Cons split: nat.splits)

section \<open>One entry of the FAT\<close>

definition scratched :: "fat_volume \<Rightarrow> mem \<Rightarrow> mem \<Rightarrow> bool" where
  "scratched v m m' \<longleftrightarrow> (\<forall>x. \<not> vol_scratch v x \<longrightarrow> m' x = m x)"

lemma eight_apart: "\<not> x - p < 4 \<Longrightarrow> \<not> x - (p + 4) < 4 \<Longrightarrow> 8 \<le> x - p" for x p :: u32
proof -
  assume a: "\<not> x - p < 4" "\<not> x - (p + 4) < 4"
  obtain d where d: "d = x - p" by blast
  then have e: "x - (p + 4) = d - 4" by simp
  have "\<not> d < 4" "\<not> d - 4 < 4" using a unfolding e d [symmetric] by simp_all
  then show ?thesis unfolding d [symmetric] by (simp add: word_le_nat_alt word_less_nat_alt unat_sub_if')
qed

lemma of_unat: "unat w = k \<Longrightarrow> w = of_nat k" for w :: u32
  by auto

text \<open>A seek and a read through a stream of the volume.\<close>

lemma seek_read:
  assumes "load32 m (st + 4) = disk" and "unat pos + unat n < 4294967296" and "buffer_clear st out n"
    and "pos mod 512 = 0 \<or> unat (pos mod 512) + unat n \<le> 512"
  shows "\<exists>r m'. 1 \<le> r \<and>
    stream_read img disk st out n (s\<lparr>ram := store32 m st pos\<rparr>) = Some (r, s\<lparr>ram := m'\<rparr>) \<and>
    (\<forall>k < unat n. m' (out + of_nat k) = disk_byte img (unat pos + k)) \<and>
    (\<forall>x. 4 \<le> x - st \<and> (\<forall>k < unat n. x \<noteq> out + of_nat k) \<longrightarrow> m' x = m x)"
proof -
  let ?m = "store32 m st pos" and ?b = "disk_bytes img (unat pos) (unat n)"
  let ?m' = "store32 (write_bytes ?m out ?b) st (pos + n)"
  have "apart 4 (st + 4) st" by (simp add: apart_def word_le_nat_alt)
  then have "load32 ?m (st + 4) = disk" using assms(1) by (simp add: load32_store32_apart)
  then have "disk_streamer_read img disk st out n ?m = Inr (sectors_for n, ?m')"
    using stream_delivers [of ?m st disk pos n out img] assms by simp
  moreover have "1 \<le> sectors_for n" by (simp add: sectors_for_def)
  moreover have "?m' (out + of_nat k) = disk_byte img (unat pos + k)" if "k < unat n" for k
  proof -
    have "4 \<le> out + of_nat k - st" using buffer_clear_first [OF assms(3) that] by blast
    moreover have "length ?b \<le> 4294967296" using unat_u32_bound [of n] by (simp add: less_imp_le)
    ultimately show ?thesis
      using write_bytes_at [of k ?b ?m out] that by (simp add: store32_other) (simp add: disk_bytes_def)
  qed
  moreover have "?m' x = m x" if "4 \<le> x - st" "\<forall>k < unat n. x \<noteq> out + of_nat k" for x
    using that write_bytes_outside [of ?b x out ?m] by (simp add: store32_other)
  ultimately show ?thesis
    by (intro exI [of _ "sectors_for n"] exI [of _ ?m']) (simp add: stream_read_def)
qed

lemma two_bytes: "ucast (ucast b OR push_bit 8 (ucast a) :: u16) = (of_nat (unat b + 256 * unat a) :: u32)"
  for a b :: u8
proof -
  have "ucast (ucast b OR push_bit 8 (ucast a) :: u16) = (ucast b OR push_bit 8 (ucast a) :: u32)"
    by (rule bit_word_eqI) (auto simp: bit_simps dest: bit_imp_le_length)
  also have "\<dots> = ucast b + push_bit 8 (ucast a)"
    by (rule disjunctive_add_eq_or [symmetric]) (rule bit_word_eqI, auto simp: bit_simps dest: bit_imp_le_length)
  also have "\<dots> = of_nat (unat b + 256 * unat a)" by (simp add: push_bit_eq_mult)
  finally show ?thesis .
qed

lemma get_fat_entry_result:
  assumes v: "volume_at (ram s) v" "vol_sep v" "stk_result stk = v_result v"
    and c: "c < 65536" "v_table v + 2 * c + 2 < 4294967296"
  shows "\<exists>m'. fat16_get_fat_entry img stk (v_disk v) (of_nat c) s = Some (of_nat (fat_next img v c), s\<lparr>ram := m'\<rparr>) \<and>
    scratched v (ram s) m'"
proof -
  let ?k = "v_table v + 2 * c"
  obtain pos where pos: "pos = (of_nat ?k :: u32)" by blast
  then have upos: "unat pos = ?k" using c(2) by (simp only:) (intro unat_of_nat_u32, simp)
  have start: "fat16_get_first_fat_sector (ram s) (v_private v) * bytes_per_sector (ram s) (v_private v) + of_nat c * 2 = pos"
    proof -
    have "fat16_get_first_fat_sector (ram s) (v_private v) * bytes_per_sector (ram s) (v_private v) = of_nat (v_table v)"
      using v(1) by (intro of_unat) (simp add: volume_at_def)
    then show ?thesis by (simp add: pos)
  qed
  have clr: "buffer_clear (v_fat v) (v_result v) 2"
    unfolding buffer_clear_def
  proof (intro allI impI)
    fix i assume "i < unat (2 :: u32)"
    then have "(of_nat i :: u32) < 2" by (simp add: word_less_nat_alt unat_of_nat_u32)
    then have r: "v_result v + of_nat i - v_result v < 2" by simp
    then have "vol_scratch v (v_result v + of_nat i)" by (simp only: vol_scratch_def simp_thms)
    with r v(2) show "8 \<le> v_result v + of_nat i - v_fat v"
      unfolding vol_sep_def vol_cell_def by (intro eight_apart) blast+
  qed
  have al: "pos mod 512 = 0 \<or> unat (pos mod 512) + unat (2 :: u32) \<le> 512"
  proof -
    have "even (v_table v)" using v(1) by (simp add: volume_at_def)
    then have "even ?k" by simp
    then have "even (?k mod 512)" by (intro dvd_mod) simp_all
    moreover obtain r where r: "r = ?k mod 512" by blast
    moreover from r have "r < 512" by simp
    moreover from calculation have "r \<noteq> 511" by auto
    ultimately have "?k mod 512 < 511" by simp
    then show ?thesis by (simp add: unat_mod upos)
  qed
  have fits: "unat pos + unat (2 :: u32) < 4294967296" using c upos by simp
  have fat: "load32 (ram s) (v_fat v + 4) = v_disk v" using v(1) by (simp add: volume_at_def)
  obtain r m' where rd: "1 \<le> r"
      "stream_read img (v_disk v) (v_fat v) (v_result v) 2 (s\<lparr>ram := store32 (ram s) (v_fat v) pos\<rparr>) = Some (r, s\<lparr>ram := m'\<rparr>)"
    and bytes: "\<forall>k < unat (2 :: u32). m' (v_result v + of_nat k) = disk_byte img (unat pos + k)"
    and frame: "\<forall>x. 4 \<le> x - v_fat v \<and> (\<forall>k < unat (2 :: u32). x \<noteq> v_result v + of_nat k) \<longrightarrow> m' x = ram s x"
    using seek_read [OF fat fits clr al, of img s] by (elim exE conjE) (rule that)
  have w: "ucast (load16 m' (v_result v)) = (of_nat (fat_next img v c) :: u32)"
  proof -
    have "m' (v_result v) = disk_byte img ?k" "m' (v_result v + 1) = disk_byte img (?k + 1)"
      using bytes [rule_format, of 0] bytes [rule_format, of 1] upos by simp_all
    then show ?thesis unfolding load16_def fat_next_def by (simp only: two_bytes)
  qed
  have "m' x = ram s x" if "\<not> vol_scratch v x" for x
  proof -
    have "4 \<le> x - v_fat v" "\<not> x - v_result v < 2" using that by (auto simp: vol_scratch_def)
    moreover have "x \<noteq> v_result v + of_nat k" if "k < unat (2 :: u32)" for k
      using \<open>\<not> x - v_result v < 2\<close> of_nat_below(1) [OF that] by auto
    ultimately show ?thesis using frame by blast
  qed
  with rd w v(1,3) show ?thesis
    by (intro exI [of _ m'])
       (simp add: fat16_get_fat_entry_def Let_def stream_seek_def disk_streamer_seek_def volume_at_def start scratched_def)
qed

section \<open>Following a chain\<close>

lemma scratched_refl [simp]: "scratched v m m"
  by (simp add: scratched_def)

lemma scratched_trans: "scratched v m1 m2 \<Longrightarrow> scratched v m2 m3 \<Longrightarrow> scratched v m1 m3"
  by (simp add: scratched_def)

lemma scratched_volume: "scratched v m m' \<Longrightarrow> vol_sep v \<Longrightarrow> volume_at m v \<Longrightarrow> volume_at m' v"
  by (erule volume_cong) (auto simp: scratched_def vol_sep_def)

lemma unat_u8_bound: "unat b < 256" for b :: u8
proof -
  have "unat b < 2 ^ LENGTH(8)" by (rule unsigned_less)
  then show ?thesis by simp
qed

lemma fat_next_bound: "fat_next img v c < 65536"
  using unat_u8_bound [of "disk_byte img (v_table v + 2 * c)"] unat_u8_bound [of "disk_byte img (v_table v + 2 * c + 1)"]
  unfolding fat_next_def by linarith

lemma entry_link:
  assumes "fat_link e" "e < 65536"
  shows "(of_nat e :: u32) \<noteq> 0" "(of_nat e :: u32) \<noteq> 0xFF0" "(of_nat e :: u32) \<noteq> 0xFF6"
    "(of_nat e :: u32) \<noteq> 0xFF7" "(of_nat e :: u32) \<noteq> 0xFF8" "(of_nat e :: u32) \<noteq> 0xFFF"
  using assms unfolding word_unat_eq_iff by (simp_all add: unat_of_nat_u32 fat_link_def)

lemma sint_small: "unat a < 2147483648 \<Longrightarrow> sint a = int (unat a)" for a :: u32
  by (simp add: sint_u32 word_less_nat_alt)

lemma signed_less_nat: "unat a < 2147483648 \<Longrightarrow> unat b < 2147483648 \<Longrightarrow> a <s b \<longleftrightarrow> unat a < unat b" for a b :: u32
  unfolding word_sless_alt sint_small by (simp only: of_nat_less_iff)

lemma cluster_loop:
  assumes "volume_at (ram s) v" "vol_sep v" "stk_result stk = v_result v"
    and "fat_chain img v cs" "chain_fits v cs n" "j + d < length cs"
    and "unat i + d = unat ahead" "unat ahead < 2147483648"
  shows "\<exists>m'. cluster_for_offset_loop img stk (v_disk v) i ahead (of_nat (cs ! j)) s =
      Some (of_nat (cs ! (j + d)), s\<lparr>ram := m'\<rparr>) \<and> scratched v (ram s) m'"
  using assms
proof (induction d arbitrary: i j s)
  case 0
  then have "\<not> i <s ahead" by (simp add: signed_less_nat)
  then show ?case by (subst cluster_for_offset_loop.simps) (intro exI [of _ "ram s"], simp)
next
  case (Suc d)
  let ?c = "cs ! j" and ?e = "cs ! Suc j"
  have lt: "i <s ahead" using Suc.prems(7,8) by (simp add: signed_less_nat)
  have "?c \<in> set cs" using Suc.prems(6) by simp
  then have c: "?c < 65536" "v_table v + 2 * ?c + 2 < 4294967296" using Suc.prems(5) by (auto simp: chain_fits_def)
  have e: "fat_next img v ?c = ?e" "fat_link ?e" using fat_chain_nth [OF Suc.prems(4)] Suc.prems(6) by simp_all
  have eb: "?e < 65536" using fat_next_bound [of img v ?c] e(1) by simp
  obtain m1 where m1: "fat16_get_fat_entry img stk (v_disk v) (of_nat ?c) s = Some (of_nat ?e, s\<lparr>ram := m1\<rparr>)"
    "scratched v (ram s) m1"
    using get_fat_entry_result [OF Suc.prems(1-3) c, of img] unfolding e(1) by (elim exE conjE) (rule that)
  have "volume_at (ram (s\<lparr>ram := m1\<rparr>)) v"
    using scratched_volume [OF m1(2) Suc.prems(2,1)] by simp
  moreover have "unat (i + 1) + d = unat ahead"
  proof -
    have "unat (i + 1) = Suc (unat i)" using Suc.prems(7,8) by (simp add: unat_word_ariths)
    then show ?thesis using Suc.prems(7) by simp
  qed
  moreover have "Suc j + d < length cs" using Suc.prems(6) by simp
  ultimately obtain m2 where m2: "cluster_for_offset_loop img stk (v_disk v) (i + 1) ahead (of_nat ?e) (s\<lparr>ram := m1\<rparr>) =
      Some (of_nat (cs ! (Suc j + d)), s\<lparr>ram := m2\<rparr>)" "scratched v m1 m2"
    using Suc.IH [of "s\<lparr>ram := m1\<rparr>" "Suc j" "i + 1"] Suc.prems by auto
  have "cluster_for_offset_loop img stk (v_disk v) i ahead (of_nat ?c) s =
      Some (of_nat (cs ! (j + Suc d)), s\<lparr>ram := m2\<rparr>)"
    by (subst cluster_for_offset_loop.simps) (simp add: lt m1(1) entry_link [OF e(2) eb] m2(1))
  then show ?case using scratched_trans [OF m1(2) m2(2)] by blast
qed

text \<open>The code's division and remainder, on the numbers that occur.\<close>

lemma sdiv_nat: "int x sdiv int y = int (x div y)" and smod_nat: "int x smod int y = int (x mod y)"
  by (simp_all add: signed_divide_int_def signed_modulo_int_def zdiv_int zmod_int sgn_if)

lemma int_div_nat:
  assumes "unat a < 2147483648" "0 < unat b" "unat b < 2147483648"
  shows "int_div a b = Some (of_nat (unat a div unat b))" "int_mod a b = Some (of_nat (unat a mod unat b))"
proof -
  have "b \<noteq> 0" using assms(2) by auto
  moreover have "a \<noteq> 0x80000000" using assms(1) by auto
  ultimately show "int_div a b = Some (of_nat (unat a div unat b))" "int_mod a b = Some (of_nat (unat a mod unat b))"
    unfolding int_div_def int_mod_def sint_small [OF assms(1)] sint_small [OF assms(3)] sdiv_nat smod_nat by simp_all
qed

lemma cluster_size:
  assumes "volume_at m v"
  shows "unat (sectors_per_cluster m (v_private v) * disk_sector_size m (v_disk v)) = cluster_bytes v"
    and "512 \<le> cluster_bytes v" and "cluster_bytes v < 2147483648"
proof -
  have "unat (sectors_per_cluster m (v_private v)) < 256"
    using unat_u8_bound [of "m (v_private v + 13)"] by (simp add: sectors_per_cluster_def unat_ucast_u8)
  then have spc: "v_spc v < 256" "0 < v_spc v" using assms by (simp_all add: volume_at_def)
  then show "512 \<le> cluster_bytes v" "cluster_bytes v < 2147483648" by (simp_all add: cluster_bytes_def)
  show "unat (sectors_per_cluster m (v_private v) * disk_sector_size m (v_disk v)) = cluster_bytes v"
    using assms spc by (simp add: volume_at_def unat_word_ariths cluster_bytes_def)
qed

lemma cluster_for_offset_result:
  assumes "volume_at (ram s) v" "vol_sep v" "stk_result stk = v_result v"
    and "fat_chain img v cs" "chain_fits v cs n" "unat offset div cluster_bytes v < length cs"
    and "unat offset < 2147483648"
  shows "\<exists>m'. fat16_get_cluster_for_offset img stk (v_disk v) (of_nat (cs ! 0)) offset s =
      Some (of_nat (cs ! (unat offset div cluster_bytes v)), s\<lparr>ram := m'\<rparr>) \<and> scratched v (ram s) m'"
proof -
  let ?d = "unat offset div cluster_bytes v"
  note C = cluster_size [OF assms(1)]
  have le: "?d \<le> unat offset" by (rule div_le_dividend)
  then have d: "unat (of_nat ?d :: u32) = ?d" using assms(7) by (intro unat_of_nat_u32) linarith
  have "int_div offset (sectors_per_cluster (ram s) (v_private v) * disk_sector_size (ram s) (v_disk v)) = Some (of_nat ?d)"
    using int_div_nat(1) [OF assms(7), of "sectors_per_cluster (ram s) (v_private v) * disk_sector_size (ram s) (v_disk v)"] C
    by simp
  moreover have "disk_fs_private (ram s) (v_disk v) = v_private v" using assms(1) by (simp add: volume_at_def)
  ultimately show ?thesis
    using cluster_loop [OF assms(1-5), of 0 ?d 0 "of_nat ?d"] assms(6) le_less_trans [OF le assms(7)]
    by (simp add: fat16_get_cluster_for_offset_def Let_def d)
qed

section \<open>Reading through a chain\<close>

text \<open>The byte the code delivers at index \<open>k\<close> of a read at \<open>off\<close>, and the byte of the file at a position.\<close>

definition chunk_byte :: "(u32 \<Rightarrow> u8 list) \<Rightarrow> fat_volume \<Rightarrow> nat list \<Rightarrow> nat \<Rightarrow> nat \<Rightarrow> u8" where
  "chunk_byte img v cs off k =
     disk_byte img (cluster_start v (cs ! (off div cluster_bytes v + k div cluster_bytes v)) +
       off mod cluster_bytes v + k mod cluster_bytes v)"

definition file_byte :: "(u32 \<Rightarrow> u8 list) \<Rightarrow> fat_volume \<Rightarrow> nat list \<Rightarrow> nat \<Rightarrow> u8" where
  "file_byte img v cs k = disk_byte img (cluster_start v (cs ! (k div cluster_bytes v)) + k mod cluster_bytes v)"

definition delivered ::
    "(nat \<Rightarrow> u8) \<Rightarrow> fat_volume \<Rightarrow> u32 \<Rightarrow> nat \<Rightarrow> mem \<Rightarrow> mem \<Rightarrow> bool" where
  "delivered b v out n m m' \<longleftrightarrow> (\<forall>k < n. m' (out + of_nat k) = b k) \<and>
     (\<forall>x. \<not> vol_scratch v x \<and> (\<forall>k < n. x \<noteq> out + of_nat k) \<longrightarrow> m' x = m x)"

lemma delivered_volume:
  assumes "delivered b v out n m m'" "vol_sep v" "out_clear v out n" "volume_at m v"
  shows "volume_at m' v"
proof (rule volume_cong [OF assms(4)])
  fix x assume x: "vol_cell v x"
  then have "\<not> vol_scratch v x" using assms(2) by (auto simp: vol_sep_def)
  moreover have "\<forall>k < n. x \<noteq> out + of_nat k" using assms(3) x by (auto simp: out_clear_def)
  ultimately show "m' x = m x" using assms(1) by (simp add: delivered_def)
qed

lemma delivered_scratched: "scratched v m m1 \<Longrightarrow> delivered b v out n m1 m' \<Longrightarrow> delivered b v out n m m'"
  by (simp add: delivered_def scratched_def)

text \<open>A first chunk of \<open>c\<close> bytes, then the rest over the end of what the first read delivered.\<close>

lemma delivered_step:
  assumes "delivered b1 v out c0 m m1" and "delivered b2 v (out + of_nat c) (n - c) m1 m2"
    and "c \<le> c0" "c0 \<le> n" "n < 4294967296" and "out_clear v out n"
    and "\<And>k. k < c \<Longrightarrow> b1 k = b k" and "\<And>k. k < n - c \<Longrightarrow> b2 k = b (c + k)"
  shows "delivered b v out n m m2"
  unfolding delivered_def
proof (intro conjI allI impI)
  fix k assume k: "k < n"
  show "m2 (out + of_nat k) = b k"
  proof (cases "k < c")
    case True
    have "\<not> vol_scratch v (out + of_nat k)" using assms(6) k by (simp add: out_clear_def)
    moreover have "out + of_nat k \<noteq> out + of_nat c + of_nat j" if j: "j < n - c" for j
    proof -
      have "(of_nat k :: u32) \<noteq> of_nat (c + j)"
        using True j k assms(5) of_nat_u32_inject [of k "c + j"] by simp
      then show ?thesis by (simp add: add.assoc)
    qed
    ultimately have "m2 (out + of_nat k) = m1 (out + of_nat k)" using assms(2) by (simp add: delivered_def)
    then show ?thesis using assms(1,3,7) True k by (simp add: delivered_def)
  next
    case False
    then have "k - c < n - c" using k by simp
    then have "m2 (out + of_nat c + of_nat (k - c)) = b2 (k - c)"
      by (rule assms(2) [unfolded delivered_def, THEN conjunct1, rule_format])
    moreover have "out + of_nat c + of_nat (k - c) = out + of_nat k" using False by (simp add: of_nat_diff)
    ultimately show ?thesis using assms(8) [of "k - c"] False k by simp
  qed
next
  fix x assume x: "\<not> vol_scratch v x \<and> (\<forall>k < n. x \<noteq> out + of_nat k)"
  have "x \<noteq> out + of_nat c + of_nat j" if "j < n - c" for j
    using x [THEN conjunct2, rule_format, of "c + j"] that by (simp add: add.assoc)
  with x assms(2) have "m2 x = m1 x" by (simp add: delivered_def)
  moreover have "m1 x = m x" using x assms(1,4) by (simp add: delivered_def)
  ultimately show "m2 x = m x" by simp
qed

lemma cluster_position:
  assumes "volume_at m v" "chain_fits v cs n" "c \<in> set cs" "q < cluster_bytes v"
  shows "unat (fat16_cluster_to_sector m (v_private v) (of_nat c) * disk_sector_size m (v_disk v) + of_nat q) =
    cluster_start v c + q"
proof -
  have f: "2 \<le> c" "cluster_start v c + cluster_bytes v + n < 4294967296" using assms(2,3) by (auto simp: chain_fits_def)
  have e: "ending_sector_pos m (private_root (v_private v)) = of_nat (v_end v)"
    "sectors_per_cluster m (v_private v) = of_nat (v_spc v)"
    using assms(1) by (auto intro!: of_unat simp: volume_at_def)
  have "of_nat c - 2 = (of_nat (c - 2) :: u32)" using f(1) by (simp add: of_nat_diff)
  then have "fat16_cluster_to_sector m (v_private v) (of_nat c) * disk_sector_size m (v_disk v) + of_nat q =
      of_nat (cluster_start v c + q)"
    using assms(1) by (simp add: fat16_cluster_to_sector_def e volume_at_def cluster_start_def)
  moreover have "unat (of_nat (cluster_start v c + q) :: u32) = cluster_start v c + q"
    using f assms(4) by (intro unat_of_nat_u32) linarith
  ultimately show ?thesis by simp
qed

text \<open>What a single read of the stream brings, from one position on.\<close>

lemma data_read:
  assumes "volume_at (ram s) v" "vol_sep v" "out_clear v out (unat n)"
    and "unat pos + unat n < 4294967296" "pos mod 512 = 0 \<or> unat (pos mod 512) + unat n \<le> 512"
  shows "\<exists>r m'. 1 \<le> r \<and>
    stream_read img (v_disk v) (v_data v) out n (s\<lparr>ram := store32 (ram s) (v_data v) pos\<rparr>) = Some (r, s\<lparr>ram := m'\<rparr>) \<and>
    delivered (\<lambda>k. disk_byte img (unat pos + k)) v out (unat n) (ram s) m'"
proof -
  have clr: "buffer_clear (v_data v) out n"
    unfolding buffer_clear_def
    using assms(3) by (intro allI impI eight_apart) (auto simp: out_clear_def vol_cell_def vol_scratch_def)
  have "load32 (ram s) (v_data v + 4) = v_disk v" using assms(1) by (simp add: volume_at_def)
  from seek_read [OF this assms(4) clr assms(5), of img s] obtain r m' where "1 \<le> r"
      "stream_read img (v_disk v) (v_data v) out n (s\<lparr>ram := store32 (ram s) (v_data v) pos\<rparr>) = Some (r, s\<lparr>ram := m'\<rparr>)"
    and "\<forall>k < unat n. m' (out + of_nat k) = disk_byte img (unat pos + k)"
    and "\<forall>x. 4 \<le> x - v_data v \<and> (\<forall>k < unat n. x \<noteq> out + of_nat k) \<longrightarrow> m' x = ram s x"
    by (elim exE conjE) (rule that)
  then show ?thesis by (intro exI [of _ r] exI [of _ m']) (simp add: delivered_def vol_scratch_def not_less)
qed

lemma int_mod_cluster:
  assumes "volume_at m v" "unat offset < 2147483648"
  shows "int_mod offset (sectors_per_cluster m (v_private v) * disk_sector_size m (v_disk v)) =
    Some (of_nat (unat offset mod cluster_bytes v))"
  using cluster_size [OF assms(1)] int_div_nat(2) [OF assms(2)] by simp

text \<open>One call of the recursive reader, up to its recursion.\<close>

lemma read_chunk:
  assumes v: "volume_at (ram s) v" "vol_sep v" "stk_result stk = v_result v"
    and chain: "fat_chain img v cs" "chain_fits v cs (unat n)" "unat offset div cluster_bytes v < length cs"
    and n: "unat offset < 2147483648" "unat n < 2147483648" "out_clear v out (unat n)"
    and al: "unat offset mod 512 = 0 \<or> unat offset mod 512 + unat n \<le> 512"
  shows "\<exists>m1. delivered (\<lambda>k. disk_byte img (cluster_start v (cs ! (unat offset div cluster_bytes v)) +
      unat offset mod cluster_bytes v + k)) v out (unat n) (ram s) m1 \<and>
    fat16_read_internal_from_stream img stk (v_disk v) (v_data v) (of_nat (cs ! 0)) offset n out s =
      (if cluster_bytes v < unat n
       then fat16_read_internal_from_stream img stk (v_disk v) (v_data v) (of_nat (cs ! 0))
         (offset + of_nat (cluster_bytes v)) (n - of_nat (cluster_bytes v)) (out + of_nat (cluster_bytes v)) (s\<lparr>ram := m1\<rparr>)
       else Some (0, s\<lparr>ram := m1\<rparr>))"
proof -
  let ?C = "cluster_bytes v" and ?c = "cs ! (unat offset div cluster_bytes v)" and ?q = "unat offset mod cluster_bytes v"
  note C = cluster_size [OF v(1)]
  have c: "?c \<in> set cs" using chain(3) by simp
  then have fit: "?c < 65536" "cluster_start v ?c + ?C + unat n < 4294967296" using chain(2) by (auto simp: chain_fits_def)
  have q: "?q < ?C" using C(2) by (intro mod_less_divisor) simp
  obtain m0 where m0: "fat16_get_cluster_for_offset img stk (v_disk v) (of_nat (cs ! 0)) offset s =
      Some (of_nat ?c, s\<lparr>ram := m0\<rparr>)" "scratched v (ram s) m0"
    using cluster_for_offset_result [OF v chain n(1)] by blast
  have v0: "volume_at m0 v" by (rule scratched_volume [OF m0(2) v(2,1)])
  obtain pos where pos: "pos = fat16_cluster_to_sector m0 (v_private v) (of_nat ?c) * disk_sector_size m0 (v_disk v) + of_nat ?q"
    by blast
  then have upos: "unat pos = cluster_start v ?c + ?q" using cluster_position [OF v0 chain(2) c q] by simp
  have "unat pos mod 512 = unat offset mod 512"
  proof -
    have "(a * 512 + x) mod 512 = x mod (512 :: nat)" for a x by simp
    moreover have "unat offset mod (v_spc v * 512) mod 512 = unat offset mod 512" by (rule mod_mod_cancel) simp
    ultimately show ?thesis unfolding upos cluster_start_def cluster_bytes_def by metis
  qed
  then have al': "pos mod 512 = 0 \<or> unat (pos mod 512) + unat n \<le> 512"
    using al by (simp add: word_unat_eq_iff unat_mod)
  have "unat pos + unat n < 4294967296" using upos q fit(2) by simp
  from data_read [of "s\<lparr>ram := m0\<rparr>" v out n pos img] this al' v0 v(2) n(3) obtain r m1 where m1: "1 \<le> r"
      "stream_read img (v_disk v) (v_data v) out n (s\<lparr>ram := store32 m0 (v_data v) pos\<rparr>) = Some (r, s\<lparr>ram := m1\<rparr>)"
      "delivered (\<lambda>k. disk_byte img (unat pos + k)) v out (unat n) m0 m1" by auto
  have neg: "\<not> (of_nat ?c :: u32) <s 0" using fit(1) by (simp add: signed_less_nat unat_of_nat_u32)
  obtain size where size: "size = sectors_per_cluster (ram s) (v_private v) * disk_sector_size (ram s) (v_disk v)" by blast
  have usize: "unat size = ?C" "size = of_nat ?C"
    unfolding size using C(1) of_unat by blast+
  have lt: "size <s n \<longleftrightarrow> ?C < unat n" using usize(1) C(3) n(2) by (simp add: signed_less_nat)
  have more: "0 <s n - size \<longleftrightarrow> ?C < unat n" if "?C < unat n"
    using that usize(1) n(2) by (simp add: sless0_iff_u32 word_less_nat_alt unat_sub_if')
  have priv: "disk_fs_private (ram s) (v_disk v) = v_private v" using v(1) by (simp add: volume_at_def)
  have md: "int_mod offset size = Some (of_nat ?q)" unfolding size by (rule int_mod_cluster [OF v(1) n(1)])
  have "fat16_read_internal_from_stream img stk (v_disk v) (v_data v) (of_nat (cs ! 0)) offset n out s =
      (if ?C < unat n
       then fat16_read_internal_from_stream img stk (v_disk v) (v_data v) (of_nat (cs ! 0))
         (offset + of_nat ?C) (n - of_nat ?C) (out + of_nat ?C) (s\<lparr>ram := m1\<rparr>)
       else Some (0, s\<lparr>ram := m1\<rparr>))"
    using m1(1)
    by (subst fat16_read_internal_from_stream.simps)
       (simp add: Let_def priv size [symmetric] m0(1) neg md stream_seek_def disk_streamer_seek_def pos [symmetric]
         m1(2) lt more usize(2) [symmetric])
  moreover have "delivered (\<lambda>k. disk_byte img (cluster_start v ?c + ?q + k)) v out (unat n) (ram s) m1"
    using delivered_scratched [OF m0(2)] m1(3) upos by simp
  ultimately show ?thesis by blast
qed

lemma out_clear_part:
  assumes "out_clear v out n" "c \<le> n" shows "out_clear v (out + of_nat c) (n - c)"
proof -
  have "\<not> vol_cell v (out + of_nat (c + i)) \<and> \<not> vol_scratch v (out + of_nat (c + i))" if "i < n - c" for i
    using assms that unfolding out_clear_def by (metis add.commute less_diff_conv)
  then show ?thesis by (simp add: out_clear_def add.assoc)
qed

lemma read_from_stream_result:
  assumes "volume_at (ram s) v" "vol_sep v" "stk_result stk = v_result v"
    and "fat_chain img v cs" "chain_fits v cs (unat n)"
    and "unat offset div cluster_bytes v + (unat n - 1) div cluster_bytes v < length cs"
    and "unat offset + unat n < 2147483648" "out_clear v out (unat n)"
    and "unat offset mod 512 = 0 \<or> unat offset mod 512 + unat n \<le> 512"
  shows "\<exists>m'. fat16_read_internal_from_stream img stk (v_disk v) (v_data v) (of_nat (cs ! 0)) offset n out s =
      Some (0, s\<lparr>ram := m'\<rparr>) \<and> delivered (chunk_byte img v cs (unat offset)) v out (unat n) (ram s) m'"
  using assms
proof (induction "unat n" arbitrary: n offset out s rule: less_induct)
  case less
  let ?C = "cluster_bytes v" and ?b = "chunk_byte img v cs (unat offset)"
  note C = cluster_size [OF less.prems(1)]
  have "unat offset div ?C < length cs" "unat offset < 2147483648" "unat n < 2147483648" using less.prems(6,7) by simp_all
  from read_chunk [OF less.prems(1-5) this less.prems(8,9)] obtain m1 where
    d1: "delivered (\<lambda>k. disk_byte img (cluster_start v (cs ! (unat offset div ?C)) + unat offset mod ?C + k)) v out
      (unat n) (ram s) m1"
    and eq: "fat16_read_internal_from_stream img stk (v_disk v) (v_data v) (of_nat (cs ! 0)) offset n out s =
      (if ?C < unat n
       then fat16_read_internal_from_stream img stk (v_disk v) (v_data v) (of_nat (cs ! 0))
         (offset + of_nat ?C) (n - of_nat ?C) (out + of_nat ?C) (s\<lparr>ram := m1\<rparr>)
       else Some (0, s\<lparr>ram := m1\<rparr>))" by blast
  show ?case
  proof (cases "?C < unat n")
    case False
    then have "?b k = disk_byte img (cluster_start v (cs ! (unat offset div ?C)) + unat offset mod ?C + k)" if "k < unat n" for k
      using that by (simp add: chunk_byte_def)
    then have "delivered ?b v out (unat n) (ram s) m1" using d1 by (simp add: delivered_def)
    with eq False show ?thesis by auto
  next
    case True
    let ?n = "n - of_nat ?C" and ?off = "offset + of_nat ?C"
    have nz: "?C \<noteq> 0" using C(2) by simp
    have uC: "unat (of_nat ?C :: u32) = ?C" using C(3) by (intro unat_of_nat_u32) simp
    have un: "unat ?n = unat n - ?C" using True uC by (simp add: unat_sub_if')
    have uo: "unat ?off = unat offset + ?C" using True uC less.prems(7) by (simp add: unat_word_ariths)
    have v1: "volume_at (ram (s\<lparr>ram := m1\<rparr>)) v"
      using delivered_volume [OF d1 less.prems(2,8,1)] by simp
    have 1: "unat ?n < unat n" using un True C(2) by simp
    have 2: "chain_fits v cs (unat ?n)" using less.prems(5) un by (auto simp: chain_fits_def)
    have len: "unat offset div ?C + 1 + (unat n - 1 - ?C) div ?C < length cs"
    proof -
      have "(unat n - 1) div ?C = 1 + (unat n - 1 - ?C) div ?C"
        using True C(2) by (subst div_if [of "unat n - 1"]) simp
      then show ?thesis using less.prems(6) by simp
    qed
    have 3: "unat ?off div ?C + (unat ?n - 1) div ?C < length cs"
      using len div_add_self2 [OF nz, of "unat offset"] by (simp add: uo un)
    have 4: "unat ?off + unat ?n < 2147483648" using uo un True less.prems(7) by simp
    have 5: "out_clear v (out + of_nat ?C) (unat ?n)" using out_clear_part [OF less.prems(8), of ?C] True un by simp
    have 6: "unat ?off mod 512 = 0 \<or> unat ?off mod 512 + unat ?n \<le> 512"
      using less.prems(9) True C(2) unfolding uo by (auto simp: cluster_bytes_def)
    from less.hyps [OF 1 v1 less.prems(2-4) 2 3 4 5 6] obtain m2 where
      m2: "fat16_read_internal_from_stream img stk (v_disk v) (v_data v) (of_nat (cs ! 0)) ?off ?n (out + of_nat ?C)
        (s\<lparr>ram := m1\<rparr>) = Some (0, s\<lparr>ram := m2\<rparr>)"
      "delivered (chunk_byte img v cs (unat ?off)) v (out + of_nat ?C) (unat n - ?C) m1 m2" by (auto simp: un)
    have "delivered ?b v out (unat n) (ram s) m2"
    proof (rule delivered_step [OF d1 m2(2)])
      show "chunk_byte img v cs (unat ?off) k = ?b (?C + k)" if "k < unat n - ?C" for k
        by (simp add: chunk_byte_def uo div_add_self1 [OF nz] div_add_self2 [OF nz])
    qed (use True less.prems(8) in \<open>simp_all add: chunk_byte_def\<close>)
    with m2(1) eq True show ?thesis by auto
  qed
qed

text \<open>
  The reads the code gets right: those that do not over-read a sector, and that stay in one cluster or start at the
  beginning of one.
\<close>

definition read_ok :: "fat_volume \<Rightarrow> nat \<Rightarrow> nat \<Rightarrow> bool" where
  "read_ok v off n \<longleftrightarrow> off mod cluster_bytes v = 0 \<or>
     off mod 512 = 0 \<and> off mod cluster_bytes v + n \<le> cluster_bytes v \<or>
     off mod 512 + n \<le> 512"

lemma read_ok_cluster:
  assumes "read_ok v off n" "0 < v_spc v"
  shows "off mod 512 = 0 \<or> off mod 512 + n \<le> 512"
    and "off mod cluster_bytes v = 0 \<or> off mod cluster_bytes v + n \<le> cluster_bytes v"
proof -
  have m: "off mod cluster_bytes v mod 512 = off mod 512"
    unfolding cluster_bytes_def by (rule mod_mod_cancel) simp
  then show "off mod 512 = 0 \<or> off mod 512 + n \<le> 512" using assms(1) by (auto simp: read_ok_def)
  have "off mod cluster_bytes v + n \<le> cluster_bytes v" if "off mod 512 + n \<le> 512"
  proof -
    obtain q where q: "q = off mod cluster_bytes v" by blast
    have "q < v_spc v * 512" unfolding q cluster_bytes_def by (rule mod_less_divisor) (use assms(2) in simp)
    then have "q div 512 < v_spc v" by (simp add: less_mult_imp_div_less)
    moreover have "q = q div 512 * 512 + q mod 512" by simp
    ultimately have "q + n \<le> v_spc v * 512" using that m q by simp
    then show ?thesis by (simp add: q cluster_bytes_def)
  qed
  then show "off mod cluster_bytes v = 0 \<or> off mod cluster_bytes v + n \<le> cluster_bytes v"
    using assms(1) by (auto simp: read_ok_def)
qed

lemma chunk_is_file_byte:
  assumes "read_ok v off n" "0 < v_spc v" "k < n"
  shows "chunk_byte img v cs off k = file_byte img v cs (off + k)"
proof -
  let ?C = "cluster_bytes v"
  have C: "0 < ?C" using assms(2) by (simp add: cluster_bytes_def)
  have "(off + k) div ?C = off div ?C + k div ?C \<and> (off + k) mod ?C = off mod ?C + k mod ?C"
  proof (cases "off mod ?C = 0")
    case True
    then obtain a where "off = a * ?C" by (metis mod_0_imp_dvd dvdE mult.commute)
    then show ?thesis using C by simp
  next
    case False
    then have "off mod ?C + k < ?C" using read_ok_cluster(2) [OF assms(1,2)] assms(3) by simp
    moreover from this have "k < ?C" by simp
    ultimately show ?thesis by (simp add: div_add1_eq [of off] mod_add_eq [of off, symmetric])
  qed
  then show ?thesis by (simp only: chunk_byte_def file_byte_def add.assoc)
qed

text \<open>The clusters a read needs.\<close>

definition chain_covers :: "fat_volume \<Rightarrow> nat list \<Rightarrow> nat \<Rightarrow> nat \<Rightarrow> bool" where
  "chain_covers v cs off n \<longleftrightarrow> chain_fits v cs n \<and>
     off div cluster_bytes v + (n - 1) div cluster_bytes v < length cs \<and> off + n < 2147483648"

lemma read_internal_chunks:
  assumes "volume_at (ram s) v" "vol_sep v" "stk_result stk = v_result v"
    and "fat_chain img v cs" "chain_covers v cs (unat offset) (unat n)" "out_clear v out (unat n)"
    and "unat offset mod 512 = 0 \<or> unat offset mod 512 + unat n \<le> 512"
  shows "\<exists>m'. fat16_read_internal img stk (v_disk v) (of_nat (cs ! 0)) offset n out s = Some (0, s\<lparr>ram := m'\<rparr>) \<and>
    delivered (chunk_byte img v cs (unat offset)) v out (unat n) (ram s) m'"
proof -
  have "disk_fs_private (ram s) (v_disk v) = v_private v" "cluster_read_stream (ram s) (v_private v) = v_data v"
    using assms(1) by (simp_all add: volume_at_def)
  then show ?thesis
    using read_from_stream_result [OF assms(1-4)] assms(5-7)
    by (simp add: fat16_read_internal_def chain_covers_def)
qed

lemma read_internal_ok:
  assumes "volume_at (ram s) v" "vol_sep v" "stk_result stk = v_result v"
    and "fat_chain img v cs" "chain_covers v cs (unat offset) (unat n)" "out_clear v out (unat n)"
    and "read_ok v (unat offset) (unat n)"
  shows "\<exists>m'. fat16_read_internal img stk (v_disk v) (of_nat (cs ! 0)) offset n out s = Some (0, s\<lparr>ram := m'\<rparr>) \<and>
    delivered (\<lambda>k. file_byte img v cs (unat offset + k)) v out (unat n) (ram s) m'"
proof -
  have spc: "0 < v_spc v" using assms(1) by (simp add: volume_at_def)
  from read_internal_chunks [OF assms(1-6) read_ok_cluster(1) [OF assms(7) spc]] obtain m' where
    "fat16_read_internal img stk (v_disk v) (of_nat (cs ! 0)) offset n out s = Some (0, s\<lparr>ram := m'\<rparr>)"
    "delivered (chunk_byte img v cs (unat offset)) v out (unat n) (ram s) m'" by blast
  moreover from this(2) have "delivered (\<lambda>k. file_byte img v cs (unat offset + k)) v out (unat n) (ram s) m'"
    using chunk_is_file_byte [OF assms(7) spc, of _ img cs] by (simp add: delivered_def)
  ultimately show ?thesis by blast
qed

section \<open>Correctness of reading\<close>

text \<open>C11: Reading a file's clusters. On a mounted volume, a read that starts at the beginning of a cluster, or that stays
  within one cluster without over-reading a sector, returns 0 and delivers exactly the bytes of the file, following the
  cluster chain in the FAT, whatever the order of its clusters on the disk; it writes nothing but the buffer, the
  stream positions and a stack word.\<close>

theorem fat16_read_internal_correct:
  assumes "volume_at (ram s) v" "vol_sep v" "stk_result stk = v_result v"
    and "fat_chain img v cs" "chain_covers v cs (unat offset) (unat n)" "out_clear v out (unat n)"
    and "read_ok v (unat offset) (unat n)"
  shows "\<exists>m'. fat16_read_internal img stk (v_disk v) (of_nat (cs ! 0)) offset n out s = Some (0, s\<lparr>ram := m'\<rparr>) \<and>
    (\<forall>k < unat n. m' (out + of_nat k) = file_byte img v cs (unat offset + k)) \<and>
    (\<forall>x. \<not> vol_scratch v x \<and> (\<forall>k < unat n. x \<noteq> out + of_nat k) \<longrightarrow> m' x = ram s x)"
  using read_internal_ok [OF assms] unfolding delivered_def by blast

text \<open>A small volume: one sector per cluster, the FAT in sector 1, clusters from sector 10 on. The file of clusters 2 and
  5 has its first 512 bytes in sector 10 and the rest in sector 13.\<close>

definition demo_volume :: fat_volume where
  "demo_volume = \<lparr>v_disk = 0x1000, v_private = 0x2000, v_data = 0x3000, v_fat = 0x4000, v_result = 0x5000,
     v_spc = 1, v_end = 10, v_table = 512\<rparr>"

definition demo_ram :: mem where
  "demo_ram = (\<lambda>_. 0)(0x1005 := 2, 0x1011 := 0x20, 0x2051 := 0x30, 0x2055 := 0x40, 0x3005 := 0x10, 0x4005 := 0x10,
     0x200D := 1, 0x204C := 10, 0x200C := 2, 0x200E := 1)"

definition demo_disk :: "u32 \<Rightarrow> u8 list" where
  "demo_disk k = (if k = 1 then (replicate 512 0)[4 := 5, 10 := 0xFF, 11 := 0xFF]
     else if k = 10 then replicate 512 7 else if k = 13 then replicate 512 9 else replicate 512 1)"

definition demo_stack :: fat_stack where
  "demo_stack = \<lparr>stk_item = 0x5100, stk_result = 0x5000, stk_name = 0x5200\<rparr>"

definition demo_kmem :: kmem where
  "demo_kmem = \<lparr>ram = demo_ram, phys = pmm_boot, big_blocks = []\<rparr>"

lemma demo_volume_at: "volume_at demo_ram demo_volume"
  by (simp add: volume_at_def demo_volume_def demo_ram_def disk_sector_size_def disk_fs_private_def
      cluster_read_stream_def fat_read_stream_def sectors_per_cluster_def ending_sector_pos_def private_root_def
      fat16_get_first_fat_sector_def reserved_sectors_def hidden_setors_def bytes_per_sector_def load32_def load16_def)

lemma near_far: "x - a < n \<Longrightarrow> x - b < k \<Longrightarrow> unat a + unat n \<le> unat b \<Longrightarrow> unat b + unat k \<le> 4294967296 \<Longrightarrow> False"
  for x a b n k :: u32
proof -
  assume h: "x - a < n" "x - b < k" "unat a + unat n \<le> unat b" "unat b + unat k \<le> 4294967296"
  obtain i j where i: "i = x - a" and j: "j = x - b" by blast
  have x: "x = a + i" "x = b + j" by (simp_all add: i j)
  have l: "unat i < unat n" "unat j < unat k" using h(1,2) i j by (simp_all add: word_less_nat_alt)
  have "unat (a + i) = unat a + unat i" "unat (b + j) = unat b + unat j"
    using l h(3,4) by (simp_all add: unat_word_ariths)
  then show False using x l h(3) by simp
qed

lemma far_apart:
  "x - a < n \<Longrightarrow> unat a + unat n \<le> unat b \<and> unat b + unat k \<le> 4294967296 \<or>
    unat b + unat k \<le> unat a \<and> unat a + unat n \<le> 4294967296 \<Longrightarrow> \<not> x - b < k" for x a b n k :: u32
  using near_far by blast

lemma demo_sep: "vol_sep demo_volume"
  unfolding vol_sep_def vol_cell_def vol_scratch_def demo_volume_def fat_volume.simps de_Morgan_disj
  by (intro conjI allI impI; (elim disjE)?; erule far_apart; simp)

lemma demo_chain: "fat_chain demo_disk demo_volume [2, 5]"
  by (simp add: fat_next_def demo_volume_def disk_byte_def demo_disk_def fat_link_def)

lemma demo_covers: "n \<le> 1024 \<Longrightarrow> chain_covers demo_volume [2, 5] 0 n"
proof -
  assume "n \<le> 1024"
  then have "(n - 1) div 512 < 2" by (simp add: less_mult_imp_div_less)
  then show ?thesis using \<open>n \<le> 1024\<close>
    by (simp add: chain_covers_def chain_fits_def demo_volume_def cluster_start_def cluster_bytes_def)
qed

lemma demo_out: "n \<le> 4096 \<Longrightarrow> out_clear demo_volume 0x6000 n"
  unfolding out_clear_def
proof (intro allI impI)
  fix i assume "n \<le> 4096" "i < n"
  then have "unat (of_nat i :: u32) < unat (4096 :: u32)" by (simp add: unat_of_nat_u32)
  then have "0x6000 + of_nat i - 0x6000 < (4096 :: u32)" by (simp add: word_less_nat_alt)
  moreover obtain x where "x = 0x6000 + (of_nat i :: u32)" by blast
  ultimately have x: "x - 0x6000 < 4096" "0x6000 + of_nat i = x" by simp_all
  then show "\<not> vol_cell demo_volume (0x6000 + of_nat i) \<and> \<not> vol_scratch demo_volume (0x6000 + of_nat i)"
    unfolding vol_cell_def vol_scratch_def demo_volume_def fat_volume.simps de_Morgan_disj x(2)
    by (intro conjI; intro far_apart [OF x(1)]; simp)
qed

lemma fat16_read_internal_correct_witness:
  "\<exists>m'. fat16_read_internal demo_disk demo_stack 0x1000 2 0 600 0x6000 demo_kmem = Some (0, demo_kmem\<lparr>ram := m'\<rparr>) \<and>
    m' 0x6000 = 7 \<and> m' 0x6257 = 9"
proof -
  have "volume_at (ram demo_kmem) demo_volume" "stk_result demo_stack = v_result demo_volume"
    "fat_chain demo_disk demo_volume [2, 5]" "out_clear demo_volume 0x6000 (unat (600 :: u32))"
    "chain_covers demo_volume [2, 5] (unat (0 :: u32)) (unat (600 :: u32))"
    "read_ok demo_volume (unat (0 :: u32)) (unat (600 :: u32))"
    using demo_volume_at demo_chain demo_out [of 600] demo_covers [of 600]
    by (simp_all add: demo_kmem_def demo_stack_def demo_volume_def read_ok_def)
  from fat16_read_internal_correct [OF this(1) demo_sep this(2,3,5,4,6)] obtain m' where
    "fat16_read_internal demo_disk demo_stack (v_disk demo_volume) (of_nat ([2, 5] ! 0)) 0 600 0x6000 demo_kmem =
      Some (0, demo_kmem\<lparr>ram := m'\<rparr>)"
    and b: "\<forall>k < unat (600 :: u32). m' (0x6000 + of_nat k) = file_byte demo_disk demo_volume [2, 5] (unat (0 :: u32) + k)"
    by blast
  moreover have "m' 0x6000 = 7" "m' 0x6257 = 9"
    using b [rule_format, of 0] b [rule_format, of 599]
    by (simp_all add: file_byte_def cluster_start_def cluster_bytes_def disk_byte_def demo_volume_def demo_disk_def)
  ultimately show ?thesis by (intro exI [of _ m']) (simp add: demo_volume_def)
qed

text \<open>The positions on the disk that hold the bytes of a file, and the bytes of a read past the end of their cluster.\<close>

definition in_file :: "fat_volume \<Rightarrow> nat list \<Rightarrow> nat \<Rightarrow> bool" where
  "in_file v cs q \<longleftrightarrow> (\<exists>j < length cs * cluster_bytes v. q = cluster_start v (cs ! (j div cluster_bytes v)) + j mod cluster_bytes v)"

definition past_cluster :: "fat_volume \<Rightarrow> nat \<Rightarrow> nat \<Rightarrow> bool" where
  "past_cluster v off k \<longleftrightarrow> cluster_bytes v \<le> off mod cluster_bytes v + k mod cluster_bytes v"

lemma cluster_start_unique:
  assumes "2 \<le> c" "2 \<le> d" "a < cluster_bytes v" "b < cluster_bytes v" "cluster_start v c + a = cluster_start v d + b"
  shows "c = d"
proof -
  have "cluster_start v e = v_end v * 512 + (e - 2) * cluster_bytes v" for e
    by (simp add: cluster_start_def cluster_bytes_def algebra_simps)
  then have "(c - 2) * cluster_bytes v + a = (d - 2) * cluster_bytes v + b" using assms(5) by simp
  then have "((c - 2) * cluster_bytes v + a) div cluster_bytes v = ((d - 2) * cluster_bytes v + b) div cluster_bytes v" by simp
  then show ?thesis using assms(1-4) by simp
qed

lemma outside_file:
  assumes "chain_fits v cs n" "2 \<le> c" "c \<notin> set cs" "a < cluster_bytes v" shows "\<not> in_file v cs (cluster_start v c + a)"
proof
  assume "in_file v cs (cluster_start v c + a)"
  then obtain j where j: "j < length cs * cluster_bytes v"
    "cluster_start v c + a = cluster_start v (cs ! (j div cluster_bytes v)) + j mod cluster_bytes v" by (auto simp: in_file_def)
  then have "j div cluster_bytes v < length cs" by (simp add: less_mult_imp_div_less)
  then have "cs ! (j div cluster_bytes v) \<in> set cs" by simp
  moreover from this have "2 \<le> cs ! (j div cluster_bytes v)" using assms(1) by (simp add: chain_fits_def)
  moreover have "j mod cluster_bytes v < cluster_bytes v" using assms(4) by simp
  ultimately have "cs ! (j div cluster_bytes v) \<in> set cs" "c = cs ! (j div cluster_bytes v)"
    using cluster_start_unique [OF assms(2) _ assms(4) _ j(2)] by blast+
  then show False using assms(3) by simp
qed

text \<open>Where the bytes delivered by an unaligned read come from.\<close>

lemma chunk_byte_cases:
  assumes "0 < v_spc v"
  shows "\<not> past_cluster v off k \<Longrightarrow> chunk_byte img v cs off k = file_byte img v cs (off + k)"
    and "past_cluster v off k \<Longrightarrow> 2 \<le> cs ! (off div cluster_bytes v + k div cluster_bytes v) \<Longrightarrow>
      chunk_byte img v cs off k =
        disk_byte img (cluster_start v (Suc (cs ! (off div cluster_bytes v + k div cluster_bytes v))) + (off + k) mod cluster_bytes v)"
proof -
  let ?C = "cluster_bytes v"
  have C: "0 < ?C" using assms by (simp add: cluster_bytes_def)
  {
    assume "\<not> past_cluster v off k"
    then have "off mod ?C + k mod ?C < ?C" by (simp add: past_cluster_def)
    then have "(off + k) div ?C = off div ?C + k div ?C" "(off + k) mod ?C = off mod ?C + k mod ?C"
      by (simp_all add: div_add1_eq [of off] mod_add_eq [of off, symmetric])
    then show "chunk_byte img v cs off k = file_byte img v cs (off + k)"
      by (simp only: chunk_byte_def file_byte_def add.assoc)
  next
    let ?c = "cs ! (off div ?C + k div ?C)"
    assume past: "past_cluster v off k" and c: "2 \<le> ?c"
    have "off mod ?C < ?C" "k mod ?C < ?C" using C by simp_all
    then have "off mod ?C + k mod ?C - ?C < ?C" by linarith
    moreover have "(off + k) mod ?C = (off mod ?C + k mod ?C - ?C) mod ?C"
      using past le_mod_geq [of ?C "off mod ?C + k mod ?C"] mod_add_eq [of off ?C k] unfolding past_cluster_def by linarith
    ultimately have "(off + k) mod ?C + ?C = off mod ?C + k mod ?C" using past by (simp add: past_cluster_def)
    moreover obtain d where "?c = d + 2" using c by (metis le_add_diff_inverse2)
    then have "cluster_start v (Suc ?c) = cluster_start v ?c + ?C"
      by (simp add: cluster_start_def cluster_bytes_def algebra_simps)
    ultimately show "chunk_byte img v cs off k = disk_byte img (cluster_start v (Suc ?c) + (off + k) mod ?C)"
      by (simp only: chunk_byte_def add.assoc add.commute [of ?C])
  }
qed

text \<open>C37: What a sector-aligned read across clusters delivers when it does not start at the beginning of one. The call
  returns 0, and the bytes before the end of each cluster are the file's. But a byte past the end of the cluster \<open>c\<close> in which its
  piece of the read started is taken from cluster \<open>c + 1\<close>, not from the next cluster of the chain; unless the file happens to
  own cluster \<open>c + 1\<close>, it comes from a position of the disk that holds no byte of the file. When \<open>c + 1\<close> is the next cluster of the
  chain, the byte is right.\<close>

theorem fat16_read_internal_unaligned:
  assumes "volume_at (ram s) v" "vol_sep v" "stk_result stk = v_result v"
    and "fat_chain img v cs" "chain_covers v cs (unat offset) (unat n)" "out_clear v out (unat n)"
    and "unat offset mod 512 = 0"
  shows "\<exists>m'. fat16_read_internal img stk (v_disk v) (of_nat (cs ! 0)) offset n out s = Some (0, s\<lparr>ram := m'\<rparr>) \<and>
    (\<forall>k < unat n. let i = unat offset div cluster_bytes v + k div cluster_bytes v;
        q = cluster_start v (Suc (cs ! i)) + (unat offset + k) mod cluster_bytes v in
      (\<not> past_cluster v (unat offset) k \<longrightarrow> m' (out + of_nat k) = file_byte img v cs (unat offset + k)) \<and>
      (past_cluster v (unat offset) k \<longrightarrow> m' (out + of_nat k) = disk_byte img q \<and>
        (Suc (cs ! i) \<notin> set cs \<longrightarrow> \<not> in_file v cs q) \<and>
        (cs ! Suc i = Suc (cs ! i) \<longrightarrow> m' (out + of_nat k) = file_byte img v cs (unat offset + k))))"
proof -
  let ?C = "cluster_bytes v"
  have spc: "0 < v_spc v" using assms(1) by (simp add: volume_at_def)
  then have C: "0 < ?C" by (simp add: cluster_bytes_def)
  from read_internal_chunks [OF assms(1-6)] assms(7) obtain m' where
    m: "fat16_read_internal img stk (v_disk v) (of_nat (cs ! 0)) offset n out s = Some (0, s\<lparr>ram := m'\<rparr>)"
    and b: "\<And>k. k < unat n \<Longrightarrow> m' (out + of_nat k) = chunk_byte img v cs (unat offset) k" unfolding delivered_def by blast
  have past: "m' (out + of_nat k) = disk_byte img (cluster_start v (Suc (cs ! i)) + (unat offset + k) mod ?C) \<and>
      (Suc (cs ! i) \<notin> set cs \<longrightarrow> \<not> in_file v cs (cluster_start v (Suc (cs ! i)) + (unat offset + k) mod ?C)) \<and>
      (cs ! Suc i = Suc (cs ! i) \<longrightarrow> m' (out + of_nat k) = file_byte img v cs (unat offset + k))"
    if k: "k < unat n" "past_cluster v (unat offset) k" and i: "i = unat offset div ?C + k div ?C" for k i
  proof -
    have "k div ?C \<le> (unat n - 1) div ?C" using k(1) by (intro div_le_mono) simp
    then have "i < length cs" using assms(5) i by (simp add: chain_covers_def)
    then have "cs ! i \<in> set cs" by simp
    then have two: "2 \<le> cs ! i" using assms(5) by (auto simp: chain_covers_def chain_fits_def)
    have byte: "m' (out + of_nat k) = disk_byte img (cluster_start v (Suc (cs ! i)) + (unat offset + k) mod ?C)"
      using b [OF k(1)] chunk_byte_cases(2) [OF spc k(2)] two i by simp
    have "\<not> in_file v cs (cluster_start v (Suc (cs ! i)) + (unat offset + k) mod ?C)" if "Suc (cs ! i) \<notin> set cs"
      using assms(5) two that C by (intro outside_file [of _ _ "unat n"]) (simp_all add: chain_covers_def)
    moreover have "unat offset mod ?C < ?C" "k mod ?C < ?C" using C by simp_all
    then have "(unat offset mod ?C + k mod ?C) div ?C = Suc 0"
      using k(2) unfolding past_cluster_def by (intro div_nat_eqI) linarith+
    then have "(unat offset + k) div ?C = Suc i" using div_add1_eq [of "unat offset" k ?C] i by simp
    ultimately show ?thesis using byte by (simp add: file_byte_def)
  qed
  moreover have "m' (out + of_nat k) = file_byte img v cs (unat offset + k)" if "k < unat n" "\<not> past_cluster v (unat offset) k" for k
    using b [OF that(1)] chunk_byte_cases(1) [OF spc that(2)] by simp
  ultimately show ?thesis using m unfolding Let_def by blast
qed

text \<open>With two sectors per cluster, and cluster 5 after cluster 2: reading 1024 bytes from position 512 delivers, from byte
  512 on, the first sector of cluster 3, which is not in the file.\<close>

lemma fat16_read_internal_unaligned_witness:
  "let img = \<lambda>k. if k = 1 then demo_disk 1 else replicate 512 (ucast k);
       v = demo_volume\<lparr>v_spc := 2\<rparr>; s = demo_kmem\<lparr>ram := demo_ram(0x200D := 2)\<rparr>
   in (\<exists>m'. fat16_read_internal img demo_stack 0x1000 2 512 1024 0x6000 s = Some (0, s\<lparr>ram := m'\<rparr>) \<and>
         m' 0x6200 = 12) \<and> file_byte img v [2, 5] 1024 = 16 \<and> \<not> in_file v [2, 5] (12 * 512)"
proof -
  let ?img = "\<lambda>k. if k = 1 then demo_disk 1 else replicate 512 (ucast k :: u8)"
  let ?v = "demo_volume\<lparr>v_spc := 2\<rparr>" and ?s = "demo_kmem\<lparr>ram := demo_ram(0x200D := 2)\<rparr>"
  have 1: "volume_at (ram ?s) ?v"
    by (simp add: volume_at_def demo_volume_def demo_ram_def disk_sector_size_def disk_fs_private_def
        cluster_read_stream_def fat_read_stream_def sectors_per_cluster_def ending_sector_pos_def private_root_def
        fat16_get_first_fat_sector_def reserved_sectors_def hidden_setors_def bytes_per_sector_def load32_def load16_def)
  have 2: "vol_sep ?v" using demo_sep by (simp add: vol_sep_def vol_cell_def vol_scratch_def)
  have 3: "stk_result demo_stack = v_result ?v" by (simp add: demo_stack_def demo_volume_def)
  have 4: "fat_chain ?img ?v [2, 5]"
    by (simp add: fat_next_def demo_volume_def disk_byte_def demo_disk_def fat_link_def)
  have 5: "chain_covers ?v [2, 5] (unat (512 :: u32)) (unat (1024 :: u32))"
    by (simp add: chain_covers_def chain_fits_def demo_volume_def cluster_start_def cluster_bytes_def)
  have 6: "out_clear ?v 0x6000 (unat (1024 :: u32))"
    using demo_out [of 1024] by (simp add: out_clear_def vol_cell_def vol_scratch_def)
  have 7: "unat (512 :: u32) mod 512 = 0" by simp
  have k: "512 < unat (1024 :: u32)" "past_cluster ?v (unat (512 :: u32)) 512"
    by (simp_all add: past_cluster_def cluster_bytes_def demo_volume_def)
  from fat16_read_internal_unaligned [OF 1 2 3 4 5 6 7] obtain m' where
    "fat16_read_internal ?img demo_stack (v_disk ?v) (of_nat ([2, 5] ! 0)) 512 1024 0x6000 ?s = Some (0, ?s\<lparr>ram := m'\<rparr>)"
    and b: "let i = unat (512 :: u32) div cluster_bytes ?v + 512 div cluster_bytes ?v;
        q = cluster_start ?v (Suc ([2, 5] ! i)) + (unat (512 :: u32) + 512) mod cluster_bytes ?v in
      m' (0x6000 + of_nat 512) = disk_byte ?img q \<and> (Suc ([2, 5] ! i) \<notin> set [2, 5] \<longrightarrow> \<not> in_file ?v [2, 5] q)"
    using k unfolding Let_def by blast
  moreover have "m' 0x6200 = 12 \<and> \<not> in_file ?v [2, 5] (12 * 512)"
    using b by (simp add: cluster_start_def cluster_bytes_def disk_byte_def demo_volume_def)
  moreover have "file_byte ?img ?v [2, 5] 1024 = 16"
    by (simp add: file_byte_def cluster_start_def cluster_bytes_def disk_byte_def demo_volume_def)
  ultimately show ?thesis unfolding Let_def by (intro conjI exI [of _ m']) (simp_all add: demo_volume_def)
qed

end
