(* ===== verification/Console.thy ===== *)
theory Console imports Terminal KHeap
begin

text \<open>
  The state most of the kernel's services work on: the memory with its heap, and the cursor of the
  terminal, whose cells are part of the same memory. \<open>say\<close> is \<open>kernel_print\<close> of a literal.
\<close>

record console =
  con_video :: u32
  con_row :: u16
  con_col :: u16

type_synonym machine = "kmem \<times> console"

definition con_terminal :: "machine \<Rightarrow> terminal" where
  "con_terminal st = \<lparr>vram = ram (fst st), video_memory = con_video (snd st),
     terminal_row = con_row (snd st), terminal_col = con_col (snd st)\<rparr>"

definition con_back :: "terminal \<Rightarrow> machine \<Rightarrow> machine" where
  "con_back t st = ((fst st)\<lparr>ram := vram t\<rparr>,
     \<lparr>con_video = video_memory t, con_row = terminal_row t, con_col = terminal_col t\<rparr>)"

definition say :: "u8 list \<Rightarrow> machine \<Rightarrow> machine" where
  "say bs st = con_back (print_line bs (con_terminal st)) st"

definition say_uint :: "u32 \<Rightarrow> u8 list \<Rightarrow> machine \<Rightarrow> machine" where
  "say_uint n digits st = con_back (kernel_print_uint n digits (con_terminal st)) st"

lemma say_heap [simp]:
  "phys (fst (say bs st)) = phys (fst st)" "big_blocks (fst (say bs st)) = big_blocks (fst st)"
  "phys (fst (say_uint n ds st)) = phys (fst st)" "big_blocks (fst (say_uint n ds st)) = big_blocks (fst st)"
  by (simp_all add: say_def say_uint_def con_back_def)

text \<open>An operation on the memory alone, and one that may not return.\<close>

definition mem_step :: "(kmem \<Rightarrow> kmem) \<Rightarrow> machine \<Rightarrow> machine" where
  "mem_step f st = (f (fst st), snd st)"

definition mem_call :: "(kmem \<Rightarrow> ('a \<times> kmem) option) \<Rightarrow> machine \<Rightarrow> ('a \<times> machine) option" where
  "mem_call f st = (case f (fst st) of None \<Rightarrow> None | Some (a, s) \<Rightarrow> Some (a, s, snd st))"

end
