(* ===== verification/FatFiles.thy ===== *)
theory FatFiles imports FatVolume Console
begin

text \<open>
  The upper half of \<open>src/src/fs/fat16/fat16.c\<close>: directories in memory, the search for a name, and the
  operations the filesystem offers to the virtual file system: open, read, seek and stat.
\<close>

section \<open>Directories and items\<close>

definition fat16_load_directory ::
    "(u32 \<Rightarrow> u8 list) \<Rightarrow> fat_stack \<Rightarrow> u32 \<Rightarrow> u32 \<Rightarrow> kmem \<Rightarrow> (u32 \<times> kmem) option" where
  "fat16_load_directory img stk disk dir_item s =
     (let private = disk_fs_private (ram s) disk in
      if item_attribute (ram s) dir_item AND FAT_FILE_SUBDIRECTORY = 0 then Some (0, s)
      else
        let (directory, s) = kzalloc 16 s in
        if directory = 0 then Some (0, s)
        else
          let cluster = fat16_get_first_cluster (ram s) dir_item;
              cluster_sector = fat16_cluster_to_sector (ram s) private cluster
          in case fat16_get_total_items_for_directory img stk disk cluster_sector s of
               None \<Rightarrow> None
             | Some (total_items, s) \<Rightarrow>
                 let s = set_word (directory + 4) total_items s;
                     directory_size = total_entries (ram s) directory * 32;
                     (item, s) = kzalloc directory_size s;
                     s = set_word directory item s
                 in if directory_item (ram s) directory = 0 then Some (0, s)
                    else case fat16_read_internal img stk disk cluster 0 directory_size (directory_item (ram s) directory) s of
                        None \<Rightarrow> None
                      | Some (res, s) \<Rightarrow>
                          if res <s 0 then Some (0, fat16_free_directory directory s) else Some (directory, s))"

definition fat16_clone_directory_item :: "u32 \<Rightarrow> u32 \<Rightarrow> kmem \<Rightarrow> u32 \<times> kmem" where
  "fat16_clone_directory_item item sz s =
     (if sz < 32 then (0, s)
      else
        let (item_copy, s) = kzalloc sz s in
        if item_copy = 0 then (0, s) else (item_copy, s\<lparr>ram := memcpy (ram s) item_copy item sz\<rparr>))"

definition fat16_new_fat_item_directory_item ::
    "(u32 \<Rightarrow> u8 list) \<Rightarrow> fat_stack \<Rightarrow> u32 \<Rightarrow> u32 \<Rightarrow> kmem \<Rightarrow> (u32 \<times> kmem) option" where
  "fat16_new_fat_item_directory_item img stk disk item s =
     (let (f_item, s) = kzalloc 8 s in
      if f_item = 0 then Some (0, s)
      else if item_attribute (ram s) item AND FAT_FILE_SUBDIRECTORY \<noteq> 0 then
        (case fat16_load_directory img stk disk item (set_word (f_item + 4) FAT_ITEM_TYPE_DIRECTORY s) of
           None \<Rightarrow> None
         | Some (directory, s) \<Rightarrow> Some (f_item, set_word f_item directory s))
      else
        let s = set_word (f_item + 4) FAT_ITEM_TYPE_FILE s;
            (copy, s) = fat16_clone_directory_item item 32 s
        in Some (f_item, set_word f_item copy s))"

text \<open>\<open>for (int i = 0; i < directory->total_entries; i++)\<close>; the last match is the result.\<close>

partial_function (option) find_item_loop ::
    "(u32 \<Rightarrow> u8 list) \<Rightarrow> fat_stack \<Rightarrow> u32 \<Rightarrow> u32 \<Rightarrow> u32 \<Rightarrow> u32 \<Rightarrow> u32 \<Rightarrow> kmem \<Rightarrow> (u32 \<times> kmem) option" where
  "find_item_loop img stk disk directory name i f_item s =
     (if i <s total_entries (ram s) directory then
        (case fat16_get_relative_path_name (directory_item (ram s) directory + i * 32) (stk_name stk) MAX_PATH_NAME (ram s) of
           None \<Rightarrow> None
         | Some m \<Rightarrow>
             (case strlen m name of
                None \<Rightarrow> None
              | Some len \<Rightarrow>
                  if istrncmp m (stk_name stk) name len = 0 then
                    (case fat16_new_fat_item_directory_item img stk disk (directory_item m directory + i * 32) (s\<lparr>ram := m\<rparr>) of
                       None \<Rightarrow> None
                     | Some (f_item, s) \<Rightarrow> find_item_loop img stk disk directory name (i + 1) f_item s)
                  else find_item_loop img stk disk directory name (i + 1) f_item (s\<lparr>ram := m\<rparr>)))
      else Some (f_item, s))"

definition fat16_find_item_in_directory ::
    "(u32 \<Rightarrow> u8 list) \<Rightarrow> fat_stack \<Rightarrow> u32 \<Rightarrow> u32 \<Rightarrow> u32 \<Rightarrow> kmem \<Rightarrow> (u32 \<times> kmem) option" where
  "fat16_find_item_in_directory img stk disk directory name s = find_item_loop img stk disk directory name 0 0 s"

text \<open>\<open>while (next_part != 0)\<close> over the parts of the path: the string at offset 0, the next part at 4.\<close>

partial_function (option) directory_entry_loop ::
    "(u32 \<Rightarrow> u8 list) \<Rightarrow> fat_stack \<Rightarrow> u32 \<Rightarrow> u32 \<Rightarrow> u32 \<Rightarrow> kmem \<Rightarrow> (u32 \<times> kmem) option" where
  "directory_entry_loop img stk disk current_item next_part s =
     (if next_part \<noteq> 0 then
        if fat_item_type (ram s) current_item \<noteq> FAT_ITEM_TYPE_DIRECTORY then Some (0, s)
        else
          (case fat16_find_item_in_directory img stk disk (fat_item_ptr (ram s) current_item) (load32 (ram s) next_part) s of
             None \<Rightarrow> None
           | Some (tmp_item, s) \<Rightarrow>
               let s = fat16_fat_item_free current_item s
               in directory_entry_loop img stk disk tmp_item (load32 (ram s) (next_part + 4)) s)
      else Some (current_item, s))"

definition fat16_get_directory_entry ::
    "(u32 \<Rightarrow> u8 list) \<Rightarrow> fat_stack \<Rightarrow> u32 \<Rightarrow> u32 \<Rightarrow> kmem \<Rightarrow> (u32 \<times> kmem) option" where
  "fat16_get_directory_entry img stk disk path_part s =
     (let private = disk_fs_private (ram s) disk in
      case fat16_find_item_in_directory img stk disk (private_root private) (load32 (ram s) path_part) s of
        None \<Rightarrow> None
      | Some (root_item, s) \<Rightarrow>
          if root_item = 0 then Some (0, s)
          else directory_entry_loop img stk disk root_item (load32 (ram s) (path_part + 4)) s)"

section \<open>The operations of the filesystem\<close>

datatype file_mode = FILE_MODE_READ | FILE_MODE_WRITE | FILE_MODE_APPEND | FILE_MODE_INVALID

abbreviation (input) SEEK_SET :: u32 where "SEEK_SET \<equiv> 0"
abbreviation (input) SEEK_CUR :: u32 where "SEEK_CUR \<equiv> 1"
abbreviation (input) SEEK_END :: u32 where "SEEK_END \<equiv> 2"

definition file_not_found :: "u8 list" where
  "file_not_found = [102, 105, 108, 101, 32, 110, 111, 116, 32, 102, 111, 117, 110, 100]"

definition in_if_fat16_read :: "u8 list" where
  "in_if_fat16_read = [105, 110, 32, 105, 102, 32, 102, 97, 116, 49, 54, 32, 114, 101, 97, 100]"

definition fat16_open ::
    "(u32 \<Rightarrow> u8 list) \<Rightarrow> fat_stack \<Rightarrow> u32 \<Rightarrow> u32 \<Rightarrow> file_mode \<Rightarrow> machine \<Rightarrow> (u32 \<times> machine) option" where
  "fat16_open img stk disk path_part mode st =
     (if mode \<noteq> FILE_MODE_READ then Some (0, st)
      else
        let (descriptor, s) = kzalloc 8 (fst st); st = (s, snd st) in
        if descriptor = 0 then Some (0, st)
        else
          (case mem_call (fat16_get_directory_entry img stk disk path_part) st of
             None \<Rightarrow> None
           | Some (f_item, st) \<Rightarrow>
               let st = (if f_item = 0 then say file_not_found st else st) in
               (case mem_call (fat16_get_directory_entry img stk disk path_part) st of
                  None \<Rightarrow> None
                | Some (item, st) \<Rightarrow>
                    let st = mem_step (set_word descriptor item) st in
                    if descriptor_item (ram (fst st)) descriptor = 0 then Some (0, st)
                    else Some (descriptor, mem_step (set_word (descriptor + 4) 0) st))))"

text \<open>
  \<open>for (uint32_t i = 0; i < nmemb; i++)\<close>. \<open>offset\<close> is an \<open>int\<close>; \<open>digits\<close> is the uninitialised buffer of
  the failing call's \<open>kernel_print_uint\<close>.
\<close>

function fat16_read_loop ::
    "(u32 \<Rightarrow> u8 list) \<Rightarrow> fat_stack \<Rightarrow> u8 list \<Rightarrow> u32 \<Rightarrow> u32 \<Rightarrow> u32 \<Rightarrow> u32 \<Rightarrow> u32 \<Rightarrow> u32 \<Rightarrow> u32 \<Rightarrow>
     machine \<Rightarrow> (u32 \<times> machine) option" where
  "fat16_read_loop img stk digits disk item offset sz i nmemb out_ptr st =
     (if i < nmemb then
        (case mem_call (\<lambda>s. fat16_read_internal img stk disk (fat16_get_first_cluster (ram s) item) offset sz out_ptr s) st of
           None \<Rightarrow> None
         | Some (res, st) \<Rightarrow>
             if res <s 0 then Some (-1, say_uint res digits (say in_if_fat16_read st))
             else fat16_read_loop img stk digits disk item (offset + sz) sz (i + 1) nmemb (out_ptr + sz) st)
      else Some (nmemb, st))"
  by pat_completeness auto
termination
  by (relation "measure (\<lambda>(img, stk, digits, disk, item, offset, sz, i, nmemb, out_ptr, st). unat nmemb - unat i)")
     (auto simp: unat_inc_less word_less_nat_alt)

declare fat16_read_loop.simps [simp del]

definition fat16_read ::
    "(u32 \<Rightarrow> u8 list) \<Rightarrow> fat_stack \<Rightarrow> u8 list \<Rightarrow> u32 \<Rightarrow> u32 \<Rightarrow> u32 \<Rightarrow> u32 \<Rightarrow> u32 \<Rightarrow> machine \<Rightarrow> (u32 \<times> machine) option" where
  "fat16_read img stk digits disk descriptor sz nmemb out_ptr st =
     (let m = ram (fst st);
          item = fat_item_ptr m (descriptor_item m descriptor);
          offset = descriptor_pos m descriptor
      in fat16_read_loop img stk digits disk item offset sz 0 nmemb out_ptr st)"

definition fat16_seek :: "u32 \<Rightarrow> u32 \<Rightarrow> u32 \<Rightarrow> mem \<Rightarrow> int \<times> mem" where
  "fat16_seek private offset seek_mode m =
     (let desc_item = descriptor_item m private in
      if fat_item_type m desc_item \<noteq> FAT_ITEM_TYPE_FILE then (-1, m)
      else
        let ritem = fat_item_ptr m desc_item in
        if offset \<ge> item_filesize m ritem then (-1, m)
        else if seek_mode = SEEK_SET then (0, store32 m (private + 4) offset)
        else if seek_mode = SEEK_END then (-1, m)
        else if seek_mode = SEEK_CUR then (0, store32 m (private + 4) (descriptor_pos m private + offset))
        else (-1, m))"

text \<open>\<open>struct file_stat\<close>: the flags at 0, the size at 4.\<close>

definition fat16_stat :: "u32 \<Rightarrow> u32 \<Rightarrow> mem \<Rightarrow> int \<times> mem" where
  "fat16_stat private stat m =
     (let desc_item = descriptor_item m private in
      if fat_item_type m desc_item \<noteq> FAT_ITEM_TYPE_FILE then (-1, m)
      else
        let ritem = fat_item_ptr m desc_item;
            m = store32 m (stat + 4) (item_filesize m ritem);
            m = store32 m stat 0;
            m = (if item_attribute m ritem AND FAT_FILE_READ_ONLY \<noteq> 0 then store32 m stat (load32 m stat OR 1) else m)
        in (1, m))"

section \<open>Reading a file\<close>

text \<open>A directory item that no read touches, whose first cluster starts the chain \<open>cs\<close>.\<close>

definition item_safe :: "fat_volume \<Rightarrow> u32 \<Rightarrow> u32 \<Rightarrow> nat \<Rightarrow> bool" where
  "item_safe v item out n \<longleftrightarrow> (\<forall>x. x - item < 32 \<longrightarrow> \<not> vol_scratch v x \<and> (\<forall>k < n. x \<noteq> out + of_nat k))"

lemma first_cluster_cong:
  assumes "\<And>x. x - item < 32 \<Longrightarrow> m' x = m x"
  shows "fat16_get_first_cluster m' item = fat16_get_first_cluster m item"
  using assms [of "item + 20"] assms [of "item + 20 + 1"] assms [of "item + 26"] assms [of "item + 26 + 1"]
  by (simp add: fat16_get_first_cluster_def load16_def)

lemma item_safe_part:
  assumes "item_safe v item out n" "c \<le> n" shows "item_safe v item (out + of_nat c) (n - c)"
proof -
  have "x \<noteq> out + of_nat c + of_nat k" if "x - item < 32" "k < n - c" for x k
  proof -
    have "c + k < n" using that(2) by simp
    then have "x \<noteq> out + of_nat (c + k)" using assms(1) that(1) unfolding item_safe_def by blast
    then show ?thesis by (simp add: add.assoc)
  qed
  then show ?thesis using assms(1) by (simp add: item_safe_def)
qed

definition reads_ok :: "fat_volume \<Rightarrow> nat list \<Rightarrow> nat \<Rightarrow> nat \<Rightarrow> nat \<Rightarrow> bool" where
  "reads_ok v cs off sz n \<longleftrightarrow>
     (\<forall>i < n. read_ok v (off + i * sz) sz \<and> chain_covers v cs (off + i * sz) sz) \<and> off + n * sz < 2147483648"

lemma reads_ok_Suc: "reads_ok v cs off sz (Suc n) \<longleftrightarrow>
    read_ok v off sz \<and> chain_covers v cs off sz \<and> reads_ok v cs (off + sz) sz n"
  by (auto simp: reads_ok_def less_Suc_eq_0_disj add.assoc)

lemma read_loop_result:
  assumes "volume_at (ram s) v" "vol_sep v" "stk_result stk = v_result v"
    and "fat_chain img v cs" "fat16_get_first_cluster (ram s) item = of_nat (cs ! 0)"
    and "item_safe v item out (j * unat sz)" "out_clear v out (j * unat sz)"
    and "reads_ok v cs (unat offset) (unat sz) j" "unat i + j = unat nmemb"
  shows "\<exists>m'. fat16_read_loop img stk digits (v_disk v) item offset sz i nmemb out (s, con) =
      Some (nmemb, s\<lparr>ram := m'\<rparr>, con) \<and>
    delivered (\<lambda>k. file_byte img v cs (unat offset + k)) v out (j * unat sz) (ram s) m'"
  using assms
proof (induction j arbitrary: offset i out s)
  case 0
  then show ?case
    by (subst fat16_read_loop.simps) (intro exI [of _ "ram s"], simp add: word_less_nat_alt delivered_def)
next
  case (Suc j)
  let ?n = "unat sz"
  have lt: "i < nmemb" using Suc.prems(9) by (simp add: word_less_nat_alt)
  have one: "read_ok v (unat offset) ?n" "chain_covers v cs (unat offset) ?n" "reads_ok v cs (unat offset + ?n) ?n j"
    using Suc.prems(8) by (simp_all add: reads_ok_Suc)
  have "out_clear v out ?n" using Suc.prems(7) by (simp add: out_clear_def)
  from read_internal_ok [OF Suc.prems(1-4) one(2) this one(1)] obtain m1 where
    m1: "fat16_read_internal img stk (v_disk v) (of_nat (cs ! 0)) offset sz out s = Some (0, s\<lparr>ram := m1\<rparr>)"
    and d1: "delivered (\<lambda>k. file_byte img v cs (unat offset + k)) v out ?n (ram s) m1" by blast
  have bound: "unat offset + ?n < 2147483648" using one(2) by (simp add: chain_covers_def)
  have uo: "unat (offset + sz) = unat offset + ?n" using bound by (simp add: unat_word_ariths)
  have v1: "volume_at (ram (s\<lparr>ram := m1\<rparr>)) v"
    using delivered_volume [OF d1 Suc.prems(2) \<open>out_clear v out ?n\<close> Suc.prems(1)] by simp
  have "m1 x = ram s x" if "x - item < 32" for x
    using d1 Suc.prems(6) that by (simp add: delivered_def item_safe_def)
  then have fc: "fat16_get_first_cluster (ram (s\<lparr>ram := m1\<rparr>)) item = of_nat (cs ! 0)"
    using first_cluster_cong [of item m1 "ram s"] Suc.prems(5) by simp
  have rest: "Suc j * ?n - ?n = j * ?n" "?n \<le> Suc j * ?n" by simp_all
  have clr: "item_safe v item (out + sz) (j * ?n)" "out_clear v (out + sz) (j * ?n)"
    using item_safe_part [OF Suc.prems(6) rest(2)] out_clear_part [OF Suc.prems(7) rest(2)] rest(1) by simp_all
  have rds: "reads_ok v cs (unat (offset + sz)) ?n j" using one(3) uo by simp
  have cnt: "unat (i + 1) + j = unat nmemb" using Suc.prems(9) lt by (simp add: unat_inc_less)
  obtain m2 where
    m2: "fat16_read_loop img stk digits (v_disk v) item (offset + sz) sz (i + 1) nmemb (out + sz) (s\<lparr>ram := m1\<rparr>, con) =
      Some (nmemb, s\<lparr>ram := m2\<rparr>, con)"
    "delivered (\<lambda>k. file_byte img v cs (unat offset + ?n + k)) v (out + sz) (j * ?n) m1 m2"
    using Suc.IH [OF v1 Suc.prems(2-4) fc clr rds cnt] unfolding uo by auto
  have "fat16_read_loop img stk digits (v_disk v) item offset sz i nmemb out (s, con) = Some (nmemb, s\<lparr>ram := m2\<rparr>, con)"
    by (subst fat16_read_loop.simps)
       (simp add: lt mem_call_def Suc.prems(5) m1 m2(1) word_sless_alt)
  moreover have "delivered (\<lambda>k. file_byte img v cs (unat offset + k)) v out (Suc j * ?n) (ram s) m2"
  proof (rule delivered_step [where c = ?n, OF d1])
    show "delivered (\<lambda>k. file_byte img v cs (unat offset + ?n + k)) v (out + of_nat ?n) (Suc j * ?n - ?n) m1 m2"
      using m2(2) by simp
    show "Suc j * ?n < 4294967296" using Suc.prems(8) by (simp add: reads_ok_def)
  qed (use Suc.prems(7) in \<open>simp_all add: add.assoc\<close>)
  ultimately show ?case by blast
qed

text \<open>C15: \<open>fread\<close> on FAT16. Reading \<open>nmemb\<close> elements of \<open>size\<close> bytes through a descriptor returns \<open>nmemb\<close> and delivers, in
  the caller's buffer, the \<open>size * nmemb\<close> bytes of the file from the descriptor's position on, provided each element is
  a read the cluster code gets right (\<open>reads_ok\<close>: it starts a cluster, or lies in one cluster and is sector-aligned, or lies in one sector); it prints nothing, and it writes nothing outside the buffer, the stream
  positions and a stack word: in particular it leaves the descriptor's position as it was.\<close>

theorem fat16_read_correct:
  assumes "volume_at (ram s) v" "vol_sep v" "stk_result stk = v_result v" "fat_chain img v cs"
    and "item = fat_item_ptr (ram s) (descriptor_item (ram s) desc)" "offset = descriptor_pos (ram s) desc"
    and "fat16_get_first_cluster (ram s) item = of_nat (cs ! 0)"
    and "item_safe v item out (unat nmemb * unat sz)" "out_clear v out (unat nmemb * unat sz)"
    and "reads_ok v cs (unat offset) (unat sz) (unat nmemb)"
  shows "\<exists>m'. fat16_read img stk digits (v_disk v) desc sz nmemb out (s, con) = Some (nmemb, s\<lparr>ram := m'\<rparr>, con) \<and>
    (\<forall>k < unat nmemb * unat sz. m' (out + of_nat k) = file_byte img v cs (unat offset + k)) \<and>
    (\<forall>x. \<not> vol_scratch v x \<and> (\<forall>k < unat nmemb * unat sz. x \<noteq> out + of_nat k) \<longrightarrow> m' x = ram s x)"
  using read_loop_result [OF assms(1-4,7-10), of 0 nmemb digits con] assms(5,6)
  unfolding delivered_def fat16_read_def Let_def by simp

text \<open>The demo volume with a descriptor at \<open>0x7000\<close>, its item at \<open>0x8000\<close> and the directory item at \<open>0x9000\<close>.\<close>

definition demo_open :: kmem where
  "demo_open = demo_kmem\<lparr>ram := demo_ram(0x7001 := 0x80, 0x8001 := 0x90, 0x8004 := 1, 0x901A := 2)\<rparr>"

lemma demo_open_volume: "volume_at (ram demo_open) demo_volume"
  by (simp add: volume_at_def demo_open_def demo_volume_def demo_ram_def disk_sector_size_def disk_fs_private_def
      cluster_read_stream_def fat_read_stream_def sectors_per_cluster_def ending_sector_pos_def private_root_def
      fat16_get_first_fat_sector_def reserved_sectors_def hidden_setors_def bytes_per_sector_def load32_def load16_def)

lemma demo_item_safe: "n \<le> 4096 \<Longrightarrow> item_safe demo_volume 0x9000 0x6000 n"
  unfolding item_safe_def
proof (intro allI impI conjI)
  fix x :: u32 assume n: "n \<le> 4096" and x: "x - 0x9000 < 32"
  show "\<not> vol_scratch demo_volume x"
    unfolding vol_scratch_def demo_volume_def fat_volume.simps de_Morgan_disj
    by (intro conjI; intro far_apart [OF x]; simp)
  fix k assume "k < n"
  then have "unat (of_nat k :: u32) < unat (4096 :: u32)" using n by (simp add: unat_of_nat_u32)
  then have "0x6000 + of_nat k - 0x6000 < (4096 :: u32)" by (simp add: word_less_nat_alt)
  moreover have "\<not> x - 0x6000 < 4096" by (rule far_apart [OF x]) simp
  ultimately show "x \<noteq> 0x6000 + of_nat k" by blast
qed

definition con_boot :: console where
  "con_boot = \<lparr>con_video = 0xB8000, con_row = 0, con_col = 0\<rparr>"

lemma fat16_read_correct_witness:
  "\<exists>m'. fat16_read demo_disk demo_stack [] 0x1000 0x7000 512 2 0x6000 (demo_open, con_boot) =
      Some (2, demo_open\<lparr>ram := m'\<rparr>, con_boot) \<and>
    m' 0x6000 = 7 \<and> m' 0x6200 = 9"
proof -
  let ?m = "ram demo_open"
  have f: "fat_item_ptr ?m (descriptor_item ?m 0x7000) = 0x9000" "descriptor_pos ?m 0x7000 = 0"
    "fat16_get_first_cluster ?m 0x9000 = of_nat ([2, 5] ! 0)"
    by (simp_all add: fat_item_ptr_def descriptor_item_def descriptor_pos_def fat16_get_first_cluster_def demo_open_def
        demo_ram_def load32_def load16_def)
  have r: "reads_ok demo_volume [2, 5] (unat (0 :: u32)) (unat (512 :: u32)) (unat (2 :: u32))"
  proof -
    have "chain_covers demo_volume [2, 5] 512 512"
      by (simp add: chain_covers_def chain_fits_def demo_volume_def cluster_start_def cluster_bytes_def)
    then have "reads_ok demo_volume [2, 5] 0 512 (Suc (Suc 0))"
      unfolding reads_ok_Suc using demo_covers [of 512]
      by (simp add: reads_ok_def read_ok_def cluster_bytes_def demo_volume_def)
    moreover have "unat (2 :: u32) = Suc (Suc 0)" "unat (0 :: u32) = 0" "unat (512 :: u32) = 512" by simp_all
    ultimately show ?thesis by (simp only:)
  qed
  have n: "unat (2 :: u32) * unat (512 :: u32) = 1024" by simp
  have stk: "stk_result demo_stack = v_result demo_volume" by (simp add: demo_stack_def demo_volume_def)
  from fat16_read_correct [OF demo_open_volume demo_sep stk demo_chain f(1) [symmetric] f(2) [symmetric] f(3) _ _ r,
      of "0x6000" "[]" con_boot]
  obtain m' where "fat16_read demo_disk demo_stack [] (v_disk demo_volume) 0x7000 512 2 0x6000 (demo_open, con_boot) =
      Some (2, demo_open\<lparr>ram := m'\<rparr>, con_boot)"
    and b: "\<forall>k < 1024. m' (0x6000 + of_nat k) = file_byte demo_disk demo_volume [2, 5] (unat (0 :: u32) + k)"
    unfolding n using demo_item_safe [of 1024] demo_out [of 1024] by auto
  moreover have "m' 0x6000 = 7" "m' 0x6200 = 9"
    using b [rule_format, of 0] b [rule_format, of 512]
    by (simp_all add: file_byte_def cluster_start_def cluster_bytes_def disk_byte_def demo_volume_def demo_disk_def)
  ultimately show ?thesis by (intro exI [of _ m']) (simp add: demo_volume_def)
qed

end
