(* ===== verification/FatNames.thy ===== *)
theory FatNames imports FatFiles
begin

text \<open>
  The names of FAT16 items and the search of a directory. A name is copied up to the first zero or space,
  \<open>run_at\<close>; the search compares only as many bytes as the wanted name has.
\<close>

section \<open>Names\<close>

definition name_stop :: "u8 \<Rightarrow> bool" where "name_stop b \<longleftrightarrow> b = 0x00 \<or> b = 0x20"

fun run_at :: "mem \<Rightarrow> u32 \<Rightarrow> u8 list \<Rightarrow> bool" where
  "run_at m p [] \<longleftrightarrow> name_stop (m p)"
| "run_at m p (c # cs) \<longleftrightarrow> m p = c \<and> \<not> name_stop c \<and> run_at m (p + 1) cs"

lemma run_at_nonzero: "run_at m p xs \<Longrightarrow> 0 \<notin> set xs"
  by (induction xs arbitrary: p) (auto simp: name_stop_def)

lemma run_at_stop: "run_at m p xs \<Longrightarrow> name_stop (m (p + of_nat (length xs)))"
  by (induction xs arbitrary: p) (auto simp: add.assoc [symmetric])

lemma run_at_cong:
  "run_at m p xs \<Longrightarrow> (\<And>i. i \<le> length xs \<Longrightarrow> m' (p + of_nat i) = m (p + of_nat i)) \<Longrightarrow> run_at m' p xs"
proof (induction xs arbitrary: p)
  case Nil
  from Nil.prems(2) [of 0] Nil.prems(1) show ?case by simp
next
  case (Cons c cs)
  have "run_at m' (p + 1) cs"
  proof (rule Cons.IH)
    show "run_at m (p + 1) cs" using Cons.prems(1) by simp
    show "m' (p + 1 + of_nat i) = m (p + 1 + of_nat i)" if "i \<le> length cs" for i
      using Cons.prems(2) [of "Suc i"] that by (simp add: add.assoc)
  qed
  then show ?case using Cons.prems(1) Cons.prems(2) [of 0] by simp
qed

lemma proper_string_loop_result:
  assumes "run_at m p xs" and "\<And>i j. i < length xs \<Longrightarrow> j \<le> length xs \<Longrightarrow> out + of_nat i \<noteq> p + of_nat j"
  shows "proper_string_loop m out p = Some (write_bytes m out xs, out + of_nat (length xs), p + of_nat (length xs))"
  using assms
proof (induction xs arbitrary: m out p)
  case Nil
  then show ?case by (subst proper_string_loop.simps) (auto simp: name_stop_def)
next
  case (Cons c cs)
  have "m p = c" "\<not> name_stop c" "run_at m (p + 1) cs" using Cons.prems(1) by auto
  moreover have "run_at (m(out := c)) (p + 1) cs"
  proof (rule run_at_cong [OF \<open>run_at m (p + 1) cs\<close>])
    fix i assume "i \<le> length cs"
    then have "p + of_nat (Suc i) \<noteq> out" using Cons.prems(2) [of 0 "Suc i"] by simp
    then show "(m(out := c)) (p + 1 + of_nat i) = m (p + 1 + of_nat i)" by (simp add: add.assoc)
  qed
  moreover have "out + 1 + of_nat i \<noteq> p + 1 + of_nat j" if "i < length cs" "j \<le> length cs" for i j
    using Cons.prems(2) [of "Suc i" "Suc j"] that by (simp add: add.assoc)
  ultimately show ?case
    using Cons.IH [of "m(out := c)" "p + 1" "out + 1"]
    by (subst proper_string_loop.simps) (simp add: name_stop_def add.assoc del: fun_upd_apply)
qed

lemma to_proper_string_result:
  assumes "run_at m p xs" and "\<And>i j. i \<le> length xs \<Longrightarrow> j \<le> length xs \<Longrightarrow> out + of_nat i \<noteq> p + of_nat j"
    and "m (out + of_nat (length xs)) = 0" "length xs < 4294967296"
  shows "fat16_to_proper_string out p m = Some (out + of_nat (length xs), write_bytes m out xs)"
proof -
  have "write_bytes m out xs (out + of_nat (length xs)) = 0"
    using assms(3,4) write_bytes_outside [of xs "out + of_nat (length xs)" out m] of_nat_u32_inject [of "length xs"]
    by fastforce
  then have "(write_bytes m out xs)(out + of_nat (length xs) := 0) = write_bytes m out xs" by (rule fun_upd_idem)
  then show ?thesis
    using proper_string_loop_result [OF assms(1), of out] assms(2)
    by (simp add: fat16_to_proper_string_def)
qed

text \<open>The name of an item as the kernel shows it.\<close>

definition fat_name :: "u8 list \<Rightarrow> u8 list \<Rightarrow> u8 list" where
  "fat_name nm ext = (if ext = [] then nm else nm @ 46 # ext)"

definition item_name_at :: "mem \<Rightarrow> u32 \<Rightarrow> u8 list \<Rightarrow> u8 list \<Rightarrow> bool" where
  "item_name_at m item nm ext \<longleftrightarrow> run_at m item nm \<and> run_at m (item + 8) ext \<and> length nm < 32 \<and> length ext < 24"

definition away :: "u32 \<Rightarrow> u32 \<Rightarrow> bool" where
  "away item out \<longleftrightarrow> (\<forall>x. x - item < 32 \<longrightarrow> 108 \<le> x - out)"

lemma away_bytes: "away item out \<Longrightarrow> i < 108 \<Longrightarrow> j < 32 \<Longrightarrow> out + of_nat i \<noteq> item + of_nat j"
proof
  assume h: "away item out" "i < 108" "j < 32" "out + of_nat i = item + of_nat j"
  have "unat (of_nat j :: u32) < unat (32 :: u32)" using h(3) by (simp add: unat_of_nat_u32)
  then have "item + of_nat j - item < 32" by (simp add: word_less_nat_alt)
  then have "108 \<le> item + of_nat j - out" using h(1) unfolding away_def by blast
  then have "(108 :: u32) \<le> of_nat i" unfolding h(4) [symmetric] by simp
  then show False using h(2) by (simp add: word_le_nat_alt unat_of_nat_u32)
qed

lemma relative_path_name_result:
  assumes "item_name_at m item nm ext" "away item out"
  shows "fat16_get_relative_path_name item out 108 m =
    Some (write_bytes (memset m out 0 108) out (fat_name nm ext))"
proof -
  let ?m = "memset m out 0 108"
  have len: "length nm < 32" "length ext < 24" and run: "run_at m item nm" "run_at m (item + 8) ext"
    using assms(1) by (auto simp: item_name_at_def)
  have zero: "?m (out + of_nat i) = 0" if "i < 108" for i
    using that by (simp add: memset_apply word_less_nat_alt unat_of_nat_u32)
  have item: "?m (item + of_nat j) = m (item + of_nat j)" if "j < 32" for j
  proof -
    have "unat (of_nat j :: u32) < unat (32 :: u32)" using that by (simp add: unat_of_nat_u32)
    then have "item + of_nat j - item < 32" by (simp add: word_less_nat_alt)
    then have "108 \<le> item + of_nat j - out" using assms(2) unfolding away_def by blast
    then show ?thesis by (auto simp: memset_apply dest: leD)
  qed
  have r: "run_at ?m item nm" by (rule run_at_cong [OF run(1)]) (use item len in simp)
  have 1: "fat16_to_proper_string out item ?m = Some (out + of_nat (length nm), write_bytes ?m out nm)"
    using away_bytes [OF assms(2)] len zero by (intro to_proper_string_result [OF r]) simp_all
  have keep: "write_bytes M (out + of_nat k) xs (item + of_nat j) = M (item + of_nat j)"
    if "k + length xs \<le> 108" "j < 32" for M xs k j
  proof (rule write_bytes_outside)
    fix i assume "i < length xs"
    then show "item + of_nat j \<noteq> out + of_nat k + of_nat i"
      using away_bytes [OF assms(2), of "k + i" j] that by (simp add: add.assoc)
  qed
  have e: "write_bytes ?m out nm (item + 8) = m (item + 8)"
    using keep [of 0 nm 8 ?m] item [of 8] len by simp
  show ?thesis
  proof (cases ext)
    case Nil
    then have "name_stop (m (item + 8))" using run(2) by simp
    then show ?thesis using 1 e Nil
      by (auto simp: fat16_get_relative_path_name_def Let_def fat_name_def name_stop_def)
  next
    case (Cons c cs)
    let ?m2 = "(write_bytes ?m out nm)(out + of_nat (length nm) := 46)"
    have "\<not> name_stop (m (item + 8))" using run(2) Cons by simp
    moreover have "fat16_to_proper_string (out + of_nat (length nm) + 1) (item + 8) ?m2 =
      Some (out + of_nat (length nm) + 1 + of_nat (length ext), write_bytes ?m2 (out + of_nat (length nm) + 1) ext)"
    proof (rule to_proper_string_result)
      have m2: "?m2 = write_bytes ?m out (nm @ [46])" by (simp add: write_bytes_append)
      show "run_at ?m2 (item + 8) ext"
      proof (rule run_at_cong [OF run(2)])
        fix i assume "i \<le> length ext"
        then show "?m2 (item + 8 + of_nat i) = m (item + 8 + of_nat i)"
          using keep [of 0 "nm @ [46]" "8 + i" ?m] item [of "8 + i"] len unfolding m2 by (simp add: add.assoc)
      qed
      show "out + of_nat (length nm) + 1 + of_nat i \<noteq> item + 8 + of_nat j" if "i \<le> length ext" "j \<le> length ext" for i j
        using away_bytes [OF assms(2), of "length nm + 1 + i" "8 + j"] that len by (simp add: add.assoc)
      have "?m2 (out + of_nat (length nm + 1 + length ext)) = ?m (out + of_nat (length nm + 1 + length ext))"
        unfolding m2
      proof (rule write_bytes_outside)
        fix i assume "i < length (nm @ [46 :: u8])"
        then show "out + of_nat (length nm + 1 + length ext) \<noteq> out + of_nat i"
          using of_nat_u32_inject [of "length nm + 1 + length ext" i] len by simp
      qed
      moreover have "\<dots> = 0" using len by (intro zero) simp
      moreover have "out + of_nat (length nm) + 1 + of_nat (length ext) = out + of_nat (length nm + 1 + length ext)"
        by simp
      ultimately show "?m2 (out + of_nat (length nm) + 1 + of_nat (length ext)) = 0" by (simp only:)
    qed (use len in simp)
    ultimately show ?thesis using 1 e Cons
      by (simp add: fat16_get_relative_path_name_def Let_def fat_name_def name_stop_def write_bytes_append)
  qed
qed

lemma fat_name_zero: "item_name_at m item nm ext \<Longrightarrow> 0 \<notin> set (fat_name nm ext) \<and> length (fat_name nm ext) < 60"
  using run_at_nonzero [of m item nm] run_at_nonzero [of m "item + 8" ext]
  by (auto simp: item_name_at_def fat_name_def)

lemma written_name:
  assumes "item_name_at m item nm ext"
  shows "cstring (write_bytes (memset m out 0 108) out (fat_name nm ext)) out (fat_name nm ext)"
    and "108 \<le> x - out \<Longrightarrow> write_bytes (memset m out 0 108) out (fat_name nm ext) x = m x"
proof -
  let ?xs = "fat_name nm ext" and ?m = "memset m out 0 108"
  note z = fat_name_zero [OF assms]
  have "write_bytes ?m out ?xs (out + of_nat (length ?xs)) = ?m (out + of_nat (length ?xs))"
    using z of_nat_u32_inject [of "length ?xs"] by (intro write_bytes_outside) fastforce
  also have "\<dots> = 0" using z by (simp add: memset_apply word_less_nat_alt unat_of_nat_u32)
  finally have "write_bytes ?m out (?xs @ [0]) = write_bytes ?m out ?xs"
    by (simp add: write_bytes_append fun_upd_idem)
  then show "cstring (write_bytes ?m out ?xs) out ?xs" using cstring_write_bytes [of ?xs ?m out] z by simp
  assume x: "108 \<le> x - out"
  have "x \<noteq> out + of_nat i" if "i < length ?xs" for i
    using x that z by (auto simp: word_le_nat_alt unat_of_nat_u32)
  then have "write_bytes ?m out ?xs x = ?m x" by (rule write_bytes_outside)
  also have "?m x = m x" using x by (auto simp: memset_apply dest: leD)
  finally show "write_bytes ?m out ?xs x = m x" .
qed

text \<open>The displayed name of a directory item. \<open>fat16_get_relative_path_name\<close> writes, in its 108-byte buffer and nowhere
  else, the terminated string made of the run of bytes from the name field up to a zero or space, followed by a dot and the run from the extension
  field on when that is not empty. The runs are not cut at the end of their fields.\<close>

theorem fat16_get_relative_path_name_correct:
  assumes "item_name_at m item nm ext" "away item out"
  shows "\<exists>m'. fat16_get_relative_path_name item out 108 m = Some m' \<and> cstring m' out (fat_name nm ext) \<and>
    (\<forall>x. 108 \<le> x - out \<longrightarrow> m' x = m x)"
  using relative_path_name_result [OF assms] written_name [OF assms(1)] by blast

text \<open>A name that fills its eight bytes runs on into the extension: \<open>LONGNAME\<close> with extension \<open>TXT\<close> and the
  archive attribute \<open>0x20\<close> is shown as \<open>LONGNAMETXT.TXT\<close>; \<open>SHELL\<close> padded with spaces keeps its five bytes.\<close>

definition item_bytes :: "u8 list \<Rightarrow> mem" where
  "item_bytes bs x = (if x - 0x9000 < 32 then bs ! unat (x - 0x9000) else 0)"

definition longname_item :: "u8 list" where
  "longname_item = [76, 79, 78, 71, 78, 65, 77, 69, 84, 88, 84, 0x20] @ replicate 20 0"

lemma fat16_get_relative_path_name_correct_witness:
  "\<exists>m'. fat16_get_relative_path_name 0x9000 0x5200 108 (item_bytes longname_item) = Some m' \<and>
    cstring m' 0x5200 [76, 79, 78, 71, 78, 65, 77, 69, 84, 88, 84, 46, 84, 88, 84]"
proof -
  have "item_name_at (item_bytes longname_item) 0x9000 [76, 79, 78, 71, 78, 65, 77, 69, 84, 88, 84] [84, 88, 84]"
    by (simp add: item_name_at_def item_bytes_def longname_item_def name_stop_def)
  moreover have "away 0x9000 0x5200"
    unfolding away_def
  proof (intro allI impI)
    fix x :: u32 assume x: "x - 0x9000 < 32"
    have "\<not> x - 0x5200 < 108" by (rule far_apart [OF x]) simp
    then show "108 \<le> x - 0x5200" by (simp add: not_less)
  qed
  ultimately show ?thesis
    using fat16_get_relative_path_name_correct [of "item_bytes longname_item" "0x9000"] by (fastforce simp: fat_name_def)
qed

section \<open>Searching a directory\<close>

text \<open>The comparison of the search: the wanted name is a prefix of the item's, up to case.\<close>

definition name_matches :: "u8 list \<Rightarrow> u8 list \<Rightarrow> bool" where
  "name_matches nm w \<longleftrightarrow> length w \<le> length nm \<and> (\<forall>i < length w. to_upper (nm ! i) = to_upper (w ! i))"

lemma to_upper_zero: "to_upper c = 0 \<longleftrightarrow> c = 0"
proof -
  have "c - 32 \<noteq> 0" if "\<not> c <s 97"
    using that by (auto simp: word_sless_alt)
  moreover have "(0 :: u8) <s 97" by (simp add: word_sless_alt)
  ultimately show ?thesis by (auto simp: to_upper_def)
qed

lemma istrncmp_name:
  assumes "cstring m a nm" "cstring m b w"
  shows "istrncmp m a b (of_nat (length w)) = 0 \<longleftrightarrow> name_matches nm w"
proof -
  have len: "unat (of_nat (length w) :: u32) = length w" by (rule unat_of_nat_u32 [OF cstring_length [OF assms(2)]])
  show ?thesis
  proof (cases "length w \<le> length nm")
    case True
    then have "m (a + of_nat i) = nm ! i" "m (b + of_nat i) = w ! i" if "i < length w" for i
      using cstring_nth [OF assms(1), of i] cstring_nth [OF assms(2), of i] that by simp_all
    with True show ?thesis unfolding istrncmp_eq_0 len name_matches_def by simp
  next
    case False
    let ?i = "length nm"
    have "m (a + of_nat ?i) = 0" by (rule cstring_end [OF assms(1)])
    moreover have "m (b + of_nat ?i) \<noteq> 0" using cstring_nth [OF assms(2), of ?i] False by auto
    ultimately have "to_upper (m (a + of_nat ?i)) \<noteq> to_upper (m (b + of_nat ?i))"
      using to_upper_zero [of 0] to_upper_zero [of "m (b + of_nat ?i)"] by auto
    moreover have "?i < length w" using False by simp
    ultimately have "istrncmp m a b (of_nat (length w)) \<noteq> 0" unfolding istrncmp_eq_0 len by blast
    then show ?thesis using False by (simp add: name_matches_def)
  qed
qed

text \<open>
  A directory in memory with the names of its items, and the wanted name: everything the search reads. \<open>dir_cell\<close>
  are the addresses of these bytes.
\<close>

record dir_view =
  d_dir :: u32
  d_items :: u32
  d_names :: "(u8 list \<times> u8 list) list"
  d_name :: u32
  d_wanted :: "u8 list"

definition d_item :: "dir_view \<Rightarrow> nat \<Rightarrow> u32" where
  "d_item d i = d_items d + of_nat i * 32"

definition dir_at :: "mem \<Rightarrow> dir_view \<Rightarrow> bool" where
  "dir_at m d \<longleftrightarrow> length (d_names d) < 2147483648 \<and>
     total_entries m (d_dir d) = of_nat (length (d_names d)) \<and> directory_item m (d_dir d) = d_items d \<and>
     (\<forall>i < length (d_names d). item_name_at m (d_item d i) (fst (d_names d ! i)) (snd (d_names d ! i))) \<and>
     cstring m (d_name d) (d_wanted d)"

definition dir_cell :: "dir_view \<Rightarrow> u32 \<Rightarrow> bool" where
  "dir_cell d x \<longleftrightarrow> x - d_dir d < 16 \<or> (\<exists>i < length (d_names d). x - d_item d i < 32) \<or>
     (\<exists>k \<le> length (d_wanted d). x = d_name d + of_nat k)"

text \<open>The part of it that does not depend on the wanted name.\<close>

definition dir_table :: "mem \<Rightarrow> dir_view \<Rightarrow> bool" where
  "dir_table m d \<longleftrightarrow> length (d_names d) < 2147483648 \<and>
     total_entries m (d_dir d) = of_nat (length (d_names d)) \<and> directory_item m (d_dir d) = d_items d \<and>
     (\<forall>i < length (d_names d). item_name_at m (d_item d i) (fst (d_names d ! i)) (snd (d_names d ! i)))"

definition table_cell :: "dir_view \<Rightarrow> u32 \<Rightarrow> bool" where
  "table_cell d x \<longleftrightarrow> x - d_dir d < 16 \<or> (\<exists>i < length (d_names d). x - d_item d i < 32)"

lemma dir_at_table: "dir_at m d \<longleftrightarrow> dir_table m d \<and> cstring m (d_name d) (d_wanted d)"
  by (auto simp: dir_at_def dir_table_def)

lemma dir_cell_table: "dir_cell d x \<longleftrightarrow> table_cell d x \<or> (\<exists>k \<le> length (d_wanted d). x = d_name d + of_nat k)"
  by (auto simp: dir_cell_def table_cell_def)

lemma table_rename [simp]:
  "dir_table m (d\<lparr>d_name := nm\<rparr>) = dir_table m d" "table_cell (d\<lparr>d_name := nm\<rparr>) = table_cell d"
  "d_item (d\<lparr>d_name := nm\<rparr>) i = d_item d i"
  by (auto simp: dir_table_def table_cell_def d_item_def fun_eq_iff)

lemma item_name_cong:
  assumes "item_name_at m item nm ext" "\<And>x. x - item < 32 \<Longrightarrow> m' x = m x"
  shows "item_name_at m' item nm ext"
proof -
  have c: "m' (item + of_nat j) = m (item + of_nat j)" if "j < 32" for j
  proof (rule assms(2))
    have "unat (of_nat j :: u32) < unat (32 :: u32)" using that by (simp add: unat_of_nat_u32)
    then show "item + of_nat j - item < 32" by (simp add: word_less_nat_alt)
  qed
  have len: "length nm < 32" "length ext < 24" and run: "run_at m item nm" "run_at m (item + 8) ext"
    using assms(1) by (auto simp: item_name_at_def)
  have "run_at m' item nm" by (rule run_at_cong [OF run(1)]) (use c len in simp)
  moreover have "run_at m' (item + 8) ext"
  proof (rule run_at_cong [OF run(2)])
    fix i assume "i \<le> length ext"
    then show "m' (item + 8 + of_nat i) = m (item + 8 + of_nat i)" using c [of "8 + i"] len by (simp add: add.assoc)
  qed
  ultimately show ?thesis using len by (simp add: item_name_at_def)
qed

lemma dir_table_cong:
  assumes "dir_table m d" and "\<And>x. table_cell d x \<Longrightarrow> m' x = m x"
  shows "dir_table m' d"
proof -
  have "load32 m' (d_dir d + k) = load32 m (d_dir d + k)" if "k \<le> 12" for k
  proof (rule load32_cong)
    fix j :: u32 assume "j < 4"
    then have "k + j < 16" using that by unat_arith
    then show "m' (d_dir d + k + j) = m (d_dir d + k + j)"
      by (intro assms(2)) (simp add: table_cell_def add.assoc)
  qed
  from this [of 0] this [of 4] have "total_entries m' (d_dir d) = total_entries m (d_dir d)"
    "directory_item m' (d_dir d) = directory_item m (d_dir d)"
    by (simp_all add: total_entries_def directory_item_def)
  moreover have "item_name_at m' (d_item d i) (fst (d_names d ! i)) (snd (d_names d ! i))" if "i < length (d_names d)" for i
  proof (rule item_name_cong)
    show "item_name_at m (d_item d i) (fst (d_names d ! i)) (snd (d_names d ! i))"
      using assms(1) that by (simp add: dir_table_def)
    show "m' x = m x" if "x - d_item d i < 32" for x
      by (rule assms(2)) (use that \<open>i < length (d_names d)\<close> in \<open>unfold table_cell_def, blast\<close>)
  qed
  ultimately show ?thesis using assms(1) by (simp add: dir_table_def)
qed

lemma dir_cong:
  assumes "dir_at m d" and "\<And>x. dir_cell d x \<Longrightarrow> m' x = m x"
  shows "dir_at m' d"
  unfolding dir_at_table
proof
  show "dir_table m' d" using assms by (auto simp: dir_at_table dir_cell_table intro: dir_table_cong)
  show "cstring m' (d_name d) (d_wanted d)"
  proof (rule cstring_cong)
    show "cstring m (d_name d) (d_wanted d)" using assms(1) by (simp add: dir_at_table)
    show "m' (d_name d + of_nat i) = m (d_name d + of_nat i)" if "i \<le> length (d_wanted d)" for i
      by (rule assms(2)) (use that in \<open>unfold dir_cell_table, blast\<close>)
  qed
qed

definition buf_apart :: "dir_view \<Rightarrow> u32 \<Rightarrow> bool" where
  "buf_apart d buf \<longleftrightarrow> (\<forall>x. dir_cell d x \<longrightarrow> 108 \<le> x - buf)"

definition d_shown :: "dir_view \<Rightarrow> nat \<Rightarrow> u8 list" where
  "d_shown d i = fat_name (fst (d_names d ! i)) (snd (d_names d ! i))"

definition d_match :: "dir_view \<Rightarrow> nat \<Rightarrow> bool" where
  "d_match d i \<longleftrightarrow> name_matches (d_shown d i) (d_wanted d)"

text \<open>Memory with the name of an item in the buffer.\<close>

definition shown :: "dir_view \<Rightarrow> u32 \<Rightarrow> nat \<Rightarrow> mem \<Rightarrow> mem" where
  "shown d buf i m = write_bytes (memset m buf 0 108) buf (d_shown d i)"

lemma shown_facts:
  assumes "dir_at m d" "buf_apart d buf" "i < length (d_names d)"
  shows "fat16_get_relative_path_name (d_item d i) buf 108 m = Some (shown d buf i m)"
    and "cstring (shown d buf i m) buf (d_shown d i)" and "108 \<le> x - buf \<Longrightarrow> shown d buf i m x = m x"
    and "dir_at (shown d buf i m) d"
proof -
  have nm: "item_name_at m (d_item d i) (fst (d_names d ! i)) (snd (d_names d ! i))" using assms(1,3) by (simp add: dir_at_def)
  have "dir_cell d x" if "x - d_item d i < 32" for x using assms(3) that unfolding dir_cell_def by blast
  then have "away (d_item d i) buf" using assms(2) by (simp add: away_def buf_apart_def)
  then show "fat16_get_relative_path_name (d_item d i) buf 108 m = Some (shown d buf i m)"
    using relative_path_name_result [OF nm] by (simp add: shown_def d_shown_def)
  show "cstring (shown d buf i m) buf (d_shown d i)" using written_name(1) [OF nm] by (simp add: shown_def d_shown_def)
  show eq: "shown d buf i m x = m x" if "108 \<le> x - buf" for x
    using written_name(2) [OF nm that] by (simp add: shown_def d_shown_def)
  show "dir_at (shown d buf i m) d" by (rule dir_cong [OF assms(1)]) (use eq assms(2) in \<open>simp add: buf_apart_def\<close>)
qed

lemma find_step:
  assumes "dir_at (ram s) d" "buf_apart d (stk_name stk)" "i < length (d_names d)"
  shows "find_item_loop img stk disk (d_dir d) (d_name d) (of_nat i) f s =
    (let s1 = s\<lparr>ram := shown d (stk_name stk) i (ram s)\<rparr> in
     if d_match d i then
       (case fat16_new_fat_item_directory_item img stk disk (d_item d i) s1 of
          None \<Rightarrow> None
        | Some (f, s) \<Rightarrow> find_item_loop img stk disk (d_dir d) (d_name d) (of_nat (Suc i)) f s)
     else find_item_loop img stk disk (d_dir d) (d_name d) (of_nat (Suc i)) f s1)"
proof -
  let ?n = "length (d_names d)" and ?m1 = "shown d (stk_name stk) i (ram s)"
  note sh = shown_facts [OF assms]
  have n: "?n < 2147483648" and e: "total_entries (ram s) (d_dir d) = of_nat ?n" "directory_item (ram s) (d_dir d) = d_items d"
    using assms(1) by (auto simp: dir_at_def)
  have lt: "(of_nat i :: u32) <s of_nat ?n"
    using n assms(3) by (subst signed_less_nat) (simp_all add: unat_of_nat_u32)
  have w: "cstring ?m1 (d_name d) (d_wanted d)" and e1: "directory_item ?m1 (d_dir d) = d_items d"
    using sh(4) by (auto simp: dir_at_def)
  have "strlen ?m1 (d_name d) = Some (of_nat (length (d_wanted d)))"
    using strlen_from_cstring [OF w, of 0] by (simp add: strlen_def)
  moreover have "istrncmp ?m1 (stk_name stk) (d_name d) (of_nat (length (d_wanted d))) = 0 \<longleftrightarrow> d_match d i"
    using istrncmp_name [OF sh(2) w] by (simp add: d_match_def)
  moreover have "of_nat (Suc i) = (of_nat i + 1 :: u32)" by simp
  ultimately show ?thesis
    using sh(1) lt e e1 by (simp only:) (subst find_item_loop.simps, simp add: d_item_def Let_def)
qed

lemma find_skip:
  assumes "dir_at (ram s) d" "buf_apart d (stk_name stk)" "i + c \<le> length (d_names d)"
    and "\<And>k. i \<le> k \<Longrightarrow> k < i + c \<Longrightarrow> \<not> d_match d k"
  shows "\<exists>m'. find_item_loop img stk disk (d_dir d) (d_name d) (of_nat i) f s =
      find_item_loop img stk disk (d_dir d) (d_name d) (of_nat (i + c)) f (s\<lparr>ram := m'\<rparr>) \<and>
    (\<forall>x. 108 \<le> x - stk_name stk \<longrightarrow> m' x = ram s x)"
  using assms
proof (induction c arbitrary: i s)
  case 0
  then show ?case by (intro exI [of _ "ram s"]) simp
next
  case (Suc c)
  let ?m1 = "shown d (stk_name stk) i (ram s)"
  have i: "i < length (d_names d)" using Suc.prems(3) by simp
  note sh = shown_facts [OF Suc.prems(1,2) i]
  have "\<not> d_match d i" using Suc.prems(4) [of i] by simp
  then have step: "find_item_loop img stk disk (d_dir d) (d_name d) (of_nat i) f s =
      find_item_loop img stk disk (d_dir d) (d_name d) (of_nat (Suc i)) f (s\<lparr>ram := ?m1\<rparr>)"
    using find_step [OF Suc.prems(1,2) i] by (simp add: Let_def)
  have "dir_at (ram (s\<lparr>ram := ?m1\<rparr>)) d" "Suc i + c \<le> length (d_names d)" using sh(4) Suc.prems(3) by simp_all
  moreover have "\<not> d_match d k" if "Suc i \<le> k" "k < Suc i + c" for k using Suc.prems(4) [of k] that by simp
  ultimately obtain m' where m': "find_item_loop img stk disk (d_dir d) (d_name d) (of_nat (Suc i)) f (s\<lparr>ram := ?m1\<rparr>) =
      find_item_loop img stk disk (d_dir d) (d_name d) (of_nat (Suc i + c)) f (s\<lparr>ram := m'\<rparr>)"
    "\<forall>x. 108 \<le> x - stk_name stk \<longrightarrow> m' x = ?m1 x"
    using Suc.IH [of "s\<lparr>ram := ?m1\<rparr>" "Suc i"] Suc.prems(2) by auto
  then show ?case using step sh(3) by (intro exI [of _ m']) simp
qed

lemma find_end:
  assumes "dir_at (ram s) d"
  shows "find_item_loop img stk disk (d_dir d) (d_name d) (of_nat (length (d_names d))) f s = Some (f, s)"
proof -
  have "total_entries (ram s) (d_dir d) = of_nat (length (d_names d))" using assms by (simp add: dir_at_def)
  then show ?thesis by (subst find_item_loop.simps) (simp add: word_sless_alt)
qed

lemma find_none:
  assumes "dir_at (ram s) d" "buf_apart d (stk_name stk)" "\<And>k. k < length (d_names d) \<Longrightarrow> \<not> d_match d k"
  shows "\<exists>m'. fat16_find_item_in_directory img stk disk (d_dir d) (d_name d) s = Some (0, s\<lparr>ram := m'\<rparr>) \<and>
    (\<forall>x. 108 \<le> x - stk_name stk \<longrightarrow> m' x = ram s x)"
proof -
  obtain m' where m': "find_item_loop img stk disk (d_dir d) (d_name d) (of_nat 0) 0 s =
      find_item_loop img stk disk (d_dir d) (d_name d) (of_nat (0 + length (d_names d))) 0 (s\<lparr>ram := m'\<rparr>)"
    "\<forall>x. 108 \<le> x - stk_name stk \<longrightarrow> m' x = ram s x"
    using find_skip [OF assms(1,2), of 0 "length (d_names d)" img disk 0] assms(3) by auto
  have "dir_at (ram (s\<lparr>ram := m'\<rparr>)) d"
    using dir_cong [OF assms(1), of m'] m'(2) assms(2) by (simp add: buf_apart_def)
  from find_end [OF this] m' show ?thesis by (auto simp: fat16_find_item_in_directory_def)
qed

section \<open>The item of a file\<close>

text \<open>A \<open>struct fat_item\<close> of type file at \<open>f\<close> with its copy \<open>c\<close> of the directory item, both fresh pages.\<close>

definition file_item :: "kmem \<Rightarrow> kmem \<Rightarrow> u32 \<Rightarrow> u32 \<Rightarrow> u8 list \<Rightarrow> bool" where
  "file_item s s' f c bs \<longleftrightarrow> f \<noteq> 0 \<and> page_aligned f \<and> page_aligned c \<and> f \<noteq> c \<and>
     f \<notin> owned_pages (phys s) \<and> c \<notin> owned_pages (phys s) \<and>
     owned_pages (phys s') = {f, c} \<union> owned_pages (phys s) \<and>
     pmm_system_memory_size (phys s') = pmm_system_memory_size (phys s) \<and>
     fat_item_type (ram s') f = FAT_ITEM_TYPE_FILE \<and> fat_item_ptr (ram s') f = c \<and> read_bytes (ram s') c 32 = bs \<and>
     unat (pmm_free_blocks (phys s)) = 2 + unat (pmm_free_blocks (phys s'))"

lemma new_file_item:
  assumes inv: "kheap_inv s" and free: "2 \<le> unat (pmm_free_blocks (phys s))"
    and attr: "item_attribute (ram s) item AND FAT_FILE_SUBDIRECTORY = 0" and use: "region_in_use s item 32"
  shows "\<exists>f c s'. fat16_new_fat_item_directory_item img stk disk item s = Some (f, s') \<and>
    file_item s s' f c (read_bytes (ram s) item 32) \<and> keeps s s' \<and> kheap_inv s'"
proof -
  from kzalloc_keeps [OF inv, of 8] free obtain f s1 where
    f: "kzalloc 8 s = (f, s1)" "f \<noteq> 0" "page_aligned f" "f \<notin> owned_pages (phys s)" "keeps s s1"
      "owned_pages (phys s1) = insert f (owned_pages (phys s))" "kheap_inv s1"
      "unat (pmm_free_blocks (phys s)) = Suc (unat (pmm_free_blocks (phys s1)))" by auto
  let ?s2 = "set_word (f + 4) 1 s1"
  have inv2: "kheap_inv ?s2" using f(7) by (simp add: set_word_def kheap_inv_def)
  from kzalloc_keeps [OF inv2, of 32] free f(8) obtain c s3 where
    c: "kzalloc 32 ?s2 = (c, s3)" "c \<noteq> 0" "page_aligned c" "c \<notin> owned_pages (phys s1)" "keeps ?s2 s3"
      "owned_pages (phys s3) = insert c (owned_pages (phys s1))" "kheap_inv s3"
      "unat (pmm_free_blocks (phys s1)) = Suc (unat (pmm_free_blocks (phys s3)))"
    by (auto simp: set_word_def)
  let ?m3 = "ram s3" and ?m4 = "memcpy (ram s3) c item 32"
  let ?s' = "s3\<lparr>ram := store32 ?m4 f c\<rparr>"
  have fc: "f \<noteq> c" using c(4) f(6) by blast
  have k2: "keeps s ?s2"
    by (rule keeps_write_after [OF f(5,4)]) (use f(6) store32_page [OF f(3), of 4] in \<open>auto simp: set_word_def\<close>)
  have k3: "keeps s s3" by (rule keeps_trans [OF k2 c(5)])
  have cs: "c \<notin> owned_pages (phys s)" using c(4) f(6) by blast
  have item: "page_of (item + of_nat i) \<in> owned_pages (phys s)" if "i < 32" for i
    using use that by (simp add: region_in_use_def)
  have apart: "32 \<le> c - item"
  proof (rule ccontr)
    assume n: "\<not> 32 \<le> c - item"
    then have "unat (c - item) < 32" by (simp add: word_le_nat_alt)
    then have "page_of (item + of_nat (unat (c - item))) \<in> owned_pages (phys s)" by (rule item)
    then show False using cs c(3) by simp
  qed
  have m4: "?m4 x = (if x - c < 32 then ?m3 (item + (x - c)) else ?m3 x)" for x
    by (rule memcpy_apply) (use apart in simp)
  have m4far: "?m4 x = ?m3 x" if "page_of x \<noteq> c" for x
  proof -
    have "x - c < 4096" if "x - c < 32" using that by (rule less_trans) simp
    then show ?thesis using page_of_in [OF c(3), of x] that unfolding m4 by auto
  qed
  have k4: "keeps s (s3\<lparr>ram := ?m4\<rparr>)" by (rule keeps_write_after [OF k3 cs]) (use m4far in auto)
  have mffar: "store32 ?m4 f c x = ?m4 x" if "page_of x \<noteq> f" for x using store32_page [OF f(3) _ that, of 0] by simp
  have k5: "keeps s ?s'" by (rule keeps_write_after [OF k4 f(4)]) (use mffar in auto)
  have bytes: "store32 ?m4 f c (c + of_nat i) = ram s (item + of_nat i)" if i: "i < 32" for i
  proof -
    have "(of_nat i :: u32) < 32" using i by (simp add: word_less_nat_alt unat_of_nat_u32)
    moreover have "page_of (c + of_nat i) = c" using i by (intro page_of_nat_offset [OF c(3)]) simp
    ultimately show ?thesis using mffar [of "c + of_nat i"] fc k3 item [OF i] by (simp add: m4 keeps_def)
  qed
  have "load32 ?m3 (f + 4) = 1"
    using keeps_load32 [OF c(5) f(3), of 4] f(6) by (simp add: set_word_def)
  moreover have "load32 (store32 ?m4 f c) (f + 4) = load32 ?m3 (f + 4)"
  proof -
    have "load32 (store32 ?m4 f c) (f + 4) = load32 ?m4 (f + 4)"
      by (rule load32_store32_apart) (simp add: apart_def word_le_nat_alt)
    also have "\<dots> = load32 ?m3 (f + 4)"
    proof (rule load32_cong)
      fix j :: u32 assume "j < 4"
      then have "4 + j < 4096" by unat_arith
      then have "page_of (f + 4 + j) = f" using page_of_offset [OF f(3), of "4 + j"] by (simp add: add.assoc)
      then show "?m4 (f + 4 + j) = ?m3 (f + 4 + j)" using fc by (intro m4far) simp
    qed
    finally show ?thesis .
  qed
  moreover have "read_bytes (store32 ?m4 f c) c 32 = read_bytes (ram s) item 32" using bytes by (simp add: read_bytes_def)
  moreover have "pmm_system_memory_size (phys s3) = pmm_system_memory_size (phys s)" using k3 by (simp add: keeps_def)
  ultimately have fi: "file_item s ?s' f c (read_bytes (ram s) item 32)"
    using f c cs fc by (auto simp: file_item_def fat_item_type_def fat_item_ptr_def)
  have "item_attribute (ram s1) item = item_attribute (ram s) item"
    using f(5) item [of 11] by (simp add: item_attribute_def keeps_def)
  then have "fat16_new_fat_item_directory_item img stk disk item s = Some (f, ?s')"
    using attr f(1,2) c(1,2)
    by (simp add: fat16_new_fat_item_directory_item_def fat16_clone_directory_item_def Let_def set_word_def)
  moreover have "kheap_inv ?s'" using c(7) by (simp add: kheap_inv_def)
  ultimately show ?thesis using fi k5 by blast
qed

lemma file_item_cong:
  assumes "file_item s s' f c bs" "\<And>x. page_of x = f \<or> page_of x = c \<Longrightarrow> m x = ram s' x"
  shows "file_item s (s'\<lparr>ram := m\<rparr>) f c bs"
proof -
  have p: "page_aligned f" "page_aligned c" using assms(1) by (auto simp: file_item_def)
  have "load32 m (f + k) = load32 (ram s') (f + k)" if "k \<le> 4" for k
  proof (rule load32_cong)
    fix j :: u32 assume "j < 4"
    then have "k + j < 4096" using that by unat_arith
    then have "page_of (f + k + j) = f" using page_of_offset [OF p(1), of "k + j"] by (simp add: add.assoc)
    then show "m (f + k + j) = ram s' (f + k + j)" by (intro assms(2)) simp
  qed
  from this [of 0] this [of 4] have "fat_item_type m f = fat_item_type (ram s') f" "fat_item_ptr m f = fat_item_ptr (ram s') f"
    by (simp_all add: fat_item_type_def fat_item_ptr_def)
  moreover have "read_bytes m c 32 = read_bytes (ram s') c 32"
    using page_of_nat_offset [OF p(2)] assms(2) by (simp add: read_bytes_def)
  ultimately show ?thesis using assms(1) by (simp add: file_item_def)
qed

lemma not_in_buffer:
  assumes "region_in_use s buf 108" "page_of x \<notin> owned_pages (phys s)"
  shows "108 \<le> x - buf"
proof (rule ccontr)
  assume "\<not> 108 \<le> x - buf"
  then have "unat (x - buf) < 108" by (simp add: word_le_nat_alt)
  then have "page_of (buf + of_nat (unat (x - buf))) \<in> owned_pages (phys s)"
    using assms(1) unfolding region_in_use_def by blast
  then show False using assms(2) by simp
qed

text \<open>Everything the search reads is in pages in use.\<close>

definition dir_in_use :: "kmem \<Rightarrow> dir_view \<Rightarrow> bool" where
  "dir_in_use s d \<longleftrightarrow> (\<forall>x. dir_cell d x \<longrightarrow> page_of x \<in> owned_pages (phys s))"

lemma find_one:
  assumes d: "dir_at (ram s) d" "buf_apart d (stk_name stk)" "dir_in_use s d" "region_in_use s (stk_name stk) 108"
    and h: "kheap_inv s" "2 \<le> unat (pmm_free_blocks (phys s))"
    and j: "j < length (d_names d)" "\<And>k. k < length (d_names d) \<Longrightarrow> d_match d k = (k = j)"
    and plain: "item_attribute (ram s) (d_item d j) AND FAT_FILE_SUBDIRECTORY = 0"
  shows "\<exists>f c s'. fat16_find_item_in_directory img stk disk (d_dir d) (d_name d) s = Some (f, s') \<and>
    file_item s s' f c (read_bytes (ram s) (d_item d j) 32) \<and> kheap_inv s' \<and>
    (\<forall>x. page_of x \<in> owned_pages (phys s) \<and> 108 \<le> x - stk_name stk \<longrightarrow> ram s' x = ram s x)"
proof -
  let ?buf = "stk_name stk" and ?n = "length (d_names d)"
  let ?loop = "find_item_loop img stk disk (d_dir d) (d_name d)"
  obtain m1 where m1: "?loop (of_nat 0) 0 s = ?loop (of_nat (0 + j)) 0 (s\<lparr>ram := m1\<rparr>)"
    "\<forall>x. 108 \<le> x - ?buf \<longrightarrow> m1 x = ram s x"
    using find_skip [OF d(1,2), of 0 j img disk 0] j by auto
  have d1: "dir_at (ram (s\<lparr>ram := m1\<rparr>)) d"
    using dir_cong [OF d(1), of m1] m1(2) d(2) by (simp add: buf_apart_def)
  let ?m2 = "shown d ?buf j m1"
  let ?s2 = "s\<lparr>ram := ?m2\<rparr>"
  note sh = shown_facts [OF d1 d(2) j(1), simplified]
  have m2: "?m2 x = ram s x" if "108 \<le> x - ?buf" for x using sh(3) m1(2) that by simp
  have cell: "dir_cell d (d_item d j + of_nat i)" if "i < 32" for i
  proof -
    have "(of_nat i :: u32) < 32" using that by (simp add: word_less_nat_alt unat_of_nat_u32)
    then show ?thesis using j(1) unfolding dir_cell_def by (metis add_diff_cancel_left')
  qed
  then have item: "?m2 (d_item d j + of_nat i) = ram s (d_item d j + of_nat i)" if "i < 32" for i
    using m2 d(2) that by (simp add: buf_apart_def)
  have "kheap_inv ?s2" "2 \<le> unat (pmm_free_blocks (phys ?s2))" using h by (simp_all add: kheap_inv_def)
  moreover have "item_attribute (ram ?s2) (d_item d j) AND FAT_FILE_SUBDIRECTORY = 0"
    using plain item [of 11] by (simp add: item_attribute_def)
  moreover have "region_in_use ?s2 (d_item d j) 32"
    using cell d(3) by (simp add: region_in_use_def dir_in_use_def)
  ultimately obtain f c s3 where f: "fat16_new_fat_item_directory_item img stk disk (d_item d j) ?s2 = Some (f, s3)"
    "file_item ?s2 s3 f c (read_bytes (ram ?s2) (d_item d j) 32)" "keeps ?s2 s3" "kheap_inv s3"
    using new_file_item [of ?s2 "d_item d j" img stk disk] by blast
  have rb: "read_bytes ?m2 (d_item d j) 32 = read_bytes (ram s) (d_item d j) 32"
    using item by (simp add: read_bytes_def)
  have k3: "ram s3 x = ram s x" if "page_of x \<in> owned_pages (phys s)" "108 \<le> x - ?buf" for x
    using f(3) m2 that by (simp add: keeps_def)
  have d3: "dir_at (ram s3) d"
    by (rule dir_cong [OF d(1)]) (use k3 d(2,3) in \<open>simp add: dir_in_use_def buf_apart_def\<close>)
  have "Suc j + (?n - Suc j) = ?n" using j(1) by simp
  then obtain m4 where m4: "?loop (of_nat (Suc j)) f s3 = ?loop (of_nat ?n) f (s3\<lparr>ram := m4\<rparr>)"
    "\<forall>x. 108 \<le> x - ?buf \<longrightarrow> m4 x = ram s3 x"
    using find_skip [OF d3 d(2), of "Suc j" "?n - Suc j" img disk f] j by auto
  have d4: "dir_at (ram (s3\<lparr>ram := m4\<rparr>)) d"
    using dir_cong [OF d3, of m4] m4(2) d(2) by (simp add: buf_apart_def)
  have "?loop (of_nat j) 0 (s\<lparr>ram := m1\<rparr>) = ?loop (of_nat (Suc j)) f s3"
    using find_step [OF d1 d(2) j(1), of img disk 0] f(1) j by (simp add: Let_def)
  then have run: "fat16_find_item_in_directory img stk disk (d_dir d) (d_name d) s = Some (f, s3\<lparr>ram := m4\<rparr>)"
    using m1(1) m4(1) find_end [OF d4] by (simp add: fat16_find_item_in_directory_def)
  have fi: "file_item s s3 f c (read_bytes (ram s) (d_item d j) 32)"
    using f(2) rb by (simp add: file_item_def)
  then have "file_item s (s3\<lparr>ram := m4\<rparr>) f c (read_bytes (ram s) (d_item d j) 32)"
    using m4(2) not_in_buffer [OF d(4)] by (intro file_item_cong) (auto simp: file_item_def)
  moreover have "kheap_inv (s3\<lparr>ram := m4\<rparr>)" using f(4) by (simp add: kheap_inv_def)
  moreover have "\<forall>x. page_of x \<in> owned_pages (phys s) \<and> 108 \<le> x - ?buf \<longrightarrow> ram (s3\<lparr>ram := m4\<rparr>) x = ram s x"
    using k3 m4(2) by simp
  ultimately show ?thesis using run by blast
qed

section \<open>Correctness of the search\<close>

text \<open>C21: Searching a directory. An item is taken when the wanted name is a prefix of its displayed name, up to case. When no
  item matches, \<open>fat16_find_item_in_directory\<close> returns null, and only its name buffer has changed; when exactly one matches and it is a file, the
  result is a fresh \<open>fat_item\<close> of type file that holds a copy of the item's 32 bytes, two pages have been taken from the
  heap, and nothing else in use has changed.\<close>

theorem fat16_find_item_in_directory_correct:
  assumes "dir_at (ram s) d" "buf_apart d (stk_name stk)" "dir_in_use s d" "region_in_use s (stk_name stk) 108"
    and "kheap_inv s" "2 \<le> unat (pmm_free_blocks (phys s))"
  shows "((\<forall>k < length (d_names d). \<not> d_match d k) \<longrightarrow>
      (\<exists>m'. fat16_find_item_in_directory img stk disk (d_dir d) (d_name d) s = Some (0, s\<lparr>ram := m'\<rparr>) \<and>
        (\<forall>x. 108 \<le> x - stk_name stk \<longrightarrow> m' x = ram s x))) \<and>
    (\<forall>j < length (d_names d). (\<forall>k < length (d_names d). d_match d k = (k = j)) \<longrightarrow>
      item_attribute (ram s) (d_item d j) AND 0x10 = 0 \<longrightarrow>
      (\<exists>f c s'. fat16_find_item_in_directory img stk disk (d_dir d) (d_name d) s = Some (f, s') \<and>
        file_item s s' f c (read_bytes (ram s) (d_item d j) 32) \<and> kheap_inv s' \<and>
        (\<forall>x. page_of x \<in> owned_pages (phys s) \<and> 108 \<le> x - stk_name stk \<longrightarrow> ram s' x = ram s x)))"
  using find_none [OF assms(1,2), of img disk] find_one [OF assms, of _ img disk] by blast

text \<open>The directory of two files, \<open>LONGNAME.TXT\<close> and \<open>SHELL\<close>, at \<open>0x8000\<close>, searched for \<open>shell\<close>.\<close>

definition demo_items :: "u8 list" where
  "demo_items = longname_item @ [83, 72, 69, 76, 76, 32, 32, 32, 32, 32, 32, 0x20] @ replicate 20 0"

definition demo_dir_ram :: mem where
  "demo_dir_ram x = (if x - 0x9000 < 64 then demo_items ! unat (x - 0x9000)
     else if x - 0xA000 < 5 then [115, 104, 101, 108, 108] ! unat (x - 0xA000)
     else if x = 0x8001 then 0x90 else if x = 0x8004 then 2 else 0)"

definition demo_view :: dir_view where
  "demo_view = \<lparr>d_dir = 0x8000, d_items = 0x9000, d_names = [([76, 79, 78, 71, 78, 65, 77, 69, 84, 88, 84], [84, 88, 84]),
     ([83, 72, 69, 76, 76], [])], d_name = 0xA000, d_wanted = [115, 104, 101, 108, 108]\<rparr>"

lemma demo_dir_at: "dir_at demo_dir_ram demo_view"
proof -
  have "item_name_at demo_dir_ram 0x9000 [76, 79, 78, 71, 78, 65, 77, 69, 84, 88, 84] [84, 88, 84]"
    "item_name_at demo_dir_ram 0x9020 [83, 72, 69, 76, 76] []"
    by (simp_all add: item_name_at_def demo_dir_ram_def demo_items_def longname_item_def name_stop_def
        nth_append)
  then show ?thesis
    by (simp add: dir_at_def demo_view_def d_item_def total_entries_def directory_item_def load32_def
        demo_dir_ram_def less_Suc_eq)
qed

lemma demo_cells: "dir_cell demo_view x \<Longrightarrow> x - 0x8000 < 16 \<or> x - 0x9000 < 64 \<or> x - 0xA000 < 6"
proof -
  assume "dir_cell demo_view x"
  then have "x - 0x8000 < 16 \<or> (\<exists>i < 2. x - (0x9000 + of_nat i * 32) < 32) \<or> (\<exists>k \<le> 5. x = 0xA000 + of_nat k)"
    by (simp add: dir_cell_def demo_view_def d_item_def eval_nat_numeral)
  then consider "x - 0x8000 < 16" | i where "i < 2" "x - (0x9000 + of_nat i * 32) < 32"
    | k where "k \<le> 5" "x = 0xA000 + of_nat k" by blast
  then show ?thesis
  proof cases
    case 2
    obtain y where y: "y = x - 0x9000" by blast
    have "i = 0 \<or> i = 1" using 2(1) by auto
    then have "y < 64"
    proof
      assume "i = 0"
      then have "y < 32" using 2(2) y by simp
      then show ?thesis by (rule less_trans) simp
    next
      assume "i = 1"
      then have "x - 0x9020 < 32" using 2(2) by simp
      moreover have "x - 0x9020 = y - 32" by (simp add: y)
      ultimately have "y - 32 < 32" by simp
      then show ?thesis by unat_arith
    qed
    then show ?thesis by (simp add: y)
  next
    case 3
    then have "unat (of_nat k :: u32) < 6" by (simp add: unat_of_nat_u32)
    then show ?thesis using 3(2) by (simp add: word_less_nat_alt)
  qed simp
qed

lemma demo_match:
  assumes "k < 2" shows "d_match demo_view k = (k = 1)"
proof -
  have "k = 0 \<or> k = 1" using assms by auto
  moreover have "\<not> d_match demo_view 0"
  proof
    assume "d_match demo_view 0"
    then have "to_upper (d_shown demo_view 0 ! 0) = to_upper (d_wanted demo_view ! 0)"
      unfolding d_match_def name_matches_def by (simp add: demo_view_def)
    then show False by (simp add: d_shown_def demo_view_def fat_name_def to_upper_def word_sless_alt)
  qed
  moreover have "d_match demo_view 1"
    by (simp add: d_match_def d_shown_def demo_view_def fat_name_def name_matches_def All_less_Suc)
      (simp add: to_upper_def word_sless_alt)
  ultimately show ?thesis by auto
qed

lemma fat16_find_item_in_directory_correct_witness:
  "let s = kmem_boot\<lparr>ram := demo_dir_ram\<rparr> in
   \<exists>f c s'. fat16_find_item_in_directory demo_disk demo_stack 0x1000 0x8000 0xA000 s = Some (f, s') \<and>
     file_item s s' f c (drop 32 demo_items)"
proof -
  let ?s = "kmem_boot\<lparr>ram := demo_dir_ram\<rparr>" and ?d = demo_view
  have d: "d_dir ?d = 0x8000" "d_name ?d = 0xA000" "length (d_names ?d) = 2" "d_item ?d 1 = 0x9020" "stk_name demo_stack = 0x5200"
    by (simp_all add: demo_view_def d_item_def demo_stack_def)
  have page: "page_of x \<in> owned_pages pmm_boot" if "x - b * 4096 < 4096" "b < 25000" "page_aligned (b * 4096)" for x b
    using page_of_in [OF that(3,1)] boot_pages [OF that(2)] by simp
  have p: "page_aligned 0x5000" "page_aligned 0x8000" "page_aligned 0x9000" "page_aligned 0xA000"
    by (simp_all add: page_aligned_def)
  have 1: "buf_apart ?d (stk_name demo_stack)"
    unfolding buf_apart_def d(5)
  proof (intro allI impI)
    fix x assume "dir_cell ?d x"
    from demo_cells [OF this] show "108 \<le> x - 0x5200"
      unfolding not_less [symmetric] by (elim disjE) (erule far_apart, simp)+
  qed
  have 2: "dir_in_use ?s ?d"
    unfolding dir_in_use_def
  proof (intro allI impI)
    fix x assume "dir_cell ?d x"
    from demo_cells [OF this] have "x - 8 * 4096 < 4096 \<or> x - 9 * 4096 < 4096 \<or> x - 10 * 4096 < 4096"
      using less_trans [of "x - 0x8000" 16 4096] less_trans [of "x - 0x9000" 64 4096] less_trans [of "x - 0xA000" 6 4096]
      by auto
    then show "page_of x \<in> owned_pages (phys ?s)"
      using page [of x 8] page [of x 9] page [of x 10] p by auto
  qed
  have 3: "region_in_use ?s (stk_name demo_stack) 108"
    unfolding region_in_use_def d(5)
  proof (intro allI impI)
    fix i :: nat assume "i < 108"
    then have "unat (0x200 + of_nat i :: u32) < 4096" by (simp add: unat_word_ariths unat_of_nat_u32)
    then have "0x5200 + of_nat i - 5 * 4096 < (4096 :: u32)" by (simp add: word_less_nat_alt)
    from page [OF this] p(1) show "page_of (0x5200 + of_nat i) \<in> owned_pages (phys ?s)" by simp
  qed
  have 4: "kheap_inv ?s" "2 \<le> unat (pmm_free_blocks (phys ?s))"
    using kmem_boot_inv by (simp_all add: kheap_inv_def)
  note m = demo_match
  have a: "item_attribute (ram ?s) (d_item ?d 1) AND 0x10 = 0"
    unfolding d(4) by (simp add: item_attribute_def demo_dir_ram_def demo_items_def longname_item_def nth_append)
  have len: "length demo_items = 64" by (simp add: demo_items_def longname_item_def)
  have rb: "read_bytes (ram ?s) (d_item ?d 1) 32 = drop 32 demo_items"
    unfolding d(4)
  proof (rule nth_equalityI)
    fix i assume "i < length (read_bytes (ram ?s) 0x9020 32)"
    then have i: "i < 32" by simp
    then have u: "unat (0x20 + of_nat i :: u32) = 32 + i" by (simp add: unat_word_ariths unat_of_nat_u32)
    then have "0x20 + of_nat i < (64 :: u32)" using i by (simp add: word_less_nat_alt)
    moreover have "0x9020 + of_nat i - 0x9000 = (0x20 + of_nat i :: u32)" by simp
    ultimately have "demo_dir_ram (0x9020 + of_nat i) = demo_items ! (32 + i)" unfolding demo_dir_ram_def using u by simp
    then show "read_bytes (ram ?s) 0x9020 32 ! i = drop 32 demo_items ! i"
      using i len by (simp add: read_bytes_def)
  qed (simp add: demo_items_def longname_item_def)
  have "dir_at (ram ?s) ?d" using demo_dir_at by simp
  from fat16_find_item_in_directory_correct [OF this 1 2 3 4, of demo_disk "0x1000", unfolded d, THEN conjunct2,
      rule_format, of 1] m a rb d(4)
  show ?thesis by (simp add: Let_def) blast
qed

end
