(* ===== verification/Vfs.thy ===== *)
theory Vfs imports FatNames PathParser Gdt
begin

text \<open>
  The virtual file system, \<open>src/src/fs/file.c\<close>. Its two tables of pointers are lists, 12 filesystems and 512
  descriptors; a \<open>struct file_descriptor\<close> is in RAM: index at 0, filesystem at 4, private data at 8, disk at 12.
  The function pointers of a \<open>struct filesystem\<close> are the fields of the record \<open>filesystem\<close>; \<open>fss\<close> gives the
  functions of the structure at an address. \<open>None\<close> is a call that does not return.
\<close>

abbreviation (input) MAX_FILESYSTEMS :: nat where "MAX_FILESYSTEMS \<equiv> 12"
abbreviation (input) MAX_FILE_DESCRIPTORS :: nat where "MAX_FILE_DESCRIPTORS \<equiv> 512"

record filesystem =
  open_function :: "u32 \<Rightarrow> u32 \<Rightarrow> file_mode \<Rightarrow> machine \<Rightarrow> (u32 \<times> machine) option"
  resolve_function :: "u32 \<Rightarrow> machine \<Rightarrow> (u32 \<times> machine) option"
  read_function :: "u32 \<Rightarrow> u32 \<Rightarrow> u32 \<Rightarrow> u32 \<Rightarrow> u32 \<Rightarrow> machine \<Rightarrow> (u32 \<times> machine) option"
  seek_function :: "u32 \<Rightarrow> u32 \<Rightarrow> u32 \<Rightarrow> machine \<Rightarrow> int \<times> machine"
  stat_function :: "u32 \<Rightarrow> u32 \<Rightarrow> u32 \<Rightarrow> machine \<Rightarrow> int \<times> machine"

definition on_ram :: "(mem \<Rightarrow> int \<times> mem) \<Rightarrow> machine \<Rightarrow> int \<times> machine" where
  "on_ram f st = (let (r, m) = f (ram (fst st)) in (r, (fst st)\<lparr>ram := m\<rparr>, snd st))"

text \<open>\<open>fat16_fs\<close> and \<open>fat16_init\<close> of \<open>fat16.c\<close>: the table of functions, and the name "FAT16" stored in its structure.\<close>

definition fat16_fs :: "(u32 \<Rightarrow> u8 list) \<Rightarrow> fat_stack \<Rightarrow> u8 list \<Rightarrow> filesystem" where
  "fat16_fs img stk digits =
     \<lparr>open_function = fat16_open img stk,
      resolve_function = (\<lambda>disk. mem_call (fat16_resolve img stk disk)),
      read_function = fat16_read img stk digits,
      seek_function = (\<lambda>private offset whence. on_ram (fat16_seek private offset whence)),
      stat_function = (\<lambda>disk private stat. on_ram (fat16_stat private stat))\<rparr>"

definition fat16_init :: "u32 \<Rightarrow> mem \<Rightarrow> u32 \<times> mem" where
  "fat16_init fs_addr m = (fs_addr, write_bytes m (fs_addr + 20) [70, 65, 84, 49, 54, 0])"

section \<open>The tables\<close>

record vfs =
  filesystems :: "u32 list"
  file_descriptors :: "u32 list"

text \<open>The search of both tables starts at index 1.\<close>

definition fs_get_free_slot :: "vfs \<Rightarrow> int" where
  "fs_get_free_slot v =
     (case first_index (\<lambda>p. p = 0) (drop 1 (filesystems v)) of
        None \<Rightarrow> -1
      | Some i \<Rightarrow> int i + 1)"

definition fs_insert_filesystem :: "u32 \<Rightarrow> vfs \<Rightarrow> vfs run" where
  "fs_insert_filesystem fs v =
     (let slot = fs_get_free_slot v in
      if slot < 0 then Inl ''NO FREE SLOT FILESYSTEM AVAILABLE''
      else Inr (v\<lparr>filesystems := (filesystems v)[nat slot := fs]\<rparr>))"

definition fs_static_load :: "u32 \<Rightarrow> mem \<times> vfs \<Rightarrow> (mem \<times> vfs) run" where
  "fs_static_load fs_addr s =
     (let (fs, m) = fat16_init fs_addr (fst s) in
      case fs_insert_filesystem fs (snd s) of
        Inl msg \<Rightarrow> Inl msg
      | Inr v \<Rightarrow> Inr (m, v))"

text \<open>\<open>memset(filesystems, 0, MAX_FILESYSTEMS)\<close> clears twelve bytes, that is three entries.\<close>

definition fs_load :: "u32 \<Rightarrow> mem \<times> vfs \<Rightarrow> (mem \<times> vfs) run" where
  "fs_load fs_addr s =
     fs_static_load fs_addr (fst s, (snd s)\<lparr>filesystems := replicate 3 0 @ drop 3 (filesystems (snd s))\<rparr>)"

definition fs_init :: "u32 \<Rightarrow> mem \<times> vfs \<Rightarrow> (mem \<times> vfs) run" where
  "fs_init fs_addr s =
     fs_load fs_addr (fst s, (snd s)\<lparr>file_descriptors := replicate MAX_FILE_DESCRIPTORS 0\<rparr>)"

definition file_get_descriptor :: "int \<Rightarrow> vfs \<Rightarrow> u32" where
  "file_get_descriptor fd v =
     (if fd < 1 \<or> fd \<ge> int MAX_FILE_DESCRIPTORS then 0 else file_descriptors v ! nat fd)"

text \<open>The result of \<open>kzalloc\<close> is not tested.\<close>

definition file_new_descriptor :: "machine \<times> vfs \<Rightarrow> int \<times> u32 \<times> machine \<times> vfs" where
  "file_new_descriptor s =
     (let (st, v) = s in
      case first_index (\<lambda>p. p = 0) (drop 1 (file_descriptors v)) of
        None \<Rightarrow> (-1, 0, st, v)
      | Some i \<Rightarrow>
          let (desc, k) = kzalloc 16 (fst st);
              k = set_word desc (of_nat (i + 1)) k
          in (0, desc, (k, snd st), v\<lparr>file_descriptors := (file_descriptors v)[i + 1 := desc]\<rparr>))"

fun fs_resolve_loop :: "(u32 \<Rightarrow> filesystem) \<Rightarrow> u32 \<Rightarrow> u32 list \<Rightarrow> machine \<Rightarrow> (u32 \<times> machine) option" where
  "fs_resolve_loop fss disk [] st = Some (0, st)"
| "fs_resolve_loop fss disk (p # ps) st =
     (if p \<noteq> 0 then
        (case resolve_function (fss p) disk st of
           None \<Rightarrow> None
         | Some (r, st) \<Rightarrow> if r = 0 then Some (p, st) else fs_resolve_loop fss disk ps st)
      else fs_resolve_loop fss disk ps st)"

definition fs_resolve :: "(u32 \<Rightarrow> filesystem) \<Rightarrow> u32 \<Rightarrow> machine \<times> vfs \<Rightarrow> (u32 \<times> machine \<times> vfs) option" where
  "fs_resolve fss disk s =
     (case fs_resolve_loop fss disk (filesystems (snd s)) (fst s) of
        None \<Rightarrow> None
      | Some (fs, st) \<Rightarrow> Some (fs, st, snd s))"

text \<open>\<open>istrncmp(str, "c", 1)\<close>, and the code's tests \<open>!istrncmp(..) == 0\<close>, that is "not equal".\<close>

definition istrncmp_char :: "mem \<Rightarrow> u32 \<Rightarrow> u8 \<Rightarrow> int" where
  "istrncmp_char m str c =
     (if m str \<noteq> c \<and> to_upper (m str) \<noteq> to_upper c then sint (m str) - sint c else 0)"

definition file_mode_get_by_string :: "mem \<Rightarrow> u32 \<Rightarrow> file_mode" where
  "file_mode_get_by_string m str =
     (if istrncmp_char m str 114 = 0 then FILE_MODE_READ
      else if istrncmp_char m str 119 \<noteq> 0 then FILE_MODE_WRITE
      else if istrncmp_char m str 97 \<noteq> 0 then FILE_MODE_APPEND
      else FILE_MODE_INVALID)"

section \<open>The calls\<close>

definition fopen :: "(u32 \<Rightarrow> filesystem) \<Rightarrow> u32 \<Rightarrow> u32 \<Rightarrow> u32 \<Rightarrow> machine \<times> vfs \<Rightarrow> (u32 \<times> machine \<times> vfs) option" where
  "fopen fss the_disk filename mode s =
     (case Pathparser_parse filename (fst (fst s)) of
        None \<Rightarrow> None
      | Some (root_path, _, k) \<Rightarrow>
          let st = (k, snd (fst s)); v = snd s in
          if root_path = 0 then Some (-1, st, v)
          else if load32 (ram k) (root_path + 4) = 0 then Some (-1, st, v)
          else
            let disk = disk_get the_disk (load32 (ram k) root_path) in
            if disk = 0 then Some (-1, st, v)
            else if disk_filesystem (ram k) disk = 0 then Some (-1, st, v)
            else
              let f_mode = file_mode_get_by_string (ram k) mode in
              if f_mode = FILE_MODE_INVALID then Some (-1, st, v)
              else
                (case open_function (fss (disk_filesystem (ram k) disk)) disk (load32 (ram k) (root_path + 4)) f_mode st of
                   None \<Rightarrow> None
                 | Some (des_private_data, st) \<Rightarrow>
                     if des_private_data = 0 then Some (-1, st, v)
                     else
                       let (res, des, st, v) = file_new_descriptor (st, v) in
                       if res \<noteq> 0 then Some (-1, st, v)
                       else
                         let st = mem_step (set_word (des + 4) (disk_filesystem (ram (fst st)) disk)) st;
                             st = mem_step (set_word (des + 8) des_private_data) st;
                             st = mem_step (set_word (des + 12) disk) st
                         in if load32 (ram (fst st)) des <s 0 then Some (-1, st, v)
                            else Some (load32 (ram (fst st)) des, st, v)))"

definition fread :: "(u32 \<Rightarrow> filesystem) \<Rightarrow> u32 \<Rightarrow> u32 \<Rightarrow> u32 \<Rightarrow> int \<Rightarrow> machine \<times> vfs \<Rightarrow> (u32 \<times> machine \<times> vfs) option" where
  "fread fss ptr sz nmemb fd s =
     (if sz = 0 \<or> nmemb = 0 \<or> fd < 1 then Some (-1, s)
      else
        let desc = file_get_descriptor fd (snd s); m = ram (fst (fst s)) in
        if desc = 0 then Some (-1, s)
        else
          (case read_function (fss (load32 m (desc + 4))) (load32 m (desc + 12)) (load32 m (desc + 8)) sz nmemb ptr (fst s) of
             None \<Rightarrow> None
           | Some (res, st) \<Rightarrow> Some (res, st, snd s)))"

definition fseek :: "(u32 \<Rightarrow> filesystem) \<Rightarrow> int \<Rightarrow> u32 \<Rightarrow> u32 \<Rightarrow> machine \<times> vfs \<Rightarrow> int \<times> machine \<times> vfs" where
  "fseek fss fd offset whence s =
     (let desc = file_get_descriptor fd (snd s); m = ram (fst (fst s)) in
      if desc = 0 then (-1, s)
      else
        let (res, st) = seek_function (fss (load32 m (desc + 4))) (load32 m (desc + 8)) offset whence (fst s)
        in (res, st, snd s))"

definition fstat :: "(u32 \<Rightarrow> filesystem) \<Rightarrow> int \<Rightarrow> u32 \<Rightarrow> machine \<times> vfs \<Rightarrow> int \<times> machine \<times> vfs" where
  "fstat fss fd stat s =
     (let desc = file_get_descriptor fd (snd s); m = ram (fst (fst s)) in
      if desc = 0 then (-1, s)
      else
        let (res, st) = stat_function (fss (load32 m (desc + 4))) (load32 m (desc + 12)) (load32 m (desc + 8)) stat (fst s)
        in (res, st, snd s))"

end
