(* ===== verification/Task.thy ===== *)
theory Task imports Pages Gdt
begin

text \<open>
  Tasks, \<open>src/src/task/task.c\<close>, the scheduler, \<open>src/src/scheduler/scheduler.c\<close>, and the timer
  interrupt of \<open>idt.c\<close>. A \<open>struct task\<close> is 64 bytes of RAM: the page-directory chunk at offset 0,
  the saved registers from 4 on, the process at 52, and the links of the doubly linked list at 56
  and 60. \<open>kernel\<close> adds to the memory state the globals of the file, the kernel's own chunk and the
  data segment registers. \<open>task_list\<close> abstracts the linked list to the list of its tasks.

  Code that leaves the kernel is a value: \<open>task_return\<close> gives the processor state in which the user
  program goes on. A call of \<open>panic\<close> is \<open>Inl\<close>, a page fault is \<open>None\<close>.
\<close>

abbreviation (input) PROGRAM_VIRTUAL_ADDRESS :: u32 where "PROGRAM_VIRTUAL_ADDRESS \<equiv> 0x400000"
abbreviation (input) PROGRAM_VIRTUAL_STACK_ADDRESS_START :: u32 where
  "PROGRAM_VIRTUAL_STACK_ADDRESS_START \<equiv> 0x3FF000"
abbreviation (input) USER_PROGRAM_STACK_SIZE :: u32 where "USER_PROGRAM_STACK_SIZE \<equiv> 0x4000"
abbreviation (input) PROGRAM_VIRTUAL_STACK_ADDRESS_END :: u32 where
  "PROGRAM_VIRTUAL_STACK_ADDRESS_END \<equiv> PROGRAM_VIRTUAL_STACK_ADDRESS_START - USER_PROGRAM_STACK_SIZE"
abbreviation (input) USER_DATA_SEGMENT :: u32 where "USER_DATA_SEGMENT \<equiv> 0x23"
abbreviation (input) USER_CODE_SEGMENT :: u32 where "USER_CODE_SEGMENT \<equiv> 0x1b"

record kernel =
  mm :: vm
  kernel_chunk :: u32
  current_task :: u32
  task_head :: u32
  task_tail :: u32
  data_segment :: u16

abbreviation kram :: "kernel \<Rightarrow> mem" where "kram k \<equiv> ram (km (mm k))"

definition set_km :: "kmem \<Rightarrow> kernel \<Rightarrow> kernel" where
  "set_km s k = k\<lparr>mm := (mm k)\<lparr>km := s\<rparr>\<rparr>"

definition set_ram :: "mem \<Rightarrow> kernel \<Rightarrow> kernel" where
  "set_ram m k = set_km ((km (mm k))\<lparr>ram := m\<rparr>) k"

section \<open>The structures\<close>

text \<open>\<open>struct registers\<close> starts at offset 4 of the task.\<close>

definition task_registers :: "u32 \<Rightarrow> u32" where "task_registers t = field t 1"

definition task_chunk :: "mem \<Rightarrow> u32 \<Rightarrow> u32" where "task_chunk m t = load32 m (field t 0)"
definition task_next :: "mem \<Rightarrow> u32 \<Rightarrow> u32" where "task_next m t = load32 m (field t 14)"
definition task_prev :: "mem \<Rightarrow> u32 \<Rightarrow> u32" where "task_prev m t = load32 m (field t 15)"

record interrupt_frame =
  f_edi :: u32
  f_esi :: u32
  f_ebp :: u32
  f_reserved :: u32
  f_ebx :: u32
  f_edx :: u32
  f_ecx :: u32
  f_eax :: u32
  f_ip :: u32
  f_cs :: u32
  f_flags :: u32
  f_esp :: u32
  f_ss :: u32

text \<open>The processor registers with which a program runs.\<close>

record cpu =
  c_edi :: u32
  c_esi :: u32
  c_ebp :: u32
  c_ebx :: u32
  c_edx :: u32
  c_ecx :: u32
  c_eax :: u32
  c_ip :: u32
  c_cs :: u32
  c_flags :: u32
  c_esp :: u32
  c_ss :: u32

section \<open>Switching\<close>

definition task_switch :: "u32 \<Rightarrow> kernel \<Rightarrow> kernel" where
  "task_switch task k =
     (let k = k\<lparr>current_task := task\<rparr>
      in k\<lparr>mm := paging_switch (paging_4gb_chunk_get_directory (kram k) (task_chunk (kram k) task)) (mm k)\<rparr>)"

definition user_registers :: "kernel \<Rightarrow> kernel" where
  "user_registers k = k\<lparr>data_segment := 0x23\<rparr>"

definition kernel_registers :: "kernel \<Rightarrow> kernel" where
  "kernel_registers k = k\<lparr>data_segment := 0x10\<rparr>"

definition kernel_page :: "kernel \<Rightarrow> kernel" where
  "kernel_page k =
     (let k = kernel_registers k
      in k\<lparr>mm := paging_switch (paging_4gb_chunk_get_directory (kram k) (kernel_chunk k)) (mm k)\<rparr>)"

definition task_page :: "kernel \<Rightarrow> kernel" where
  "task_page k = (let k = user_registers k in task_switch (current_task k) k)"

definition task_page_task :: "u32 \<Rightarrow> kernel \<Rightarrow> kernel" where
  "task_page_task task k =
     (let k = user_registers k
      in k\<lparr>mm := paging_switch (paging_4gb_chunk_get_directory (kram k) (task_chunk (kram k) task)) (mm k)\<rparr>)"

text \<open>\<open>task->registers.x = frame->x\<close> for the twelve registers, in the order of the C code.\<close>

definition task_save_state :: "u32 \<Rightarrow> interrupt_frame \<Rightarrow> mem \<Rightarrow> mem" where
  "task_save_state task frame m =
     (let m = store32 m (field task 8) (f_ip frame);
          m = store32 m (field task 9) (f_cs frame);
          m = store32 m (field task 10) (f_flags frame);
          m = store32 m (field task 11) (f_esp frame);
          m = store32 m (field task 12) (f_ss frame);
          m = store32 m (field task 7) (f_eax frame);
          m = store32 m (field task 3) (f_ebp frame);
          m = store32 m (field task 4) (f_ebx frame);
          m = store32 m (field task 6) (f_ecx frame);
          m = store32 m (field task 1) (f_edi frame);
          m = store32 m (field task 5) (f_edx frame);
          m = store32 m (field task 2) (f_esi frame)
      in m)"

definition task_current_save_state :: "interrupt_frame \<Rightarrow> kernel \<Rightarrow> kernel run" where
  "task_current_save_state frame k =
     (if current_task k = 0 then Inl ''No current task to save''
      else Inr (set_ram (task_save_state (current_task k) frame (kram k)) k))"

text \<open>
  \<open>task_return\<close> of \<open>task.asm\<close>, called with the address of the register block: \<open>iretd\<close> pops what
  was pushed from the block, except the flags, which are the current ones with the interrupt
  flag; \<open>restore_general_purpose_registers\<close> loads the others, but its closing \<open>pop ebp\<close> puts
  back the stack pointer \<open>task_return\<close> was entered with.
\<close>

definition task_return :: "u32 \<Rightarrow> u32 \<Rightarrow> u32 \<Rightarrow> mem \<Rightarrow> cpu" where
  "task_return regs kernel_esp kernel_flags m =
     \<lparr>c_edi = load32 m regs, c_esi = load32 m (regs + 4), c_ebp = kernel_esp,
      c_ebx = load32 m (regs + 12), c_edx = load32 m (regs + 16), c_ecx = load32 m (regs + 20),
      c_eax = load32 m (regs + 24), c_ip = load32 m (regs + 28), c_cs = load32 m (regs + 32),
      c_flags = kernel_flags OR 0x200, c_esp = load32 m (regs + 40), c_ss = load32 m (regs + 44)\<rparr>"

text \<open>\<open>if (A == B) task_return(...);\<close>: without the comments the call is the body of the test.\<close>

definition task_run_first_ever_task :: "u32 \<Rightarrow> u32 \<Rightarrow> kernel \<Rightarrow> (cpu option \<times> kernel) run" where
  "task_run_first_ever_task esp flags k =
     (if current_task k = 0 then Inl ''task_run_first_ever_task(): No current task exists!''
      else
        let k = task_switch (task_head k) k in
        if paging_4gb_chunk_get_directory (kram k) (task_chunk (kram k) (task_head k))
             = paging_get_current_directory (mm k)
        then Inr (Some (task_return (task_registers (task_head k)) esp flags (kram k)), k)
        else Inr (None, k))"

section \<open>Creating and removing\<close>

definition task_init :: "u32 \<Rightarrow> u32 \<Rightarrow> kernel \<Rightarrow> int \<times> kernel" where
  "task_init task process k =
     (let k = set_ram (memset (kram k) task 0 64) k;
          (chunk, v) = paging_new_4gb (1 OR 4) (mm k);
          k = k\<lparr>mm := v\<rparr>;
          k = set_ram (store32 (kram k) (field task 0) chunk) k
      in if chunk = 0 then (-1, k)
         else
           let m = kram k;
               m = store32 m (field task 8) PROGRAM_VIRTUAL_ADDRESS;
               m = store32 m (field task 12) USER_DATA_SEGMENT;
               m = store32 m (field task 9) USER_CODE_SEGMENT;
               m = store32 m (field task 11) PROGRAM_VIRTUAL_STACK_ADDRESS_START;
               m = store32 m (field task 13) process
           in (0, set_ram m k))"

definition task_new :: "u32 \<Rightarrow> kernel \<Rightarrow> u32 \<times> kernel" where
  "task_new process k =
     (let (task, s) = kzalloc 64 (km (mm k)); k = set_km s k in
      if task = 0 then (0, k)
      else
        let (res, k) = task_init task process k in
        if res \<noteq> 0 then (0, k)
        else if task_head k = 0 then
          (task, k\<lparr>task_head := task, task_tail := task, current_task := task\<rparr>)
        else
          let m = store32 (kram k) (field (task_tail k) 14) task;
              m = store32 m (field task 15) (task_tail k);
              k = set_ram m k
          in (task, k\<lparr>task_tail := task\<rparr>))"

definition task_get_next :: "kernel \<Rightarrow> u32" where
  "task_get_next k =
     (if task_next (kram k) (current_task k) = 0 then task_head k
      else task_next (kram k) (current_task k))"

definition task_list_remove :: "u32 \<Rightarrow> kernel \<Rightarrow> kernel" where
  "task_list_remove task k =
     (let k = (if task_prev (kram k) task \<noteq> 0
               then set_ram (store32 (kram k) (field (task_prev (kram k) task) 14) (task_next (kram k) task)) k
               else k);
          k = (if task = task_head k then k\<lparr>task_head := task_next (kram k) task\<rparr> else k);
          k = (if task = task_tail k then k\<lparr>task_tail := task_prev (kram k) task\<rparr> else k);
          k = (if task = current_task k then k\<lparr>current_task := task_get_next k\<rparr> else k)
      in k)"

definition task_free :: "u32 \<Rightarrow> kernel \<Rightarrow> int \<times> kernel" where
  "task_free task k =
     (let k = set_km (paging_free_4gb (task_chunk (kram k) task) (km (mm k))) k;
          k = task_list_remove task k;
          k = set_km (kfree task (km (mm k))) k
      in (0, k))"

section \<open>Scheduling\<close>

definition schedule_next_task :: "u32 \<Rightarrow> u32 \<Rightarrow> kernel \<Rightarrow> cpu \<times> kernel" where
  "schedule_next_task esp flags k =
     (let new_task = task_get_next k;
          k = task_switch new_task k
      in (task_return (task_registers new_task) esp flags (kram k), k))"

text \<open>The timer interrupt: \<open>schedule_next_task\<close> leaves the kernel, so \<open>task_page\<close> after it never runs.\<close>

definition isr_0x20_handler :: "u32 \<Rightarrow> u32 \<Rightarrow> interrupt_frame \<Rightarrow> kernel \<Rightarrow> (cpu \<times> kernel) run" where
  "isr_0x20_handler esp flags frame k =
     (let k = kernel_page k in
      case task_current_save_state frame k of
        Inl msg \<Rightarrow> Inl msg
      | Inr k \<Rightarrow> Inr (schedule_next_task esp flags k))"

section \<open>Reading a task's memory\<close>

text \<open>The translation of the directory that is loaded; \<open>None\<close> is a page fault.\<close>

definition user_read32 :: "mem \<Rightarrow> u32 \<Rightarrow> u32 \<Rightarrow> u32 option" where
  "user_read32 m directory a =
     (case (mmu_walk m directory a, mmu_walk m directory (a + 1), mmu_walk m directory (a + 2), mmu_walk m directory (a + 3)) of
        (Some p0, Some p1, Some p2, Some p3) \<Rightarrow>
          Some (ucast (m p0) OR push_bit 8 (ucast (m p1)) OR push_bit 16 (ucast (m p2)) OR push_bit 24 (ucast (m p3)))
      | _ \<Rightarrow> None)"

definition task_get_stack_item :: "u32 \<Rightarrow> u32 \<Rightarrow> kernel \<Rightarrow> (u32 \<times> kernel) option" where
  "task_get_stack_item task index k =
     (let sp_ptr = load32 (kram k) (field task 11);
          k = task_page_task task k
      in case user_read32 (kram k) (cr3 (mm k)) (sp_ptr + index * 4) of
           None \<Rightarrow> None
         | Some result \<Rightarrow> Some (result, kernel_page k))"

definition copy_string_from_task :: "u32 \<Rightarrow> u32 \<Rightarrow> u32 \<Rightarrow> u32 \<Rightarrow> kernel \<Rightarrow> (int \<times> kernel) option" where
  "copy_string_from_task task virt phys_addr mx k =
     (if PAGING_PAGE_SIZE <s mx then Some (-1, k)
      else
        let (tmp, s) = kzalloc mx (km (mm k)); k = set_km s k in
        if tmp = 0 then Some (-1, k)
        else
          let task_directory = paging_4gb_chunk_get_directory (kram k) (task_chunk (kram k) task);
              old_entry = paging_get (kram k) task_directory tmp;
              k = set_ram (snd (paging_map (kram k) task_directory tmp tmp 7)) k;
              k = k\<lparr>mm := paging_switch task_directory (mm k)\<rparr>
          in case strncpy_via (\<lambda>m a. mmu_walk m task_directory a) (kram k) tmp virt mx of
               None \<Rightarrow> None
             | Some m \<Rightarrow>
                 let k = kernel_page (set_ram m k);
                     (res, m) = paging_set (kram k) task_directory tmp old_entry;
                     k = set_ram m k
                 in if res < 0 then Some (-1, set_km (kfree tmp (km (mm k))) k)
                    else Some (1, set_ram (strncpy (kram k) phys_addr tmp mx) k))"

section \<open>Fields of structures\<close>

lemma set_km_simps [simp]:
  "km (mm (set_km s k)) = s" "kernel_chunk (set_km s k) = kernel_chunk k" "current_task (set_km s k) = current_task k"
  "task_head (set_km s k) = task_head k" "task_tail (set_km s k) = task_tail k" "data_segment (set_km s k) = data_segment k"
  "cr3 (mm (set_km s k)) = cr3 (mm k)" "current_directory (mm (set_km s k)) = current_directory (mm k)"
  by (simp_all add: set_km_def)

lemma set_ram_simps [simp]:
  "kram (set_ram m k) = m" "phys (km (mm (set_ram m k))) = phys (km (mm k))"
  "big_blocks (km (mm (set_ram m k))) = big_blocks (km (mm k))"
  "kernel_chunk (set_ram m k) = kernel_chunk k" "current_task (set_ram m k) = current_task k"
  "task_head (set_ram m k) = task_head k" "task_tail (set_ram m k) = task_tail k"
  "cr3 (mm (set_ram m k)) = cr3 (mm k)" "current_directory (mm (set_ram m k)) = current_directory (mm k)"
  by (simp_all add: set_ram_def)

lemma task_return_fields:
  "task_return (task_registers t) esp flags m =
     \<lparr>c_edi = load32 m (field t 1), c_esi = load32 m (field t 2), c_ebp = esp,
      c_ebx = load32 m (field t 4), c_edx = load32 m (field t 5), c_ecx = load32 m (field t 6),
      c_eax = load32 m (field t 7), c_ip = load32 m (field t 8), c_cs = load32 m (field t 9),
      c_flags = flags OR 0x200, c_esp = load32 m (field t 11), c_ss = load32 m (field t 12)\<rparr>"
  by (simp add: task_return_def task_registers_def field_def add.assoc)

text \<open>What \<open>task_return\<close> gives back of an interrupted program: all but \<open>ebp\<close> and the flags.\<close>

definition resumes :: "cpu \<Rightarrow> interrupt_frame \<Rightarrow> bool" where
  "resumes c f \<longleftrightarrow> c_edi c = f_edi f \<and> c_esi c = f_esi f \<and> c_ebx c = f_ebx f \<and> c_edx c = f_edx f \<and>
     c_ecx c = f_ecx f \<and> c_eax c = f_eax f \<and> c_ip c = f_ip f \<and> c_cs c = f_cs f \<and>
     c_esp c = f_esp f \<and> c_ss c = f_ss f"

definition saved :: "mem \<Rightarrow> u32 \<Rightarrow> interrupt_frame \<Rightarrow> bool" where
  "saved m t f \<longleftrightarrow> load32 m (field t 1) = f_edi f \<and> load32 m (field t 2) = f_esi f \<and>
     load32 m (field t 3) = f_ebp f \<and> load32 m (field t 4) = f_ebx f \<and> load32 m (field t 5) = f_edx f \<and>
     load32 m (field t 6) = f_ecx f \<and> load32 m (field t 7) = f_eax f \<and> load32 m (field t 8) = f_ip f \<and>
     load32 m (field t 9) = f_cs f \<and> load32 m (field t 10) = f_flags f \<and> load32 m (field t 11) = f_esp f \<and>
     load32 m (field t 12) = f_ss f"

lemma save_saved: "page_aligned t \<Longrightarrow> saved (task_save_state t f m) t f"
  by (simp add: saved_def task_save_state_def Let_def load_store_field)

lemma save_other:
  assumes "page_aligned t" "page_aligned u" "j < 1024" "u \<noteq> t \<or> j = 0 \<or> 12 < j"
  shows "load32 (task_save_state t f m) (field u j) = load32 m (field u j)"
  using assms by (auto simp: task_save_state_def Let_def load_store_field)

lemma saved_other: "page_aligned t \<Longrightarrow> page_aligned u \<Longrightarrow> u \<noteq> t \<Longrightarrow> saved (task_save_state t f m) u g = saved m u g"
  by (simp add: saved_def save_other)

lemma saved_resumes: "saved m t f \<Longrightarrow> resumes (task_return (task_registers t) esp flags m) f"
  by (simp add: saved_def resumes_def task_return_fields)

section \<open>The list of tasks\<close>

definition forward :: "mem \<Rightarrow> u32 list \<Rightarrow> bool" where
  "forward m ts \<longleftrightarrow> distinct ts \<and> (\<forall>t \<in> set ts. page_aligned t \<and> t \<noteq> 0) \<and>
     (\<forall>i < length ts. task_next m (ts ! i) = (if Suc i < length ts then ts ! Suc i else 0))"

definition backward :: "mem \<Rightarrow> u32 list \<Rightarrow> bool" where
  "backward m ts \<longleftrightarrow> (\<forall>i < length ts. task_prev m (ts ! i) = (if i = 0 then 0 else ts ! (i - 1)))"

definition list_ends :: "kernel \<Rightarrow> u32 list \<Rightarrow> bool" where
  "list_ends k ts \<longleftrightarrow> task_head k = (if ts = [] then 0 else hd ts) \<and> task_tail k = (if ts = [] then 0 else last ts)"

definition task_list :: "kernel \<Rightarrow> u32 list \<Rightarrow> bool" where
  "task_list k ts \<longleftrightarrow> forward (kram k) ts \<and> backward (kram k) ts \<and> list_ends k ts"

lemma get_next_cyclic:
  assumes "forward (kram k) ts" and "list_ends k ts" and "i < length ts" and "current_task k = ts ! i"
  shows "task_get_next k = ts ! (Suc i mod length ts)"
proof (cases "Suc i < length ts")
  case True
  then have "ts ! Suc i \<noteq> 0" using assms(1) by (auto simp: forward_def)
  then show ?thesis using assms True by (simp add: task_get_next_def forward_def)
next
  case False
  then have "Suc i = length ts" using assms(3) by simp
  moreover have "ts \<noteq> []" using assms(3) by auto
  ultimately show ?thesis
    using assms by (simp add: task_get_next_def forward_def list_ends_def hd_conv_nth)
qed

text \<open>The links read only words 14 and 15, so whatever keeps these keeps the list.\<close>

lemma task_list_cong:
  assumes "\<And>t. t \<in> set ts \<Longrightarrow> task_next m' t = task_next m t \<and> task_prev m' t = task_prev m t"
  shows "forward m' ts = forward m ts" "backward m' ts = backward m ts"
  using assms by (auto simp: forward_def backward_def)

lemma task_list_aligned: "task_list k ts \<Longrightarrow> u \<in> set ts \<Longrightarrow> page_aligned u"
  by (simp add: task_list_def forward_def)

lemma same_page_regs: "same_page m m' u \<Longrightarrow> j < 14 \<Longrightarrow> load32 m' (field u j) = load32 m (field u j)"
  by (rule same_page_load) (auto elim: order.strict_trans)

lemma task_list_pages:
  assumes "task_list k ts" and same: "\<And>u. u \<in> set ts \<Longrightarrow> same_page (kram k) (kram k') u"
    and "task_head k' = task_head k" "task_tail k' = task_tail k"
  shows "task_list k' ts"
proof -
  have "task_next (kram k') u = task_next (kram k) u \<and> task_prev (kram k') u = task_prev (kram k) u" if "u \<in> set ts" for u
    using same_page_load [OF same [OF that]] by (simp add: task_next_def task_prev_def)
  from task_list_cong [of ts "kram k'" "kram k", OF this] show ?thesis
    using assms(1,3,4) by (simp add: task_list_def list_ends_def)
qed

lemma task_switch_simps [simp]:
  "kram (task_switch t k) = kram k" "km (mm (task_switch t k)) = km (mm k)" "current_task (task_switch t k) = t"
  "task_head (task_switch t k) = task_head k" "task_tail (task_switch t k) = task_tail k"
  "kernel_chunk (task_switch t k) = kernel_chunk k"
  "cr3 (mm (task_switch t k)) = load32 (kram k) (task_chunk (kram k) t)"
  "current_directory (mm (task_switch t k)) = load32 (kram k) (task_chunk (kram k) t)"
  by (simp_all add: task_switch_def paging_switch_def paging_load_directory_def paging_4gb_chunk_get_directory_def)

lemma kernel_page_simps [simp]:
  "kram (kernel_page k) = kram k" "km (mm (kernel_page k)) = km (mm k)" "current_task (kernel_page k) = current_task k"
  "task_head (kernel_page k) = task_head k" "task_tail (kernel_page k) = task_tail k"
  "kernel_chunk (kernel_page k) = kernel_chunk k"
  by (simp_all add: kernel_page_def kernel_registers_def paging_switch_def paging_load_directory_def Let_def)

section \<open>The timer\<close>

text \<open>One tick on a well-formed list with a current task.\<close>

lemma tick:
  assumes "task_list k ts" and "i < length ts" and "current_task k = ts ! i"
  shows "\<exists>k'. isr_0x20_handler esp flags f k =
      Inr (task_return (task_registers (ts ! (Suc i mod length ts))) esp flags (kram k'), k') \<and>
    kram k' = task_save_state (ts ! i) f (kram k) \<and> task_list k' ts \<and>
    current_task k' = ts ! (Suc i mod length ts) \<and>
    cr3 (mm k') = load32 (kram k') (task_chunk (kram k') (ts ! (Suc i mod length ts)))"
proof -
  let ?t = "ts ! i" and ?m = "task_save_state (ts ! i) f (kram k)"
  let ?k = "set_ram ?m (kernel_page k)"
  have fw: "forward (kram k) ts" "backward (kram k) ts" "list_ends k ts" using assms(1) by (simp_all add: task_list_def)
  have t: "?t \<in> set ts" "?t \<noteq> 0" "page_aligned ?t" using assms(2) fw(1) by (auto simp: forward_def)
  have pa: "page_aligned u" if "u \<in> set ts" for u using fw(1) that by (simp add: forward_def)
  have "forward ?m ts = forward (kram k) ts" "backward ?m ts = backward (kram k) ts"
    using t(3) pa by (auto intro!: task_list_cong simp: task_next_def task_prev_def save_other)
  then have list: "forward (kram ?k) ts" "list_ends ?k ts" "backward (kram ?k) ts"
    using fw by (simp_all add: list_ends_def)
  have "task_get_next ?k = ts ! (Suc i mod length ts)"
    using get_next_cyclic [OF list(1,2) assms(2)] assms(3) by simp
  then have "isr_0x20_handler esp flags f k =
      Inr (task_return (task_registers (ts ! (Suc i mod length ts))) esp flags ?m, task_switch (ts ! (Suc i mod length ts)) ?k)"
    using t(2) assms(3)
    by (simp add: isr_0x20_handler_def task_current_save_state_def schedule_next_task_def Let_def)
  then show ?thesis
    using list by (intro exI [of _ "task_switch (ts ! (Suc i mod length ts)) ?k"])
      (simp add: task_list_def list_ends_def)
qed

text \<open>A sequence of timer interrupts; each brings the frame of the program that was running.\<close>

fun ticks :: "(u32 \<times> u32 \<times> interrupt_frame) list \<Rightarrow> kernel \<Rightarrow> (cpu list \<times> kernel) run" where
  "ticks [] k = Inr ([], k)"
| "ticks ((esp, flags, frame) # fs) k =
     (case isr_0x20_handler esp flags frame k of
        Inl msg \<Rightarrow> Inl msg
      | Inr (c, k) \<Rightarrow>
          (case ticks fs k of
             Inl msg \<Rightarrow> Inl msg
           | Inr (cs, k) \<Rightarrow> Inr (c # cs, k)))"

lemma ticks_result:
  assumes "task_list k ts" and "i < length ts" and "current_task k = ts ! i"
  shows "\<exists>cs k'. ticks fs k = Inr (cs, k') \<and> length cs = length fs \<and> task_list k' ts \<and>
    current_task k' = ts ! ((i + length fs) mod length ts)"
  using assms
proof (induction fs arbitrary: k i)
  case Nil
  then show ?case by simp
next
  case (Cons e fs)
  obtain esp flags f where e: "e = (esp, flags, f)" by (cases e)
  obtain k1 where k1: "isr_0x20_handler esp flags f k =
      Inr (task_return (task_registers (ts ! (Suc i mod length ts))) esp flags (kram k1), k1)"
    "task_list k1 ts" "current_task k1 = ts ! (Suc i mod length ts)"
    using tick [OF Cons.prems, of esp flags f] by blast
  have "Suc i mod length ts < length ts" using Cons.prems(2) by (intro mod_less_divisor) linarith
  from Cons.IH [OF k1(2) this k1(3)] obtain cs k' where k':
    "ticks fs k1 = Inr (cs, k')" "length cs = length fs" "task_list k' ts"
    "current_task k' = ts ! ((Suc i mod length ts + length fs) mod length ts)" by blast
  have "(Suc i mod length ts + length fs) mod length ts = (i + length (e # fs)) mod length ts"
    by (simp add: mod_simps)
  then show ?case using k' k1(1) by (simp add: e)
qed

text \<open>The two registers that come from the kernel.\<close>

lemma ticks_last:
  "ticks fs k = Inr (cs, k') \<Longrightarrow> length cs = length fs \<and>
    (fs \<noteq> [] \<longrightarrow> c_ebp (last cs) = fst (last fs) \<and> c_flags (last cs) = fst (snd (last fs)) OR 0x200)"
proof (induction fs arbitrary: k cs)
  case (Cons e fs)
  then show ?case
    by (cases e) (fastforce simp: isr_0x20_handler_def schedule_next_task_def task_return_def Let_def
        split: sum.splits prod.splits if_splits)
qed simp

text \<open>What was saved for a task comes back when its turn comes.\<close>

lemma resumed_later:
  assumes "task_list k ts" and "i < length ts" and "current_task k = ts ! i"
    and "0 < d" and "d < length ts" and "saved (kram k) (ts ! ((i + d) mod length ts)) g"
    and "ticks fs k = Inr (cs, k')" and "d \<le> length fs"
  shows "resumes (cs ! (d - 1)) g"
  using assms
proof (induction d arbitrary: k i fs cs)
  case (Suc d)
  obtain esp flags f fs' where fs: "fs = (esp, flags, f) # fs'"
    using Suc.prems(8) by (cases fs) auto
  let ?n = "length ts" and ?i = "Suc i mod length ts"
  obtain k1 where k1: "isr_0x20_handler esp flags f k =
      Inr (task_return (task_registers (ts ! ?i)) esp flags (kram k1), k1)"
    "kram k1 = task_save_state (ts ! i) f (kram k)" "task_list k1 ts" "current_task k1 = ts ! ?i"
    using tick [OF Suc.prems(1-3), of esp flags f] by blast
  obtain cs' where cs': "ticks fs' k1 = Inr (cs', k')"
    "cs = task_return (task_registers (ts ! ?i)) esp flags (kram k1) # cs'"
    using Suc.prems(7) k1(1) by (auto simp: fs split: sum.splits)
  have il: "?i < ?n" using Suc.prems(2) by (intro mod_less_divisor) linarith
  have idx: "(?i + d) mod ?n = (i + Suc d) mod ?n" by (simp add: mod_simps)
  have tl: "(i + Suc d) mod ?n < ?n" using Suc.prems(2) by (intro mod_less_divisor) linarith
  have "(i + Suc d) mod ?n \<noteq> i"
  proof
    assume "(i + Suc d) mod ?n = i"
    then have "(i + Suc d) mod ?n = i mod ?n" using Suc.prems(2) by simp
    then have "?n dvd Suc d" by (metis add_diff_cancel_left' mod_eq_dvd_iff_nat le_add1)
    with Suc.prems(5) show False by (auto dest: dvd_imp_le)
  qed
  then have ne: "ts ! ((i + Suc d) mod ?n) \<noteq> ts ! i"
    using Suc.prems(1,2) tl by (simp add: task_list_def forward_def nth_eq_iff_index_eq)
  have pa: "page_aligned (ts ! j)" if "j < ?n" for j
    using Suc.prems(1) that by (simp add: task_list_def forward_def)
  have keep: "saved (kram k1) (ts ! ((i + Suc d) mod ?n)) g"
    using saved_other [OF pa [OF Suc.prems(2)] pa [OF tl] ne] Suc.prems(6) by (simp add: k1(2))
  show ?case
  proof (cases "d = 0")
    case True
    then show ?thesis using saved_resumes [OF keep] by (simp add: cs'(2))
  next
    case False
    have "resumes (cs' ! (d - 1)) g"
      using Suc.IH [OF k1(3) il k1(4) _ _ _ cs'(1)] False Suc.prems(5,8) keep by (simp add: idx fs)
    then show ?thesis using False by (simp add: cs'(2) nth_Cons')
  qed
qed simp

section \<open>Correctness of scheduling\<close>

text \<open>C10: Round-robin scheduling. From a well-formed list of tasks with a current task, every sequence of timer interrupts is handled
  without a panic, keeps the list, and makes the running task move through the list cyclically, one task a tick: after \<open>m\<close> ticks it
  is the one \<open>m\<close> places on, so each of the \<open>n\<close> tasks runs once in every \<open>n\<close> ticks.\<close>

theorem timer_round_robin:
  assumes "task_list k ts" and "i < length ts" and "current_task k = ts ! i"
  shows "(\<exists>cs k'. ticks fs k = Inr (cs, k') \<and> length cs = length fs \<and> task_list k' ts \<and>
      current_task k' = ts ! ((i + length fs) mod length ts)) \<and>
    (\<forall>t \<in> set ts. \<exists>d < length ts. t = ts ! ((i + d) mod length ts))"
proof (intro conjI ballI)
  fix t assume "t \<in> set ts"
  then obtain j where j: "j < length ts" "t = ts ! j" by (auto simp: in_set_conv_nth)
  let ?d = "(j + length ts - i) mod length ts"
  have "(i + ?d) mod length ts = (i + (j + length ts - i)) mod length ts" by (simp add: mod_simps)
  also have "\<dots> = j" using assms(2) j(1) by simp
  finally have "t = ts ! ((i + ?d) mod length ts)" using j(2) by simp
  moreover have "?d < length ts" using assms(2) by (intro mod_less_divisor) linarith
  ultimately show "\<exists>d < length ts. t = ts ! ((i + d) mod length ts)" by blast
qed (rule ticks_result [OF assms])

text \<open>A task saved at the first tick is resumed with its frame at the last one of the round.\<close>

lemma resumed_after_round:
  assumes list: "task_list k1 ts" and i: "i < length ts" and cur: "current_task k1 = ts ! (Suc i mod length ts)"
    and sv: "saved (kram k1) (ts ! i) f" and r: "ticks fs' k1 = Inr (cs', k')" "length cs' = length fs'"
    and len: "length ts = Suc (length fs')"
  shows "resumes (last (task_return (task_registers (ts ! (Suc i mod length ts))) esp0 flags0 (kram k1) # cs')) f"
proof (cases fs' rule: rev_cases)
  case Nil
  then have "Suc i mod length ts = i" using i len by simp
  then show ?thesis using saved_resumes [OF sv] r Nil by simp
next
  case (snoc ys y)
  let ?n = "length ts"
  have il: "Suc i mod ?n < ?n" using i by (intro mod_less_divisor) linarith
  have "(Suc i mod ?n + length fs') mod ?n = (Suc i + length fs') mod ?n" by (simp add: mod_simps)
  also have "Suc i + length fs' = i + ?n" using len by simp
  also have "(i + ?n) mod ?n = i" using i by simp
  finally have "resumes (cs' ! (length fs' - 1)) f"
    using resumed_later [OF list il cur _ _ _ r(1), of "length fs'" f] sv len snoc by simp
  moreover have "cs' \<noteq> []" using snoc r(2) by auto
  ultimately show ?thesis using r(2) by (simp add: last_conv_nth)
qed

text \<open>C17: Preemption preserves a program's registers. With \<open>n\<close> tasks, the frame with which a task is interrupted is exactly what it resumes
  with after \<open>n\<close> ticks, whatever frames the other tasks were interrupted with, in every register but two: \<open>ebp\<close> comes back as the
  kernel's stack pointer and the flags as the kernel's own.\<close>

theorem timer_preserves_context:
  assumes "task_list k ts" and "i < length ts" and "current_task k = ts ! i"
    and "length fs = length ts" and "fs ! 0 = (esp0, flags0, f)" and "last fs = (esp, flags, f')"
  shows "\<exists>cs k'. ticks fs k = Inr (cs, k') \<and> current_task k' = ts ! i \<and> resumes (last cs) f \<and>
    c_ebp (last cs) = esp \<and> c_flags (last cs) = flags OR 0x200"
proof -
  obtain fs' where fs: "fs = (esp0, flags0, f) # fs'" using assms(2,4,5) by (cases fs) auto
  have len: "length ts = Suc (length fs')" using assms(4) fs by simp
  obtain cs k' where r: "ticks fs k = Inr (cs, k')" "length cs = length fs"
    "current_task k' = ts ! ((i + length fs) mod length ts)"
    using ticks_result [OF assms(1-3), of fs] by blast
  let ?c = "\<lambda>k1. task_return (task_registers (ts ! (Suc i mod length ts))) esp0 flags0 (kram k1)"
  obtain k1 where k1: "isr_0x20_handler esp0 flags0 f k = Inr (?c k1, k1)"
    "kram k1 = task_save_state (ts ! i) f (kram k)" "task_list k1 ts" "current_task k1 = ts ! (Suc i mod length ts)"
    using tick [OF assms(1-3), of esp0 flags0 f] by blast
  obtain cs' where cs': "ticks fs' k1 = Inr (cs', k')" "cs = ?c k1 # cs'"
    using r(1) k1(1) by (auto simp: fs split: sum.splits)
  have "page_aligned (ts ! i)" using assms(1,2) by (simp add: task_list_def forward_def)
  from save_saved [OF this] have "saved (kram k1) (ts ! i) f" by (simp add: k1(2))
  from resumed_after_round [OF k1(3) assms(2) k1(4) this cs'(1) _ len] have "resumes (last cs) f" using r(2) cs'(2) fs by simp
  moreover have "current_task k' = ts ! i" using r(3) assms(2,4) by simp
  moreover have "c_ebp (last cs) = esp \<and> c_flags (last cs) = flags OR 0x200" using ticks_last [OF r(1)] assms(6) fs by simp
  ultimately show ?thesis using r(1) by blast
qed

text \<open>Two tasks at \<open>0x10000\<close> and \<open>0x20000\<close>, the first one running.\<close>

definition two_tasks_ram :: mem where
  "two_tasks_ram = store32 (store32 (store32 (store32 (\<lambda>_. 0) (field 0x10000 14) 0x20000) (field 0x10000 15) 0)
     (field 0x20000 14) 0) (field 0x20000 15) 0x10000"

definition two_tasks :: kernel where
  "two_tasks = \<lparr>mm = vm_boot\<lparr>km := kmem_boot\<lparr>ram := two_tasks_ram\<rparr>\<rparr>, kernel_chunk = 0x30000,
     current_task = 0x10000, task_head = 0x10000, task_tail = 0x20000, data_segment = 0x10\<rparr>"

lemma two_tasks_list: "task_list two_tasks [0x10000, 0x20000]"
proof -
  have pa: "page_aligned 0x10000" "page_aligned 0x20000" by (simp_all add: page_aligned_def)
  have m: "kram two_tasks = two_tasks_ram" by (simp add: two_tasks_def)
  have n: "task_next two_tasks_ram 0x10000 = 0x20000" "task_next two_tasks_ram 0x20000 = 0"
    "task_prev two_tasks_ram 0x10000 = 0" "task_prev two_tasks_ram 0x20000 = 0x10000"
    using pa by (simp_all add: task_next_def task_prev_def two_tasks_ram_def load_store_field)
  show ?thesis
    unfolding task_list_def forward_def backward_def list_ends_def m
    using pa n by (auto simp: two_tasks_def less_Suc_eq)
qed

definition demo_frame :: "u32 \<Rightarrow> interrupt_frame" where
  "demo_frame x = \<lparr>f_edi = x, f_esi = 2, f_ebp = 3, f_reserved = 4, f_ebx = 5, f_edx = 6, f_ecx = 7, f_eax = 8,
     f_ip = 9, f_cs = 0x1b, f_flags = 11, f_esp = 12, f_ss = 0x23\<rparr>"

lemma timer_round_robin_witness:
  "\<exists>cs k'. ticks [(0, 0, demo_frame 1), (0, 0, demo_frame 2), (0, 0, demo_frame 3)] two_tasks = Inr (cs, k') \<and>
    current_task k' = 0x20000"
proof -
  have "0 < length [0x10000, 0x20000 :: u32]" "current_task two_tasks = [0x10000, 0x20000] ! 0"
    by (simp_all add: two_tasks_def)
  from timer_round_robin [OF two_tasks_list this, of "[(0, 0, demo_frame 1), (0, 0, demo_frame 2), (0, 0, demo_frame 3)]",
      THEN conjunct1]
  obtain cs k' where r: "ticks [(0, 0, demo_frame 1), (0, 0, demo_frame 2), (0, 0, demo_frame 3)] two_tasks = Inr (cs, k')"
    and c: "current_task k' = [0x10000, 0x20000] !
      ((0 + length [(0, 0, demo_frame 1), (0, 0, demo_frame 2), (0 :: u32, 0 :: u32, demo_frame 3)]) mod
        length [0x10000, 0x20000 :: u32])" by blast
  from c have "current_task k' = 0x20000" by (simp add: mod_Suc)
  with r show ?thesis by blast
qed

lemma timer_preserves_context_witness:
  "\<exists>cs k'. ticks [(0, 0, demo_frame 77), (0x600000, 2, demo_frame 2)] two_tasks = Inr (cs, k') \<and>
    c_edi (last cs) = 77 \<and> c_ebp (last cs) = 0x600000"
proof -
  have "\<exists>cs k'. ticks [(0, 0, demo_frame 77), (0x600000, 2, demo_frame 2)] two_tasks = Inr (cs, k') \<and>
    current_task k' = [0x10000, 0x20000] ! 0 \<and> resumes (last cs) (demo_frame 77) \<and>
    c_ebp (last cs) = 0x600000 \<and> c_flags (last cs) = 2 OR 0x200"
    by (rule timer_preserves_context [OF two_tasks_list]) (simp_all add: two_tasks_def)
  then show ?thesis by (auto simp: resumes_def demo_frame_def)
qed

end
