(* ===== verification/Spawn.thy ===== *)
theory Spawn imports Task
begin

text \<open>
  Creating and removing tasks: what \<open>task_new\<close> and \<open>task_free\<close> of \<open>src/src/task/task.c\<close> leave behind. A new
  task is a fresh page at the end of the list, with an address space of its own whose 1026 pages no
  one else uses.
\<close>

section \<open>Pages that are left alone\<close>

lemma identity_map_cong:
  assumes "identity_map d fl m" and "\<And>i. i < 1024 \<Longrightarrow> load32 m' (d + i * 4) = load32 m (d + i * 4)"
    and "\<And>i j. i < 1024 \<Longrightarrow> j < 1024 \<Longrightarrow> load32 m' (table_of m d i + j * 4) = load32 m (table_of m d i + j * 4)"
  shows "identity_map d fl m'"
proof -
  have T: "table_of m' d i = table_of m d i" if "i < 1024" for i
    using assms(2) [OF that] by (simp add: table_of_def)
  have "paging_get m' d a = paging_get m d a" if "page_aligned a" for a
    using that assms(3) by (simp add: paging_get_aligned T dir_index_less tab_index_less)
  moreover have "wf_directory d m'" using assms(1) by (auto simp: identity_map_def wf_directory_def T)
  ultimately show ?thesis using assms(1,2) T by (auto simp: identity_map_def)
qed

section \<open>A new task\<close>

text \<open>The registers and links of a freshly initialised task.\<close>

definition fresh_task :: "mem \<Rightarrow> u32 \<Rightarrow> u32 \<Rightarrow> u32 \<Rightarrow> bool" where
  "fresh_task m t chunk process \<longleftrightarrow> task_chunk m t = chunk \<and> load32 m (field t 8) = PROGRAM_VIRTUAL_ADDRESS \<and>
     load32 m (field t 9) = USER_CODE_SEGMENT \<and> load32 m (field t 11) = PROGRAM_VIRTUAL_STACK_ADDRESS_START \<and>
     load32 m (field t 12) = USER_DATA_SEGMENT \<and> load32 m (field t 13) = process \<and>
     (\<forall>i \<in> {1, 2, 3, 4, 5, 6, 7, 10}. load32 m (field t i) = 0)"

text \<open>An address space of the kernel: an identity map whose pages are all in use, outside a given set.\<close>

definition own_space :: "kmem \<Rightarrow> u32 \<Rightarrow> u32 \<Rightarrow> u32 set \<Rightarrow> bool" where
  "own_space s chunk fl K \<longleftrightarrow> (\<exists>d. load32 (ram s) (field chunk 0) = d \<and> identity_map d fl (ram s) \<and>
     page_aligned chunk \<and> chunk \<noteq> d \<and> (\<forall>i < 1024. table_of (ram s) d i \<noteq> chunk) \<and>
     {chunk, d} \<union> table_of (ram s) d ` {i. i < 1024} \<subseteq> owned_pages (phys s) - K)"

text \<open>The same without a condition on what the tables map: a directory with tables of its own, on pages that are all in use. It is all
  that giving the pages back needs, and it holds of an address space in which a program has been mapped.\<close>

definition task_space :: "kmem \<Rightarrow> u32 \<Rightarrow> u32 set \<Rightarrow> bool" where
  "task_space s chunk K \<longleftrightarrow> (\<exists>d. load32 (ram s) chunk = d \<and> wf_directory d (ram s) \<and>
     chunk \<noteq> d \<and> (\<forall>i < 1024. table_of (ram s) d i \<noteq> chunk) \<and>
     {chunk, d} \<union> table_of (ram s) d ` {i. i < 1024} \<subseteq> owned_pages (phys s) - K)"

lemma own_task_space: "own_space s chunk fl K \<Longrightarrow> task_space s chunk K"
  by (auto simp: own_space_def task_space_def identity_map_def field_def)

text \<open>Whatever leaves the pages of an address space alone, and in use, leaves the address space intact.\<close>

lemma own_space_cong:
  assumes "own_space s chunk fl K" and "pmm_inv (phys s)"
    and "\<And>u. u \<in> owned_pages (phys s) - K \<Longrightarrow> same_page (ram s) (ram s') u"
    and "owned_pages (phys s) - K \<subseteq> owned_pages (phys s') - K'"
  shows "own_space s' chunk fl K'"
proof -
  obtain d where d: "load32 (ram s) (field chunk 0) = d" "identity_map d fl (ram s)" "page_aligned chunk"
    "{chunk, d} \<union> table_of (ram s) d ` {i. i < 1024} \<subseteq> owned_pages (phys s) - K"
    "chunk \<noteq> d" "\<forall>i < 1024. table_of (ram s) d i \<noteq> chunk"
    using assms(1) by (auto simp: own_space_def)
  have l: "load32 (ram s') (field u i) = load32 (ram s) (field u i)"
    if "u \<in> {chunk, d} \<union> table_of (ram s) d ` {i. i < 1024}" "i < 1024" for u i
    using same_page_load [OF assms(3) that(2)] d(4) that(1) by auto
  then have l': "\<And>i. i < 1024 \<Longrightarrow> load32 (ram s') (d + i * 4) = load32 (ram s) (d + i * 4)"
    "\<And>i b. i < 1024 \<Longrightarrow> b < 1024 \<Longrightarrow> load32 (ram s') (table_of (ram s) d i + b * 4) = load32 (ram s) (table_of (ram s) d i + b * 4)"
    by (auto simp: field_def)
  from identity_map_cong [OF d(2) l'] have "identity_map d fl (ram s')" .
  moreover have "table_of (ram s') d ` {i. i < 1024} = table_of (ram s) d ` {i. i < 1024}"
    using l'(1) by (auto simp: table_of_def)
  moreover have "load32 (ram s') (field chunk 0) = d" using l [of chunk 0] d(1) by simp
  ultimately show ?thesis using d(3-6) l'(1) assms(4) by (auto simp: own_space_def table_of_def)
qed

section \<open>Initialising a task\<close>

lemma task_init_ok:
  assumes inv: "pmm_inv (phys (km (mm k)))" and free: "1026 \<le> unat (pmm_free_blocks (phys (km (mm k))))"
    and t: "t \<in> owned_pages (phys (km (mm k)))"
  shows "\<exists>chunk k'. task_init t process k = (0, k') \<and> fresh_task (kram k') t chunk process \<and>
    task_next (kram k') t = 0 \<and> task_prev (kram k') t = 0 \<and>
    own_space (km (mm k')) chunk 5 (owned_pages (phys (km (mm k)))) \<and> pmm_inv (phys (km (mm k'))) \<and>
    owned_pages (phys (km (mm k))) \<subseteq> owned_pages (phys (km (mm k'))) \<and>
    big_blocks (km (mm k')) = big_blocks (km (mm k)) \<and>
    unat (pmm_free_blocks (phys (km (mm k)))) = 1026 + unat (pmm_free_blocks (phys (km (mm k')))) \<and>
    (\<forall>u \<in> owned_pages (phys (km (mm k))). u \<noteq> t \<longrightarrow> same_page (kram k) (kram k') u) \<and>
    k' = k\<lparr>mm := mm k'\<rparr> \<and> cr3 (mm k') = cr3 (mm k) \<and> current_directory (mm k') = current_directory (mm k)"
proof -
  let ?O = "owned_pages (phys (km (mm k)))"
  let ?k1 = "set_ram (memset (kram k) t 0 64) k"
  have pa: "page_aligned u" if "u \<in> ?O" for u using owned_page_aligned [OF inv that] .
  have five: "ucast (5 :: u8) = (5 :: u32)" by simp
  from new_4gb_success [of "mm ?k1" 5] inv free obtain chunk d v where
    new: "paging_new_4gb 5 (mm ?k1) = (chunk, v)" "chunk \<noteq> 0" "load32 (ram (km v)) chunk = d"
      "identity_map d 5 (ram (km v))" "pmm_inv (phys (km v))"
      "owned_pages (phys (km v)) = {chunk, d} \<union> table_of (ram (km v)) d ` {i. i < 1024} \<union> ?O"
      "({chunk, d} \<union> table_of (ram (km v)) d ` {i. i < 1024}) \<inter> ?O = {}" 
      "unat (pmm_free_blocks (phys (km (mm k)))) = 1026 + unat (pmm_free_blocks (phys (km v)))"
      "\<forall>x. (\<forall>q \<in> owned_pages (phys (km v)) - ?O. 4096 \<le> x - q) \<longrightarrow> ram (km v) x = memset (kram k) t 0 64 x"
      "v = (mm ?k1)\<lparr>km := (km (mm ?k1))\<lparr>phys := phys (km v), ram := ram (km v)\<rparr>, for_one_time := for_one_time (mm ?k1) - 1\<rparr>"
      "chunk \<noteq> d" "\<forall>i < 1024. table_of (ram (km v)) d i \<noteq> chunk"
    by (auto simp: five)
  let ?m = "store32 (ram (km v)) (field t 0) chunk"
  let ?f = "store32 (store32 (store32 (store32 (store32 ?m (field t 8) PROGRAM_VIRTUAL_ADDRESS)
    (field t 12) USER_DATA_SEGMENT) (field t 9) USER_CODE_SEGMENT) (field t 11) PROGRAM_VIRTUAL_STACK_ADDRESS_START)
    (field t 13) process"
  let ?k = "k\<lparr>mm := v\<lparr>km := (km v)\<lparr>ram := ?f\<rparr>\<rparr>\<rparr>"
  have run: "task_init t process k = (0, ?k)"
    using new(1,2) by (simp add: task_init_def set_ram_def set_km_def)
  have old: "same_page (memset (kram k) t 0 64) (ram (km v)) u" if u: "u \<in> ?O" for u
    unfolding same_page_def
  proof (intro allI impI)
    fix x assume x: "x - u < 4096"
    have "4096 \<le> x - q" if q: "q \<in> owned_pages (phys (km v)) - ?O" for q
      using other_page_far [OF pa [OF u] owned_page_aligned [OF new(5)] _ x] q u by blast
    then show "ram (km v) x = memset (kram k) t 0 64 x" using new(9) by blast
  qed
  have f: "same_page (ram (km v)) ?f u" if "page_aligned u" "u \<noteq> t" for u
    by (intro same_page_trans [OF _ store_same_page] store_same_page pa t that) auto
  have zero: "load32 (ram (km v)) (field t j) = 0" if "j < 16" for j
    using same_page_load [OF old [OF t], of j] memset_zero_field [OF pa [OF t] that] that by (simp add: word_less_nat_alt)
  have "fresh_task ?f t chunk process" "task_next ?f t = 0" "task_prev ?f t = 0"
    using pa [OF t] zero by (simp_all add: fresh_task_def task_chunk_def task_next_def task_prev_def load_store_field)
  moreover have "own_space (km v) chunk 5 ?O"
    unfolding own_space_def using new(3,4,6,7,11,12) owned_page_aligned [OF new(5), of chunk]
    by (intro exI [of _ d]) (auto simp: field_def)
  then have "own_space (km (mm ?k)) chunk 5 ?O"
    using new(5) f t owned_page_aligned [OF new(5)] by (rule_tac own_space_cong) auto
  moreover have "same_page (kram k) ?f u" if "u \<in> ?O" "u \<noteq> t" for u
    using that pa t by (intro same_page_trans [OF same_page_trans [OF memset_same_page old] f]) auto
  moreover have "?O \<subseteq> owned_pages (phys (km v))" using new(6) by blast
  ultimately show ?thesis
    using run new(5,8) arg_cong [OF new(10), of cr3] arg_cong [OF new(10), of current_directory]
      arg_cong [OF new(10), of "\<lambda>v. big_blocks (km v)"]
    by (intro exI [of _ chunk] exI [of _ ?k]) (auto simp: set_ram_def set_km_def)
qed

section \<open>Appending to the list\<close>

text \<open>How \<open>task_new\<close> puts a task at the end of the list.\<close>

abbreviation appended :: "u32 \<Rightarrow> kernel \<Rightarrow> kernel" where
  "appended t k \<equiv> (if task_head k = 0 then k\<lparr>task_head := t, task_tail := t, current_task := t\<rparr>
     else (set_ram (store32 (store32 (kram k) (field (task_tail k) 14) t) (field t 15) (task_tail k)) k)\<lparr>task_tail := t\<rparr>)"

lemma task_list_append:
  assumes "task_list k ts" and "t \<notin> set ts" "t \<noteq> 0" "page_aligned t"
    and "task_next (kram k) t = 0" "task_prev (kram k) t = 0"
  shows "task_list (appended t k) (ts @ [t])"
proof (cases "ts = []")
  case True
  then show ?thesis using assms by (auto simp: task_list_def forward_def backward_def list_ends_def)
next
  case False
  let ?l = "last ts" and ?m = "store32 (store32 (kram k) (field (last ts) 14) t) (field t 15) (last ts)"
  have fw: "forward (kram k) ts" "backward (kram k) ts" "list_ends k ts" using assms(1) by (simp_all add: task_list_def)
  have ends: "task_head k \<noteq> 0" "task_head k = hd ts" "task_tail k = ?l"
    using fw False by (auto simp: list_ends_def forward_def)
  have pa: "page_aligned u" if "u \<in> set ts" for u using fw(1) that by (simp add: forward_def)
  have l: "?l \<in> set ts" "?l \<noteq> t" using False assms(2) by auto
  have m: "task_next ?m u = (if u = ?l then t else task_next (kram k) u)"
    "task_prev ?m u = (if u = t then ?l else task_prev (kram k) u)" if "page_aligned u" for u
    using pa [OF l(1)] assms(4) that l(2) by (auto simp: task_next_def task_prev_def load_store_field)
  have "forward ?m (ts @ [t])"
    unfolding forward_def
  proof (intro conjI allI impI)
    fix i assume i: "i < length (ts @ [t])"
    show "task_next ?m ((ts @ [t]) ! i) = (if Suc i < length (ts @ [t]) then (ts @ [t]) ! Suc i else 0)"
    proof (cases "i < length ts")
      case True
      then have "ts ! i = ?l \<longleftrightarrow> Suc i = length ts"
        using fw(1) False by (auto simp: last_conv_nth forward_def nth_eq_iff_index_eq)
      then show ?thesis using True fw(1) m(1) [OF pa [OF nth_mem [OF True]]] by (auto simp: nth_append forward_def)
    next
      case False
      then show ?thesis using i m(1) [OF assms(4)] l(2) assms(5) by (simp add: nth_append)
    qed
  qed (use fw(1) assms(2-4) in \<open>auto simp: forward_def\<close>)
  moreover have "backward ?m (ts @ [t])"
    unfolding backward_def
  proof (intro allI impI)
    fix i assume i: "i < length (ts @ [t])"
    show "task_prev ?m ((ts @ [t]) ! i) = (if i = 0 then 0 else (ts @ [t]) ! (i - 1))"
    proof (cases "i < length ts")
      case True
      then have "ts ! i \<noteq> t" using assms(2) nth_mem by metis
      then show ?thesis
        using True fw(2) m(2) [OF pa [OF nth_mem [OF True]]] by (auto simp: nth_append backward_def)
    next
      case i': False
      then have "i = length ts" using i by simp
      then show ?thesis using m(2) [OF assms(4)] False by (simp add: nth_append last_conv_nth)
    qed
  qed
  ultimately show ?thesis using ends False by (simp add: task_list_def list_ends_def)
qed

text \<open>Only links of \<open>t\<close> and of the old tail change.\<close>

lemma appended_frame:
  assumes list: "task_list k ts" and t: "page_aligned t" and pa: "\<forall>u \<in> set ts. page_aligned u"
  shows "phys (km (mm (appended t k))) = phys (km (mm k))" "big_blocks (km (mm (appended t k))) = big_blocks (km (mm k))"
    "kernel_chunk (appended t k) = kernel_chunk k" "current_task (appended t k) = (if ts = [] then t else current_task k)"
    "\<And>u. page_aligned u \<Longrightarrow> u \<noteq> t \<Longrightarrow> u \<notin> set ts \<Longrightarrow> same_page (kram k) (kram (appended t k)) u"
    "\<And>u j. page_aligned u \<Longrightarrow> j < 14 \<Longrightarrow> load32 (kram (appended t k)) (field u j) = load32 (kram k) (field u j)"
proof -
  have empty: "task_head k = 0 \<longleftrightarrow> ts = []"
    using list by (auto simp: task_list_def list_ends_def forward_def)
  have tail: "task_tail k \<in> set ts" if "task_head k \<noteq> 0"
    using that empty list by (simp add: task_list_def list_ends_def)
  show "phys (km (mm (appended t k))) = phys (km (mm k))" "big_blocks (km (mm (appended t k))) = big_blocks (km (mm k))"
    "kernel_chunk (appended t k) = kernel_chunk k" by auto
  show "current_task (appended t k) = (if ts = [] then t else current_task k)" using empty by simp
  show "same_page (kram k) (kram (appended t k)) u" if "page_aligned u" "u \<noteq> t" "u \<notin> set ts" for u
    using that tail t pa by (auto intro!: same_page_trans [OF store_same_page store_same_page])
  show "load32 (kram (appended t k)) (field u j) = load32 (kram k) (field u j)" if "page_aligned u" "j < 14" for u j
  proof -
    have "j < 1024" "j \<noteq> 14" "j \<noteq> 15" using that(2) by (auto simp: word_less_nat_alt)
    then show ?thesis using that(1) tail t pa by (auto simp: load_store_field)
  qed
qed

text \<open>The task before it is appended: its page, its address space and its registers.\<close>

lemma task_made:
  assumes inv: "kheap_inv (km (mm k))" and list: "task_list k ts" and ts: "set ts \<subseteq> owned_pages (phys (km (mm k)))"
    and free: "1027 \<le> unat (pmm_free_blocks (phys (km (mm k))))"
  shows "\<exists>t chunk k'. task_new process k = (t, appended t k') \<and> t \<noteq> 0 \<and> page_aligned t \<and> t \<notin> owned_pages (phys (km (mm k))) \<and>
    task_list k' ts \<and> fresh_task (kram k') t chunk process \<and> task_next (kram k') t = 0 \<and> task_prev (kram k') t = 0 \<and>
    own_space (km (mm k')) chunk 5 (insert t (owned_pages (phys (km (mm k))))) \<and> kheap_inv (km (mm k')) \<and>
    insert t (owned_pages (phys (km (mm k)))) \<subseteq> owned_pages (phys (km (mm k'))) \<and>
    unat (pmm_free_blocks (phys (km (mm k)))) = 1027 + unat (pmm_free_blocks (phys (km (mm k')))) \<and>
    (\<forall>u \<in> owned_pages (phys (km (mm k))). same_page (kram k) (kram k') u) \<and>
    big_blocks (km (mm k')) = big_blocks (km (mm k)) \<and> kernel_chunk k' = kernel_chunk k \<and> current_task k' = current_task k"
proof -
  let ?O = "owned_pages (phys (km (mm k)))"
  from kzalloc_small [OF inv, of 64] free obtain t s where
    t: "kzalloc 64 (km (mm k)) = (t, s)" "t \<noteq> 0" "page_aligned t" "t \<notin> ?O" "owned_pages (phys s) = insert t ?O"
      "ram s = memset (kram k) t 0 64" "big_blocks s = big_blocks (km (mm k))" "kheap_inv s"
      "unat (pmm_free_blocks (phys (km (mm k)))) = Suc (unat (pmm_free_blocks (phys s)))" by auto
  let ?k1 = "set_km s k"
  from task_init_ok [of ?k1 t process] t free obtain chunk k2 where
    i: "task_init t process ?k1 = (0, k2)" "fresh_task (kram k2) t chunk process"
      "task_next (kram k2) t = 0" "task_prev (kram k2) t = 0" "own_space (km (mm k2)) chunk 5 (insert t ?O)"
      "pmm_inv (phys (km (mm k2)))" "insert t ?O \<subseteq> owned_pages (phys (km (mm k2)))"
      "big_blocks (km (mm k2)) = big_blocks s" "unat (pmm_free_blocks (phys s)) = 1026 + unat (pmm_free_blocks (phys (km (mm k2))))"
      "\<forall>u \<in> insert t ?O. u \<noteq> t \<longrightarrow> same_page (ram s) (kram k2) u" "k2 = ?k1\<lparr>mm := mm k2\<rparr>"
    by (auto simp: kheap_inv_def)
  have ends: "task_head k2 = task_head k" "task_tail k2 = task_tail k" "current_task k2 = current_task k" "kernel_chunk k2 = kernel_chunk k"
    using arg_cong [OF i(11), of task_head] arg_cong [OF i(11), of task_tail] arg_cong [OF i(11), of current_task]
      arg_cong [OF i(11), of kernel_chunk] by (simp_all add: set_km_def)
  have pa: "page_aligned u" if "u \<in> ?O" for u using owned_page_aligned that inv by (auto simp: kheap_inv_def)
  have same: "same_page (kram k) (kram k2) u" if "u \<in> ?O" for u
  proof -
    have "u \<noteq> t" using that t(4) by auto
    then show ?thesis
      using same_page_trans [OF memset_same_page [OF t(3) pa [OF that], of 64 "kram k" 0]] that i(10) t(6) by simp
  qed
  have "task_list k2 ts" using ts by (intro task_list_pages [OF list same ends(1,2)]) blast
  moreover have "kheap_inv (km (mm k2))"
    using i(7) by (intro kheap_inv_grow [OF inv i(6)]) (simp_all add: i(8) t(7))
  moreover have "task_new process k = (t, appended t k2)" using t(1,2) i(1) by (simp add: task_new_def Let_def)
  ultimately show ?thesis
    using t i same ends by (intro exI [of _ t] exI [of _ chunk] exI [of _ k2] conjI) (assumption | simp)+
qed

lemma task_new_exhausted:
  assumes "kheap_inv (km (mm k))" and "unat (pmm_free_blocks (phys (km (mm k)))) < 1027"
  shows "fst (task_new process k) = 0 \<and> pmm_free_blocks (phys (km (mm (snd (task_new process k))))) = 0"
proof (cases "0 < unat (pmm_free_blocks (phys (km (mm k))))")
  case True
  from kzalloc_small [OF assms(1), of 64] True obtain t s where
    t: "kzalloc 64 (km (mm k)) = (t, s)" "t \<noteq> 0" "kheap_inv s"
      "unat (pmm_free_blocks (phys (km (mm k)))) = Suc (unat (pmm_free_blocks (phys s)))" by auto
  let ?k = "set_ram (memset (kram (set_km s k)) t 0 64) (set_km s k)"
  have "unat (pmm_free_blocks (phys (km (mm ?k)))) \<le> 1025" using assms(2) t(4) by simp
  from new_4gb_failure [OF _ this, of 5] t(3) obtain v where
    "paging_new_4gb 5 (mm ?k) = (0, v)" "pmm_free_blocks (phys (km v)) = 0" by (auto simp: kheap_inv_def)
  then show ?thesis using t(1,2) by (simp add: task_new_def task_init_def Let_def)
next
  case False
  then have "pmm_free_blocks (phys (km (mm k))) = 0" by (simp add: unat_eq_zero)
  moreover have "pmm_inv (phys (km (mm k)))" using assms(1) by (simp add: kheap_inv_def)
  ultimately show ?thesis
    using allocate_block_failure by (simp add: task_new_def kzalloc_def kmallac_small)
qed

lemma task_new_result:
  assumes "kheap_inv (km (mm k))" and "task_list k ts" and "set ts \<subseteq> owned_pages (phys (km (mm k)))"
  shows "if 1027 \<le> unat (pmm_free_blocks (phys (km (mm k)))) then
      \<exists>t k'. task_new process k = (t, k') \<and> t \<noteq> 0 \<and> t \<notin> owned_pages (phys (km (mm k))) \<and> task_list k' (ts @ [t]) \<and>
        fresh_task (kram k') t (task_chunk (kram k') t) process \<and>
        own_space (km (mm k')) (task_chunk (kram k') t) 5 (insert t (owned_pages (phys (km (mm k))))) \<and>
        kheap_inv (km (mm k')) \<and> insert t (owned_pages (phys (km (mm k)))) \<subseteq> owned_pages (phys (km (mm k'))) \<and>
        unat (pmm_free_blocks (phys (km (mm k)))) = 1027 + unat (pmm_free_blocks (phys (km (mm k')))) \<and>
        current_task k' = (if ts = [] then t else current_task k) \<and>
        (\<forall>u \<in> owned_pages (phys (km (mm k))) - set ts. same_page (kram k) (kram k') u) \<and>
        (\<forall>u \<in> set ts. \<forall>j < 14. load32 (kram k') (field u j) = load32 (kram k) (field u j)) \<and>
        big_blocks (km (mm k')) = big_blocks (km (mm k)) \<and> kernel_chunk k' = kernel_chunk k
    else fst (task_new process k) = 0 \<and> pmm_free_blocks (phys (km (mm (snd (task_new process k))))) = 0"
proof (cases "1027 \<le> unat (pmm_free_blocks (phys (km (mm k))))")
  case True
  let ?O = "owned_pages (phys (km (mm k)))"
  from task_made [OF assms True] obtain t chunk k2 where
    r: "task_new process k = (t, appended t k2)" "t \<noteq> 0" "page_aligned t" "t \<notin> ?O" "task_list k2 ts"
      "fresh_task (kram k2) t chunk process" "task_next (kram k2) t = 0" "task_prev (kram k2) t = 0"
      "own_space (km (mm k2)) chunk 5 (insert t ?O)" "kheap_inv (km (mm k2))" "insert t ?O \<subseteq> owned_pages (phys (km (mm k2)))"
      "unat (pmm_free_blocks (phys (km (mm k)))) = 1027 + unat (pmm_free_blocks (phys (km (mm k2))))"
      "\<forall>u \<in> ?O. same_page (kram k) (kram k2) u" "big_blocks (km (mm k2)) = big_blocks (km (mm k))"
      "kernel_chunk k2 = kernel_chunk k" "current_task k2 = current_task k" by blast
  have pa: "page_aligned u" if "u \<in> ?O" for u using owned_page_aligned that assms(1) by (auto simp: kheap_inv_def)
  have "\<forall>u \<in> set ts. page_aligned u" using pa assms(3) by blast
  note f = appended_frame [OF r(5,3) this]
  have nt: "t \<notin> set ts" using assms(3) r(4) by auto
  obtain k' where k': "k' = appended t k2" by blast
  note f = f [folded k'] and list = task_list_append [OF r(5) nt r(2,3,7,8), folded k']
  have fresh: "fresh_task (kram k') t chunk process"
    using r(6) f(6) [OF r(3)] by (auto simp: fresh_task_def task_chunk_def)
  then have ch: "task_chunk (kram k') t = chunk" by (simp add: fresh_task_def)
  have inv: "pmm_inv (phys (km (mm k2)))" using r(10) by (simp add: kheap_inv_def)
  have space: "own_space (km (mm k')) chunk 5 (insert t ?O)"
    using owned_page_aligned [OF inv] assms(3) by (intro own_space_cong [OF r(9) inv] f(5)) (auto simp: f(1))
  have "same_page (kram k) (kram k') u" if "u \<in> ?O - set ts" for u
  proof -
    have "u \<noteq> t" using that r(4) by auto
    then show ?thesis using that pa r(13) by (intro same_page_trans [OF _ f(5)]) auto
  qed
  moreover have "load32 (kram k') (field u j) = load32 (kram k) (field u j)" if "u \<in> set ts" "j < 14" for u j
  proof -
    have u: "u \<in> ?O" using that assms(3) by blast
    then have "same_page (kram k) (kram k2) u" using r(13) by blast
    from same_page_regs [OF this that(2)] show ?thesis using f(6) [OF pa [OF u] that(2)] by simp
  qed
  moreover have "kheap_inv (km (mm k'))" using r(10) f(1,2) by (simp add: kheap_inv_def)
  ultimately show ?thesis
    using True r(1,2,4,11,12,14-16) list fresh ch space f(1-4) unfolding k' [symmetric] by auto
next
  case False
  then show ?thesis using task_new_exhausted [OF assms(1)] by simp
qed

text \<open>C16: A new task. With 1027 free blocks \<open>task_new\<close> succeeds: the task is a fresh page appended to the list (and made current if it is
  the first), its entry point, stack, segments and process are set and every other register is zero, and its address space
  is a user-readable identity map built of 1026 pages that nobody else uses; the other tasks keep their address
  spaces and registers. With fewer the result is null, and nothing is left free.\<close>

theorem task_new_correct:
  assumes "kheap_inv (km (mm k))" and "task_list k ts" and "set ts \<subseteq> owned_pages (phys (km (mm k)))"
  shows "if 1027 \<le> unat (pmm_free_blocks (phys (km (mm k)))) then
      \<exists>t k'. task_new process k = (t, k') \<and> t \<noteq> 0 \<and> t \<notin> owned_pages (phys (km (mm k))) \<and> task_list k' (ts @ [t]) \<and>
        fresh_task (kram k') t (task_chunk (kram k') t) process \<and>
        own_space (km (mm k')) (task_chunk (kram k') t) 5 (insert t (owned_pages (phys (km (mm k))))) \<and>
        kheap_inv (km (mm k')) \<and> insert t (owned_pages (phys (km (mm k)))) \<subseteq> owned_pages (phys (km (mm k'))) \<and>
        unat (pmm_free_blocks (phys (km (mm k)))) = 1027 + unat (pmm_free_blocks (phys (km (mm k')))) \<and>
        current_task k' = (if ts = [] then t else current_task k) \<and>
        (\<forall>u \<in> owned_pages (phys (km (mm k))) - set ts. same_page (kram k) (kram k') u) \<and>
        (\<forall>u \<in> set ts. \<forall>j < 14. load32 (kram k') (field u j) = load32 (kram k) (field u j)) \<and>
        big_blocks (km (mm k')) = big_blocks (km (mm k)) \<and> kernel_chunk k' = kernel_chunk k
    else fst (task_new process k) = 0 \<and> pmm_free_blocks (phys (km (mm (snd (task_new process k))))) = 0"
  using task_new_result [OF assms] .

lemma two_tasks_pages: "set [0x10000, 0x20000] \<subseteq> owned_pages (phys (km (mm two_tasks)))"
  using boot_pages [of 16] boot_pages [of 32] by (simp add: two_tasks_def)

lemma two_tasks_inv: "kheap_inv (km (mm two_tasks))"
  using kheap_inv_grow [OF kmem_boot_inv, of "km (mm two_tasks)"] pmm_boot_inv by (simp add: two_tasks_def)

lemma task_new_correct_witness:
  "\<exists>t k'. task_new 5 two_tasks = (t, k') \<and> task_list k' [0x10000, 0x20000, t] \<and> load32 (kram k') (field t 8) = 0x400000"
proof -
  have "1027 \<le> unat (pmm_free_blocks (phys (km (mm two_tasks))))" by (simp add: two_tasks_def)
  with task_new_correct [OF two_tasks_inv two_tasks_list two_tasks_pages, of 5]
  show ?thesis by (auto simp: fresh_task_def)
qed

text \<open>Creating a task leaves the size of the memory alone.\<close>

lemma fill_tables_size:
  "pmm_system_memory_size (phys (snd (paging_fill_tables fl d i off s))) = pmm_system_memory_size (phys s)"
proof (induction fl d i off s rule: paging_fill_tables.induct)
  case (1 fl d i off s)
  have a: "pmm_system_memory_size p = pmm_system_memory_size (phys s)" if "pmm_allocate_block (phys s) = (e, p)" for e p
    using pmm_size_fixed(1) [of "phys s"] that by simp
  show ?case
    by (subst paging_fill_tables.simps) (use 1 a in \<open>auto simp: Let_def split: prod.split\<close>)
qed

lemma new_4gb_size: "pmm_system_memory_size (phys (km (snd (paging_new_4gb fl v)))) = pmm_system_memory_size (phys (km v))"
  using fill_tables_size by (auto simp: paging_new_4gb_def Let_def prod_eq_iff split: prod.splits)

lemma task_new_size:
  assumes "task_new process k = (t, k')"
  shows "pmm_system_memory_size (phys (km (mm k'))) = pmm_system_memory_size (phys (km (mm k)))"
proof -
  have "pmm_system_memory_size (phys (km (mm (snd (task_init t process k))))) = pmm_system_memory_size (phys (km (mm k)))" for t k
    using new_4gb_size by (auto simp: task_init_def Let_def prod_eq_iff split: prod.splits)
  note init = this
  have "pmm_system_memory_size (phys (snd (kzalloc 64 s))) = pmm_system_memory_size (phys s)" for s
    by (rule kzalloc_size) (rule surjective_pairing)
  moreover have "k' = snd (task_new process k)" using assms by simp
  ultimately show ?thesis by (simp add: task_new_def Let_def split_beta init)
qed

section \<open>Removing a task\<close>

lemma list_middle:
  assumes "task_list k (xs @ t # ys)"
  shows "task_next (kram k) t = (if ys = [] then 0 else hd ys)" "task_prev (kram k) t = (if xs = [] then 0 else last xs)"
    "ys \<noteq> [] \<Longrightarrow> task_prev (kram k) (hd ys) = t" "distinct (xs @ t # ys)"
    "u \<in> set (xs @ t # ys) \<Longrightarrow> page_aligned u \<and> u \<noteq> 0"
proof -
  have f: "forward (kram k) (xs @ t # ys)" "backward (kram k) (xs @ t # ys)" using assms by (simp_all add: task_list_def)
  have i: "length xs < length (xs @ t # ys)" by simp
  have "task_next (kram k) ((xs @ t # ys) ! length xs) =
      (if Suc (length xs) < length (xs @ t # ys) then (xs @ t # ys) ! Suc (length xs) else 0)"
    using f(1) i unfolding forward_def by blast
  then show "task_next (kram k) t = (if ys = [] then 0 else hd ys)" by (cases ys) (simp_all add: nth_append)
  have "task_prev (kram k) ((xs @ t # ys) ! length xs) = (if length xs = 0 then 0 else (xs @ t # ys) ! (length xs - 1))"
    using f(2) i unfolding backward_def by blast
  then show "task_prev (kram k) t = (if xs = [] then 0 else last xs)" by (simp add: nth_append last_conv_nth)
  show "task_prev (kram k) (hd ys) = t" if "ys \<noteq> []"
  proof -
    have "Suc (length xs) < length (xs @ t # ys)" using that by (cases ys) auto
    with f(2) have "task_prev (kram k) ((xs @ t # ys) ! Suc (length xs)) = (xs @ t # ys) ! length xs"
      unfolding backward_def by fastforce
    then show ?thesis using that by (cases ys) (simp_all add: nth_append)
  qed
  show "distinct (xs @ t # ys)" "u \<in> set (xs @ t # ys) \<Longrightarrow> page_aligned u \<and> u \<noteq> 0"
    using f(1) by (auto simp: forward_def)
qed

text \<open>The \<open>next\<close> links as a chain, in the style of a list predicate.\<close>

fun chained :: "mem \<Rightarrow> u32 list \<Rightarrow> u32 \<Rightarrow> bool" where
  "chained m [] e \<longleftrightarrow> True"
| "chained m [t] e \<longleftrightarrow> task_next m t = e"
| "chained m (t # u # ts) e \<longleftrightarrow> task_next m t = u \<and> chained m (u # ts) e"

lemma chained_nth:
  "chained m ts e \<longleftrightarrow> (\<forall>i < length ts. task_next m (ts ! i) = (if Suc i < length ts then ts ! Suc i else e))"
proof (induction ts rule: induct_list012)
  case (3 t u ts)
  have "(\<forall>i < length (t # u # ts). task_next m ((t # u # ts) ! i) = (if Suc i < length (t # u # ts) then (t # u # ts) ! Suc i else e)) \<longleftrightarrow>
    task_next m t = u \<and> (\<forall>i < length (u # ts). task_next m ((u # ts) ! i) = (if Suc i < length (u # ts) then (u # ts) ! Suc i else e))"
    unfolding length_Cons [of t] All_less_Suc2 by simp
  then show ?case using 3(2) by simp
qed simp_all

lemma chained_append: "ys \<noteq> [] \<Longrightarrow> chained m (xs @ ys) e \<longleftrightarrow> chained m xs (hd ys) \<and> chained m ys e"
proof (induction xs rule: induct_list012)
  case (2 x)
  then show ?case by (cases ys) auto
qed auto

lemma chained_cong: "(\<And>t. t \<in> set ts \<Longrightarrow> task_next m' t = task_next m t) \<Longrightarrow> chained m' ts e = chained m ts e"
  by (induction m ts e rule: chained.induct) auto

lemma chained_last:
  assumes "chained m xs e" "xs \<noteq> []" "\<And>t. t \<in> set (butlast xs) \<Longrightarrow> task_next m' t = task_next m t" "task_next m' (last xs) = e'"
  shows "chained m' xs e'"
  using assms by (induction m xs e rule: chained.induct) auto

lemma forward_chained: "forward m ts \<longleftrightarrow> distinct ts \<and> (\<forall>t \<in> set ts. page_aligned t \<and> t \<noteq> 0) \<and> chained m ts 0"
  by (simp add: forward_def chained_nth)

lemma chained_unlink:
  assumes "chained m (xs @ t # ys) 0" and "distinct (xs @ t # ys)"
    and "\<And>u. u \<in> set (xs @ ys) \<Longrightarrow> xs = [] \<or> u \<noteq> last xs \<Longrightarrow> task_next m' u = task_next m u"
    and "xs \<noteq> [] \<Longrightarrow> task_next m' (last xs) = task_next m t"
  shows "chained m' (xs @ ys) 0"
proof -
  have t: "chained m (t # ys) 0" using assms(1) chained_append [of "t # ys" m xs 0] by simp
  then have nt: "task_next m t = (if ys = [] then 0 else hd ys)" by (cases ys) auto
  have "chained m ys 0" using t by (cases ys) auto
  moreover have "task_next m' u = task_next m u" if "u \<in> set ys" for u
  proof -
    have "xs = [] \<or> u \<noteq> last xs" using assms(2) that by (metis Un_iff disjoint_iff distinct_append last_in_set list.set_intros(2))
    then show ?thesis using assms(3) that by simp
  qed
  ultimately have ys: "chained m' ys 0" using chained_cong by blast
  show ?thesis
  proof (cases "xs = []")
    case True
    then show ?thesis using ys by simp
  next
    case False
    have "chained m xs t" using assms(1) chained_append [of "t # ys" m xs 0] by simp
    moreover have "task_next m' u = task_next m u" if "u \<in> set (butlast xs)" for u
    proof -
      have "distinct (butlast xs @ [last xs])" using assms(2) False by simp
      then have "u \<noteq> last xs" using that by auto
      then show ?thesis using assms(3) in_set_butlastD [OF that] by simp
    qed
    ultimately have "chained m' xs (if ys = [] then 0 else hd ys)"
      using chained_last [OF _ False] assms(4) [OF False] nt by simp
    then show ?thesis using ys by (cases "ys = []") (simp_all add: chained_append)
  qed
qed

lemma remove_result:
  assumes list: "task_list k (xs @ t # ys)"
  defines "m \<equiv> (if xs = [] then kram k else store32 (kram k) (field (last xs) 14) (task_next (kram k) t))"
  shows "task_list_remove t k = (set_ram m k)
    \<lparr>task_head := (if xs = [] then task_next (kram k) t else task_head k),
     task_tail := (if ys = [] then task_prev (kram k) t else task_tail k),
     current_task := (if t = current_task k then (if ys = [] then (if xs = [] then 0 else task_head k) else hd ys)
                      else current_task k)\<rparr>"
proof -
  note l = list_middle [OF list]
  have nz: "u \<noteq> 0" "page_aligned u" if "u \<in> set (xs @ t # ys)" for u using l(5) [OF that] by auto
  have ends: "task_head k = hd (xs @ t # ys)" "task_tail k = last (t # ys)"
    using list by (auto simp: task_list_def list_ends_def)
  have head: "t = task_head k \<longleftrightarrow> xs = []" using ends(1) l(4) by (cases xs) auto
  have tail: "t = task_tail k \<longleftrightarrow> ys = []" using ends(2) l(4) by (cases ys rule: rev_cases) auto
  have last: "last xs \<noteq> 0" "last xs \<noteq> t" "page_aligned (last xs)" if "xs \<noteq> []"
    using that nz l(4) by (auto dest: last_in_set)
  have nt: "task_next m t = task_next (kram k) t" "task_prev m t = task_prev (kram k) t"
    using last nz(2) [of t] by (auto simp: m_def task_next_def task_prev_def load_store_field)
  let ?k1 = "set_ram m k"
  have k1: "(if task_prev (kram k) t \<noteq> 0
      then set_ram (store32 (kram k) (field (task_prev (kram k) t) 14) (task_next (kram k) t)) k else k) = ?k1"
    using l(2) last(1) by (auto simp: m_def set_ram_def set_km_def)
  have hd_ys: "ys \<noteq> [] \<Longrightarrow> hd ys \<noteq> 0" using nz(1) [of "hd ys"] by simp
  obtain c where c: "(t = current_task k) = c" by blast
  then have cur: "c \<Longrightarrow> current_task k = t" by simp
  show ?thesis
    unfolding task_list_remove_def k1 Let_def
    by (cases "xs = []"; cases "ys = []"; cases c)
      (simp_all add: head tail c cur nt l(1) hd_ys task_get_next_def)
qed

text \<open>The list in the memory in which \<open>t\<close> has been unlinked.\<close>

lemma unlinked_list:
  assumes list: "task_list k (xs @ t # ys)"
  defines "m \<equiv> (if xs = [] then kram k else store32 (kram k) (field (last xs) 14) (task_next (kram k) t))"
  shows "forward m (xs @ ys)" "if ys = [] then backward m xs else task_prev m (hd ys) = t"
proof -
  note l = list_middle [OF list]
  have last: "last xs \<in> set xs" "page_aligned (last xs)" if "xs \<noteq> []"
    using that l(5) [of "last xs"] by auto
  have next_m: "task_next m u = (if xs \<noteq> [] \<and> u = last xs then task_next (kram k) t else task_next (kram k) u)"
    and prev_m: "task_prev m u = task_prev (kram k) u" if "u \<in> set (xs @ ys)" for u
    using last l(5) [of u] that by (auto simp: m_def task_next_def task_prev_def load_store_field)
  have "chained m (xs @ ys) 0"
  proof (rule chained_unlink)
    show "chained (kram k) (xs @ t # ys) 0" using list by (simp add: task_list_def forward_chained)
    show "task_next m (last xs) = task_next (kram k) t" if "xs \<noteq> []" using that last next_m by simp
  qed (use l(4) next_m in auto)
  then show "forward m (xs @ ys)" using l(4,5) by (simp add: forward_chained)
  show "if ys = [] then backward m xs else task_prev m (hd ys) = t"
  proof (cases "ys = []")
    case True
    have "backward (kram k) (xs @ [t])" using list True by (simp add: task_list_def)
    then have "task_prev (kram k) ((xs @ [t]) ! i) = (if i = 0 then 0 else (xs @ [t]) ! (i - 1))" if "i < length xs" for i
      using that by (simp add: backward_def)
    then have "task_prev (kram k) (xs ! i) = (if i = 0 then 0 else xs ! (i - 1))" if "i < length xs" for i
      using that by (fastforce simp: nth_append)
    then have "backward m xs" unfolding backward_def using prev_m True by simp
    with True show ?thesis by simp
  qed (use l(3) prev_m [of "hd ys"] in simp)
qed

text \<open>The pages: the address space goes back first, the task after it, whatever happens to memory in between.\<close>

lemma release_pages:
  assumes inv: "kheap_inv s" and t: "t \<in> single_pages s" "t \<noteq> 0" and space: "task_space s c K"
    and K: "{0, t} \<union> (owned_pages (phys s) - single_pages s) \<subseteq> K"
  defines "P \<equiv> {c, load32 (ram s) c} \<union> table_of (ram s) (load32 (ram s) c) ` {i. i < 1024}"
  shows "\<exists>p. paging_free_4gb c s = s\<lparr>phys := p\<rparr> \<and>
    kfree t (s\<lparr>phys := p, ram := m\<rparr>) = s\<lparr>phys := pmm_free_block t p, ram := m\<rparr> \<and>
    kheap_inv (kfree t (s\<lparr>phys := p, ram := m\<rparr>)) \<and> owned_pages (pmm_free_block t p) = owned_pages (phys s) - insert t P \<and>
    unat (pmm_free_blocks (pmm_free_block t p)) = 1027 + unat (pmm_free_blocks (phys s))"
proof -
  obtain d where d: "d = load32 (ram s) c" by blast
  have sp: "wf_directory d (ram s)" "c \<noteq> d" "\<forall>i < 1024. table_of (ram s) d i \<noteq> c" "P \<subseteq> owned_pages (phys s) - K"
    using space by (auto simp: task_space_def d P_def)
  have P: "P \<subseteq> single_pages s - {0, t}" using sp(4) K by auto
  then have "P \<subseteq> owned_pages (phys s) - {0}" by (auto simp: single_pages_def)
  with free_4gb_ok [of s c] inv sp(1-3) obtain p where
    p: "paging_free_4gb c s = s\<lparr>phys := p\<rparr>" "pmm_inv p" "owned_pages p = owned_pages (phys s) - P"
      "unat (pmm_free_blocks p) = 1026 + unat (pmm_free_blocks (phys s))"
    unfolding d P_def kheap_inv_def by blast
  let ?s1 = "s\<lparr>phys := p, ram := m\<rparr>"
  have regions: "big_region e \<subseteq> owned_pages p" if "e \<in> set (big_blocks s)" for e
    using region_owned [OF inv that] P(1) p(3) that by (auto simp: single_pages_def)
  have "kheap_inv (s\<lparr>phys := p\<rparr>)" by (intro kheap_inv_phys [OF inv p(2)] regions)
  then have inv1: "kheap_inv ?s1" by (simp add: kheap_inv_def)
  have t1: "t \<in> single_pages ?s1" using t P(1) p(3) by (auto simp: single_pages_def)
  from heap_pages.release_ok [OF inv1 t1 t(2)] kfree_single [OF inv1 t1 t(2)]
  have f: "kheap_inv (kfree t ?s1)" "unat (pmm_free_blocks (phys (kfree t ?s1))) = Suc (unat (pmm_free_blocks p))"
    "kfree t ?s1 = ?s1\<lparr>phys := pmm_free_block t p\<rparr>" by simp_all
  have "owned_pages (pmm_free_block t p) = owned_pages p - {t}"
    using pmm_pages.release_ok [OF p(2), of t] t1 t(2) by (auto simp: single_pages_def)
  then have "owned_pages (pmm_free_block t p) = owned_pages (phys s) - insert t P" using p(3) by auto
  then show ?thesis using p(1,4) f by (intro exI [of _ p]) simp
qed

lemma task_free_result:
  assumes inv: "kheap_inv (km (mm k))" and list: "task_list k (xs @ t # ys)" and t: "t \<in> single_pages (km (mm k))"
    and space: "task_space (km (mm k)) (task_chunk (kram k) t) K"
    and K: "{0} \<union> set (xs @ t # ys) \<union> (owned_pages (phys (km (mm k))) - single_pages (km (mm k))) \<subseteq> K"
  shows "\<exists>k' P. task_free t k = (0, k') \<and> forward (kram k') (xs @ ys) \<and> list_ends k' (xs @ ys) \<and>
    (if ys = [] then backward (kram k') xs else task_prev (kram k') (hd ys) = t) \<and>
    current_task k' = (if current_task k = t then hd (ys @ xs @ [0]) else current_task k) \<and>
    kheap_inv (km (mm k')) \<and> P = {task_chunk (kram k) t, load32 (kram k) (task_chunk (kram k) t)} \<union>
      table_of (kram k) (load32 (kram k) (task_chunk (kram k) t)) ` {i. i < 1024} \<and>
    owned_pages (phys (km (mm k'))) = owned_pages (phys (km (mm k))) - insert t P \<and>
    unat (pmm_free_blocks (phys (km (mm k')))) = 1027 + unat (pmm_free_blocks (phys (km (mm k))))"
proof -
  let ?s = "km (mm k)" and ?c = "task_chunk (kram k) t"
  let ?m = "if xs = [] then kram k else store32 (kram k) (field (last xs) 14) (task_next (kram k) t)"
  have "t \<noteq> 0" using list by (auto simp: task_list_def forward_def)
  moreover have "{0, t} \<union> (owned_pages (phys ?s) - single_pages ?s) \<subseteq> K" using K by auto
  ultimately obtain p where p: "paging_free_4gb ?c ?s = ?s\<lparr>phys := p\<rparr>"
    "kfree t (?s\<lparr>phys := p, ram := ?m\<rparr>) = ?s\<lparr>phys := pmm_free_block t p, ram := ?m\<rparr>"
    "kheap_inv (kfree t (?s\<lparr>phys := p, ram := ?m\<rparr>))"
    "owned_pages (pmm_free_block t p) = owned_pages (phys ?s) -
       insert t ({?c, load32 (kram k) ?c} \<union> table_of (kram k) (load32 (kram k) ?c) ` {i. i < 1024})"
    "unat (pmm_free_blocks (pmm_free_block t p)) = 1027 + unat (pmm_free_blocks (phys ?s))"
    using release_pages [OF inv t _ space] by blast
  have "task_list (set_km (?s\<lparr>phys := p\<rparr>) k) (xs @ t # ys)" using list by (simp add: task_list_def list_ends_def)
  note removed = remove_result [OF this]
  obtain k' where k': "k' = (set_km (kfree t (?s\<lparr>phys := p, ram := ?m\<rparr>)) k)
    \<lparr>task_head := (if xs = [] then task_next (kram k) t else task_head k),
     task_tail := (if ys = [] then task_prev (kram k) t else task_tail k),
     current_task := (if t = current_task k then (if ys = [] then (if xs = [] then 0 else task_head k) else hd ys)
                      else current_task k)\<rparr>" by blast
  have "task_free t k = (0, k')" using removed p(1) by (simp add: k' task_free_def set_ram_def set_km_def)
  moreover have "km (mm k') = ?s\<lparr>phys := pmm_free_block t p, ram := ?m\<rparr>" using p(2) by (simp add: k')
  moreover have "list_ends k' (xs @ ys) \<and> current_task k' = (if current_task k = t then hd (ys @ xs @ [0]) else current_task k)"
    using list_middle(1,2) [OF list] list by (cases ys) (auto simp: task_list_def list_ends_def k' hd_append)
  ultimately show ?thesis using unlinked_list [OF list] p by (intro exI [of _ k'] exI conjI refl) simp_all
qed

text \<open>C24: Removing a task. \<open>task_free\<close> of a task of the list takes it out of the chain of
  \<open>next\<close> links wherever it stands, repairs both ends and moves the current task on if it was the one, keeps the
  heap's invariant and gives back exactly the task's page and the 1026 pages of its address space, whatever is mapped there:
  the directory only needs 1024 tables of its own, so tasks with a mapped program are covered. The \<open>prev\<close> link of
  the task after it is not repaired: it still points at the freed page.\<close>

theorem task_free_correct:
  assumes inv: "kheap_inv (km (mm k))" and list: "task_list k (xs @ t # ys)" and t: "t \<in> single_pages (km (mm k))"
    and space: "task_space (km (mm k)) (task_chunk (kram k) t) K"
    and K: "{0} \<union> set (xs @ t # ys) \<union> (owned_pages (phys (km (mm k))) - single_pages (km (mm k))) \<subseteq> K"
  shows "\<exists>k' P. task_free t k = (0, k') \<and> forward (kram k') (xs @ ys) \<and> list_ends k' (xs @ ys) \<and>
    (if ys = [] then backward (kram k') xs else task_prev (kram k') (hd ys) = t) \<and>
    current_task k' = (if current_task k = t then hd (ys @ xs @ [0]) else current_task k) \<and>
    kheap_inv (km (mm k')) \<and> P = {task_chunk (kram k) t, load32 (kram k) (task_chunk (kram k) t)} \<union>
      table_of (kram k) (load32 (kram k) (task_chunk (kram k) t)) ` {i. i < 1024} \<and>
    owned_pages (phys (km (mm k'))) = owned_pages (phys (km (mm k))) - insert t P \<and>
    unat (pmm_free_blocks (phys (km (mm k')))) = 1027 + unat (pmm_free_blocks (phys (km (mm k))))"
  using task_free_result [OF assms] .

lemma task_free_correct_witness:
  "\<exists>t k k'. task_new 5 two_tasks = (t, k) \<and> task_free t k = (0, k') \<and> list_ends k' [0x10000, 0x20000] \<and>
    unat (pmm_free_blocks (phys (km (mm k')))) = 225000"
proof -
  let ?ts = "[0x10000, 0x20000] :: u32 list"
  have "1027 \<le> unat (pmm_free_blocks (phys (km (mm two_tasks))))" by (simp add: two_tasks_def)
  with task_new_result [OF two_tasks_inv two_tasks_list two_tasks_pages, of 5] obtain t k where
    k: "task_new 5 two_tasks = (t, k)" "task_list k (?ts @ [t])"
      "own_space (km (mm k)) (task_chunk (kram k) t) 5 (insert t (owned_pages pmm_boot))" "kheap_inv (km (mm k))"
      "insert t (owned_pages pmm_boot) \<subseteq> owned_pages (phys (km (mm k)))"
      "unat (pmm_free_blocks pmm_boot) = 1027 + unat (pmm_free_blocks (phys (km (mm k))))"
      "big_blocks (km (mm k)) = big_blocks kmem_boot"
    by (auto simp: two_tasks_def)
  have "single_pages (km (mm k)) = owned_pages (phys (km (mm k)))"
    unfolding single_pages_def k(7) by (auto simp: big_region_def)
  moreover have "{0} \<union> set (?ts @ [t]) \<subseteq> insert t (owned_pages pmm_boot)"
    using two_tasks_pages boot_pages [of 0] by (auto simp: two_tasks_def)
  ultimately obtain k' where "task_free t k = (0, k')" "list_ends k' (?ts @ [])"
    "unat (pmm_free_blocks (phys (km (mm k')))) = 1027 + unat (pmm_free_blocks (phys (km (mm k))))"
    using task_free_correct [OF k(4) k(2) _ own_task_space [OF k(3)]] k(5) by auto
  then show ?thesis using k(1,6) by auto
qed

end
