(* ===== verification/Process.thy ===== *)
theory Process imports Vfs Spawn
begin

text \<open>
  Processes, \<open>src/src/task/process.c\<close>: loading a program file into memory, giving it a stack and a task, and mapping both into the
  task's address space. \<open>system\<close> is the state of the whole kernel: tasks and memory, the terminal's cursor, the
  tables of the virtual file system and the table of processes. A \<open>struct process\<close> has 4224 bytes: the id at 0, the
  file name at 2, the task at 112, the allocations at 116, and from 4212 on the program, its stack and its size.
  \<open>None\<close> is a call that does not return.
\<close>

record system =
  sk :: kernel
  sc :: console
  sv :: vfs
  processes :: "u32 list"

abbreviation sram :: "system \<Rightarrow> mem" where "sram y \<equiv> kram (sk y)"

definition sys_mem :: "kmem \<Rightarrow> system \<Rightarrow> system" where
  "sys_mem s y = y\<lparr>sk := set_km s (sk y)\<rparr>"

definition sys_ram :: "mem \<Rightarrow> system \<Rightarrow> system" where
  "sys_ram m y = y\<lparr>sk := set_ram m (sk y)\<rparr>"

text \<open>The part of the state the file system works on, and back.\<close>

definition files_of :: "system \<Rightarrow> machine \<times> vfs" where
  "files_of y = ((km (mm (sk y)), sc y), sv y)"

definition files_back :: "machine \<times> vfs \<Rightarrow> system \<Rightarrow> system" where
  "files_back s y = y\<lparr>sk := set_km (fst (fst s)) (sk y), sc := snd (fst s), sv := snd s\<rparr>"

text \<open>Addresses of locals and literals that the code passes by address.\<close>

record proc_env =
  pe_fss :: "u32 \<Rightarrow> filesystem"
  pe_disk :: u32
  pe_stat :: u32
  pe_mode_r :: u32

abbreviation (input) MAX_PROCESSES :: nat where "MAX_PROCESSES \<equiv> 12"

definition process_task :: "mem \<Rightarrow> u32 \<Rightarrow> u32" where "process_task m p = load32 m (p + 112)"
definition process_ptr :: "mem \<Rightarrow> u32 \<Rightarrow> u32" where "process_ptr m p = load32 m (p + 4212)"
definition process_stack :: "mem \<Rightarrow> u32 \<Rightarrow> u32" where "process_stack m p = load32 m (p + 4216)"
definition process_size :: "mem \<Rightarrow> u32 \<Rightarrow> u32" where "process_size m p = load32 m (p + 4220)"

definition process_init :: "u32 \<Rightarrow> mem \<Rightarrow> mem" where
  "process_init process m = memset m process 0 4224"

definition process_get :: "int \<Rightarrow> system \<Rightarrow> u32" where
  "process_get process_id y =
     (if process_id < 0 \<or> process_id \<ge> int MAX_PROCESSES then 0 else processes y ! nat process_id)"

definition process_get_free_slot :: "system \<Rightarrow> int" where
  "process_get_free_slot y =
     (case first_index (\<lambda>p. p = 0) (processes y) of None \<Rightarrow> -1 | Some i \<Rightarrow> int i)"

definition process_load_binary :: "proc_env \<Rightarrow> u32 \<Rightarrow> u32 \<Rightarrow> system \<Rightarrow> (int \<times> system) option" where
  "process_load_binary env filename process y =
     (case fopen (pe_fss env) (pe_disk env) filename (pe_mode_r env) (files_of y) of
        None \<Rightarrow> None
      | Some (fd, fs) \<Rightarrow>
          let y = files_back fs y in
          if fd \<le>s 0 then Some (-1, y)
          else
            let (res, fs) = fstat (pe_fss env) (sint fd) (pe_stat env) (files_of y); y = files_back fs y in
            if res \<le> 0 then Some (-1, y)
            else
              let filesize = load32 (sram y) (pe_stat env + 4);
                  (program_data_pointer, s) = kzalloc filesize (km (mm (sk y)));
                  y = sys_mem s y
              in if program_data_pointer = 0 then Some (-1, y)
                 else
                   (case fread (pe_fss env) program_data_pointer filesize 1 (sint fd) (files_of y) of
                      None \<Rightarrow> None
                    | Some (got, fs) \<Rightarrow>
                        let y = files_back fs y in
                        if got \<le>s 0 then Some (-1, y)
                        else
                          let m = store32 (sram y) (process + 4212) program_data_pointer;
                              m = store32 m (process + 4220) (load32 m (pe_stat env + 4))
                          in Some (1, sys_ram m y)))"

definition process_load_data :: "proc_env \<Rightarrow> u32 \<Rightarrow> u32 \<Rightarrow> system \<Rightarrow> (int \<times> system) option" where
  "process_load_data env filename process y = process_load_binary env filename process y"

text \<open>The results of \<open>paging_map_to\<close> are not used; \<open>res\<close> stays 0.\<close>

definition process_directory :: "mem \<Rightarrow> u32 \<Rightarrow> u32" where
  "process_directory m process = paging_4gb_chunk_get_directory m (task_chunk m (process_task m process))"

definition process_map_stack :: "u32 \<Rightarrow> mem \<Rightarrow> mem" where
  "process_map_stack process m =
     snd (paging_map_to m (process_directory m process) PROGRAM_VIRTUAL_STACK_ADDRESS_END (process_stack m process)
       (paging_align_address (process_stack m process + USER_PROGRAM_STACK_SIZE)) 7)"

definition process_map_binary :: "u32 \<Rightarrow> mem \<Rightarrow> int \<times> mem" where
  "process_map_binary process m =
     (let m = snd (paging_map_to m (process_directory m process) PROGRAM_VIRTUAL_ADDRESS (process_ptr m process)
                (paging_align_address (process_ptr m process + process_size m process)) 7)
      in (0, process_map_stack process m))"

definition process_map_memory :: "u32 \<Rightarrow> mem \<Rightarrow> int \<times> mem" where
  "process_map_memory process m =
     (let (res, m) = process_map_binary process m in (res, process_map_stack process m))"

definition process_load_for_slot :: "proc_env \<Rightarrow> u32 \<Rightarrow> u32 \<Rightarrow> int \<Rightarrow> system \<Rightarrow> (int \<times> system) option" where
  "process_load_for_slot env filename process process_slot y =
     (if process_get process_slot y \<noteq> 0 then Some (-1, y)
      else
        let (proc, s) = kzalloc 4224 (km (mm (sk y))); y = sys_mem s y in
        if proc = 0 then Some (-1, y)
        else
          (case process_load_data env filename proc (sys_ram (process_init proc (sram y)) y) of
             None \<Rightarrow> None
           | Some (res, y) \<Rightarrow>
               if res < 0 then Some (-1, y)
               else
                 let (program_stack_ptr, s) = kzalloc USER_PROGRAM_STACK_SIZE (km (mm (sk y))); y = sys_mem s y in
                 if program_stack_ptr = 0 then Some (-1, y)
                 else
                   let m = strncpy (sram y) (proc + 2) filename 108;
                       m = store32 m (proc + 4216) program_stack_ptr;
                       m = store16 m proc (word_of_int process_slot);
                       (task, k) = task_new proc (sk (sys_ram m y));
                       y = y\<lparr>sk := k\<rparr>
                   in if task = 0 then Some (-1, y)
                      else
                        let (res, m) = process_map_memory proc (store32 (sram y) (proc + 112) task);
                            y = sys_ram m y
                        in if res < 0 then Some (-1, y)
                           else
                             let y = sys_ram (store32 (sram y) process proc) y
                             in Some (1, y\<lparr>processes := (processes y)[nat process_slot := proc]\<rparr>)))"

definition process_load :: "proc_env \<Rightarrow> u32 \<Rightarrow> u32 \<Rightarrow> system \<Rightarrow> (int \<times> system) option" where
  "process_load env filename process y =
     (let slot = process_get_free_slot y in
      if slot < 0 then Some (-1, y)
      else
        (case process_load_for_slot env filename process slot y of
           None \<Rightarrow> None
         | Some (res, y) \<Rightarrow> Some (if res = 1 then slot else -1, y)))"

end
