(* ===== verification/UserMem.thy ===== *)
theory UserMem imports Spawn
begin

text \<open>
  Reaching into a program's memory: \<open>copy_string_from_task\<close> and \<open>task_get_stack_item\<close> of
  \<open>src/src/task/task.c\<close>. Both run for a while on the program's own page directory, so what they read
  is what the processor's walk of that directory gives.
\<close>

section \<open>Directories in use\<close>

definition space_pages :: "mem \<Rightarrow> u32 \<Rightarrow> u32 set" where
  "space_pages m d = insert d (table_of m d ` {i. i < 1024})"

definition space_ok :: "mem \<Rightarrow> u32 \<Rightarrow> bool" where
  "space_ok m d \<longleftrightarrow> wf_directory d m \<and> (\<forall>i < 1024. bit (load32 m (d + i * 4)) 0)"

lemma walk_get:
  assumes "space_ok m d"
  shows "mmu_walk m d a = (if bit (paging_get m d (page_of a)) 0
    then Some (page_of (paging_get m d (page_of a)) OR (a AND 0xfff)) else None)"
proof -
  have "bit (load32 m (d + dir_index a * 4)) 0" using assms dir_index_less by (simp add: space_ok_def)
  moreover have "paging_get m d (page_of a) = load32 m (table_of m d (dir_index a) + tab_index a * 4)"
    using paging_get_aligned [OF page_of_aligned [of a]] by (simp add: page_of_def page_base_indexes)
  ultimately show ?thesis by (simp add: mmu_walk_def Let_def table_of_def [symmetric] page_of_def)
qed

lemma space_cong:
  assumes ok: "space_ok m d" and same: "\<And>u. u \<in> space_pages m d \<Longrightarrow> same_page m m' u"
  shows "space_ok m' d" and "space_pages m' d = space_pages m d"
    and "\<And>a. page_aligned a \<Longrightarrow> paging_get m' d a = paging_get m d a"
proof -
  have l: "load32 m' (u + i * 4) = load32 m (u + i * 4)" if "u \<in> space_pages m d" "i < 1024" for u i
    using same_page_load [OF same [OF that(1)] that(2)] by (simp add: field_def)
  have T: "table_of m' d i = table_of m d i" if "i < 1024" for i
    using l [of d i] that by (simp add: table_of_def space_pages_def)
  have d: "load32 m' (d + i * 4) = load32 m (d + i * 4)" if "i < 1024" for i
    using l [of d i] that by (simp add: space_pages_def)
  show "space_ok m' d" using ok d by (auto simp: space_ok_def wf_directory_def T)
  show "space_pages m' d = space_pages m d" using T by (auto simp: space_pages_def)
  show "paging_get m' d a = paging_get m d a" if "page_aligned a" for a
    using that l [of "table_of m d (dir_index a)" "tab_index a"] dir_index_less [of a] tab_index_less [of a]
    by (auto simp: paging_get_aligned T space_pages_def)
qed

lemma space_set:
  assumes ok: "space_ok m d" and v: "page_aligned v"
  shows "\<exists>m'. paging_set m d v x = (1, m') \<and> space_ok m' d \<and> space_pages m' d = space_pages m d \<and> paging_get m' d v = x \<and>
    (\<forall>w. page_aligned w \<longrightarrow> w \<noteq> v \<longrightarrow> paging_get m' d w = paging_get m d w) \<and>
    (\<forall>y. page_of y \<notin> space_pages m d \<longrightarrow> m' y = m y)"
proof -
  let ?t = "table_of m d (dir_index v)" and ?a = "table_of m d (dir_index v) + tab_index v * 4"
  have wf: "wf_directory d m" using ok by (simp add: space_ok_def)
  have set: "paging_set m d v x = (1, store32 m ?a x)" by (rule paging_set_aligned [OF v])
  from dir_space.update_ok [OF wf v, of x] set have u: "wf_directory d (store32 m ?a x)"
    "paging_get (store32 m ?a x) d v = x"
    "\<And>w. page_aligned w \<Longrightarrow> w \<noteq> v \<Longrightarrow> paging_get (store32 m ?a x) d w = paging_get m d w" by auto
  have T: "table_of (store32 m ?a x) d i = table_of m d i" if "i < 1024" for i
    by (rule table_of_store [OF wf that dir_index_less tab_index_less])
  have t: "?t \<in> space_pages m d" using dir_index_less by (simp add: space_pages_def)
  have "load32 (store32 m ?a x) (d + i * 4) = load32 m (d + i * 4)" if "i < 1024" for i
    using wf that dir_index_less [of v] tab_index_less [of v]
    by (intro load32_store32_apart slot_apart table_of_aligned) (auto simp: wf_directory_def)
  then have "space_ok (store32 m ?a x) d" using ok u(1) by (simp add: space_ok_def)
  moreover have "space_pages (store32 m ?a x) d = space_pages m d" using T by (auto simp: space_pages_def)
  moreover have "store32 m ?a x y = m y" if "page_of y \<notin> space_pages m d" for y
    using that t tab_index_less [of v] by (intro store32_outside_page far_from_page table_of_aligned) auto
  ultimately show ?thesis using set u by blast
qed

section \<open>Copying a string out of a program\<close>

lemma kzalloc_space:
  assumes "page_aligned t" "t \<notin> space_pages m d" "\<forall>u \<in> space_pages m d. page_aligned u" "n \<le> 4096" "space_ok m d"
  shows "space_ok (memset m t c n) d" "space_pages (memset m t c n) d = space_pages m d"
    "\<And>a. page_aligned a \<Longrightarrow> paging_get (memset m t c n) d a = paging_get m d a"
proof -
  have "same_page m (memset m t c n) u" if "u \<in> space_pages m d" for u
    using that assms(1-4) by (intro memset_same_page) auto
  from space_cong [OF assms(5) this] show "space_ok (memset m t c n) d"
    "space_pages (memset m t c n) d = space_pages m d"
    "\<And>a. page_aligned a \<Longrightarrow> paging_get (memset m t c n) d a = paging_get m d a" by blast+
qed

lemma space_pages_aligned: "space_ok m d \<Longrightarrow> u \<in> space_pages m d \<Longrightarrow> page_aligned u"
  by (auto simp: space_pages_def space_ok_def wf_directory_def table_of_aligned)

text \<open>Copying a string through a directory in which the destination page is mapped to itself.\<close>

lemma copy_through:
  assumes ok: "space_ok m d" and n: "0 <s n" "n \<le> 4096" and t: "page_aligned t" "t \<notin> space_pages m d"
    and self: "paging_get m d t = t OR 7"
    and src: "\<And>i. i < n \<Longrightarrow> mmu_walk m d (src + i) = Some (g (src + i)) \<and> page_of (g (src + i)) \<noteq> t"
  shows "strncpy_via (\<lambda>m a. mmu_walk m d a) m t src n =
    Some (write_bytes m t (cstrn (\<lambda>a. m (g a)) src (unat n - 1) @ [0]))"
proof (rule strncpy_mapped [OF n(1)])
  show "copy_map (\<lambda>m a. mmu_walk m d a) g m t src n"
    unfolding copy_map_def
  proof (intro conjI allI impI)
    fix i assume i: "i < n"
    have "t \<noteq> page_of (g (src + i))" using src [OF i] by blast
    from n(2) far_from_page [OF t(1) this] show "n \<le> g (src + i) - t" by (rule order.trans)
    fix m' assume m': "\<forall>x. n \<le> x - t \<longrightarrow> m' x = m x"
    have "same_page m m' u" if "u \<in> space_pages m d" for u
      unfolding same_page_def
    proof (intro allI impI)
      fix x assume "x - u < 4096"
      then have "4096 \<le> x - t"
        using other_page_far [OF space_pages_aligned [OF ok that] t(1)] that t(2) by blast
      with n(2) have "n \<le> x - t" by (rule order.trans)
      then show "m' x = m x" using m' by blast
    qed
    from space_cong [OF ok this] have s: "space_ok m' d"
      "\<And>a. page_aligned a \<Longrightarrow> paging_get m' d a = paging_get m d a" by blast+
    show "mmu_walk m' d (src + i) = Some (g (src + i))"
      using src [OF i] walk_get [OF s(1), of "src + i"] walk_get [OF ok, of "src + i"] s(2) [OF page_of_aligned, of "src + i"]
      by metis
    have off: "t + i - t < 4096" using i n(2) by simp
    then have p: "page_of (t + i) = t" using t(1) by (rule_tac page_of_in)
    have "i = (t + i) AND 0xfff" using page_offset [of "t + i"] p by simp
    moreover have "t OR ((t + i) AND 0xfff) = t + i" using page_split [of "t + i"] p by (simp add: page_of_def)
    moreover have "page_of (t OR 7) = t" using mask_page_flags' [OF t(1), of 7] by (simp add: page_of_def)
    moreover have "bit (t OR 7) 0" by (simp add: bit_simps)
    ultimately show "mmu_walk m' d (t + i) = Some (t + i)"
      using s(2) [OF t(1)] self p by (simp add: walk_get [OF s(1)])
  qed
qed

text \<open>The pages of an address space are in use, and so are the task and its chunk; the string lies in pages in use.\<close>

definition readable :: "kmem \<Rightarrow> u32 \<Rightarrow> u32 \<Rightarrow> (u32 \<Rightarrow> u32) \<Rightarrow> u32 \<Rightarrow> bool" where
  "readable s d virt g n \<longleftrightarrow> (\<forall>i < n. mmu_walk (ram s) d (virt + i) = Some (g (virt + i)) \<and>
     page_of (virt + i) \<in> owned_pages (phys s) \<and>
     page_of (g (virt + i)) \<in> owned_pages (phys s) - space_pages (ram s) d)"

definition kernel_buffer :: "kmem \<Rightarrow> u32 \<Rightarrow> u32 \<Rightarrow> u32 \<Rightarrow> bool" where
  "kernel_buffer s d a n \<longleftrightarrow> (\<forall>i < n. page_of (a + i) \<in> owned_pages (phys s) - space_pages (ram s) d)"

definition task_in_use :: "kernel \<Rightarrow> u32 \<Rightarrow> u32 \<Rightarrow> bool" where
  "task_in_use k task d \<longleftrightarrow> space_ok (kram k) d \<and>
     load32 (kram k) (task_chunk (kram k) task) = d \<and> page_aligned (task_chunk (kram k) task) \<and>
     {task, task_chunk (kram k) task} \<union> space_pages (kram k) d \<subseteq> owned_pages (phys (km (mm k)))"

lemma paging_switch_km [simp]: "km (paging_switch d v) = km v"
  by (simp add: paging_switch_def paging_load_directory_def)

text \<open>First phase: a page \<open>t\<close> is borrowed, and mapped to itself in the program's directory.\<close>

lemma window_opened:
  assumes inv: "kheap_inv (km (mm k))" "0 < unat (pmm_free_blocks (phys (km (mm k))))"
    and n: "n \<le> 4096" and task: "task_in_use k task d"
  shows "\<exists>t s m. kzalloc n (km (mm k)) = (t, s) \<and> t \<noteq> 0 \<and> page_aligned t \<and> t \<notin> owned_pages (phys (km (mm k))) \<and>
    unat (pmm_free_blocks (phys (km (mm k)))) = Suc (unat (pmm_free_blocks (phys s))) \<and>
    owned_pages (phys s) = insert t (owned_pages (phys (km (mm k)))) \<and> kheap_inv s \<and>
    load32 (ram s) (task_chunk (ram s) task) = d \<and> paging_map (ram s) d t t 7 = (1, m) \<and>
    paging_get (ram s) d t = paging_get (kram k) d t \<and> paging_get m d t = t OR 7 \<and>
    space_ok m d \<and> space_pages m d = space_pages (kram k) d \<and>
    (\<forall>w. page_aligned w \<longrightarrow> w \<noteq> t \<longrightarrow> paging_get m d w = paging_get (kram k) d w) \<and>
    (\<forall>x. page_of x \<in> owned_pages (phys (km (mm k))) - space_pages (kram k) d \<longrightarrow> m x = kram k x)"
proof -
  let ?O = "owned_pages (phys (km (mm k)))" and ?D = "space_pages (kram k) d"
  from kzalloc_small [OF inv(1) n inv(2)] obtain t s where
    t: "kzalloc n (km (mm k)) = (t, s)" "t \<noteq> 0" "page_aligned t" "t \<notin> ?O" "ram s = memset (kram k) t 0 n"
      "unat (pmm_free_blocks (phys (km (mm k)))) = Suc (unat (pmm_free_blocks (phys s)))" "owned_pages (phys s) = insert t ?O" "kheap_inv s" by auto
  have ok: "space_ok (kram k) d" "?D \<subseteq> ?O" using task by (simp_all add: task_in_use_def)
  have D: "t \<notin> ?D" using ok(2) t(4) by blast
  have pa: "page_aligned u" if "u \<in> ?O" for u using owned_page_aligned that inv(1) by (auto simp: kheap_inv_def)
  have "\<forall>u \<in> ?D. page_aligned u" using space_pages_aligned [OF ok(1)] by blast
  note one = kzalloc_space [OF t(3) D this n ok(1), where c = 0, folded t(5)]
  have same1: "ram s x = kram k x" if "page_of x \<in> ?O" for x
  proof -
    have "t \<noteq> page_of x" using t(4) that by blast
    from n far_from_page [OF t(3) this] have "n \<le> x - t" by (rule order.trans)
    then show ?thesis by (simp add: t(5) memset_apply leD)
  qed
  have pg: "same_page (kram k) (ram s) u" if "u \<in> ?O" for u
    unfolding t(5) using that t(3,4) n pa by (intro memset_same_page) auto
  have "load32 (ram s) (task_chunk (ram s) task) = d"
    using same_page_load [OF pg [of task], of 0] same_page_load [OF pg [of "task_chunk (kram k) task"], of 0] task
    by (simp add: task_in_use_def task_chunk_def field_def)
  moreover have "paging_map (ram s) d t t 7 = paging_set (ram s) d t (t OR 7)"
    using t(3) by (simp add: paging_map_def page_aligned_def)
  moreover from space_set [OF one(1) t(3), of "t OR 7"] obtain m where
    "paging_set (ram s) d t (t OR 7) = (1, m)" "space_ok m d" "space_pages m d = ?D" "paging_get m d t = t OR 7"
    "\<forall>w. page_aligned w \<longrightarrow> w \<noteq> t \<longrightarrow> paging_get m d w = paging_get (ram s) d w" "\<forall>x. page_of x \<notin> ?D \<longrightarrow> m x = ram s x"
    unfolding one(2) by blast
  ultimately show ?thesis using t one(3) same1 by (intro exI [of _ t] exI [of _ s] exI [of _ m]) simp
qed

text \<open>Second phase: through the window \<open>t\<close> the string comes over, and the entry of \<open>t\<close> is put back.\<close>

lemma window_used:
  assumes ok: "space_ok m d" and n: "0 <s n" "n \<le> 4096" and t: "page_aligned t" "t \<notin> space_pages m d"
    and self: "paging_get m d t = t OR 7"
    and src: "\<And>i. i < n \<Longrightarrow> mmu_walk m d (virt + i) = Some (g (virt + i)) \<and> page_of (g (virt + i)) \<noteq> t"
    and bs: "bs = cstrn (\<lambda>a. m (g a)) virt (unat n - 1)"
  shows "\<exists>m3 m4. strncpy_via (\<lambda>m a. mmu_walk m d a) m t virt n = Some m3 \<and> paging_set m3 d t old = (1, m4) \<and>
    space_ok m4 d \<and> space_pages m4 d = space_pages m d \<and> paging_get m4 d t = old \<and>
    (\<forall>w. page_aligned w \<longrightarrow> w \<noteq> t \<longrightarrow> paging_get m4 d w = paging_get m d w) \<and> cstrn m4 t (unat n - 1) = bs \<and>
    (\<forall>x. page_of x \<noteq> t \<longrightarrow> m3 x = m x) \<and> (\<forall>x. page_of x \<noteq> t \<and> page_of x \<notin> space_pages m d \<longrightarrow> m4 x = m x)"
proof -
  let ?m3 = "write_bytes m t (bs @ [0])"
  have un: "0 < unat n" "unat n \<le> 4096" using n by (simp_all add: sless0_iff_u32 word_less_nat_alt word_le_nat_alt)
  have nz: "0 \<notin> set bs" using cstrn_nonzero bs by blast
  have len: "length bs < unat n" using length_cstrn [of "\<lambda>a. m (g a)" virt "unat n - 1"] un(1) unfolding bs by linarith
  from copy_through [OF ok n t self src] have via: "strncpy_via (\<lambda>m a. mmu_walk m d a) m t virt n = Some ?m3"
    unfolding bs .
  have tpage: "page_of (t + of_nat i) = t" if "i < unat n" for i
  proof -
    have "t + of_nat i - t < 4096" using that un(2) of_nat_below(2) [OF that] by (simp add: word_less_nat_alt)
    then show ?thesis by (rule page_of_in [OF t(1)])
  qed
  have far3: "?m3 x = m x" if "page_of x \<noteq> t" for x
    using that tpage len by (intro write_bytes_outside) auto
  have s3: "same_page m ?m3 u" if "u \<in> space_pages m d" for u
    using that tpage len t(2) space_pages_aligned [OF ok] by (intro write_bytes_pages) auto
  have three: "space_ok ?m3 d" "space_pages ?m3 d = space_pages m d"
    "\<And>a. page_aligned a \<Longrightarrow> paging_get ?m3 d a = paging_get m d a"
    using space_cong [OF ok s3] by blast+
  from space_set [OF three(1) t(1), of old] obtain m4 where
    b: "paging_set ?m3 d t old = (1, m4)" "space_ok m4 d" "space_pages m4 d = space_pages m d" "paging_get m4 d t = old"
      "\<forall>w. page_aligned w \<longrightarrow> w \<noteq> t \<longrightarrow> paging_get m4 d w = paging_get ?m3 d w" "\<forall>y. page_of y \<notin> space_pages m d \<longrightarrow> m4 y = ?m3 y"
    unfolding three(2) by blast
  have "cstring ?m3 t bs"
    using nz less_trans [OF len unat_u32_bound] by (rule cstring_write_bytes)
  then have "cstrn ?m3 t (unat n - 1) = bs"
    using cstring_cstrn [of ?m3 t bs "unat n - 1"] len by simp
  moreover have "cstrn m4 t (unat n - 1) = cstrn ?m3 t (unat n - 1)"
    using b(6) tpage t(2) by (intro cstrn_cong) simp
  ultimately show ?thesis using via b three(3) far3 by (intro exI [of _ ?m3] exI [of _ m4]) simp
qed

text \<open>Third phase: the borrowed page, now plain kernel memory, is copied to the destination.\<close>

lemma kernel_copy:
  assumes ok: "space_ok m d" and n: "0 <s n" "n \<le> 4096" and t: "page_aligned t" and bs: "cstrn m t (unat n - 1) = bs"
    and dest: "\<forall>i < n. page_of (dest + i) \<noteq> t \<and> page_of (dest + i) \<notin> space_pages m d"
  shows "cstring (strncpy m dest t n) dest bs"
    "\<And>w. page_aligned w \<Longrightarrow> paging_get (strncpy m dest t n) d w = paging_get m d w"
    "\<And>x. n \<le> x - dest \<Longrightarrow> strncpy m dest t n x = m x"
proof -
  have un: "0 < unat n" using n(1) by (simp add: sless0_iff_u32 word_less_nat_alt)
  have nz: "0 \<notin> set bs" using cstrn_nonzero bs by blast
  have len: "length bs < unat n" using length_cstrn [of m t "unat n - 1"] un unfolding bs by linarith
  have "apart n dest t"
    unfolding apart_def
  proof (intro conjI)
    show "n \<le> dest - t"
      using far_from_page [OF t, of dest] dest [rule_format, of 0] n(2) un by (metis add.right_neutral order.trans unat_gt_0 word_gt_0)
    show "n \<le> t - dest" using dest [rule_format, of "t - dest"] t by (metis add.commute diff_add_cancel not_le page_of_page)
  qed
  from strncpy_flat [OF n(1) this, of m] have w: "strncpy m dest t n = write_bytes m dest (bs @ [0])" unfolding bs .
  have below: "of_nat i < n" if "i < length (bs @ [0])" for i using that len of_nat_below(1) [of i n] by simp
  show "cstring (strncpy m dest t n) dest bs"
    unfolding w using nz less_trans [OF len unat_u32_bound] by (rule cstring_write_bytes)
  have dp: "page_of (dest + of_nat i) \<notin> space_pages m d" if "i < length (bs @ [0])" for i using dest below [OF that] by simp
  have "same_page m (strncpy m dest t n) u" if "u \<in> space_pages m d" for u
    unfolding w using that dp space_pages_aligned [OF ok] by (intro write_bytes_pages) auto
  from space_cong(3) [OF ok this] show "paging_get (strncpy m dest t n) d w = paging_get m d w" if "page_aligned w" for w
    using that by blast
  show "strncpy m dest t n x = m x" if "n \<le> x - dest" for x
    unfolding w
  proof (rule write_bytes_outside)
    fix i assume i: "i < length (bs @ [0])"
    show "x \<noteq> dest + of_nat i" using that below [OF i] by auto
  qed
qed

lemma copy_string_ok:
  assumes inv: "kheap_inv (km (mm k))" "0 < unat (pmm_free_blocks (phys (km (mm k))))"
    and n: "0 <s n" "n \<le> 4096" and task: "task_in_use k task d"
    and virt: "readable (km (mm k)) d virt g n" and dest: "kernel_buffer (km (mm k)) d dest n"
    and chunk: "kernel_chunk k \<in> owned_pages (phys (km (mm k))) - space_pages (kram k) d"
  shows "\<exists>k' bs. copy_string_from_task task virt dest n k = Some (1, k') \<and>
    bs = cstrn (\<lambda>a. kram k (g a)) virt (unat n - 1) \<and> cstring (kram k') dest bs \<and>
    (\<forall>a. page_aligned a \<longrightarrow> paging_get (kram k') d a = paging_get (kram k) d a) \<and>
    cr3 (mm k') = load32 (kram k) (kernel_chunk k) \<and>
    unat (pmm_free_blocks (phys (km (mm k)))) = Suc (unat (pmm_free_blocks (phys (km (mm k'))))) \<and>
    owned_pages (phys (km (mm k))) \<subseteq> owned_pages (phys (km (mm k'))) \<and> kheap_inv (km (mm k')) \<and>
    kernel_chunk k' = kernel_chunk k \<and> current_task k' = current_task k \<and>
    (\<forall>x. page_of x \<in> owned_pages (phys (km (mm k))) - space_pages (kram k) d \<and> n \<le> x - dest \<longrightarrow> kram k' x = kram k x)"
proof -
  let ?O = "owned_pages (phys (km (mm k)))" and ?D = "space_pages (kram k) d"
  from window_opened [OF inv n(2) task] obtain t s m2 where
    t: "kzalloc n (km (mm k)) = (t, s)" "t \<noteq> 0" "page_aligned t" "t \<notin> ?O"
      "unat (pmm_free_blocks (phys (km (mm k)))) = Suc (unat (pmm_free_blocks (phys s)))"
      "owned_pages (phys s) = insert t ?O" "kheap_inv s"
    and a: "load32 (ram s) (task_chunk (ram s) task) = d" "paging_map (ram s) d t t 7 = (1, m2)"
      "paging_get (ram s) d t = paging_get (kram k) d t" "paging_get m2 d t = t OR 7" "space_ok m2 d" "space_pages m2 d = ?D"
      "\<forall>w. page_aligned w \<longrightarrow> w \<noteq> t \<longrightarrow> paging_get m2 d w = paging_get (kram k) d w"
      "\<forall>x. page_of x \<in> ?O - ?D \<longrightarrow> m2 x = kram k x" by blast
  have ok: "space_ok (kram k) d" "t \<notin> ?D" using task t(4) by (auto simp: task_in_use_def)
  obtain bs where bs: "bs = cstrn (\<lambda>a. kram k (g a)) virt (unat n - 1)" by blast
  have src: "mmu_walk m2 d (virt + i) = Some (g (virt + i)) \<and> page_of (g (virt + i)) \<noteq> t" if i: "i < n" for i
  proof -
    have r: "mmu_walk (kram k) d (virt + i) = Some (g (virt + i))" "page_of (virt + i) \<noteq> t" "page_of (g (virt + i)) \<noteq> t"
      using virt i t(4) by (auto simp: readable_def)
    then have "mmu_walk m2 d (virt + i) = mmu_walk (kram k) d (virt + i)"
      using walk_get [OF a(5), of "virt + i"] walk_get [OF ok(1), of "virt + i"] a(7) by (metis page_of_aligned)
    then show ?thesis using r by simp
  qed
  have bytes: "m2 (g (virt + of_nat i)) = kram k (g (virt + of_nat i))" if "i < unat n" for i
    using virt of_nat_below [OF that] a(8) by (simp add: readable_def)
  have "bs = cstrn (\<lambda>a. m2 (g a)) virt (unat n - 1)"
    unfolding bs using bytes by (intro cstrn_cong) simp
  from window_used [OF a(5) n t(3) _ a(4) src this, where old = "paging_get (ram s) d t", unfolded a(6), OF ok(2)] obtain m3 m4 where
    b: "strncpy_via (\<lambda>m a. mmu_walk m d a) m2 t virt n = Some m3" "paging_set m3 d t (paging_get (ram s) d t) = (1, m4)"
      "space_ok m4 d" "space_pages m4 d = ?D" "paging_get m4 d t = paging_get (ram s) d t"
      "\<forall>w. page_aligned w \<longrightarrow> w \<noteq> t \<longrightarrow> paging_get m4 d w = paging_get m2 d w" "cstrn m4 t (unat n - 1) = bs"
      "\<forall>x. page_of x \<noteq> t \<longrightarrow> m3 x = m2 x" "\<forall>x. page_of x \<noteq> t \<and> page_of x \<notin> ?D \<longrightarrow> m4 x = m2 x" by blast
  have "\<forall>i < n. page_of (dest + i) \<noteq> t \<and> page_of (dest + i) \<notin> space_pages m4 d"
    using dest t(4) unfolding b(4) by (auto simp: kernel_buffer_def)
  note c = kernel_copy [OF b(3) n t(3) b(7) this]
  have restored: "paging_get (strncpy m4 dest t n) d w = paging_get (kram k) d w" if "page_aligned w" for w
    using that c(2) b(5,6) a(3,7) by (cases "w = t") auto
  have frame: "strncpy m4 dest t n x = kram k x" if "page_of x \<in> ?O - ?D" "n \<le> x - dest" for x
  proof -
    have "page_of x \<noteq> t" using that(1) t(4) by auto
    then show ?thesis using c(3) [OF that(2)] b(9) a(8) that(1) by simp
  qed
  have kc: "load32 m3 (kernel_chunk k) = load32 (kram k) (kernel_chunk k)"
  proof (rule load32_cong)
    fix j :: u32 assume "j < 4"
    then have "kernel_chunk k + j - kernel_chunk k < 4096" by (simp add: word_less_nat_alt)
    moreover have "page_aligned (kernel_chunk k)" using chunk owned_page_aligned inv(1) by (auto simp: kheap_inv_def)
    ultimately have "page_of (kernel_chunk k + j) = kernel_chunk k" by (intro page_of_in)
    moreover from this have "page_of (kernel_chunk k + j) \<noteq> t" using chunk t(4) by auto
    ultimately show "m3 (kernel_chunk k + j) = kram k (kernel_chunk k + j)" using b(8) a(8) chunk by simp
  qed
  obtain k' where k': "k' = set_ram (strncpy m4 dest t n) (set_ram m4 (kernel_page (set_ram m3
    ((set_ram m2 (set_km s k))\<lparr>mm := paging_switch d (mm (set_ram m2 (set_km s k)))\<rparr>))))" by blast
  have "\<not> 4096 <s n" using n by (auto simp: word_sless_alt sint_u32 sless0_iff_u32 word_le_def word_less_def)
  then have "copy_string_from_task task virt dest n k = Some (1, k')"
    using t(2) by (simp add: copy_string_from_task_def paging_4gb_chunk_get_directory_def t(1) a(1,2) b(1,2) k') (simp add: Let_def)
  moreover have f: "kram k' = strncpy m4 dest t n" "cr3 (mm k') = load32 m3 (kernel_chunk k)" "phys (km (mm k')) = phys s"
    "big_blocks (km (mm k')) = big_blocks s" "kernel_chunk k' = kernel_chunk k" "current_task k' = current_task k"
    by (simp_all add: k' kernel_page_def kernel_registers_def paging_switch_def paging_load_directory_def
        paging_4gb_chunk_get_directory_def Let_def)
  moreover have "kheap_inv (km (mm k'))" using t(7) f(3,4) by (simp add: kheap_inv_def)
  ultimately show ?thesis
    using t(5,6) kc frame restored c(1) unfolding bs [symmetric] by (intro exI [of _ k'] exI [of _ bs]) auto
qed

text \<open>C25: Copying a program's string into the kernel. For a buffer of up to a page, a destination in kernel pages and a string that the program's
  directory maps to pages in use outside its own tables, \<open>copy_string_from_task\<close> returns 1 with the destination holding exactly the
  program's string cut to the buffer, the program's page entries as they were, and the kernel's directory
  loaded again; the page it borrowed for the copy is not given back.\<close>

theorem copy_string_from_task_correct:
  assumes inv: "kheap_inv (km (mm k))" "0 < unat (pmm_free_blocks (phys (km (mm k))))"
    and n: "0 <s n" "n \<le> 4096" and task: "task_in_use k task d"
    and virt: "readable (km (mm k)) d virt g n" and dest: "kernel_buffer (km (mm k)) d dest n"
    and chunk: "kernel_chunk k \<in> owned_pages (phys (km (mm k))) - space_pages (kram k) d"
  shows "\<exists>k' bs. copy_string_from_task task virt dest n k = Some (1, k') \<and>
    bs = cstrn (\<lambda>a. kram k (g a)) virt (unat n - 1) \<and> cstring (kram k') dest bs \<and>
    (\<forall>a. page_aligned a \<longrightarrow> paging_get (kram k') d a = paging_get (kram k) d a) \<and>
    cr3 (mm k') = load32 (kram k) (kernel_chunk k) \<and>
    unat (pmm_free_blocks (phys (km (mm k)))) = Suc (unat (pmm_free_blocks (phys (km (mm k')))))"
  using copy_string_ok [OF assms] by blast

section \<open>A program to copy from\<close>

lemma own_space_in_use:
  assumes "own_space s chunk 5 K"
  shows "\<exists>d. load32 (ram s) chunk = d \<and> space_ok (ram s) d \<and> page_aligned chunk \<and>
    insert chunk (space_pages (ram s) d) \<subseteq> owned_pages (phys s) - K \<and> chunk \<notin> space_pages (ram s) d \<and> (\<forall>a. mmu_walk (ram s) d a = Some a)"
proof -
  obtain d where d: "load32 (ram s) chunk = d" "identity_map d 5 (ram s)" "page_aligned chunk"
    "{chunk, d} \<union> table_of (ram s) d ` {i. i < 1024} \<subseteq> owned_pages (phys s) - K"
    "chunk \<noteq> d" "\<forall>i < 1024. table_of (ram s) d i \<noteq> chunk"
    using assms by (auto simp: own_space_def field_def)
  have "bit (x OR 5 OR 2) 0" for x :: u32 by (simp add: bit_simps)
  then have "space_ok (ram s) d" using d(2) by (auto simp: space_ok_def identity_map_def)
  moreover have "mmu_walk (ram s) d a = Some a" for a
    using identity_map_walk [of d 5] d(2) by simp
  ultimately show ?thesis using d by (auto simp: space_pages_def)
qed

text \<open>A third task next to the two: outside the pages in use from the start, its chunk and tables on further pages.\<close>

lemma three_tasks:
  "\<exists>t k d. task_new 5 two_tasks = (t, k) \<and> kheap_inv (km (mm k)) \<and> 0 < unat (pmm_free_blocks (phys (km (mm k)))) \<and>
    task_in_use k t d \<and> (\<forall>a. mmu_walk (kram k) d a = Some a) \<and> owned_pages pmm_boot \<subseteq> owned_pages (phys (km (mm k))) \<and>
    space_pages (kram k) d \<inter> owned_pages pmm_boot = {} \<and> kernel_chunk k = 0x30000 \<and> t \<noteq> 0 \<and> page_aligned t \<and>
    t \<notin> owned_pages pmm_boot \<and> t \<notin> space_pages (kram k) d \<and>
    task_chunk (kram k) t \<notin> insert t (space_pages (kram k) d) \<union> owned_pages pmm_boot"
proof -
  have "1027 \<le> unat (pmm_free_blocks (phys (km (mm two_tasks))))" by (simp add: two_tasks_def)
  with task_new_result [OF two_tasks_inv two_tasks_list two_tasks_pages, of 5] obtain t k where
    k: "task_new 5 two_tasks = (t, k)"
      "own_space (km (mm k)) (task_chunk (kram k) t) 5 (insert t (owned_pages pmm_boot))" "kheap_inv (km (mm k))"
      "insert t (owned_pages pmm_boot) \<subseteq> owned_pages (phys (km (mm k)))"
      "unat (pmm_free_blocks pmm_boot) = 1027 + unat (pmm_free_blocks (phys (km (mm k))))" "kernel_chunk k = 0x30000" "t \<noteq> 0" "t \<notin> owned_pages pmm_boot"
      "task_list k ([0x10000, 0x20000] @ [t])"
    by (auto simp: two_tasks_def)
  then have al: "page_aligned t" by (auto simp: task_list_def forward_def)
  from own_space_in_use [OF k(2)] obtain d where
    "load32 (kram k) (task_chunk (kram k) t) = d" "space_ok (kram k) d" "page_aligned (task_chunk (kram k) t)"
    "insert (task_chunk (kram k) t) (space_pages (kram k) d) \<subseteq> owned_pages (phys (km (mm k))) - insert t (owned_pages pmm_boot)"
    "\<forall>a. mmu_walk (kram k) d a = Some a" "task_chunk (kram k) t \<notin> space_pages (kram k) d" by blast
  then show ?thesis using k al by (intro exI [of _ t] exI [of _ k] exI [of _ d]) (auto simp: task_in_use_def)
qed

lemma copy_string_from_task_correct_witness:
  "\<exists>t k k'. task_new 5 two_tasks = (t, k) \<and> copy_string_from_task t 0x400000 0x50000 16 k = Some (1, k') \<and>
    cstring (kram k') 0x50000 (cstrn (kram k) 0x400000 15)"
proof -
  obtain t k d where k: "task_new 5 two_tasks = (t, k)" "kheap_inv (km (mm k))" "0 < unat (pmm_free_blocks (phys (km (mm k))))"
    "task_in_use k t d" "\<forall>a. mmu_walk (kram k) d a = Some a" "owned_pages pmm_boot \<subseteq> owned_pages (phys (km (mm k)))"
    "space_pages (kram k) d \<inter> owned_pages pmm_boot = {}" "kernel_chunk k = 0x30000" using three_tasks by blast
  have small: "i < 4096" if "i < 16" for i :: u32 using that by (rule order.strict_trans) simp
  have p: "page_of (0x400000 + i) \<in> owned_pages pmm_boot" "page_of (0x50000 + i) \<in> owned_pages pmm_boot" if "i < 16" for i
    using boot_page_of [OF _ _ small [OF that], of "0x400000"] boot_page_of [OF _ _ small [OF that], of "0x50000"]
    by (simp_all add: page_aligned_def)
  have "readable (km (mm k)) d 0x400000 (\<lambda>a. a) 16" "kernel_buffer (km (mm k)) d 0x50000 16"
    using p k(5-7) unfolding readable_def kernel_buffer_def by blast+
  moreover have "page_of (0x30000 + 0) \<in> owned_pages pmm_boot" by (rule boot_page_of) (simp_all add: page_aligned_def)
  then have "kernel_chunk k \<in> owned_pages (phys (km (mm k))) - space_pages (kram k) d"
    using k(6-8) by (auto simp: page_of_def)
  moreover have "0 <s (16 :: u32)" "(16 :: u32) \<le> 4096" by (simp_all add: sless0_iff_u32)
  ultimately have "\<exists>k' bs. copy_string_from_task t 0x400000 0x50000 16 k = Some (1, k') \<and>
    bs = cstrn (\<lambda>a. kram k a) 0x400000 (unat (16 :: u32) - 1) \<and> cstring (kram k') 0x50000 bs"
    using copy_string_from_task_correct [OF k(2,3) _ _ k(4), of 16 "0x400000" "\<lambda>a. a" "0x50000"] by blast
  then show ?thesis using k(1) by auto
qed

end
