(* ===== verification/System.thy ===== *)
theory System imports Process Idt UserMem
begin

text \<open>
  The kernel as a whole: the system calls of \<open>src/src/isr80h/misc.c\<close> and their way through \<open>idt.asm\<close> and \<open>idt.c\<close>,
  the timer chip, \<open>src/src/chips/pit/pit.c\<close>, \<open>disk_search_init\<close>, and \<open>kernel_main\<close> of \<open>src/src/kernel.c\<close>, which brings the
  components up in order and loads the three programs. A call that ends in \<open>panic\<close>, or that does not return, is
  \<open>Inl\<close> of the reason; the screen of a kernel that has panicked is not kept.
\<close>

section \<open>Ports\<close>

definition no_interrupt_handler :: "'d device \<Rightarrow> 'd \<Rightarrow> 'd" where
  "no_interrupt_handler dev d = dev_outb dev 0x20 0x20 d"

definition pit_set_count :: "'d device \<Rightarrow> u32 \<Rightarrow> 'd \<Rightarrow> 'd" where
  "pit_set_count dev cnt d =
     (let d = dev_outb dev 0x40 (ucast (cnt AND 0xFF)) d
      in dev_outb dev 0x40 (ucast (drop_bit 8 (cnt AND 0xFF00))) d)"

text \<open>\<open>PIT_FREQUENCY/100\<close> is \<open>1193182/100\<close>.\<close>

definition pit_init :: "'d device \<Rightarrow> 'd \<Rightarrow> 'd" where
  "pit_init dev d = pit_set_count dev 11931 (dev_outb dev 0x43 0x30 d)"

section \<open>System calls\<close>

definition returned :: "'a option \<Rightarrow> 'a run" where
  "returned r = (case r of None \<Rightarrow> Inl ''does not return'' | Some a \<Rightarrow> Inr a)"

text \<open>The sum is printed, and then the kernel stops.\<close>

definition isr80h_command0_sum :: "interrupt_frame \<Rightarrow> system \<Rightarrow> (u32 \<times> system) run" where
  "isr80h_command0_sum frame y =
     (case task_get_stack_item (current_task (sk y)) 0 (sk y) of
        None \<Rightarrow> Inl ''page fault''
      | Some (res, k) \<Rightarrow> Inl ''in 0 command'')"

text \<open>\<open>buffer\<close> is the address of the 512-byte local; what \<open>copy_string_from_task\<close> returns is not tested.\<close>

definition isr80h_command4_sys_write :: "u32 \<Rightarrow> interrupt_frame \<Rightarrow> system \<Rightarrow> (u32 \<times> system) run" where
  "isr80h_command4_sys_write buffer frame y =
     (let currt_task = current_task (sk y) in
      case copy_string_from_task currt_task (load32 (sram y) (field currt_task 4)) buffer 512 (sk y) of
        None \<Rightarrow> Inl ''page fault''
      | Some (res, k) \<Rightarrow>
          let y = y\<lparr>sk := k\<rparr> in
          (case kernel_print buffer (con_terminal (km (mm (sk y)), sc y)) of
             None \<Rightarrow> Inl ''does not return''
           | Some t \<Rightarrow>
               let st = con_back t (km (mm (sk y)), sc y)
               in Inr (0, y\<lparr>sk := set_km (fst st) (sk y), sc := snd st\<rparr>)))"

definition isr80h_handler ::
    "(interrupt_frame, system) isr80h_command option list \<Rightarrow> int \<Rightarrow> interrupt_frame \<Rightarrow> system \<Rightarrow> (u32 \<times> system) run" where
  "isr80h_handler commands command frame y =
     (let y = y\<lparr>sk := kernel_page (sk y)\<rparr> in
      case task_current_save_state frame (sk y) of
        Inl msg \<Rightarrow> Inl msg
      | Inr k \<Rightarrow>
          (case isr80h_handle_command commands command frame (y\<lparr>sk := k\<rparr>) of
             Inl msg \<Rightarrow> Inl msg
           | Inr (res, y) \<Rightarrow> Inr (res, y\<lparr>sk := task_page (sk y)\<rparr>)))"

text \<open>
  \<open>isr80h_wrapper\<close> of \<open>idt.asm\<close>: the command is in \<open>eax\<close>; \<open>popad\<close> gives the caller its registers back, \<open>eax\<close> is then
  loaded with the result, and \<open>iret\<close> takes the rest from the frame.
\<close>

definition isr80h_wrapper ::
    "(interrupt_frame, system) isr80h_command option list \<Rightarrow> interrupt_frame \<Rightarrow> system \<Rightarrow> (cpu \<times> system) run" where
  "isr80h_wrapper commands frame y =
     (case isr80h_handler commands (sint (f_eax frame)) frame y of
        Inl msg \<Rightarrow> Inl msg
      | Inr (res, y) \<Rightarrow>
          Inr (\<lparr>c_edi = f_edi frame, c_esi = f_esi frame, c_ebp = f_ebp frame, c_ebx = f_ebx frame, c_edx = f_edx frame,
             c_ecx = f_ecx frame, c_eax = res, c_ip = f_ip frame, c_cs = f_cs frame, c_flags = f_flags frame,
             c_esp = f_esp frame, c_ss = f_ss frame\<rparr>, y))"

section \<open>Starting up\<close>

definition disk_search_init :: "(u32 \<Rightarrow> filesystem) \<Rightarrow> u32 \<Rightarrow> machine \<times> vfs \<Rightarrow> (machine \<times> vfs) option" where
  "disk_search_init fss disk s =
     (let st = mem_step (set_word disk 0) (fst s);
          st = mem_step (set_word (disk + 4) 512) st;
          st = mem_step (set_word (disk + 8) 0) st
      in case fs_resolve fss disk (st, snd s) of
           None \<Rightarrow> None
         | Some (fs, st, v) \<Rightarrow> Some (mem_step (set_word (disk + 12) fs) st, v))"

text \<open>The addresses of the globals, of the interrupt entry points, and of the locals and literals of \<open>kernel_main\<close>.\<close>

record boot_env =
  be_proc :: proc_env
  be_gdt :: u32
  be_tss :: u32
  be_idt :: u32
  be_idt_zero :: u32
  be_no_interrupt :: u32
  be_isr80h_wrapper :: u32
  be_isr_0x20_wrapper :: u32
  be_fat16_fs :: u32
  be_buffer :: u32
  be_files :: "u32 list"
  be_pointers :: "u32 list"
  be_esp :: u32
  be_flags :: u32

definition kernel_print_literal :: "string \<Rightarrow> system \<Rightarrow> system" where
  "kernel_print_literal text y =
     (let st = say (map of_char text) (km (mm (sk y)), sc y)
      in y\<lparr>sk := set_km (fst st) (sk y), sc := snd st\<rparr>)"

definition boot_terminal :: "system \<Rightarrow> system" where
  "boot_terminal y =
     (let st = (km (mm (sk y)), sc y); st = con_back (terminal_init (con_terminal st)) st
      in y\<lparr>sk := set_km (fst st) (sk y), sc := snd st\<rparr>)"

text \<open>\<open>kernel_main\<close> up to \<open>gdt_load\<close>: the result has the values for \<open>lidt\<close> and \<open>lgdt\<close>.\<close>

definition boot_tables :: "boot_env \<Rightarrow> system \<Rightarrow> (idtr_desc \<times> (u32 \<times> u32) \<times> system) run" where
  "boot_tables env y =
     (let y = boot_terminal y;
          y = sys_ram (memset (sram y) (be_gdt env) 0 48) y;
          (idtr, m) = idt_init (be_idt env) (be_idt_zero env) (be_no_interrupt env) (be_isr80h_wrapper env)
            (be_isr_0x20_wrapper env) (sram y);
          y = sys_ram m y;
          y = kernel_print_literal ''Interrupt Descriptor Table Initialize'' y;
          y = kernel_print_literal '' '' y
      in case gdt_structured_to_gdt (be_gdt env) (kernel_gdt (be_tss env)) (sram y) of
           Inl msg \<Rightarrow> Inl msg
         | Inr m \<Rightarrow>
             let y = sys_ram m y;
                 y = kernel_print_literal ''Global Descriptor Table Initialize'' y;
                 y = kernel_print_literal '' '' y
             in Inr (idtr, (be_gdt env, 48), y))"

text \<open>\<open>pmm_init\<close> to \<open>disk_search_init\<close>; \<open>heap_init\<close> does nothing.\<close>

definition boot_memory :: "boot_env \<Rightarrow> system \<Rightarrow> system run" where
  "boot_memory env y =
     (let s = km (mm (sk y));
          y = sys_mem (s\<lparr>phys := pmm_init 250000 25000 (phys s)\<rparr>) y;
          y = kernel_print_literal ''250000 Block of Memory Initialize'' y;
          y = kernel_print_literal '' '' y;
          y = kernel_print_literal ''25000 block Reserved for Kernel'' y;
          y = kernel_print_literal '' '' y
      in case fs_init (be_fat16_fs env) (sram y, sv y) of
           Inl msg \<Rightarrow> Inl msg
         | Inr (m, v) \<Rightarrow>
             let y = (sys_ram m y)\<lparr>sv := v\<rparr> in
             (case returned (disk_search_init (pe_fss (be_proc env)) (pe_disk (be_proc env)) (files_of y)) of
                Inl msg \<Rightarrow> Inl msg
              | Inr s \<Rightarrow>
                  let y = files_back s y;
                      y = kernel_print_literal ''Filesystem Detected and Loaded'' y
                  in Inr (kernel_print_literal '' '' y)))"

text \<open>Paging and the task state segment: \<open>esp0\<close> at offset 4, \<open>ss0\<close> at 8.\<close>

definition boot_paging :: "boot_env \<Rightarrow> system \<Rightarrow> system" where
  "boot_paging env y =
     (let (chunk, v) = paging_new_4gb 7 (mm (sk y));
          y = y\<lparr>sk := (sk y)\<lparr>mm := v, kernel_chunk := chunk\<rparr>\<rparr>;
          v = enable_paging (paging_switch (paging_4gb_chunk_get_directory (sram y) (kernel_chunk (sk y))) (mm (sk y)));
          y = y\<lparr>sk := (sk y)\<lparr>mm := v\<rparr>\<rparr>;
          y = kernel_print_literal ''Paging Enableded'' y;
          y = kernel_print_literal '' '' y;
          m = memset (sram y) (be_tss env) 0 100;
          m = store32 m (be_tss env + 4) 0x600000;
          m = store32 m (be_tss env + 8) 0x10
      in sys_ram m y)"

text \<open>The three \<open>process_load\<close> calls, each with its own pointer; their results are not used.\<close>

fun boot_processes :: "boot_env \<Rightarrow> (u32 \<times> u32) list \<Rightarrow> system \<Rightarrow> system run" where
  "boot_processes env [] y = Inr y"
| "boot_processes env ((pointer, name) # ps) y =
     (case returned (process_load (be_proc env) name pointer (sys_ram (store32 (sram y) pointer 0) y)) of
        Inl msg \<Rightarrow> Inl msg
      | Inr (res, y) \<Rightarrow> boot_processes env ps y)"

definition boot_commands :: "boot_env \<Rightarrow> (interrupt_frame, system) isr80h_command option list run" where
  "boot_commands env =
     isr80h_register_commands isr80h_command0_sum (isr80h_command4_sys_write (be_buffer env)) (replicate 1024 None)"

definition kernel_main :: "boot_env \<Rightarrow> system \<Rightarrow> (cpu option \<times> system) run" where
  "kernel_main env y =
     (case boot_tables env y of
        Inl msg \<Rightarrow> Inl msg
      | Inr (idtr, gdtr, y) \<Rightarrow>
          (case boot_memory env y of
             Inl msg \<Rightarrow> Inl msg
           | Inr y \<Rightarrow>
               let y = boot_paging env y in
               (case boot_commands env of
                  Inl msg \<Rightarrow> Inl msg
                | Inr commands \<Rightarrow>
                    (case boot_processes env (zip (be_pointers env) (be_files env)) y of
                       Inl msg \<Rightarrow> Inl msg
                     | Inr y \<Rightarrow>
                         (case task_run_first_ever_task (be_esp env) (be_flags env) (sk y) of
                            Inl msg \<Rightarrow> Inl msg
                          | Inr (Some cpu, k) \<Rightarrow> Inr (Some cpu, y\<lparr>sk := k\<rparr>)
                          | Inr (None, k) \<Rightarrow> Inr (None, kernel_print_literal ''here'' (y\<lparr>sk := k\<rparr>)))))))"

end
