(* ===== verification/SysCalls.thy ===== *)
theory SysCalls imports System
begin

text \<open>
  The write system call from the interrupt to the screen: \<open>isr80h_wrapper\<close>, \<open>isr80h_handler\<close>, the table of commands,
  \<open>isr80h_command4_sys_write\<close>, \<open>copy_string_from_task\<close> and \<open>kernel_print\<close> together.
\<close>

section \<open>Saving the registers\<close>

lemma save_page: "page_aligned t \<Longrightarrow> page_of x \<noteq> t \<Longrightarrow> task_save_state t f m x = m x"
  by (simp add: task_save_state_def Let_def field_def store32_page)

lemma saved_space:
  assumes "space_ok m d" "page_aligned t" "t \<notin> space_pages m d"
  shows "space_ok (task_save_state t f m) d" "space_pages (task_save_state t f m) d = space_pages m d"
    "\<And>a. page_aligned a \<Longrightarrow> paging_get (task_save_state t f m) d a = paging_get m d a"
proof -
  have "same_page m (task_save_state t f m) u" if "u \<in> space_pages m d" for u
    unfolding same_page_def
  proof (intro allI impI)
    fix x assume "x - u < 4096"
    then have "page_of x = u" by (rule page_of_in [OF space_pages_aligned [OF assms(1) that]])
    then show "task_save_state t f m x = m x" using that assms(2,3) by (metis save_page)
  qed
  from space_cong [OF assms(1) this] show "space_ok (task_save_state t f m) d"
    "space_pages (task_save_state t f m) d = space_pages m d"
    "\<And>a. page_aligned a \<Longrightarrow> paging_get (task_save_state t f m) d a = paging_get m d a" by blast+
qed

text \<open>
  A program's string and its surroundings: the running task \<open>t\<close> with its directory \<open>d\<close>, the string at \<open>virt\<close> that
  the directory maps by \<open>g\<close> outside the task's own page, and the kernel's buffer, chunk and video memory in
  kernel pages.
\<close>

definition write_call :: "system \<Rightarrow> u32 \<Rightarrow> u32 \<Rightarrow> u32 \<Rightarrow> (u32 \<Rightarrow> u32) \<Rightarrow> u32 \<Rightarrow> bool" where
  "write_call y t d virt g buffer \<longleftrightarrow>
     (let k = sk y; s = km (mm k); Q = owned_pages (phys s) - space_pages (ram s) d in
      kheap_inv s \<and> 0 < unat (pmm_free_blocks (phys s)) \<and> current_task k = t \<and> t \<noteq> 0 \<and> page_aligned t \<and>
      t \<notin> space_pages (ram s) d \<and> task_in_use k t d \<and> task_chunk (ram s) t \<notin> insert t (space_pages (ram s) d) \<and>
      readable s d virt g 512 \<and> (\<forall>i < 512. page_of (g (virt + i)) \<noteq> t) \<and> kernel_buffer s d buffer 512 \<and>
      kernel_chunk k \<in> Q \<and>
      (\<forall>x. page_of x = t \<or> page_of x = task_chunk (ram s) t \<longrightarrow> outside_video x \<and> 512 \<le> x - buffer) \<and>
      (\<forall>x. x - buffer < 512 \<longrightarrow> outside_video x) \<and>
      (\<forall>x. \<not> outside_video x \<longrightarrow> page_of x \<in> Q \<and> page_of x \<noteq> t))"

lemma screen_cong:
  assumes "\<And>x. \<not> outside_video x \<Longrightarrow> m' x = m x" shows "screen_cells m' = screen_cells m"
proof -
  have "load16 m' (cell_address i) = load16 m (cell_address i)" if "i < 1600" for i
  proof -
    have u: "unat (of_nat i * 2 :: u32) = i * 2" using that by (simp add: unat_word_ariths unat_of_nat_u32)
    then have u1: "unat (1 + of_nat i * 2 :: u32) = Suc (i * 2)" using that by (simp add: unat_word_ariths)
    have "\<not> (3200 :: u32) \<le> of_nat i * 2" "\<not> (3200 :: u32) \<le> 1 + of_nat i * 2"
      unfolding word_le_nat_alt u u1 using that by simp_all
    then have "\<not> outside_video (cell_address i)" "\<not> outside_video (cell_address i + 1)"
      by (simp_all add: outside_video_def cell_address_def)
    from assms [OF this(1)] assms [OF this(2)] show ?thesis by (simp add: load16_def)
  qed
  then show ?thesis by (simp add: screen_cells_def)
qed

section \<open>The write system call\<close>

lemma terminal_back [simp]: "con_terminal (con_back t st) = t"
  by (simp add: con_terminal_def con_back_def)

lemma sys_write_ok:
  assumes w: "write_call y t d virt g buffer" and t: "term_ok (con_terminal (km (mm (sk y)), sc y))"
    and e: "f_ebx frame = virt" and bs: "bs = cstrn (\<lambda>a. sram y (g a)) virt 511"
    and k1: "k1 = set_ram (task_save_state t frame (sram y)) (kernel_page (sk y))"
  shows "\<exists>y'. isr80h_command4_sys_write buffer frame (y\<lparr>sk := k1\<rparr>) = Inr (0, y') \<and> current_task (sk y') = t \<and>
    term_abs (con_terminal (km (mm (sk y')), sc y')) = type_line bs (term_abs (con_terminal (km (mm (sk y)), sc y))) \<and>
    load32 (sram y') (task_chunk (sram y') t) = d"
proof -
  let ?k = "sk y" and ?m = "sram y" and ?m1 = "task_save_state t frame (sram y)"
  let ?O = "owned_pages (phys (km (mm (sk y))))" and ?D = "space_pages (sram y) d"
  have h: "kheap_inv (km (mm ?k))" "0 < unat (pmm_free_blocks (phys (km (mm ?k))))" "current_task ?k = t" "t \<noteq> 0"
    "page_aligned t" "t \<notin> ?D" "task_in_use ?k t d" "task_chunk ?m t \<notin> insert t ?D" "readable (km (mm ?k)) d virt g 512"
    "\<And>i. i < 512 \<Longrightarrow> page_of (g (virt + i)) \<noteq> t" "kernel_buffer (km (mm ?k)) d buffer 512" "kernel_chunk ?k \<in> ?O - ?D"
    using w by (auto simp: write_call_def Let_def)
  have v: "page_of x = t \<or> page_of x = task_chunk ?m t \<Longrightarrow> outside_video x \<and> 512 \<le> x - buffer" "x - buffer < 512 \<Longrightarrow> outside_video x"
    "\<not> outside_video x \<Longrightarrow> page_of x \<in> ?O - ?D \<and> page_of x \<noteq> t" for x
    using w by (auto simp: write_call_def Let_def)
  have u: "space_ok ?m d" "load32 ?m (task_chunk ?m t) = d" "page_aligned (task_chunk ?m t)" "t \<in> ?O" "task_chunk ?m t \<in> ?O" "?D \<subseteq> ?O"
    using h(7) by (auto simp: task_in_use_def)
  note sp = saved_space [OF u(1) h(5,6), where f = frame]
  have m1: "?m1 x = ?m x" if "page_of x \<noteq> t" for x by (rule save_page [OF h(5) that])
  have chunk: "task_chunk ?m1 t = task_chunk ?m t"
    using save_other [OF h(5,5), of 0 frame ?m] by (simp add: task_chunk_def)
  have "load32 ?m1 (task_chunk ?m t + 0) = load32 ?m (task_chunk ?m t + 0)"
    using save_other [OF h(5) u(3), of 0 frame ?m] h(8) by (simp add: field_def)
  then have dir: "load32 ?m1 (task_chunk ?m t) = d" using u(2) by simp
  have km1: "kram k1 = ?m1" "phys (km (mm k1)) = phys (km (mm ?k))" "kernel_chunk k1 = kernel_chunk ?k" "current_task k1 = t"
    using h(3) by (simp_all add: k1)
  have inv1: "kheap_inv (km (mm k1))" "0 < unat (pmm_free_blocks (phys (km (mm k1))))"
    using h(1,2) by (simp_all add: k1 kheap_inv_def)
  have task1: "task_in_use k1 t d" using h(7) chunk dir sp(1,2) km1 by (simp add: task_in_use_def)
  have walk: "mmu_walk ?m1 d a = mmu_walk ?m d a" for a using walk_get [OF sp(1)] walk_get [OF u(1)] sp(3) by simp
  have virt1: "readable (km (mm k1)) d virt g 512" using h(9) walk sp(2) km1 by (simp add: readable_def)
  have dest1: "kernel_buffer (km (mm k1)) d buffer 512" using h(11) sp(2) km1 by (simp add: kernel_buffer_def)
  have chunk1: "kernel_chunk k1 \<in> owned_pages (phys (km (mm k1))) - space_pages (kram k1) d" using h(12) sp(2) km1 by simp
  have n: "0 <s (512 :: u32)" "(512 :: u32) \<le> 4096" by (simp_all add: sless0_iff_u32)
  have u511: "unat (512 :: u32) - 1 = 511" by simp
  obtain k2 where k2: "copy_string_from_task t virt buffer 512 k1 = Some (1, k2)" "cstring (kram k2) buffer bs"
      "current_task k2 = current_task k1" "owned_pages (phys (km (mm k1))) \<subseteq> owned_pages (phys (km (mm k2)))"
      "\<forall>x. page_of x \<in> owned_pages (phys (km (mm k1))) - space_pages (kram k1) d \<and> 512 \<le> x - buffer \<longrightarrow> kram k2 x = kram k1 x"
  proof -
    have "cstrn (\<lambda>a. kram k1 (g a)) virt 511 = bs"
      unfolding bs
    proof (rule cstrn_cong)
      fix i :: nat assume "i < 511"
      then have "(of_nat i :: u32) < 512" by (simp add: word_less_nat_alt unat_of_nat_u32)
      then show "kram k1 (g (virt + of_nat i)) = ?m (g (virt + of_nat i))" using h(10) m1 km1(1) by simp
    qed
    with copy_string_ok [OF inv1 n task1 virt1 dest1 chunk1] show ?thesis
      unfolding u511 by (elim exE conjE) (rule that, auto)
  qed
  note k2 = k2 [unfolded km1(1,2,4) sp(2)]
  have f2: "kram k2 x = ?m1 x" if "page_of x \<in> ?O - ?D" "512 \<le> x - buffer" for x using k2(5) that by blast
  let ?t2 = "con_terminal (km (mm k2), sc y)"
  have ok2: "term_ok ?t2" using t by (simp add: term_ok_def con_terminal_def)
  have len: "length bs < 512" using length_cstrn [of "\<lambda>a. ?m (g a)" virt 511] bs by simp
  have "outside_video (buffer + of_nat i)" if "i < length bs" for i
    by (rule v(2)) (use that len in \<open>simp add: word_less_nat_alt unat_of_nat_u32\<close>)
  moreover have "cstring (vram ?t2) buffer bs" using k2(2) by (simp add: con_terminal_def)
  ultimately obtain t' where t': "kernel_print buffer ?t2 = Some t'" "term_abs t' = type_line bs (term_abs ?t2)"
    "\<forall>x. outside_video x \<longrightarrow> vram t' x = vram ?t2 x" using kernel_print_result [OF ok2] by blast
  have "screen_cells (kram k2) = screen_cells ?m"
  proof (rule screen_cong)
    fix x assume x: "\<not> outside_video x"
    then have "512 \<le> x - buffer" using v(2) by (auto simp: not_less [symmetric])
    then show "kram k2 x = ?m x" using f2 v(3) [OF x] m1 by simp
  qed
  then have abs: "term_abs ?t2 = term_abs (con_terminal (km (mm ?k), sc y))" by (simp add: term_abs_def con_terminal_def)
  let ?y = "y\<lparr>sk := set_km (fst (con_back t' (km (mm k2), sc y))) k2, sc := snd (con_back t' (km (mm k2), sc y))\<rparr>"
  have run: "isr80h_command4_sys_write buffer frame (y\<lparr>sk := k1\<rparr>) = Inr (0, ?y)"
    using k2(1) t'(1) km1 save_saved [OF h(5), of frame ?m] e
    by (simp add: isr80h_command4_sys_write_def saved_def Let_def)
  have keep: "vram t' x = ?m1 x" if "page_of x = t \<or> page_of x = task_chunk ?m t" for x
    using t'(3) v(1) [OF that] f2 [of x] that u(4,5) h(6,8) by (auto simp: con_terminal_def)
  have word: "load32 (vram t') p = load32 ?m1 p" if "page_aligned p" "p = t \<or> p = task_chunk ?m t" for p
  proof (rule load32_cong)
    fix j :: u32 assume "j < 4"
    then have "j < 4096" by unat_arith
    then show "vram t' (p + j) = ?m1 (p + j)" using page_of_offset [OF that(1)] that(2) keep by auto
  qed
  have "load32 (vram t') (task_chunk (vram t') t) = d"
    using word [OF h(5)] word [OF u(3)] chunk dir by (simp add: task_chunk_def field_def)
  moreover have "sram ?y = vram t'" by (simp add: con_back_def)
  moreover have "con_terminal (km (mm (sk ?y)), sc ?y) = t'" by (simp add: con_terminal_def con_back_def)
  ultimately show ?thesis using run t'(2) abs k2(3) by (intro exI [of _ ?y]) simp
qed

text \<open>C9: The write system call. Called through interrupt 0x80 with 4 in \<open>eax\<close> and in \<open>ebx\<close> the address of a string of the running
  program, the kernel types the program's bytes up to the terminator, at most 511 of them, and ends the line; the
  program goes on with 0 in \<open>eax\<close>, every other register as it was at the interrupt, and its own page directory loaded.\<close>

theorem isr80h_write_correct:
  assumes "write_call y t d (f_ebx frame) g buffer" "term_ok (con_terminal (km (mm (sk y)), sc y))"
    and "isr80h_register_commands isr80h_command0_sum (isr80h_command4_sys_write buffer) (replicate 1024 None) = Inr commands"
    and "f_eax frame = 4"
  shows "\<exists>cpu y'. isr80h_wrapper commands frame y = Inr (cpu, y') \<and>
    term_abs (con_terminal (km (mm (sk y')), sc y')) =
      type_line (cstrn (\<lambda>a. sram y (g a)) (f_ebx frame) 511) (term_abs (con_terminal (km (mm (sk y)), sc y))) \<and>
    cpu = \<lparr>c_edi = f_edi frame, c_esi = f_esi frame, c_ebp = f_ebp frame, c_ebx = f_ebx frame, c_edx = f_edx frame,
      c_ecx = f_ecx frame, c_eax = 0, c_ip = f_ip frame, c_cs = f_cs frame, c_flags = f_flags frame,
      c_esp = f_esp frame, c_ss = f_ss frame\<rparr> \<and>
    current_task (sk y') = t \<and> cr3 (mm (sk y')) = d"
proof -
  let ?k1 = "set_ram (task_save_state t frame (sram y)) (kernel_page (sk y))"
  from sys_write_ok [OF assms(1,2) refl refl refl] obtain y' where
    y': "isr80h_command4_sys_write buffer frame (y\<lparr>sk := ?k1\<rparr>) = Inr (0, y')" "current_task (sk y') = t"
      "term_abs (con_terminal (km (mm (sk y')), sc y')) =
        type_line (cstrn (\<lambda>a. sram y (g a)) (f_ebx frame) 511) (term_abs (con_terminal (km (mm (sk y)), sc y)))"
      "load32 (sram y') (task_chunk (sram y') t) = d" by blast
  have t: "current_task (sk y) = t" "t \<noteq> 0" using assms(1) by (auto simp: write_call_def Let_def)
  have "commands = (replicate 1024 None)[0 := Some isr80h_command0_sum, 4 := Some (isr80h_command4_sys_write buffer)]"
    using assms(3) by (simp add: isr80h_register_commands_def isr80h_register_command_def nth_list_update)
  then have "isr80h_handle_command commands 4 frame z = isr80h_command4_sys_write buffer frame z" for z
    by (simp add: isr80h_handle_command_def nth_list_update)
  then have "isr80h_handler commands 4 frame y = Inr (0, y'\<lparr>sk := task_page (sk y')\<rparr>)"
    using t y'(1) by (simp add: isr80h_handler_def task_current_save_state_def)
  moreover have "sint (4 :: u32) = 4" by (simp add: sint_u32)
  ultimately show ?thesis using assms(4) y'(2-4)
    by (intro exI [of _ "y'\<lparr>sk := task_page (sk y')\<rparr>"] exI) (simp add: isr80h_wrapper_def task_page_def user_registers_def con_terminal_def)
qed

text \<open>The third task runs and asks to write the string at \<open>0x400000\<close>; the kernel's buffer is at \<open>0x50000\<close>.\<close>

definition write_system :: "kernel \<Rightarrow> u32 \<Rightarrow> system" where
  "write_system k t = \<lparr>sk = k\<lparr>current_task := t\<rparr>, sc = \<lparr>con_video = 0xB8000, con_row = 0, con_col = 0\<rparr>,
     sv = \<lparr>filesystems = [], file_descriptors = []\<rparr>, processes = []\<rparr>"

definition write_frame :: interrupt_frame where
  "write_frame = (demo_frame 1)\<lparr>f_eax := 4, f_ebx := 0x400000\<rparr>"

lemma in_boot_page:
  assumes "x - p < n" "page_aligned p" "p div 4096 < 25000" "n \<le> 4096" shows "page_of x \<in> owned_pages pmm_boot"
proof -
  have "x - p < 4096" using assms(1,4) by (rule order.strict_trans2)
  from boot_page_of [OF assms(2,3) this] show ?thesis by simp
qed

lemma video_pages:
  assumes "\<not> outside_video x" shows "page_of x \<in> owned_pages pmm_boot" "512 \<le> x - 0x50000"
proof -
  have x: "x - 0xB8000 < 3200" using assms by (simp add: outside_video_def not_le)
  then show "page_of x \<in> owned_pages pmm_boot" by (rule in_boot_page) (simp_all add: page_aligned_def)
  show "512 \<le> x - 0x50000" unfolding not_less [symmetric] by (rule far_apart [OF x]) simp
qed

lemma write_system_call:
  assumes "kheap_inv (km (mm k))" "0 < unat (pmm_free_blocks (phys (km (mm k))))" "task_in_use k t d"
    "\<forall>a. mmu_walk (kram k) d a = Some a" "owned_pages pmm_boot \<subseteq> owned_pages (phys (km (mm k)))"
    "space_pages (kram k) d \<inter> owned_pages pmm_boot = {}" "kernel_chunk k = 0x30000" "t \<noteq> 0" "page_aligned t"
    "t \<notin> owned_pages pmm_boot" "t \<notin> space_pages (kram k) d"
    "task_chunk (kram k) t \<notin> insert t (space_pages (kram k) d) \<union> owned_pages pmm_boot"
  shows "write_call (write_system k t) t d 0x400000 (\<lambda>a. a) 0x50000"
proof -
  let ?Q = "owned_pages (phys (km (mm k))) - space_pages (kram k) d"
  have sk: "sk (write_system k t) = k\<lparr>current_task := t\<rparr>" by (simp add: write_system_def)
  have boot: "p \<in> ?Q" "p \<noteq> t" "p \<noteq> task_chunk (kram k) t" if "p \<in> owned_pages pmm_boot" for p
    using that assms(5,6,10,12) by auto
  have near: "page_of (0x400000 + i) \<in> owned_pages pmm_boot" "page_of (0x50000 + i) \<in> owned_pages pmm_boot" if "i < 512" for i :: u32
    using in_boot_page [of "0x400000 + i" "0x400000" 512] in_boot_page [of "0x50000 + i" "0x50000" 512] that
    by (simp_all add: page_aligned_def)
  have buffer: "page_of x \<in> owned_pages pmm_boot" "outside_video x" if x: "x - 0x50000 < 512" for x
  proof -
    show "page_of x \<in> owned_pages pmm_boot" using x by (rule in_boot_page) (simp_all add: page_aligned_def)
    show "outside_video x" unfolding outside_video_def not_less [symmetric] by (rule far_apart [OF x]) simp
  qed
  have own: "outside_video x \<and> 512 \<le> x - 0x50000" if "page_of x = t \<or> page_of x = task_chunk (kram k) t" for x
    using that boot [of "page_of x"] video_pages(1) [of x] buffer(1) [of x] by (auto simp: not_less [symmetric])
  have "0x30000 \<in> owned_pages pmm_boot" using in_boot_page [of "0x30000" "0x30000" 1] by (simp add: page_aligned_def)
  then have chunk: "kernel_chunk k \<in> ?Q" using boot assms(7) by metis
  have "readable (km (mm k)) d 0x400000 (\<lambda>a. a) 512" "kernel_buffer (km (mm k)) d 0x50000 512"
    using near boot assms(4) unfolding readable_def kernel_buffer_def by blast+
  moreover have "page_of (0x400000 + i) \<noteq> t" if "i < 512" for i using near(1) [OF that] boot(2) by blast
  moreover have "task_in_use (k\<lparr>current_task := t\<rparr>) t d" using assms(3) by (simp add: task_in_use_def)
  ultimately show ?thesis
    unfolding write_call_def Let_def sk
  proof (intro conjI allI impI)
    fix x assume "\<not> outside_video x"
    from boot [OF video_pages(1) [OF this]] show "page_of x \<noteq> t"
      "page_of x \<in> owned_pages (phys (km (mm (k\<lparr>current_task := t\<rparr>)))) - space_pages (ram (km (mm (k\<lparr>current_task := t\<rparr>)))) d"
      by simp_all
  qed (use assms(1,2,8,9,11,12) chunk own buffer(2) in simp_all)
qed

lemma isr80h_write_correct_witness:
  "\<exists>t k commands cpu y'. task_new 5 two_tasks = (t, k) \<and>
    isr80h_register_commands isr80h_command0_sum (isr80h_command4_sys_write 0x50000) (replicate 1024 None) = Inr commands \<and>
    isr80h_wrapper commands write_frame (write_system k t) = Inr (cpu, y') \<and> c_eax cpu = 0 \<and> c_ip cpu = 9 \<and>
    term_abs (con_terminal (km (mm (sk y')), sc y')) =
      type_line (cstrn (kram k) 0x400000 511) (screen_cells (kram k), 0, 0)"
proof -
  obtain t k d where k: "task_new 5 two_tasks = (t, k)" and c: "write_call (write_system k t) t d 0x400000 (\<lambda>a. a) 0x50000"
    using three_tasks write_system_call by blast
  obtain commands where r:
    "isr80h_register_commands isr80h_command0_sum (isr80h_command4_sys_write 0x50000) (replicate 1024 None) = Inr commands"
    by (simp add: isr80h_register_commands_def isr80h_register_command_def nth_list_update)
  have ok: "term_ok (con_terminal (km (mm (sk (write_system k t))), sc (write_system k t)))"
    by (simp add: term_ok_def con_terminal_def write_system_def)
  have f: "f_ebx write_frame = 0x400000" "f_eax write_frame = 4" by (simp_all add: write_frame_def)
  have "term_abs (con_terminal (km (mm (sk (write_system k t))), sc (write_system k t))) = (screen_cells (kram k), 0, 0)"
    by (simp add: term_abs_def con_terminal_def write_system_def)
  moreover have "sram (write_system k t) = kram k" by (simp add: write_system_def)
  moreover have "f_ip write_frame = 9" by (simp add: write_frame_def demo_frame_def)
  ultimately show ?thesis using k r isr80h_write_correct [OF c [folded f(1)] ok r f(2)] unfolding f by auto
qed

end
