(* ===== verification/VfsOpen.thy ===== *)
theory VfsOpen imports Vfs
begin

text \<open>
  Opening and reading a file through the virtual file system: \<open>fopen\<close> of a file in the root directory of a FAT16
  disk, from the path string to the descriptor, and \<open>fread\<close> through a descriptor. What the calls may change is
  \<open>spares\<close>: pages in use keep their contents, but for the 108-byte name buffer on the stack.
\<close>

section \<open>What the calls leave alone\<close>

definition spares :: "u32 \<Rightarrow> kmem \<Rightarrow> kmem \<Rightarrow> bool" where
  "spares buf s s' \<longleftrightarrow> owned_pages (phys s) \<subseteq> owned_pages (phys s') \<and>
     pmm_system_memory_size (phys s') = pmm_system_memory_size (phys s) \<and>
     (\<forall>x. page_of x \<in> owned_pages (phys s) \<longrightarrow> 108 \<le> x - buf \<longrightarrow> ram s' x = ram s x)"

lemma spares_trans: "spares buf s1 s2 \<Longrightarrow> spares buf s2 s3 \<Longrightarrow> spares buf s1 s3"
  by (auto simp: spares_def)

lemma keeps_spares: "keeps s s' \<Longrightarrow> spares buf s s'"
  by (simp add: keeps_def spares_def)

lemma spares_write:
  assumes "spares buf s s2" "p \<notin> owned_pages (phys s)" "phys s' = phys s2"
    and "\<And>x. page_of x \<noteq> p \<Longrightarrow> ram s' x = ram s2 x"
  shows "spares buf s s'"
  unfolding spares_def
proof (intro conjI allI impI)
  fix x assume x: "page_of x \<in> owned_pages (phys s)" "108 \<le> x - buf"
  then have "page_of x \<noteq> p" using assms(2) by metis
  then show "ram s' x = ram s x" using assms(1,4) x by (simp add: spares_def)
qed (use assms(1,3) in \<open>simp_all add: spares_def\<close>)

text \<open>A word in a page in use and away from the buffer.\<close>

definition safe_word :: "u32 \<Rightarrow> kmem \<Rightarrow> u32 \<Rightarrow> bool" where
  "safe_word buf s a \<longleftrightarrow> (\<forall>j < 4. page_of (a + j) \<in> owned_pages (phys s) \<and> 108 \<le> a + j - buf)"

lemma safe_word_load: "safe_word buf s a \<Longrightarrow> spares buf s s' \<Longrightarrow> load32 (ram s') a = load32 (ram s) a"
  by (rule load32_cong) (simp add: safe_word_def spares_def)

lemma safe_word_spares: "safe_word buf s a \<Longrightarrow> spares buf s s' \<Longrightarrow> safe_word buf s' a"
  by (auto simp: safe_word_def spares_def)

lemma page_safe_word:
  assumes "page_aligned p" "p \<in> owned_pages (phys s)" "i \<le> 4092" "\<And>x. page_of x = p \<Longrightarrow> 108 \<le> x - buf"
  shows "safe_word buf s (p + i)"
  unfolding safe_word_def
proof (intro allI impI)
  fix j :: u32 assume "j < 4"
  then have "i + j < 4096" using assms(3) by unat_arith
  then have "page_of (p + i + j) = p" using page_of_offset [OF assms(1)] by (simp add: add.assoc)
  then show "page_of (p + i + j) \<in> owned_pages (phys s) \<and> 108 \<le> p + i + j - buf" using assms(2,4) by simp
qed

section \<open>Looking up a name\<close>

text \<open>
  The root directory of the disk, the wanted name and the path part that holds it, all in pages in use and away from the
  name buffer.
\<close>

definition open_env :: "u32 \<Rightarrow> fat_stack \<Rightarrow> u32 \<Rightarrow> dir_view \<Rightarrow> kmem \<Rightarrow> bool" where
  "open_env disk stk p d s \<longleftrightarrow> dir_at (ram s) d \<and> buf_apart d (stk_name stk) \<and> dir_in_use s d \<and>
     region_in_use s (stk_name stk) 108 \<and> safe_word (stk_name stk) s (disk + 16) \<and>
     d_dir d = private_root (disk_fs_private (ram s) disk) \<and>
     safe_word (stk_name stk) s p \<and> safe_word (stk_name stk) s (p + 4) \<and>
     load32 (ram s) p = d_name d \<and> load32 (ram s) (p + 4) = 0"

lemma open_env_spares:
  assumes "open_env disk stk p d s" "spares (stk_name stk) s s'"
  shows "open_env disk stk p d s'"
proof -
  have "dir_at (ram s') d"
    by (rule dir_cong [of "ram s"]) (use assms in \<open>auto simp: open_env_def spares_def dir_in_use_def buf_apart_def\<close>)
  moreover have "dir_in_use s' d" "region_in_use s' (stk_name stk) 108"
    using assms by (auto simp: open_env_def spares_def dir_in_use_def region_in_use_def)
  moreover have "safe_word (stk_name stk) s' (disk + 16)" "safe_word (stk_name stk) s' p" "safe_word (stk_name stk) s' (p + 4)"
    using assms safe_word_spares by (auto simp: open_env_def)
  moreover have "load32 (ram s') (disk + 16) = load32 (ram s) (disk + 16)" "load32 (ram s') p = load32 (ram s) p"
    "load32 (ram s') (p + 4) = load32 (ram s) (p + 4)"
    using assms safe_word_load by (auto simp: open_env_def)
  ultimately show ?thesis using assms(1) by (simp add: open_env_def disk_fs_private_def)
qed

text \<open>The only item that matches, and it is a file.\<close>

definition the_file :: "mem \<Rightarrow> dir_view \<Rightarrow> nat \<Rightarrow> bool" where
  "the_file m d j \<longleftrightarrow> j < length (d_names d) \<and> (\<forall>k < length (d_names d). d_match d k = (k = j)) \<and>
     item_attribute m (d_item d j) AND FAT_FILE_SUBDIRECTORY = 0"

lemma item_kept:
  assumes "open_env disk stk p d s" "spares (stk_name stk) s s'" "j < length (d_names d)" "i < 32"
  shows "ram s' (d_item d j + of_nat i) = ram s (d_item d j + of_nat i)"
proof -
  have "(of_nat i :: u32) < 32" using assms(4) by (simp add: word_less_nat_alt unat_of_nat_u32)
  then have "dir_cell d (d_item d j + of_nat i)" using assms(3) unfolding dir_cell_def by (metis add_diff_cancel_left')
  then show ?thesis using assms(1,2) by (simp add: open_env_def spares_def dir_in_use_def buf_apart_def)
qed

lemma the_file_spares:
  assumes "open_env disk stk p d s" "spares (stk_name stk) s s'" "the_file (ram s) d j"
  shows "the_file (ram s') d j" "read_bytes (ram s') (d_item d j) 32 = read_bytes (ram s) (d_item d j) 32"
proof -
  have j: "j < length (d_names d)" using assms(3) by (simp add: the_file_def)
  note k = item_kept [OF assms(1,2) j]
  show "the_file (ram s') d j" using assms(3) k [of 11] by (simp add: the_file_def item_attribute_def)
  show "read_bytes (ram s') (d_item d j) 32 = read_bytes (ram s) (d_item d j) 32" using k by (simp add: read_bytes_def)
qed

lemma get_entry_ok:
  assumes env: "open_env disk stk p d s" and h: "kheap_inv s" "2 \<le> unat (pmm_free_blocks (phys s))"
    and f: "the_file (ram s) d j"
  shows "\<exists>f c s'. fat16_get_directory_entry img stk disk p s = Some (f, s') \<and>
    file_item s s' f c (read_bytes (ram s) (d_item d j) 32) \<and> kheap_inv s' \<and> spares (stk_name stk) s s'"
proof -
  have d: "dir_at (ram s) d" "buf_apart d (stk_name stk)" "dir_in_use s d" "region_in_use s (stk_name stk) 108"
    using env by (auto simp: open_env_def)
  have j: "j < length (d_names d)" "\<And>k. k < length (d_names d) \<Longrightarrow> d_match d k = (k = j)"
    "item_attribute (ram s) (d_item d j) AND FAT_FILE_SUBDIRECTORY = 0"
    using f by (auto simp: the_file_def)
  obtain f c s' where r: "fat16_find_item_in_directory img stk disk (d_dir d) (d_name d) s = Some (f, s')"
    "file_item s s' f c (read_bytes (ram s) (d_item d j) 32)" "kheap_inv s'"
    "\<forall>x. page_of x \<in> owned_pages (phys s) \<and> 108 \<le> x - stk_name stk \<longrightarrow> ram s' x = ram s x"
    using find_one [OF d h j, of img disk] by blast
  have sp: "spares (stk_name stk) s s'" using r(2,4) by (auto simp: spares_def file_item_def)
  have "load32 (ram s') (p + 4) = 0" using open_env_spares [OF env sp] by (simp add: open_env_def)
  moreover have "f \<noteq> 0" using r(2) by (simp add: file_item_def)
  ultimately have "fat16_get_directory_entry img stk disk p s = Some (f, s')"
    using env r(1) by (simp add: fat16_get_directory_entry_def open_env_def Let_def directory_entry_loop.simps)
  with r sp show ?thesis by blast
qed

section \<open>The file system's open\<close>

text \<open>A file descriptor of the FAT16 driver at \<open>D\<close>: position 0, an item of type file, and a copy \<open>bs\<close> of the directory
  item. Its three pages are new since \<open>s\<close>.\<close>

definition opened :: "kmem \<Rightarrow> kmem \<Rightarrow> u32 \<Rightarrow> u8 list \<Rightarrow> bool" where
  "opened s s' D bs \<longleftrightarrow>
     (let f = descriptor_item (ram s') D; c = fat_item_ptr (ram s') f in
      D \<noteq> 0 \<and> f \<noteq> 0 \<and> D \<noteq> f \<and> D \<noteq> c \<and> page_aligned D \<and> page_aligned f \<and> page_aligned c \<and>
      {D, f, c} \<subseteq> owned_pages (phys s') - owned_pages (phys s) \<and>
      descriptor_pos (ram s') D = 0 \<and> fat_item_type (ram s') f = FAT_ITEM_TYPE_FILE \<and> read_bytes (ram s') c 32 = bs)"

lemma openedI:
  assumes "descriptor_item (ram s') D = f" "fat_item_ptr (ram s') f = c" "D \<noteq> 0" "f \<noteq> 0" "D \<noteq> f" "D \<noteq> c"
    "page_aligned D" "page_aligned f" "page_aligned c" "{D, f, c} \<subseteq> owned_pages (phys s') - owned_pages (phys s)"
    "descriptor_pos (ram s') D = 0" "fat_item_type (ram s') f = FAT_ITEM_TYPE_FILE" "read_bytes (ram s') c 32 = bs"
  shows "opened s s' D bs"
  using assms by (simp add: opened_def Let_def)

lemma opened_keeps:
  assumes "opened s s1 D bs" "keeps s1 s2"
  shows "opened s s2 D bs" "descriptor_item (ram s2) D = descriptor_item (ram s1) D"
    "fat_item_ptr (ram s2) (descriptor_item (ram s1) D) = fat_item_ptr (ram s1) (descriptor_item (ram s1) D)"
proof -
  obtain f c where fc: "descriptor_item (ram s1) D = f" "fat_item_ptr (ram s1) f = c" by blast
  have o: "D \<noteq> 0 \<and> D \<noteq> f \<and> D \<noteq> c" "f \<noteq> 0" "page_aligned D" "page_aligned f" "page_aligned c" "D \<in> owned_pages (phys s1)" "f \<in> owned_pages (phys s1)"
    "c \<in> owned_pages (phys s1)" "{D, f, c} \<inter> owned_pages (phys s) = {}" "descriptor_pos (ram s1) D = 0"
    "fat_item_type (ram s1) f = FAT_ITEM_TYPE_FILE" "read_bytes (ram s1) c 32 = bs"
    using assms(1) fc by (auto simp: opened_def Let_def)
  note k = keeps_load32 [OF assms(2)]
  have "read_bytes (ram s2) c 32 = read_bytes (ram s1) c 32"
    using o(5,8) assms(2) page_of_nat_offset [OF o(5)] by (simp add: read_bytes_def keeps_def)
  then show "opened s s2 D bs"
    using o fc k [OF o(3,6), of 0] k [OF o(3,6), of 4] k [OF o(4,7), of 0] k [OF o(4,7), of 4] assms(2)
    by (intro openedI [of _ D f c])
      (auto simp: descriptor_item_def descriptor_pos_def fat_item_ptr_def fat_item_type_def keeps_def)
  show "descriptor_item (ram s2) D = descriptor_item (ram s1) D"
    "fat_item_ptr (ram s2) (descriptor_item (ram s1) D) = fat_item_ptr (ram s1) (descriptor_item (ram s1) D)"
    using k [OF o(3,6), of 0] k [OF o(4,7), of 0] unfolding fc(1) by (simp_all add: fat_item_ptr_def) (simp add: descriptor_item_def fc(1) [unfolded descriptor_item_def])
qed

lemma open_ok:
  assumes env: "open_env disk stk p d s" and h: "kheap_inv s" "5 \<le> unat (pmm_free_blocks (phys s))"
    and f: "the_file (ram s) d j"
  shows "\<exists>D s'. fat16_open img stk disk p FILE_MODE_READ (s, con) = Some (D, s', con) \<and>
    opened s s' D (read_bytes (ram s) (d_item d j) 32) \<and> kheap_inv s' \<and> spares (stk_name stk) s s' \<and>
    unat (pmm_free_blocks (phys s)) = 5 + unat (pmm_free_blocks (phys s'))"
proof -
  let ?buf = "stk_name stk" and ?bs = "read_bytes (ram s) (d_item d j) 32"
  from kzalloc_keeps [OF h(1), of 8] h(2) obtain D s1 where
    D: "kzalloc 8 s = (D, s1)" "D \<noteq> 0" "page_aligned D" "D \<notin> owned_pages (phys s)" "keeps s s1"
      "owned_pages (phys s1) = insert D (owned_pages (phys s))" "kheap_inv s1"
      "unat (pmm_free_blocks (phys s)) = Suc (unat (pmm_free_blocks (phys s1)))" by auto
  have sp1: "spares ?buf s s1" by (rule keeps_spares [OF D(5)])
  note env1 = open_env_spares [OF env sp1] and f1 = the_file_spares [OF env sp1 f]
  have "2 \<le> unat (pmm_free_blocks (phys s1))" using D(8) h(2) by simp
  from get_entry_ok [OF env1 D(7) this f1(1), of img] obtain g1 c1 s2 where
    g1: "fat16_get_directory_entry img stk disk p s1 = Some (g1, s2)" "file_item s1 s2 g1 c1 ?bs" "kheap_inv s2" "spares ?buf s1 s2"
    unfolding f1(2) by blast
  note env2 = open_env_spares [OF env1 g1(4)] and f2 = the_file_spares [OF env1 g1(4) f1(1)]
  have "2 \<le> unat (pmm_free_blocks (phys s2))" using D(8) h(2) g1(2) by (simp add: file_item_def)
  from get_entry_ok [OF env2 g1(3) this f2(1), of img] obtain g c s3 where
    g: "fat16_get_directory_entry img stk disk p s2 = Some (g, s3)" "file_item s2 s3 g c ?bs" "kheap_inv s3" "spares ?buf s2 s3"
    unfolding f2(2) f1(2) by blast
  have own: "D \<in> owned_pages (phys s2)" "owned_pages (phys s) \<subseteq> owned_pages (phys s2)"
    using g1(4) D(6) by (auto simp: spares_def)
  have gc: "g \<noteq> 0" "page_aligned g" "page_aligned c" "g \<notin> owned_pages (phys s2)" "c \<notin> owned_pages (phys s2)"
    "owned_pages (phys s3) = {g, c} \<union> owned_pages (phys s2)" using g(2) by (auto simp: file_item_def)
  have ne: "g \<noteq> D" "c \<noteq> D" using gc(4,5) own(1) by auto
  let ?m4 = "store32 (ram s3) D g"
  let ?s' = "s3\<lparr>ram := store32 ?m4 (D + 4) 0\<rparr>"
  have far: "ram ?s' x = ram s3 x" if "page_of x \<noteq> D" for x
    using store32_page [OF D(3) _ that, of 0] store32_page [OF D(3) _ that, of 4] by simp
  have "file_item s2 ?s' g c ?bs" by (rule file_item_cong [OF g(2)]) (use far ne in auto)
  moreover have "load32 (ram ?s') D = g"
    by (simp add: load32_store32_apart apart_def)
  ultimately have "opened s ?s' D ?bs"
    using D(2-4) own gc ne
    by (intro openedI [of _ D g c]) (auto simp: file_item_def descriptor_item_def descriptor_pos_def)
  moreover have "spares ?buf s ?s'"
    using far by (intro spares_write [OF spares_trans [OF spares_trans [OF sp1 g1(4)] g(4)] D(4)]) auto
  moreover have "kheap_inv ?s'" using g(3) by (simp add: kheap_inv_def)
  moreover have "g1 \<noteq> 0" using g1(2) by (simp add: file_item_def)
  then have "fat16_open img stk disk p FILE_MODE_READ (s, con) = Some (D, ?s', con)"
    using D(1,2) g1(1) g(1) gc(1)
    by (simp add: fat16_open_def Let_def mem_call_def mem_step_def set_word_def descriptor_item_def)
  moreover have "unat (pmm_free_blocks (phys s)) = 5 + unat (pmm_free_blocks (phys ?s'))"
    using D(8) g1(2) g(2) by (simp add: file_item_def)
  ultimately show ?thesis by blast
qed

section \<open>A new descriptor\<close>

text \<open>The lowest free slot from 1 on.\<close>

definition free_slot :: "vfs \<Rightarrow> nat \<Rightarrow> bool" where
  "free_slot v i \<longleftrightarrow> 1 \<le> i \<and> i < length (file_descriptors v) \<and> file_descriptors v ! i = 0 \<and>
     (\<forall>j. 1 \<le> j \<and> j < i \<longrightarrow> file_descriptors v ! j \<noteq> 0)"

lemma free_slot_search:
  assumes "free_slot v i"
  shows "first_index (\<lambda>p. p = 0) (drop 1 (file_descriptors v)) = Some (i - 1)"
  using assms unfolding first_index_Some by (auto simp: free_slot_def)

lemma new_descriptor_ok:
  assumes "kheap_inv s" "0 < unat (pmm_free_blocks (phys s))" "free_slot v i"
  shows "\<exists>desc s'. file_new_descriptor ((s, con), v) =
      (0, desc, (s', con), v\<lparr>file_descriptors := (file_descriptors v)[i := desc]\<rparr>) \<and>
    desc \<noteq> 0 \<and> page_aligned desc \<and> desc \<notin> owned_pages (phys s) \<and> keeps s s' \<and> load32 (ram s') desc = of_nat i \<and>
    owned_pages (phys s') = insert desc (owned_pages (phys s)) \<and> kheap_inv s' \<and>
    unat (pmm_free_blocks (phys s)) = Suc (unat (pmm_free_blocks (phys s')))"
proof -
  from kzalloc_keeps [OF assms(1), of 16] assms(2) obtain desc s1 where
    D: "kzalloc 16 s = (desc, s1)" "desc \<noteq> 0" "page_aligned desc" "desc \<notin> owned_pages (phys s)" "keeps s s1"
      "owned_pages (phys s1) = insert desc (owned_pages (phys s))" "kheap_inv s1"
      "unat (pmm_free_blocks (phys s)) = Suc (unat (pmm_free_blocks (phys s1)))" by auto
  let ?s' = "set_word desc (of_nat i) s1"
  have i: "i - 1 + 1 = i" using assms(3) by (simp add: free_slot_def)
  have "file_new_descriptor ((s, con), v) =
      (0, desc, (?s', con), v\<lparr>file_descriptors := (file_descriptors v)[i := desc]\<rparr>)"
    unfolding file_new_descriptor_def by (simp only: Let_def prod.case snd_conv fst_conv free_slot_search [OF assms(3)]
        option.case D(1) i)
  moreover have "keeps s ?s'"
    using store32_page [OF D(3), of 0] D(6) by (intro keeps_write_after [OF D(5,4)]) (auto simp: set_word_def)
  ultimately show ?thesis using D
    by (intro exI [of _ desc] exI [of _ ?s']) (simp add: set_word_def kheap_inv_def)
qed

section \<open>Opening a file\<close>

text \<open>
  A disk ready for use: its FAT16 driver, its root directory in memory, all in pages in use and away from the name
  buffer.
\<close>

definition fat_disk :: "u32 \<Rightarrow> fat_stack \<Rightarrow> dir_view \<Rightarrow> kmem \<Rightarrow> bool" where
  "fat_disk disk stk d s \<longleftrightarrow> disk \<noteq> 0 \<and> disk_filesystem (ram s) disk \<noteq> 0 \<and>
     safe_word (stk_name stk) s (disk + 12) \<and> safe_word (stk_name stk) s (disk + 16) \<and>
     region_in_use s (stk_name stk) 108 \<and> dir_table (ram s) d \<and>
     (\<forall>x. table_cell d x \<longrightarrow> page_of x \<in> owned_pages (phys s) \<and> 108 \<le> x - stk_name stk) \<and>
     d_dir d = private_root (disk_fs_private (ram s) disk)"

text \<open>An open descriptor: its index, its filesystem, the driver's descriptor and the disk.\<close>

definition descriptor_at :: "mem \<Rightarrow> u32 \<Rightarrow> u32 \<Rightarrow> u32 \<Rightarrow> u32 \<Rightarrow> u32 \<Rightarrow> bool" where
  "descriptor_at m desc index fs private disk \<longleftrightarrow> load32 m desc = index \<and> load32 m (desc + 4) = fs \<and>
     load32 m (desc + 8) = private \<and> load32 m (desc + 12) = disk"

lemma name_env:
  assumes fd: "fat_disk disk stk d s" and k: "keeps s s1"
    and p: "path_list (ram s1) p [d_wanted d]" "path_pages (ram s1) p [d_wanted d] \<subseteq> owned_pages (phys s1) - owned_pages (phys s)"
    and q: "q = load32 (ram s1) p" and e: "e = d\<lparr>d_name := q\<rparr>"
  shows "open_env disk stk p e s1"
proof -
  let ?buf = "stk_name stk"
  have table: "page_of x \<in> owned_pages (phys s1)" "108 \<le> x - ?buf" "ram s1 x = ram s x" if "table_cell d x" for x
    using fd k that by (auto simp: fat_disk_def keeps_def)
  have new: "108 \<le> x - ?buf" if "page_of x \<notin> owned_pages (phys s)" for x
    using fd that by (intro not_in_buffer) (auto simp: fat_disk_def)
  have pq: "page_aligned p" "page_aligned q" "p \<in> owned_pages (phys s1)" "p \<notin> owned_pages (phys s)"
    "q \<in> owned_pages (phys s1)" "q \<notin> owned_pages (phys s)" "length (d_wanted d) < 4095" "cstring (ram s1) q (d_wanted d)"
    "load32 (ram s1) (p + 4) = 0" using p q by auto
  have str: "page_of (q + of_nat i) = q" if "i \<le> length (d_wanted d)" for i
    using that pq(7) by (intro page_of_nat_offset [OF pq(2)]) simp
  have cells: "page_of x \<in> owned_pages (phys s1) \<and> 108 \<le> x - ?buf" if "dir_cell e x" for x
  proof -
    from that consider "table_cell d x" | i where "i \<le> length (d_wanted d)" "x = q + of_nat i" by (auto simp: dir_cell_table e)
    then show ?thesis
    proof cases
      case 2
      then have "page_of x = q" using str by blast
      then show ?thesis using new pq(5,6) by metis
    qed (use table in simp)
  qed
  have "dir_table (ram s) d" using fd by (simp add: fat_disk_def)
  then have "dir_table (ram s1) d" by (rule dir_table_cong) (rule table(3))
  then have "dir_at (ram s1) e" using pq(8) by (simp add: dir_at_table e)
  moreover have "buf_apart e ?buf" "dir_in_use s1 e" using cells by (auto simp: buf_apart_def dir_in_use_def)
  moreover have "region_in_use s1 ?buf 108" using fd k by (auto simp: fat_disk_def intro: region_keeps)
  moreover have "safe_word ?buf s1 (disk + 16)" "load32 (ram s1) (disk + 16) = load32 (ram s) (disk + 16)"
    using fd safe_word_spares safe_word_load keeps_spares [OF k] by (auto simp: fat_disk_def)
  moreover have "safe_word ?buf s1 (p + i)" if "i \<le> 4092" for i
    using new pq(4) that by (intro page_safe_word [OF pq(1,3)]) auto
  from this [of 0] this [of 4] have "safe_word ?buf s1 p" "safe_word ?buf s1 (p + 4)" by simp_all
  ultimately show ?thesis using fd pq(9) q by (simp add: open_env_def fat_disk_def e disk_fs_private_def)
qed

lemma mode_read:
  assumes "m mode = 114" shows "file_mode_get_by_string m mode = FILE_MODE_READ"
  using assms by (simp add: file_mode_get_by_string_def istrncmp_char_def)

text \<open>A path \<open>0:/NAME\<close>: drive 0 and the single component \<open>w\<close>.\<close>

definition root_file_path :: "u8 list \<Rightarrow> u8 list \<Rightarrow> bool" where
  "root_file_path bs w \<longleftrightarrow> valid_path bs \<and> hd bs = 48 \<and> components (drop 3 bs) = [w] \<and> length w < 4095"

lemma open_parsed:
  assumes fd: "fat_disk disk stk d s" and h: "kheap_inv s" "10 \<le> unat (pmm_free_blocks (phys s))"
    and str: "cstring (ram s) path bs" "region_in_use s path (Suc (length bs))" "root_file_path bs (d_wanted d)"
    and f: "the_file (ram s) d j"
  shows "\<exists>root path' s1 D s2. Pathparser_parse path s = Some (root, path', s1) \<and> root \<noteq> 0 \<and> load32 (ram s1) root = 0 \<and>
    load32 (ram s1) (root + 4) \<noteq> 0 \<and> keeps s s1 \<and> kheap_inv s1 \<and>
    fat16_open img stk disk (load32 (ram s1) (root + 4)) FILE_MODE_READ (s1, con) = Some (D, s2, con) \<and>
    opened s s2 D (read_bytes (ram s) (d_item d j) 32) \<and> kheap_inv s2 \<and> spares (stk_name stk) s s2 \<and>
    unat (pmm_free_blocks (phys s)) = 9 + unat (pmm_free_blocks (phys s2))"
proof -
  have path: "valid_path bs" "hd bs = 48" "components (drop 3 bs) = [d_wanted d]" "length (d_wanted d) < 4095"
    using str(3) by (auto simp: root_file_path_def)
  have cs: "[d_wanted d] = components (if valid_path bs then drop 3 bs else bs)" using path by simp
  have "2 * length [d_wanted d] + 3 \<le> unat (pmm_free_blocks (phys s))" "\<forall>w \<in> set [d_wanted d]. length w < 4095"
    using h(2) path by simp_all
  from parse_ok [OF h(1) str(1,2) cs this(2,1)] obtain root path' s1 where
    r: "Pathparser_parse path s = Some (root, path', s1)" "root \<noteq> 0" "keeps s s1" "kheap_inv s1"
      "load32 (ram s1) root = word_of_int (if valid_path bs then sint (hd bs) - 48 else -1)"
      "path_list (ram s1) (load32 (ram s1) (root + 4)) [d_wanted d]"
      "path_pages (ram s1) (load32 (ram s1) (root + 4)) [d_wanted d] \<subseteq> owned_pages (phys s1) - owned_pages (phys s)"
      "unat (pmm_free_blocks (phys s)) = 2 * length [d_wanted d] + 2 + unat (pmm_free_blocks (phys s1))" by blast
  obtain p where p: "load32 (ram s1) (root + 4) = p" by blast
  obtain e where e: "e = d\<lparr>d_name := load32 (ram s1) p\<rparr>" by blast
  have env: "open_env disk stk p e s1" using name_env [OF fd r(3) r(6,7) refl refl] unfolding p e .
  have item: "ram s1 (d_item d j + of_nat i) = ram s (d_item d j + of_nat i)" if "i < 32" for i
  proof -
    have "(of_nat i :: u32) < 32" using that by (simp add: word_less_nat_alt unat_of_nat_u32)
    then have "table_cell d (d_item d j + of_nat i)"
      using f unfolding table_cell_def the_file_def by (metis add_diff_cancel_left')
    then show ?thesis using fd r(3) by (simp add: fat_disk_def keeps_def)
  qed
  have rb: "read_bytes (ram s1) (d_item e j) 32 = read_bytes (ram s) (d_item d j) 32"
    using item by (simp add: read_bytes_def e)
  have tf: "the_file (ram s1) e j"
    using f item [of 11] by (simp add: the_file_def e d_match_def d_shown_def item_attribute_def)
  have "5 \<le> unat (pmm_free_blocks (phys s1))" using r(8) h(2) by simp
  from open_ok [OF env r(4) this tf, of img con] obtain D s2 where
    D: "fat16_open img stk disk p FILE_MODE_READ (s1, con) = Some (D, s2, con)"
      "opened s1 s2 D (read_bytes (ram s1) (d_item e j) 32)" "kheap_inv s2" "spares (stk_name stk) s1 s2"
      "unat (pmm_free_blocks (phys s1)) = 5 + unat (pmm_free_blocks (phys s2))" by blast
  have "opened s s2 D (read_bytes (ram s) (d_item d j) 32)"
    using D(2) r(3) unfolding rb by (auto simp: opened_def Let_def keeps_def)
  moreover have "load32 (ram s1) root = 0" using r(5) path by (simp add: sint_u8)
  moreover have "p \<noteq> 0" using r(6) p by simp
  moreover have "spares (stk_name stk) s s2" by (rule spares_trans [OF keeps_spares [OF r(3)] D(4)])
  moreover have "unat (pmm_free_blocks (phys s)) = 9 + unat (pmm_free_blocks (phys s2))" using r(8) D(5) by simp
  ultimately show ?thesis using r(1-4) D(1,3) unfolding p [symmetric]
    by (intro exI [of _ root] exI [of _ path'] exI [of _ s1] exI [of _ D] exI [of _ s2]) simp
qed

lemma fopen_ok:
  assumes "fat_disk disk stk d s" "fss (disk_filesystem (ram s) disk) = fat16_fs img stk digits"
    and "kheap_inv s" "10 \<le> unat (pmm_free_blocks (phys s))"
    and "cstring (ram s) path bs" "region_in_use s path (Suc (length bs))" "root_file_path bs (d_wanted d)"
    and "ram s mode = 114" "page_of mode \<in> owned_pages (phys s)"
    and "the_file (ram s) d j" "free_slot v i" "length (file_descriptors v) = 512"
  shows "\<exists>desc D s'. fopen fss disk path mode ((s, con), v) =
      Some (of_nat i, (s', con), v\<lparr>file_descriptors := (file_descriptors v)[i := desc]\<rparr>) \<and>
    desc \<noteq> 0 \<and> page_aligned desc \<and> desc \<noteq> D \<and> desc \<notin> {descriptor_item (ram s') D, fat_item_ptr (ram s') (descriptor_item (ram s') D)} \<and>
    desc \<in> owned_pages (phys s') - owned_pages (phys s) \<and>
    descriptor_at (ram s') desc (of_nat i) (disk_filesystem (ram s) disk) D disk \<and>
    opened s s' D (read_bytes (ram s) (d_item d j) 32) \<and> kheap_inv s' \<and> spares (stk_name stk) s s' \<and>
    unat (pmm_free_blocks (phys s)) = 10 + unat (pmm_free_blocks (phys s'))"
proof -
  let ?buf = "stk_name stk" and ?F = "disk_filesystem (ram s) disk" and ?bs = "read_bytes (ram s) (d_item d j) 32"
  from open_parsed [OF assms(1,3-7,10), of img con] obtain root path' s1 D s2 where
    r: "Pathparser_parse path s = Some (root, path', s1)" "root \<noteq> 0" "load32 (ram s1) root = 0"
      "load32 (ram s1) (root + 4) \<noteq> 0" "keeps s s1"
      "fat16_open img stk disk (load32 (ram s1) (root + 4)) FILE_MODE_READ (s1, con) = Some (D, s2, con)"
      "opened s s2 D ?bs" "kheap_inv s2" "spares ?buf s s2"
      "unat (pmm_free_blocks (phys s)) = 9 + unat (pmm_free_blocks (phys s2))" by blast
  have "0 < unat (pmm_free_blocks (phys s2))" using r(10) assms(4) by simp
  from new_descriptor_ok [OF r(8) this assms(11), of con] obtain desc s3 where
    n: "file_new_descriptor ((s2, con), v) = (0, desc, (s3, con), v\<lparr>file_descriptors := (file_descriptors v)[i := desc]\<rparr>)"
      "desc \<noteq> 0" "page_aligned desc" "desc \<notin> owned_pages (phys s2)" "keeps s2 s3" "load32 (ram s3) desc = of_nat i"
      "owned_pages (phys s3) = insert desc (owned_pages (phys s2))" "kheap_inv s3"
      "unat (pmm_free_blocks (phys s2)) = Suc (unat (pmm_free_blocks (phys s3)))" by blast
  have fs: "disk_filesystem (ram s1) disk = ?F" "disk_filesystem (ram s3) disk = ?F"
    using assms(1) keeps_spares [OF r(5), of ?buf] spares_trans [OF r(9) keeps_spares [OF n(5)]] safe_word_load
    by (auto simp: fat_disk_def disk_filesystem_def)
  have nz: "disk \<noteq> 0" "?F \<noteq> 0" using assms(1) by (auto simp: fat_disk_def)
  have D: "D \<noteq> 0" using r(7) by (simp add: opened_def Let_def)
  have md: "file_mode_get_by_string (ram s1) mode = FILE_MODE_READ"
    using assms(8,9) r(5) by (intro mode_read) (simp add: keeps_def)
  let ?m4 = "store32 (ram s3) (desc + 4) ?F"
  let ?m5 = "store32 ?m4 (desc + 8) D"
  let ?m6 = "store32 ?m5 (desc + 12) disk"
  let ?s' = "s3\<lparr>ram := ?m6\<rparr>"
  have "load32 ?m6 desc = load32 (ram s3) desc" "load32 ?m6 (desc + 4) = ?F" "load32 ?m6 (desc + 8) = D" "load32 ?m6 (desc + 12) = disk"
    by (simp_all add: load32_store32_apart apart_def)
  then have at: "descriptor_at ?m6 desc (of_nat i) ?F D disk" using n(6) by (simp add: descriptor_at_def)
  have "i < 512" using assms(11,12) by (simp add: free_slot_def)
  then have idx: "\<not> (of_nat i :: u32) <s 0"
    by (subst signed_less_nat) (simp_all add: unat_of_nat_u32)
  have "keeps s2 ?s'"
    using store32_page [OF n(3), of 4] store32_page [OF n(3), of 8] store32_page [OF n(3), of 12] n(7)
    by (intro keeps_write_after [OF n(5,4)]) auto
  note k = this
  have "fopen fss disk path mode ((s, con), v) =
      Some (of_nat i, (?s', con), v\<lparr>file_descriptors := (file_descriptors v)[i := desc]\<rparr>)"
    using r(1-4) r(6) n(1) nz fs D md idx at
    by (simp add: fopen_def Let_def disk_get_def assms(2) fat16_fs_def mem_step_def set_word_def descriptor_at_def)
  moreover have "opened s ?s' D ?bs" by (rule opened_keeps(1) [OF r(7) k])
  moreover have "spares ?buf s ?s'" by (rule spares_trans [OF r(9) keeps_spares [OF k]])
  moreover have "desc \<in> owned_pages (phys ?s') - owned_pages (phys s)" using n(4,7) r(9) by (auto simp: spares_def)
  moreover have "kheap_inv ?s'" using n(8) by (simp add: kheap_inv_def)
  moreover have "unat (pmm_free_blocks (phys s)) = 10 + unat (pmm_free_blocks (phys ?s'))" using r(10) n(9) by simp
  moreover have "desc \<noteq> D" "desc \<notin> {descriptor_item (ram ?s') D, fat_item_ptr (ram ?s') (descriptor_item (ram ?s') D)}"
    using r(7) n(4) unfolding opened_keeps(2,3) [OF r(7) k] by (auto simp: opened_def Let_def)
  ultimately show ?thesis using at n(2,3)
    by (intro exI [of _ desc] exI [of _ D] exI [of _ ?s']) simp
qed

text \<open>C12: Opening a file for reading. On a FAT16 disk whose root directory has exactly one entry matching the name, and that entry a
  file, \<open>fopen\<close> of the path \<open>0:/name\<close> returns the lowest free index, stores in that slot a new descriptor with this index, the
  disk, its filesystem and a driver descriptor that stands at position 0 and holds a copy of the entry's 32 bytes; it prints
  nothing, takes ten pages from the heap, and changes no page in use but for the name buffer.\<close>

theorem fopen_correct:
  assumes "fat_disk disk stk d s" "fss (disk_filesystem (ram s) disk) = fat16_fs img stk digits"
    and "kheap_inv s" "10 \<le> unat (pmm_free_blocks (phys s))"
    and "cstring (ram s) path bs" "region_in_use s path (Suc (length bs))" "root_file_path bs (d_wanted d)"
    and "ram s mode = 114" "page_of mode \<in> owned_pages (phys s)"
    and "the_file (ram s) d j" "free_slot v i" "length (file_descriptors v) = 512"
  shows "\<exists>desc D s'. fopen fss disk path mode ((s, con), v) =
      Some (of_nat i, (s', con), v\<lparr>file_descriptors := (file_descriptors v)[i := desc]\<rparr>) \<and>
    desc \<noteq> 0 \<and> desc \<in> owned_pages (phys s') - owned_pages (phys s) \<and>
    descriptor_at (ram s') desc (of_nat i) (disk_filesystem (ram s) disk) D disk \<and>
    opened s s' D (read_bytes (ram s) (d_item d j) 32) \<and> kheap_inv s' \<and> spares (stk_name stk) s s' \<and>
    unat (pmm_free_blocks (phys s)) = 10 + unat (pmm_free_blocks (phys s'))"
  using fopen_ok [where fss = fss and v = v, OF assms] by blast

text \<open>
  The demo volume with two files at \<open>0x9000\<close> (the second, \<open>SHELL\<close>, has 600 bytes from cluster 2 on), the path
  \<open>0:/shell\<close> at \<open>0xA000\<close> and the mode at \<open>0xB000\<close>.
\<close>

definition open_items :: "u8 list" where
  "open_items = longname_item @ [83, 72, 69, 76, 76, 32, 32, 32, 32, 32, 32, 0x20] @ replicate 14 0 @ [2, 0, 0x58, 2, 0, 0]"

definition open_ram :: mem where
  "open_ram x = (if x - 0x9000 < 64 then open_items ! unat (x - 0x9000)
     else if x - 0xA000 < 8 then [48, 58, 47, 115, 104, 101, 108, 108] ! unat (x - 0xA000)
     else if x = 0xB000 then 114 else if x = 0x100D then 0x30 else if x = 0x2041 then 0x90
     else if x = 0x2044 then 2 else demo_ram x)"

definition open_kmem :: kmem where "open_kmem = kmem_boot\<lparr>ram := open_ram\<rparr>"
definition open_view :: dir_view where "open_view = demo_view\<lparr>d_dir := 0x2040\<rparr>"

definition vfs_boot :: vfs where
  "vfs_boot = \<lparr>filesystems = replicate 12 0, file_descriptors = replicate 512 0\<rparr>"

lemma open_page:
  assumes "page_aligned p" "p div 4096 < 25000" "x - p < 4096" shows "page_of x \<in> owned_pages (phys open_kmem)"
  using boot_page_of [OF assms] by (simp add: open_kmem_def)

lemma open_safe_word: "a \<in> {0x100C, 0x1010} \<Longrightarrow> safe_word 0x5200 open_kmem a"
proof -
  assume a: "a \<in> {0x100C, 0x1010}"
  have "safe_word 0x5200 open_kmem (0x1000 + (a - 0x1000))"
  proof (rule page_safe_word)
    show "0x1000 \<in> owned_pages (phys open_kmem)" using boot_pages [of 1] by (simp add: open_kmem_def)
    show "108 \<le> x - 0x5200" if "page_of x = 0x1000" for x
    proof -
      have "x - 0x1000 < 4096" using in_page_of [of x] that by simp
      then show ?thesis unfolding not_less [symmetric] by (rule far_apart) simp
    qed
  qed (use a in \<open>auto simp: page_aligned_def\<close>)
  then show ?thesis by simp
qed

lemma open_cells: "table_cell open_view x \<Longrightarrow> x - 0x2040 < 16 \<or> x - 0x9000 < 64"
proof -
  assume "table_cell open_view x"
  then consider "x - 0x2040 < 16" | i where "i < 2" "x - d_item demo_view i < 32"
    by (auto simp: table_cell_def open_view_def d_item_def demo_view_def numeral_2_eq_2)
  then show ?thesis
  proof cases
    case 2
    have "i = 0 \<or> i = 1" using 2(1) by auto
    then have "x - 0x9000 < 32 \<or> x - 0x9020 < 32" using 2(2) by (auto simp: d_item_def demo_view_def)
    then show ?thesis by unat_arith
  qed simp
qed

lemma open_fat_disk: "fat_disk 0x1000 demo_stack open_view open_kmem"
proof -
  have m: "disk_filesystem open_ram 0x1000 = 0x3000" "disk_fs_private open_ram 0x1000 = 0x2000"
    by (simp_all add: disk_filesystem_def disk_fs_private_def load32_def open_ram_def demo_ram_def)
  have b: "stk_name demo_stack = 0x5200" by (simp add: demo_stack_def)
  have "item_name_at open_ram 0x9000 [76, 79, 78, 71, 78, 65, 77, 69, 84, 88, 84] [84, 88, 84]"
    "item_name_at open_ram 0x9020 [83, 72, 69, 76, 76] []"
    by (simp_all add: item_name_at_def open_ram_def demo_ram_def open_items_def longname_item_def name_stop_def nth_append)
  then have "dir_table open_ram open_view"
    by (simp add: dir_table_def open_view_def demo_view_def d_item_def total_entries_def directory_item_def load32_def
        open_ram_def demo_ram_def less_Suc_eq)
  moreover have "page_of x \<in> owned_pages (phys open_kmem) \<and> 108 \<le> x - 0x5200" if "table_cell open_view x" for x
    using open_cells [OF that]
  proof
    assume x: "x - 0x2040 < 16"
    then have "x - 0x2000 < 4096" by unat_arith
    moreover have "108 \<le> x - 0x5200" using x unfolding not_less [symmetric] by (rule far_apart) simp
    ultimately show ?thesis by (intro conjI open_page [of "0x2000"]) (simp_all add: page_aligned_def)
  next
    assume x: "x - 0x9000 < 64"
    then have "x - 0x9000 < 4096" by unat_arith
    moreover have "108 \<le> x - 0x5200" using x unfolding not_less [symmetric] by (rule far_apart) simp
    ultimately show ?thesis by (intro conjI open_page [of "0x9000"]) (simp_all add: page_aligned_def)
  qed
  moreover have "page_of (0x5200 + of_nat i) \<in> owned_pages (phys open_kmem)" if "i < 108" for i
  proof (rule open_page [of "0x5000"])
    have "unat (0x200 + of_nat i :: u32) < 4096" using that by (simp add: unat_word_ariths unat_of_nat_u32)
    then show "0x5200 + of_nat i - 0x5000 < (4096 :: u32)" by (simp add: word_less_nat_alt)
  qed (simp_all add: page_aligned_def)
  ultimately show ?thesis using open_safe_word [of "0x100C"] open_safe_word [of "0x1010"]
    by (simp add: fat_disk_def b m open_kmem_def region_in_use_def private_root_def) (simp add: open_view_def)
qed

lemma open_path:
  "cstring (ram open_kmem) 0xA000 [48, 58, 47, 115, 104, 101, 108, 108]"
  "region_in_use open_kmem 0xA000 (Suc (length [48, 58, 47, 115, 104, 101, 108, 108 :: u8]))"
  "root_file_path [48, 58, 47, 115, 104, 101, 108, 108] (d_wanted open_view)"
proof -
  let ?bs = "[48, 58, 47, 115, 104, 101, 108, 108] :: u8 list"
  show "cstring (ram open_kmem) 0xA000 ?bs" by (simp add: open_kmem_def open_ram_def demo_ram_def)
  have "page_of (0xA000 + of_nat i) \<in> owned_pages (phys open_kmem)" if "i < 9" for i
  proof (rule open_page [of "0xA000"])
    have "unat (of_nat i :: u32) < 4096" using that by (simp add: unat_of_nat_u32)
    then show "0xA000 + of_nat i - 0xA000 < (4096 :: u32)" by (simp add: word_less_nat_alt)
  qed (simp_all add: page_aligned_def)
  then show "region_in_use open_kmem 0xA000 (Suc (length ?bs))" by (simp add: region_in_use_def)
  show "root_file_path ?bs (d_wanted open_view)"
    by (simp add: root_file_path_def valid_path_def is_digit_def word_sle_eq sint_u8 components.simps part_of_def
        after_part_def open_view_def demo_view_def)
qed

lemma fopen_correct_witness:
  "\<exists>desc D s'. fopen (\<lambda>_. fat16_fs demo_disk demo_stack []) 0x1000 0xA000 0xB000 ((open_kmem, con_boot), vfs_boot) =
      Some (1, (s', con_boot), vfs_boot\<lparr>file_descriptors := (replicate 512 0)[1 := desc]\<rparr>) \<and>
    descriptor_at (ram s') desc 1 0x3000 D 0x1000 \<and> opened open_kmem s' D (drop 32 open_items)"
proof -
  have inv: "kheap_inv open_kmem" "10 \<le> unat (pmm_free_blocks (phys open_kmem))"
    using kmem_boot_inv by (simp_all add: open_kmem_def kheap_inv_def)
  note path = open_path
  have mode: "ram open_kmem 0xB000 = 114" "page_of 0xB000 \<in> owned_pages (phys open_kmem)"
    using open_page [of "0xB000" "0xB000"] by (simp_all add: open_kmem_def open_ram_def demo_ram_def page_aligned_def)
  have len: "length open_items = 64" by (simp add: open_items_def longname_item_def)
  have it: "d_item open_view 1 = 0x9020" by (simp add: d_item_def open_view_def demo_view_def)
  have entry: "the_file (ram open_kmem) open_view 1"
    unfolding the_file_def it using demo_match
    by (simp add: open_view_def d_match_def d_shown_def item_attribute_def open_kmem_def open_ram_def demo_ram_def open_items_def
        longname_item_def nth_append) (simp add: demo_view_def)
  have slot: "free_slot vfs_boot 1" "length (file_descriptors vfs_boot) = 512" by (simp_all add: free_slot_def vfs_boot_def)
  have "read_bytes (ram open_kmem) (d_item open_view 1) 32 = drop 32 open_items"
    unfolding it
  proof (rule nth_equalityI)
    fix i assume "i < length (read_bytes (ram open_kmem) 0x9020 32)"
    then have i: "i < 32" by simp
    then have u: "unat (0x20 + of_nat i :: u32) = 32 + i" by (simp add: unat_word_ariths unat_of_nat_u32)
    then have "0x20 + of_nat i < (64 :: u32)" using i by (simp add: word_less_nat_alt)
    moreover have "0x9020 + of_nat i - 0x9000 = (0x20 + of_nat i :: u32)" by simp
    ultimately have "open_ram (0x9020 + of_nat i) = open_items ! (32 + i)" unfolding open_ram_def using u by simp
    then show "read_bytes (ram open_kmem) 0x9020 32 ! i = drop 32 open_items ! i"
      using i len by (simp add: read_bytes_def open_kmem_def)
  qed (simp add: open_items_def longname_item_def)
  moreover have "disk_filesystem (ram open_kmem) 0x1000 = 0x3000"
    by (simp add: disk_filesystem_def load32_def open_kmem_def open_ram_def demo_ram_def)
  ultimately show ?thesis
    using fopen_correct [where fss = "\<lambda>_. fat16_fs demo_disk demo_stack []" and con = con_boot, OF open_fat_disk refl inv path mode entry slot]
    by (simp add: vfs_boot_def) blast
qed

section \<open>Paths that are refused\<close>

text \<open>C35: \<open>fopen\<close> refuses every path that does not name drive 0, or names nothing on it: it returns -1, the table of descriptors is as
  it was and no byte in use has changed; the driver is not asked. What the path parser allocated is not given back.\<close>

theorem fopen_refuses:
  assumes inv: "kheap_inv s" and str: "cstring (ram s) path bs" "region_in_use s path (Suc (length bs))"
    and cs: "cs = components (if valid_path bs then drop 3 bs else bs)"
    and small: "\<forall>w \<in> set cs. length w < 4095" and free: "2 * length cs + 3 \<le> unat (pmm_free_blocks (phys s))"
    and bad: "\<not> valid_path bs \<or> hd bs \<noteq> 48 \<or> cs = []"
  shows "\<exists>s'. fopen fss disk path mode ((s, con), v) = Some (-1, (s', con), v) \<and> keeps s s' \<and> kheap_inv s' \<and>
    unat (pmm_free_blocks (phys s)) = 2 * length cs + 2 + unat (pmm_free_blocks (phys s'))"
proof -
  from parse_ok [OF inv str cs small free] obtain root path' s1 where
    r: "Pathparser_parse path s = Some (root, path', s1)" "root \<noteq> 0"
      "load32 (ram s1) root = word_of_int (if valid_path bs then sint (hd bs) - 48 else -1)"
      "path_list (ram s1) (load32 (ram s1) (root + 4)) cs" "keeps s s1" "kheap_inv s1"
      "unat (pmm_free_blocks (phys s)) = 2 * length cs + 2 + unat (pmm_free_blocks (phys s1))" by blast
  have "load32 (ram s1) root \<noteq> 0 \<or> load32 (ram s1) (root + 4) = 0"
  proof (cases "valid_path bs")
    case True
    then have d: "is_digit (hd bs)" by (cases bs) (auto simp: valid_path_def)
    then have "0 \<le> sint (hd bs) - 48" "sint (hd bs) - 48 < 10" by (auto simp: is_digit_def word_sle_eq sint_u8)
    moreover have "sint (hd bs) = 48 \<longleftrightarrow> hd bs = 48"
      using uint_lt2p [of "hd bs"] by (auto simp: sint_u8 word_uint_eq_iff split: if_splits)
    moreover have "(word_of_int i :: u32) = 0 \<longleftrightarrow> i = 0" if "0 \<le> i" "i < 10" for i
      using that by (simp add: word_uint_eq_iff uint_word_of_int)
    ultimately have "(word_of_int (sint (hd bs) - 48) :: u32) = 0 \<longleftrightarrow> hd bs = 48" by (metis diff_eq_eq add_0)
    moreover have "load32 (ram s1) root = word_of_int (sint (hd bs) - 48)" using r(3) True by (simp only: if_True)
    ultimately have "hd bs \<noteq> 48 \<Longrightarrow> load32 (ram s1) root \<noteq> 0" by metis
    then show ?thesis using bad True r(4) by auto
  next
    case False
    then show ?thesis using r(3) by simp
  qed
  then have "fopen fss disk path mode ((s, con), v) = Some (-1, (s1, con), v)"
    using r(1,2) by (auto simp: fopen_def Let_def disk_get_def)
  then show ?thesis using r(5-7) by blast
qed

text \<open>The path \<open>1:/a\<close> at \<open>0x1000\<close>.\<close>

definition drive_one :: kmem where
  "drive_one = kmem_boot\<lparr>ram := write_bytes (\<lambda>_. 0) 0x1000 [49, 58, 47, 97, 0]\<rparr>"

lemma fopen_refuses_witness:
  "\<exists>s'. fopen (\<lambda>_. fat16_fs demo_disk demo_stack []) 0x2000 0x1000 0x3000 ((drive_one, con_boot), vfs_boot) =
    Some (-1, (s', con_boot), vfs_boot)"
proof -
  let ?bs = "[49, 58, 47, 97] :: u8 list"
  have inv: "kheap_inv drive_one" using kmem_boot_inv by (simp add: drive_one_def kheap_inv_def)
  have str: "cstring (ram drive_one) 0x1000 ?bs" by (simp add: drive_one_def)
  have "page_of (0x1000 + of_nat i) \<in> owned_pages pmm_boot" if "i < 4096" for i
    using that by (intro boot_page_of) (simp_all add: page_aligned_def word_less_nat_alt unat_of_nat_u32)
  then have use: "region_in_use drive_one 0x1000 (Suc (length ?bs))" by (simp add: region_in_use_def drive_one_def)
  have "valid_path ?bs" by (simp add: valid_path_def is_digit_def word_sle_eq sint_u8)
  then have cs: "[[97]] = components (if valid_path ?bs then drop 3 ?bs else ?bs)"
    by (simp add: components.simps part_of_def after_part_def)
  have "unat (pmm_free_blocks (phys drive_one)) = 225000" by (simp add: drive_one_def)
  with fopen_refuses [OF inv str use cs, where fss = "\<lambda>_. fat16_fs demo_disk demo_stack []" and disk = "0x2000" and
      mode = "0x3000" and con = con_boot and v = vfs_boot] show ?thesis by auto
qed

section \<open>The table of descriptors\<close>

text \<open>
  The type of the table: 512 entries, the first unused; every other is null or the page of a descriptor in use whose index field is the
  number of its slot.
\<close>

definition vfs_typed :: "kmem \<Rightarrow> vfs \<Rightarrow> bool" where
  "vfs_typed s v \<longleftrightarrow> length (file_descriptors v) = 512 \<and> file_descriptors v ! 0 = 0 \<and>
     (\<forall>i < 512. file_descriptors v ! i \<noteq> 0 \<longrightarrow> page_aligned (file_descriptors v ! i) \<and>
        file_descriptors v ! i \<in> owned_pages (phys s) \<and> load32 (ram s) (file_descriptors v ! i) = of_nat i)"

text \<open>C22: The descriptor table keeps its type. With a free page, \<open>file_new_descriptor\<close> takes the lowest null slot from 1 on for a new page, returns
  0, and the table is again well typed, so that no two slots ever share a descriptor; when the slots are used up it returns -1 and changes nothing.\<close>

theorem file_new_descriptor_typed:
  assumes "vfs_typed s v" "kheap_inv s" "0 < unat (pmm_free_blocks (phys s))"
  shows "(\<forall>i. free_slot v i \<longrightarrow> (\<exists>desc s'. file_new_descriptor ((s, con), v) =
        (0, desc, (s', con), v\<lparr>file_descriptors := (file_descriptors v)[i := desc]\<rparr>) \<and>
      vfs_typed s' (v\<lparr>file_descriptors := (file_descriptors v)[i := desc]\<rparr>) \<and> desc \<notin> set (file_descriptors v) \<and>
      kheap_inv s' \<and> keeps s s')) \<and>
    ((\<forall>i. \<not> free_slot v i) \<longrightarrow> file_new_descriptor ((s, con), v) = (-1, 0, (s, con), v))"
proof (intro conjI allI impI)
  fix i assume i: "free_slot v i"
  have t: "length (file_descriptors v) = 512" "file_descriptors v ! 0 = 0"
    "\<And>j. j < 512 \<Longrightarrow> file_descriptors v ! j \<noteq> 0 \<Longrightarrow> page_aligned (file_descriptors v ! j) \<and>
      file_descriptors v ! j \<in> owned_pages (phys s) \<and> load32 (ram s) (file_descriptors v ! j) = of_nat j"
    using assms(1) by (auto simp: vfs_typed_def)
  from new_descriptor_ok [OF assms(2,3) i, of con] obtain desc s' where
    d: "file_new_descriptor ((s, con), v) = (0, desc, (s', con), v\<lparr>file_descriptors := (file_descriptors v)[i := desc]\<rparr>)"
      "desc \<noteq> 0" "page_aligned desc" "desc \<notin> owned_pages (phys s)" "keeps s s'" "load32 (ram s') desc = of_nat i"
      "owned_pages (phys s') = insert desc (owned_pages (phys s))" "kheap_inv s'" by blast
  have "load32 (ram s') p = load32 (ram s) p" if "page_aligned p" "p \<in> owned_pages (phys s)" for p
    using keeps_load32 [OF d(5) that, of 0] by simp
  then have "vfs_typed s' (v\<lparr>file_descriptors := (file_descriptors v)[i := desc]\<rparr>)"
    using t d(3,6,7) i by (auto simp: vfs_typed_def nth_list_update free_slot_def)
  moreover have "desc \<notin> set (file_descriptors v)" using t d(2,4) by (auto simp: in_set_conv_nth)
  ultimately show "\<exists>desc s'. file_new_descriptor ((s, con), v) =
        (0, desc, (s', con), v\<lparr>file_descriptors := (file_descriptors v)[i := desc]\<rparr>) \<and>
      vfs_typed s' (v\<lparr>file_descriptors := (file_descriptors v)[i := desc]\<rparr>) \<and> desc \<notin> set (file_descriptors v) \<and>
      kheap_inv s' \<and> keeps s s'" using d(1,5,8) by blast
next
  assume none: "\<forall>i. \<not> free_slot v i"
  have "first_index (\<lambda>p. p = 0) (drop 1 (file_descriptors v)) = None"
  proof (rule ccontr)
    assume "first_index (\<lambda>p. p = 0) (drop 1 (file_descriptors v)) \<noteq> None"
    then obtain i where i: "first_index (\<lambda>p. p = 0) (drop 1 (file_descriptors v)) = Some i" by blast
    have "free_slot v (Suc i)"
      unfolding free_slot_def
    proof (intro conjI allI impI)
      fix j assume "1 \<le> j \<and> j < Suc i"
      then obtain l where "j = Suc l" "l < i" by (cases j) auto
      moreover have "1 \<le> length (file_descriptors v)" using i by (cases "file_descriptors v") auto
      then have "drop 1 (file_descriptors v) ! l = file_descriptors v ! Suc l" by simp
      ultimately show "file_descriptors v ! j \<noteq> 0" using i unfolding first_index_Some by metis
    qed (use i in \<open>auto simp: first_index_Some\<close>)
    then show False using none by blast
  qed
  then show "file_new_descriptor ((s, con), v) = (-1, 0, (s, con), v)" by (simp add: file_new_descriptor_def)
qed

lemma file_new_descriptor_typed_witness:
  "\<exists>desc s'. file_new_descriptor ((open_kmem, con_boot), vfs_boot) =
      (0, desc, (s', con_boot), vfs_boot\<lparr>file_descriptors := (replicate 512 0)[1 := desc]\<rparr>) \<and>
    vfs_typed s' (vfs_boot\<lparr>file_descriptors := (replicate 512 0)[1 := desc]\<rparr>)"
proof -
  have "vfs_typed open_kmem vfs_boot" by (simp add: vfs_typed_def vfs_boot_def)
  moreover have "kheap_inv open_kmem" "0 < unat (pmm_free_blocks (phys open_kmem))"
    using kmem_boot_inv by (simp_all add: open_kmem_def kheap_inv_def)
  moreover have "free_slot vfs_boot 1" by (simp add: free_slot_def vfs_boot_def)
  ultimately show ?thesis
    using file_new_descriptor_typed [of open_kmem vfs_boot con_boot] by (auto simp: vfs_boot_def)
qed

end
