(* ===== verification/VfsRead.thy ===== *)
theory VfsRead imports VfsOpen
begin

text \<open>
  Reading, seeking and querying an open file. \<open>file_driver\<close> is what the calls of the virtual file system rely on in a driver: a
  handle that stands for a file of given bytes at a position, reads that deliver the bytes from there, seeks that move it.
  The FAT16 driver keeps this contract.
\<close>

section \<open>The contract of a driver\<close>

text \<open>
  \<open>holds m p pos\<close>: the driver's descriptor \<open>p\<close> stands at position \<open>pos\<close> of the file; \<open>owns p\<close> are the bytes
  the driver may write; \<open>room p out n\<close>: a buffer away from the driver's structures; \<open>serves pos sz n\<close>: the driver can read
  \<open>n\<close> elements of \<open>sz\<close> bytes from \<open>pos\<close>.
\<close>

definition open_on :: "(u32 \<Rightarrow> filesystem) \<Rightarrow> filesystem \<Rightarrow> u32 \<Rightarrow> vfs \<Rightarrow> int \<Rightarrow> u32 \<Rightarrow> u32 \<Rightarrow> mem \<Rightarrow> bool" where
  "open_on fss fs disk v fd desc p m \<longleftrightarrow> 1 \<le> fd \<and> fd < 512 \<and> file_descriptors v ! nat fd = desc \<and> desc \<noteq> 0 \<and>
     fss (load32 m (desc + 4)) = fs \<and> load32 m (desc + 8) = p \<and> load32 m (desc + 12) = disk"

lemma open_on_cong:
  assumes "open_on fss fs disk v fd desc p m" "\<And>x. x - desc < 16 \<Longrightarrow> m' x = m x"
  shows "open_on fss fs disk v fd desc p m'"
proof -
  have "load32 m' (desc + k) = load32 m (desc + k)" if "k \<le> 12" for k
  proof (rule load32_cong)
    fix j :: u32 assume "j < 4"
    then have "k + j < 16" using that by unat_arith
    then show "m' (desc + k + j) = m (desc + k + j)" by (intro assms(2)) (simp add: add.assoc)
  qed
  from this [of 4] this [of 8] this [of 12] show ?thesis using assms(1) by (simp add: open_on_def)
qed

locale file_driver =
  fixes fs :: filesystem and disk :: u32
    and holds :: "mem \<Rightarrow> u32 \<Rightarrow> nat \<Rightarrow> bool" and bytes :: "nat \<Rightarrow> u8" and len :: nat
    and owns :: "u32 \<Rightarrow> u32 \<Rightarrow> bool" and room :: "u32 \<Rightarrow> u32 \<Rightarrow> nat \<Rightarrow> bool" and serves :: "nat \<Rightarrow> nat \<Rightarrow> nat \<Rightarrow> bool"
  assumes read_law: "holds (ram s) p pos \<Longrightarrow> room p out (unat n * unat sz) \<Longrightarrow> serves pos (unat sz) (unat n) \<Longrightarrow>
      \<exists>m'. read_function fs disk p sz n out (s, con) = Some (n, s\<lparr>ram := m'\<rparr>, con) \<and> holds m' p pos \<and>
        (\<forall>k < unat n * unat sz. m' (out + of_nat k) = bytes (pos + k)) \<and>
        (\<forall>x. \<not> owns p x \<and> (\<forall>k < unat n * unat sz. x \<noteq> out + of_nat k) \<longrightarrow> m' x = ram s x)"
    and seek_law: "holds (ram s) p pos \<Longrightarrow> unat offset < len \<Longrightarrow>
      \<exists>m'. seek_function fs p offset SEEK_SET (s, con) = (0, s\<lparr>ram := m'\<rparr>, con) \<and> holds m' p (unat offset) \<and>
        (\<forall>x. \<not> owns p x \<longrightarrow> m' x = ram s x)"
    and seek_beyond: "holds (ram s) p pos \<Longrightarrow> len \<le> unat offset \<Longrightarrow>
      seek_function fs p offset whence (s, con) = (-1, s, con)"
begin

lemma fread_ok:
  assumes "open_on fss fs disk v fd desc p (ram s)" "holds (ram s) p pos" "sz \<noteq> 0" "n \<noteq> 0"
    and "room p out (unat n * unat sz)" "serves pos (unat sz) (unat n)"
  shows "\<exists>m'. fread fss out sz n fd ((s, con), v) = Some (n, (s\<lparr>ram := m'\<rparr>, con), v) \<and> holds m' p pos \<and>
    (\<forall>k < unat n * unat sz. m' (out + of_nat k) = bytes (pos + k)) \<and>
    (\<forall>x. \<not> owns p x \<and> (\<forall>k < unat n * unat sz. x \<noteq> out + of_nat k) \<longrightarrow> m' x = ram s x)"
  using read_law [OF assms(2,5,6), of con] assms(1,3,4)
  by (auto simp: fread_def open_on_def file_get_descriptor_def Let_def)

lemma fseek_ok:
  assumes "open_on fss fs disk v fd desc p (ram s)" "holds (ram s) p pos" "unat offset < len"
  shows "\<exists>m'. fseek fss fd offset SEEK_SET ((s, con), v) = (0, (s\<lparr>ram := m'\<rparr>, con), v) \<and> holds m' p (unat offset) \<and>
    (\<forall>x. \<not> owns p x \<longrightarrow> m' x = ram s x)"
  using seek_law [OF assms(2,3), of con] assms(1)
  by (auto simp: fseek_def open_on_def file_get_descriptor_def Let_def)

lemma fseek_beyond:
  assumes "open_on fss fs disk v fd desc p (ram s)" "holds (ram s) p pos" "len \<le> unat offset"
  shows "fseek fss fd offset whence ((s, con), v) = (-1, (s, con), v)"
  using seek_beyond [OF assms(2,3), of whence con] assms(1)
  by (auto simp: fseek_def open_on_def file_get_descriptor_def Let_def)

text \<open>A seek and two reads: both reads deliver the bytes from the offset on.\<close>

lemma seek_then_read:
  assumes o: "open_on fss fs disk v fd desc p (ram s)" "holds (ram s) p pos" "unat offset < len" "sz \<noteq> 0" "n \<noteq> 0"
    and r: "room p out (unat n * unat sz)" "serves (unat offset) (unat sz) (unat n)"
    and apart: "\<And>x. x - desc < 16 \<Longrightarrow> \<not> owns p x"
  shows "\<exists>m1 m2. fseek fss fd offset SEEK_SET ((s, con), v) = (0, (s\<lparr>ram := m1\<rparr>, con), v) \<and>
    fread fss out sz n fd ((s\<lparr>ram := m1\<rparr>, con), v) = Some (n, (s\<lparr>ram := m2\<rparr>, con), v) \<and>
    (\<forall>k < unat n * unat sz. m2 (out + of_nat k) = bytes (unat offset + k)) \<and> holds m2 p (unat offset) \<and>
    (\<forall>x. \<not> owns p x \<and> (\<forall>k < unat n * unat sz. x \<noteq> out + of_nat k) \<longrightarrow> m2 x = ram s x)"
proof -
  from fseek_ok [OF o(1-3), of con] obtain m1 where
    m1: "fseek fss fd offset SEEK_SET ((s, con), v) = (0, (s\<lparr>ram := m1\<rparr>, con), v)" "holds m1 p (unat offset)"
      "\<forall>x. \<not> owns p x \<longrightarrow> m1 x = ram s x" by blast
  have "open_on fss fs disk v fd desc p m1" by (rule open_on_cong [OF o(1)]) (use m1(3) apart in blast)
  then have "open_on fss fs disk v fd desc p (ram (s\<lparr>ram := m1\<rparr>))" "holds (ram (s\<lparr>ram := m1\<rparr>)) p (unat offset)"
    using m1(2) by simp_all
  from fread_ok [OF this o(4,5) r, of con] m1 show ?thesis by auto
qed

end

section \<open>FAT16 keeps the contract\<close>

text \<open>The handle of an open file: the driver's descriptor \<open>p\<close>, its item \<open>f\<close>, the copy \<open>c\<close> of the directory item.\<close>

definition handle_cell :: "u32 \<Rightarrow> u32 \<Rightarrow> u32 \<Rightarrow> u32 \<Rightarrow> bool" where
  "handle_cell p f c x \<longleftrightarrow> x - p < 8 \<or> x - f < 8 \<or> x - c < 32"

definition handle_sep :: "fat_volume \<Rightarrow> u32 \<Rightarrow> u32 \<Rightarrow> u32 \<Rightarrow> bool" where
  "handle_sep v p f c \<longleftrightarrow> (\<forall>x. vol_scratch v x \<longrightarrow> \<not> handle_cell p f c x) \<and>
     (\<forall>x. x - p < 8 \<longrightarrow> \<not> vol_cell v x \<and> \<not> x - f < 8 \<and> \<not> x - c < 32)"

definition file_at ::
    "(u32 \<Rightarrow> u8 list) \<Rightarrow> fat_stack \<Rightarrow> fat_volume \<Rightarrow> nat list \<Rightarrow> u32 \<Rightarrow> u32 \<Rightarrow> nat \<Rightarrow> mem \<Rightarrow> u32 \<Rightarrow> nat \<Rightarrow> bool" where
  "file_at img stk v cs f c len m p pos \<longleftrightarrow>
     volume_at m v \<and> vol_sep v \<and> stk_result stk = v_result v \<and> fat_chain img v cs \<and> handle_sep v p f c \<and>
     descriptor_item m p = f \<and> unat (descriptor_pos m p) = pos \<and> fat_item_type m f = FAT_ITEM_TYPE_FILE \<and>
     fat_item_ptr m f = c \<and> unat (item_filesize m c) = len \<and> fat16_get_first_cluster m c = of_nat (cs ! 0)"

definition handle_owns :: "fat_volume \<Rightarrow> u32 \<Rightarrow> u32 \<Rightarrow> bool" where
  "handle_owns v p x \<longleftrightarrow> vol_scratch v x \<or> x - (p + 4) < 4"

definition handle_room :: "fat_volume \<Rightarrow> u32 \<Rightarrow> u32 \<Rightarrow> u32 \<Rightarrow> u32 \<Rightarrow> nat \<Rightarrow> bool" where
  "handle_room v f c p out n \<longleftrightarrow> out_clear v out n \<and> (\<forall>k < n. \<not> handle_cell p f c (out + of_nat k))"

lemma near_word: "j < 4 \<Longrightarrow> k \<le> 4 \<Longrightarrow> k + j < 8" "j < 4 \<Longrightarrow> 28 + j < 32" for j k :: u32
  by unat_arith+

lemma file_at_cong:
  assumes "file_at img stk v cs f c len m p pos" "\<And>x. vol_cell v x \<or> handle_cell p f c x \<Longrightarrow> m' x = m x"
  shows "file_at img stk v cs f c len m' p pos"
proof -
  have p: "load32 m' (p + k) = load32 m (p + k)" "load32 m' (f + k) = load32 m (f + k)" if "k \<le> 4" for k
    using near_word(1) [OF _ that]
    by (auto intro!: load32_cong assms(2) simp: handle_cell_def add.assoc)
  have c: "load32 m' (c + 28) = load32 m (c + 28)"
    using near_word(2) by (auto intro!: load32_cong assms(2) simp: handle_cell_def add.assoc)
  have "fat16_get_first_cluster m' c = fat16_get_first_cluster m c"
    by (rule first_cluster_cong) (use assms(2) in \<open>simp add: handle_cell_def\<close>)
  moreover have "volume_at m' v"
    by (rule volume_cong [of m]) (use assms in \<open>auto simp: file_at_def\<close>)
  ultimately show ?thesis using assms(1) c p [of 0] p [of 4]
    by (simp add: file_at_def descriptor_item_def descriptor_pos_def fat_item_type_def fat_item_ptr_def item_filesize_def)
qed

lemma fat_read_law:
  assumes f: "file_at img stk v cs f c len (ram s) p pos" and room: "handle_room v f c p out (unat n * unat sz)"
    and ok: "reads_ok v cs pos (unat sz) (unat n)"
  shows "\<exists>m'. fat16_read img stk digits (v_disk v) p sz n out (s, con) = Some (n, s\<lparr>ram := m'\<rparr>, con) \<and>
    file_at img stk v cs f c len m' p pos \<and>
    (\<forall>k < unat n * unat sz. m' (out + of_nat k) = file_byte img v cs (pos + k)) \<and>
    (\<forall>x. \<not> handle_owns v p x \<and> (\<forall>k < unat n * unat sz. x \<noteq> out + of_nat k) \<longrightarrow> m' x = ram s x)"
proof -
  have a: "volume_at (ram s) v" "vol_sep v" "stk_result stk = v_result v" "fat_chain img v cs" "handle_sep v p f c"
    "descriptor_item (ram s) p = f" "unat (descriptor_pos (ram s) p) = pos" "fat_item_ptr (ram s) f = c"
    "fat16_get_first_cluster (ram s) c = of_nat (cs ! 0)" using f by (auto simp: file_at_def)
  have "item_safe v c out (unat n * unat sz)"
    using a(5) room by (auto simp: item_safe_def handle_sep_def handle_room_def handle_cell_def)
  moreover have "out_clear v out (unat n * unat sz)" using room by (simp add: handle_room_def)
  ultimately obtain m' where r:
    "fat16_read_loop img stk digits (v_disk v) c (descriptor_pos (ram s) p) sz 0 n out (s, con) = Some (n, s\<lparr>ram := m'\<rparr>, con)"
    and d: "delivered (\<lambda>k. file_byte img v cs (pos + k)) v out (unat n * unat sz) (ram s) m'"
    using read_loop_result [OF a(1-4,9), of out "unat n" sz "descriptor_pos (ram s) p" 0 n digits con] ok a(7) by auto
  have "file_at img stk v cs f c len m' p pos"
  proof (rule file_at_cong [OF f])
    fix x assume "vol_cell v x \<or> handle_cell p f c x"
    moreover have "\<not> vol_scratch v x" using calculation a(2,5) by (auto simp: vol_sep_def handle_sep_def)
    moreover have "x \<noteq> out + of_nat k" if "k < unat n * unat sz" for k
      using calculation(1) room that by (auto simp: handle_room_def out_clear_def)
    ultimately show "m' x = ram s x" using d by (auto simp: delivered_def)
  qed
  moreover have "\<forall>x. \<not> handle_owns v p x \<and> (\<forall>k < unat n * unat sz. x \<noteq> out + of_nat k) \<longrightarrow> m' x = ram s x"
    using d by (simp add: delivered_def handle_owns_def)
  ultimately show ?thesis using r d a(6,8) by (intro exI [of _ m']) (simp add: fat16_read_def Let_def delivered_def)
qed

lemma file_at_move:
  assumes "file_at img stk v cs f c len m p pos"
  shows "file_at img stk v cs f c len (store32 m (p + 4) w) p (unat w)"
proof -
  have sep: "handle_sep v p f c" using assms by (simp add: file_at_def)
  let ?m = "store32 m (p + 4) w"
  have other: "?m x = m x" if "\<not> x - p < 8 \<or> x - p < 4" for x
  proof (rule store32_other)
    obtain y where y: "y = x - p" by blast
    then have "x - (p + 4) = y - 4" by simp
    moreover have "4 \<le> y - 4" using that unfolding y [symmetric] by (unat_arith; simp; linarith)
    ultimately show "4 \<le> x - (p + 4)" by (simp only:)
  qed
  have far: "?m x = m x" if "vol_cell v x \<or> x - f < 8 \<or> x - c < 32" for x
    using that sep by (intro other) (auto simp: handle_sep_def)
  have "load32 ?m p = load32 m p"
    by (simp add: load32_store32_apart apart_def)
  moreover have "load32 ?m (f + k) = load32 m (f + k)" if "k \<le> 4" for k
    using near_word(1) [OF _ that] by (auto intro!: load32_cong far simp: add.assoc)
  from this [of 0] this [of 4] have "load32 ?m f = load32 m f" "load32 ?m (f + 4) = load32 m (f + 4)" by simp_all
  moreover have "load32 ?m (c + 28) = load32 m (c + 28)"
    using near_word(2) by (auto intro!: load32_cong far simp: add.assoc)
  moreover have "fat16_get_first_cluster ?m c = fat16_get_first_cluster m c"
    by (rule first_cluster_cong) (rule far, simp)
  moreover have "volume_at ?m v" by (rule volume_cong [of m]) (use assms far in \<open>auto simp: file_at_def\<close>)
  ultimately show ?thesis using assms
    by (simp add: file_at_def descriptor_item_def descriptor_pos_def fat_item_type_def fat_item_ptr_def item_filesize_def)
qed

lemma fat_seek_result:
  assumes "file_at img stk v cs f c len m p pos"
  shows "fat16_seek p offset whence m =
    (if unat offset < len \<and> whence = SEEK_SET then (0, store32 m (p + 4) offset)
     else if unat offset < len \<and> whence = SEEK_CUR then (0, store32 m (p + 4) (of_nat pos + offset)) else (-1, m))"
proof -
  have "descriptor_pos m p = of_nat pos" using assms by (auto simp: file_at_def)
  moreover have "item_filesize m c \<le> offset \<longleftrightarrow> \<not> unat offset < len" using assms by (simp add: file_at_def word_le_nat_alt not_less)
  ultimately show ?thesis using assms by (simp add: fat16_seek_def file_at_def Let_def)
qed

interpretation fat_file: file_driver "fat16_fs img stk digits" "v_disk v" "file_at img stk v cs f c len"
  "file_byte img v cs" len "handle_owns v" "handle_room v f c" "reads_ok v cs" for img stk digits v cs f c len
proof
  fix s :: kmem and con p pos out and n sz :: u32
  assume "file_at img stk v cs f c len (ram s) p pos" "handle_room v f c p out (unat n * unat sz)"
    "reads_ok v cs pos (unat sz) (unat n)"
  from fat_read_law [OF this, of digits con] show
    "\<exists>m'. read_function (fat16_fs img stk digits) (v_disk v) p sz n out (s, con) = Some (n, s\<lparr>ram := m'\<rparr>, con) \<and>
      file_at img stk v cs f c len m' p pos \<and>
      (\<forall>k < unat n * unat sz. m' (out + of_nat k) = file_byte img v cs (pos + k)) \<and>
      (\<forall>x. \<not> handle_owns v p x \<and> (\<forall>k < unat n * unat sz. x \<noteq> out + of_nat k) \<longrightarrow> m' x = ram s x)"
    by (simp add: fat16_fs_def)
next
  fix s :: kmem and con p pos and offset :: u32
  assume f: "file_at img stk v cs f c len (ram s) p pos" "unat offset < len"
  have "store32 (ram s) (p + 4) offset x = ram s x" if "\<not> handle_owns v p x" for x
    using that by (intro store32_other) (simp add: handle_owns_def not_less)
  then show "\<exists>m'. seek_function (fat16_fs img stk digits) p offset SEEK_SET (s, con) = (0, s\<lparr>ram := m'\<rparr>, con) \<and>
      file_at img stk v cs f c len m' p (unat offset) \<and> (\<forall>x. \<not> handle_owns v p x \<longrightarrow> m' x = ram s x)"
    using fat_seek_result [OF f(1), of offset SEEK_SET] file_at_move [OF f(1), of offset] f(2)
    by (intro exI [of _ "store32 (ram s) (p + 4) offset"]) (simp add: fat16_fs_def on_ram_def)
next
  fix s :: kmem and con p pos whence and offset :: u32
  assume "file_at img stk v cs f c len (ram s) p pos" "len \<le> unat offset"
  then show "seek_function (fat16_fs img stk digits) p offset whence (s, con) = (-1, s, con)"
    using fat_seek_result [of img stk v cs f c len "ram s" p pos offset whence]
    by (simp add: fat16_fs_def on_ram_def)
qed

section \<open>Seeking and reading through the virtual file system\<close>

text \<open>C13: \<open>fseek\<close> then \<open>fread\<close>. On an open FAT16 file, \<open>fseek\<close> to an offset inside the file returns 0 and moves the file
  there, changing the driver's position only. \<open>fread\<close> of \<open>n\<close> elements of \<open>sz\<close> bytes then returns \<open>n\<close> and delivers the bytes of
  the file from this offset on, provided that each element is a read the cluster code gets right (\<open>reads_ok\<close>: it starts a cluster,
  or lies in one cluster and is sector-aligned, or lies in one sector, and the chain has the clusters). The two calls change the
  buffer, the driver's position and the streams' positions only; the read leaves the position where it was, so a second read
  gives the same bytes. An offset past the end, whatever its distance, is refused in every mode and changes nothing.\<close>

theorem fseek_fread_correct:
  assumes "open_on fss (fat16_fs img stk digits) (v_disk v) vf fd desc p (ram s)"
    and "file_at img stk v cs f c len (ram s) p pos" and "\<And>x. x - desc < 16 \<Longrightarrow> \<not> handle_owns v p x"
  shows "(unat offset < len \<longrightarrow> (\<exists>m1. fseek fss fd offset 0 ((s, con), vf) = (0, (s\<lparr>ram := m1\<rparr>, con), vf) \<and>
      file_at img stk v cs f c len m1 p (unat offset) \<and> (\<forall>x. \<not> handle_owns v p x \<longrightarrow> m1 x = ram s x))) \<and>
    (unat offset < len \<and> sz \<noteq> 0 \<and> n \<noteq> 0 \<and> handle_room v f c p out (unat n * unat sz) \<and>
        reads_ok v cs (unat offset) (unat sz) (unat n) \<longrightarrow>
      (\<exists>m1 m2. fseek fss fd offset 0 ((s, con), vf) = (0, (s\<lparr>ram := m1\<rparr>, con), vf) \<and>
        fread fss out sz n fd ((s\<lparr>ram := m1\<rparr>, con), vf) = Some (n, (s\<lparr>ram := m2\<rparr>, con), vf) \<and>
        (\<forall>k < unat n * unat sz. m2 (out + of_nat k) = file_byte img v cs (unat offset + k)) \<and>
        file_at img stk v cs f c len m2 p (unat offset) \<and>
        (\<forall>x. \<not> handle_owns v p x \<and> (\<forall>k < unat n * unat sz. x \<noteq> out + of_nat k) \<longrightarrow> m2 x = ram s x))) \<and>
    (len \<le> unat offset \<longrightarrow> fseek fss fd offset whence ((s, con), vf) = (-1, (s, con), vf))"
proof (intro conjI impI)
  assume "unat offset < len"
  from fat_file.fseek_ok [OF assms(1,2) this, of con] show "\<exists>m1. fseek fss fd offset 0 ((s, con), vf) =
      (0, (s\<lparr>ram := m1\<rparr>, con), vf) \<and> file_at img stk v cs f c len m1 p (unat offset) \<and>
      (\<forall>x. \<not> handle_owns v p x \<longrightarrow> m1 x = ram s x)" .
next
  assume a: "unat offset < len \<and> sz \<noteq> 0 \<and> n \<noteq> 0 \<and> handle_room v f c p out (unat n * unat sz) \<and>
    reads_ok v cs (unat offset) (unat sz) (unat n)"
  then have "unat offset < len" "sz \<noteq> 0" "n \<noteq> 0" "handle_room v f c p out (unat n * unat sz)"
    "reads_ok v cs (unat offset) (unat sz) (unat n)" by blast+
  from fat_file.seek_then_read [OF assms(1,2) this assms(3), of con] show
    "\<exists>m1 m2. fseek fss fd offset 0 ((s, con), vf) = (0, (s\<lparr>ram := m1\<rparr>, con), vf) \<and>
      fread fss out sz n fd ((s\<lparr>ram := m1\<rparr>, con), vf) = Some (n, (s\<lparr>ram := m2\<rparr>, con), vf) \<and>
      (\<forall>k < unat n * unat sz. m2 (out + of_nat k) = file_byte img v cs (unat offset + k)) \<and>
      file_at img stk v cs f c len m2 p (unat offset) \<and>
      (\<forall>x. \<not> handle_owns v p x \<and> (\<forall>k < unat n * unat sz. x \<noteq> out + of_nat k) \<longrightarrow> m2 x = ram s x)" by blast
qed (rule fat_file.fseek_beyond [OF assms(1,2)])

text \<open>The demo volume, with the descriptor of index 3 at \<open>0xC000\<close> and a file of 700 bytes: reading 100 bytes at 512 gives the
  second cluster.\<close>

definition demo_file :: kmem where
  "demo_file = demo_open\<lparr>ram := (ram demo_open)(0x901C := 0xBC, 0x901D := 2, 0xC000 := 3, 0xC009 := 0x70, 0xC00D := 0x10)\<rparr>"

definition demo_vfs :: vfs where
  "demo_vfs = vfs_boot\<lparr>file_descriptors := (file_descriptors vfs_boot)[3 := 0xC000]\<rparr>"

lemma demo_handle_sep: "handle_sep demo_volume 0x7000 0x8000 0x9000"
  unfolding handle_sep_def vol_scratch_def handle_cell_def vol_cell_def demo_volume_def fat_volume.simps de_Morgan_disj
  by (intro conjI allI impI; (elim disjE)?; erule far_apart; simp)

lemma demo_file_at: "file_at demo_disk demo_stack demo_volume [2, 5] 0x8000 0x9000 700 (ram demo_file) 0x7000 0"
proof -
  have "volume_at (ram demo_file) demo_volume"
    by (rule volume_cong [OF demo_open_volume]) (auto simp: demo_file_def vol_cell_def demo_volume_def)
  moreover have "stk_result demo_stack = v_result demo_volume" by (simp add: demo_stack_def demo_volume_def)
  ultimately show ?thesis using demo_sep demo_chain demo_handle_sep
    by (simp add: file_at_def fat_item_ptr_def descriptor_item_def descriptor_pos_def fat16_get_first_cluster_def
        fat_item_type_def item_filesize_def demo_file_def demo_open_def demo_ram_def load32_def load16_def)
qed

lemma demo_room: "n \<le> 4096 \<Longrightarrow> handle_room demo_volume 0x8000 0x9000 0x7000 0x6000 n"
  unfolding handle_room_def
proof (intro conjI allI impI)
  assume n: "n \<le> 4096"
  then show "out_clear demo_volume 0x6000 n" by (rule demo_out)
  fix k assume "k < n"
  then have "unat (of_nat k :: u32) < unat (4096 :: u32)" using n by (simp add: unat_of_nat_u32)
  then have "0x6000 + of_nat k - 0x6000 < (4096 :: u32)" by (simp add: word_less_nat_alt)
  then show "\<not> handle_cell 0x7000 0x8000 0x9000 (0x6000 + of_nat k)"
    unfolding handle_cell_def de_Morgan_disj by (intro conjI) (erule far_apart, simp)+
qed

lemma fseek_fread_correct_witness:
  "let fss = \<lambda>_. fat16_fs demo_disk demo_stack [] in
   \<exists>m1 m2. fseek fss 3 512 0 ((demo_file, con_boot), demo_vfs) = (0, (demo_file\<lparr>ram := m1\<rparr>, con_boot), demo_vfs) \<and>
     fread fss 0x6000 100 1 3 ((demo_file\<lparr>ram := m1\<rparr>, con_boot), demo_vfs) =
       Some (1, (demo_file\<lparr>ram := m2\<rparr>, con_boot), demo_vfs) \<and> m2 0x6000 = 9"
proof -
  let ?fss = "\<lambda>_ :: u32. fat16_fs demo_disk demo_stack []"
  have o: "open_on ?fss (fat16_fs demo_disk demo_stack []) (v_disk demo_volume) demo_vfs 3 0xC000 0x7000 (ram demo_file)"
    by (simp add: open_on_def demo_vfs_def vfs_boot_def demo_volume_def demo_file_def demo_open_def demo_ram_def load32_def)
  have r: "reads_ok demo_volume [2, 5] (unat (512 :: u32)) (unat (100 :: u32)) (unat (1 :: u32))"
  proof -
    have "reads_ok demo_volume [2, 5] 512 100 (Suc 0)"
      unfolding reads_ok_Suc
      by (simp add: reads_ok_def read_ok_def chain_covers_def chain_fits_def demo_volume_def cluster_start_def cluster_bytes_def)
    moreover have "unat (1 :: u32) = Suc 0" "unat (512 :: u32) = 512" "unat (100 :: u32) = 100" by simp_all
    ultimately show ?thesis by (simp only:)
  qed
  have n: "unat (1 :: u32) * unat (100 :: u32) = 100" by simp
  have apart: "\<not> handle_owns demo_volume 0x7000 x" if x: "x - 0xC000 < 16" for x
    unfolding handle_owns_def vol_scratch_def demo_volume_def fat_volume.simps de_Morgan_disj
    by (intro conjI; rule far_apart [OF x]; simp)
  have room: "handle_room demo_volume 0x8000 0x9000 0x7000 0x6000 (unat (1 :: u32) * unat (100 :: u32))"
    unfolding n by (rule demo_room) simp
  have "unat (512 :: u32) < 700" by simp
  with fseek_fread_correct [OF o demo_file_at apart, of 512 con_boot 100 1 "0x6000" 0] room r obtain m1 m2 where
    m: "fseek ?fss 3 512 0 ((demo_file, con_boot), demo_vfs) = (0, (demo_file\<lparr>ram := m1\<rparr>, con_boot), demo_vfs)"
      "fread ?fss 0x6000 100 1 3 ((demo_file\<lparr>ram := m1\<rparr>, con_boot), demo_vfs) =
        Some (1, (demo_file\<lparr>ram := m2\<rparr>, con_boot), demo_vfs)"
    and b: "\<forall>k < 100. m2 (0x6000 + of_nat k) = file_byte demo_disk demo_volume [2, 5] (unat (512 :: u32) + k)"
    unfolding n by auto
  have "m2 0x6000 = 9" using b [rule_format, of 0]
    by (simp add: file_byte_def cluster_start_def cluster_bytes_def disk_byte_def demo_volume_def demo_disk_def)
  with m show ?thesis by (simp add: Let_def) blast
qed

section \<open>Sequences of seeks\<close>

text \<open>
  What a sequence of seeks should come to: of the requests, pairs of an offset and a mode, those count that are \<open>SEEK_SET\<close> or
  \<open>SEEK_CUR\<close> with an offset below the length; the position is the offset of the last absolute one, or else the old position, plus
  the relative ones after it.
\<close>

definition seek_counts :: "nat \<Rightarrow> u32 \<times> u32 \<Rightarrow> bool" where
  "seek_counts len r \<longleftrightarrow> unat (fst r) < len \<and> snd r \<in> {SEEK_SET, SEEK_CUR}"

definition seek_position :: "nat \<Rightarrow> (u32 \<times> u32) list \<Rightarrow> nat" where
  "seek_position pos rs =
     (let relative = takeWhile (\<lambda>r. snd r \<noteq> SEEK_SET) (rev rs); rest = dropWhile (\<lambda>r. snd r \<noteq> SEEK_SET) (rev rs)
      in (if rest = [] then pos else unat (fst (hd rest))) + sum_list (map (\<lambda>r. unat (fst r)) relative))"

text \<open>The calls, one after the other, with their results.\<close>

fun seek_calls :: "u32 \<Rightarrow> (u32 \<times> u32) list \<Rightarrow> mem \<Rightarrow> int list \<times> mem" where
  "seek_calls p [] m = ([], m)"
| "seek_calls p ((offset, whence) # rs) m =
     (let (res, m) = fat16_seek p offset whence m; (ress, m) = seek_calls p rs m in (res # ress, m))"

lemma seek_calls_append:
  "seek_calls p (rs @ ts) m =
    (fst (seek_calls p rs m) @ fst (seek_calls p ts (snd (seek_calls p rs m))), snd (seek_calls p ts (snd (seek_calls p rs m))))"
  by (induction rs arbitrary: m) (auto split: prod.splits)

lemma seek_position_snoc:
  "seek_position pos (rs @ [(offset, whence)]) =
    (if whence = SEEK_SET then unat offset else seek_position pos rs + unat offset)"
  by (simp add: seek_position_def Let_def)

text \<open>C34: Any sequence of seeks in an open FAT16 file. A call returns 0 exactly when its offset is below the length and its mode is
  absolute or relative, -1 otherwise (seeking from the end is always refused); afterwards the file stands, modulo \<open>2 ^ 32\<close>, at the offset of
  the last absolute seek that counts plus all relative ones that count after it, however far past the end that is; and the four
  bytes of the position are all that changes.\<close>

theorem fat16_seek_correct:
  assumes "file_at img stk v cs f c len m p pos"
  shows "fst (seek_calls p rs m) = map (\<lambda>r. if seek_counts len r then 0 else -1) rs \<and>
    file_at img stk v cs f c len (snd (seek_calls p rs m)) p (seek_position pos (filter (seek_counts len) rs) mod 4294967296) \<and>
    (\<forall>x. 4 \<le> x - (p + 4) \<longrightarrow> snd (seek_calls p rs m) x = m x)"
proof (induction rs rule: rev_induct)
  case Nil
  have "pos < 4294967296" using assms by (auto simp: file_at_def)
  then show ?case using assms by (simp add: seek_position_def)
next
  case (snoc r rs)
  obtain offset whence where r: "r = (offset, whence)" by (cases r)
  let ?m = "snd (seek_calls p rs m)" and ?pos = "seek_position pos (filter (seek_counts len) rs)"
  have at: "file_at img stk v cs f c len ?m p (?pos mod 4294967296)" using snoc.IH by blast
  note result = fat_seek_result [OF at, of offset whence]
  show ?case
  proof (cases "seek_counts len r")
    case False
    then have "fat16_seek p offset whence ?m = (-1, ?m)" unfolding result by (auto simp: seek_counts_def r)
    then show ?thesis using snoc.IH False by (simp add: seek_calls_append r)
  next
    case True
    obtain w where w: "w = (if whence = SEEK_SET then offset else of_nat (?pos mod 4294967296) + offset)" by blast
    have call: "fat16_seek p offset whence ?m = (0, store32 ?m (p + 4) w)"
      unfolding result w using True by (auto simp: seek_counts_def r)
    have "unat w = seek_position pos (filter (seek_counts len) (rs @ [r])) mod 4294967296"
      using True by (simp add: r seek_position_snoc w unat_word_ariths unsigned_of_nat take_bit_eq_mod mod_simps)
    then have "file_at img stk v cs f c len (store32 ?m (p + 4) w) p
        (seek_position pos (filter (seek_counts len) (rs @ [r])) mod 4294967296)"
      using file_at_move [OF at, of w] by simp
    moreover have "store32 ?m (p + 4) w x = ?m x" if "4 \<le> x - (p + 4)" for x using that by (rule store32_other)
    ultimately show ?thesis using snoc.IH True call by (simp add: seek_calls_append r)
  qed
qed

text \<open>In a file of 700 bytes: seeks to 600, 600 on, from the end, beyond the end, and 100 on leave the file at 1300.\<close>

lemma fat16_seek_correct_witness:
  "fst (seek_calls 0x7000 [(5, 1), (600, 0), (600, 1), (1, 2), (700, 0), (100, 1)] (ram demo_file)) = [0, 0, 0, -1, -1, 0] \<and>
   file_at demo_disk demo_stack demo_volume [2, 5] 0x8000 0x9000 700
     (snd (seek_calls 0x7000 [(5, 1), (600, 0), (600, 1), (1, 2), (700, 0), (100, 1)] (ram demo_file))) 0x7000 1300"
  using fat16_seek_correct [OF demo_file_at, of "[(5, 1), (600, 0), (600, 1), (1, 2), (700, 0), (100, 1)]"]
  by (simp add: seek_counts_def seek_position_def)

end
