(* ===== verification/ProcessLoad.thy ===== *)
theory ProcessLoad imports Process VfsRead
begin

text \<open>
  Loading a program file, \<open>process_load_binary\<close>: the composition of \<open>fopen\<close>, \<open>fstat\<close>, the heap and \<open>fread\<close>.
\<close>

section \<open>The size of a file\<close>

lemma fat_stat_result:
  assumes f: "file_at img stk v cs f c len m p pos"
    and clear: "\<And>x. x - stat < 8 \<Longrightarrow> \<not> vol_cell v x \<and> \<not> handle_cell p f c x"
  shows "\<exists>m'. fat16_stat p stat m = (1, m') \<and> file_at img stk v cs f c len m' p pos \<and>
    unat (load32 m' (stat + 4)) = len \<and> (\<forall>x. 8 \<le> x - stat \<longrightarrow> m' x = m x)"
proof -
  let ?m1 = "store32 m (stat + 4) (item_filesize m c)"
  let ?m2 = "store32 ?m1 stat 0"
  let ?m3 = "if item_attribute ?m2 c AND FAT_FILE_READ_ONLY \<noteq> 0 then store32 ?m2 stat (load32 ?m2 stat OR 1) else ?m2"
  have word: "4 \<le> x - stat" "4 \<le> x - (stat + 4)" if "8 \<le> x - stat" for x
  proof -
    obtain y where y: "y = x - stat" by blast
    then have "x - (stat + 4) = y - 4" by simp
    moreover have "4 \<le> y - 4" "4 \<le> y" using that unfolding y [symmetric] by (unat_arith; simp; linarith)+
    ultimately show "4 \<le> x - stat" "4 \<le> x - (stat + 4)" unfolding y [symmetric] by (simp_all only:)
  qed
  have frame: "?m3 x = m x" if "8 \<le> x - stat" for x
    using word [OF that] by (simp add: store32_other)
  have keep: "?m3 x = m x" if "vol_cell v x \<or> handle_cell p f c x" for x
    using clear [of x] that by (intro frame) (auto simp: not_less [symmetric])
  have "file_at img stk v cs f c len ?m3 p pos" by (rule file_at_cong [OF f keep])
  moreover have "load32 ?m3 (stat + 4) = item_filesize m c"
    by (simp add: load32_store32_apart apart_def)
  moreover have "fat16_stat p stat m = (1, ?m3)"
    using f by (simp add: fat16_stat_def file_at_def Let_def)
  ultimately show ?thesis using f frame by (intro exI [of _ ?m3]) (simp add: file_at_def)
qed

section \<open>The opened file\<close>

lemma item_words:
  assumes "read_bytes m' c 32 = read_bytes m a 32"
  shows "item_filesize m' c = item_filesize m a" "fat16_get_first_cluster m' c = fat16_get_first_cluster m a"
proof -
  have b: "m' (c + of_nat i) = m (a + of_nat i)" if "i < 32" for i
  proof -
    have "read_bytes m' c 32 ! i = read_bytes m a 32 ! i" using assms by simp
    then show ?thesis using that by (simp add: read_bytes_def)
  qed
  show "item_filesize m' c = item_filesize m a"
    using b [of 28] b [of 29] b [of 30] b [of 31] by (simp add: item_filesize_def load32_def add.assoc)
  show "fat16_get_first_cluster m' c = fat16_get_first_cluster m a"
    using b [of 20] b [of 21] b [of 26] b [of 27] by (simp add: fat16_get_first_cluster_def load16_def add.assoc)
qed

text \<open>A mounted volume in pages in use, its structures away from the name buffer.\<close>

definition volume_in_use :: "fat_volume \<Rightarrow> u32 \<Rightarrow> kmem \<Rightarrow> bool" where
  "volume_in_use v buf s \<longleftrightarrow> volume_at (ram s) v \<and> vol_sep v \<and>
     (\<forall>x. vol_cell v x \<or> vol_scratch v x \<longrightarrow> page_of x \<in> owned_pages (phys s)) \<and>
     (\<forall>x. vol_cell v x \<longrightarrow> 108 \<le> x - buf)"

lemma opened_file_at:
  assumes v: "volume_in_use v (stk_name stk) s" "stk_result stk = v_result v" "fat_chain img v cs"
    and o: "opened s s' D (read_bytes (ram s) item 32)" "spares (stk_name stk) s s'"
    and item: "fat16_get_first_cluster (ram s) item = of_nat (cs ! 0)" "unat (item_filesize (ram s) item) = len"
  shows "\<exists>f c. file_at img stk v cs f c len (ram s') D 0 \<and> f = descriptor_item (ram s') D \<and> c = fat_item_ptr (ram s') f \<and>
    page_aligned f \<and> page_aligned c \<and> page_aligned D \<and> {D, f, c} \<subseteq> owned_pages (phys s') - owned_pages (phys s)"
proof -
  obtain f c where fc: "descriptor_item (ram s') D = f" "fat_item_ptr (ram s') f = c" by blast
  have n: "D \<noteq> f" "D \<noteq> c" "page_aligned D" "page_aligned f" "page_aligned c"
    "{D, f, c} \<subseteq> owned_pages (phys s') - owned_pages (phys s)"
    "descriptor_pos (ram s') D = 0" "fat_item_type (ram s') f = FAT_ITEM_TYPE_FILE"
    "read_bytes (ram s') c 32 = read_bytes (ram s) item 32"
    using o(1) fc by (auto simp: opened_def Let_def)
  have page: "page_of x = q" if "page_aligned q" "x - q < k" "k \<le> 4096" for x q k
    using page_of_in [OF that(1)] order.strict_trans2 [OF that(2,3)] by blast
  have h: "page_of x = D \<or> page_of x = f \<or> page_of x = c" if "handle_cell D f c x" for x
    using that page [OF n(3), of x 8] page [OF n(4), of x 8] page [OF n(5), of x 32] by (auto simp: handle_cell_def)
  have vu: "page_of x \<in> owned_pages (phys s)" if "vol_cell v x \<or> vol_scratch v x" for x
    using v(1) that by (auto simp: volume_in_use_def)
  have "handle_sep v D f c"
    unfolding handle_sep_def
  proof (intro conjI allI impI)
    fix x
    show "\<not> handle_cell D f c x" if "vol_scratch v x" using h [of x] vu [of x] that n(6) by auto
    assume x: "x - D < 8"
    then have "page_of x = D" using page [OF n(3), of x 8] by simp
    then show "\<not> vol_cell v x" "\<not> x - f < 8" "\<not> x - c < 32"
      using vu [of x] n(1,2,6) page [OF n(4), of x 8] page [OF n(5), of x 32] by auto
  qed
  moreover have "volume_at (ram s') v"
    by (rule volume_cong [of "ram s"]) (use v(1) o(2) in \<open>simp_all add: volume_in_use_def spares_def\<close>)
  ultimately have "file_at img stk v cs f c len (ram s') D 0"
    using v n(7,8) fc item item_words [OF n(9)] by (simp add: file_at_def volume_in_use_def)
  then show ?thesis using fc n by blast
qed

section \<open>From the descriptor to the program in memory\<close>

lemma fstat_ok:
  assumes "open_on fss (fat16_fs img stk digits) (v_disk v) vf fd desc p (ram s)" "file_at img stk v cs f c len (ram s) p pos"
    and "\<And>x. x - stat < 8 \<Longrightarrow> \<not> vol_cell v x \<and> \<not> handle_cell p f c x \<and> \<not> x - desc < 16"
  shows "\<exists>m'. fstat fss fd stat ((s, con), vf) = (1, (s\<lparr>ram := m'\<rparr>, con), vf) \<and> file_at img stk v cs f c len m' p pos \<and>
    open_on fss (fat16_fs img stk digits) (v_disk v) vf fd desc p m' \<and>
    unat (load32 m' (stat + 4)) = len \<and> (\<forall>x. 8 \<le> x - stat \<longrightarrow> m' x = ram s x)"
proof -
  have "\<not> vol_cell v x \<and> \<not> handle_cell p f c x" if "x - stat < 8" for x using assms(3) [OF that] by blast
  from fat_stat_result [OF assms(2) this] obtain m' where
    m: "fat16_stat p stat (ram s) = (1, m')" "file_at img stk v cs f c len m' p pos" "unat (load32 m' (stat + 4)) = len"
      "\<forall>x. 8 \<le> x - stat \<longrightarrow> m' x = ram s x" by blast
  have "open_on fss (fat16_fs img stk digits) (v_disk v) vf fd desc p m'"
    by (rule open_on_cong [OF assms(1)]) (use m(4) assms(3) in \<open>auto simp: not_less [symmetric]\<close>)
  moreover have "fstat fss fd stat ((s, con), vf) = (1, (s\<lparr>ram := m'\<rparr>, con), vf)"
    using assms(1) m(1) by (simp add: fstat_def open_on_def file_get_descriptor_def Let_def fat16_fs_def on_ram_def)
  ultimately show ?thesis using m by blast
qed

text \<open>A program of \<open>len\<close> bytes takes this many pages.\<close>

definition program_pages :: "nat \<Rightarrow> nat" where
  "program_pages len = (len + 4095) div 4096"

lemma program_blocks:
  "len < 2147483648 \<Longrightarrow> unat (blocks_for (of_nat len)) = program_pages len" "len < 2147483648 \<Longrightarrow> unat (of_nat len :: u32) = len"
  by (simp_all add: unat_blocks_for program_pages_def unat_of_nat_u32)

lemma reads_ok_length: "reads_ok v cs 0 len 1 \<Longrightarrow> len < 2147483648"
  by (simp add: reads_ok_def)

lemma load_opened:
  assumes o: "open_on fss (fat16_fs img stk digits) (v_disk v) vf fd desc D (ram s)" "file_at img stk v cs f c len (ram s) D 0"
    and pages: "page_aligned desc" "page_aligned D" "page_aligned f" "page_aligned c" "desc \<notin> {D, f, c}"
      "{desc, D, f, c} \<subseteq> owned_pages (phys s) - Q" "Q \<subseteq> owned_pages (phys s)"
    and vol: "\<And>x. vol_cell v x \<or> vol_scratch v x \<Longrightarrow> page_of x \<in> Q"
    and stat: "\<And>x. x - stat < 8 \<Longrightarrow> page_of x \<in> Q \<and> \<not> vol_cell v x \<and> \<not> vol_scratch v x"
    and len: "0 < len" "reads_ok v cs 0 len 1"
    and h: "kheap_inv s" "program_pages len * unat (pmm_used_blocks (phys s)) + 1 < unat (pmm_system_memory_size (phys s))"
  shows "\<exists>m1 P s2 m3. fstat fss fd stat ((s, con), vf) = (1, (s\<lparr>ram := m1\<rparr>, con), vf) \<and>
    load32 m1 (stat + 4) = of_nat len \<and> kzalloc (of_nat len) (s\<lparr>ram := m1\<rparr>) = (P, s2) \<and> P \<noteq> 0 \<and> page_aligned P \<and>
    (\<forall>i < of_nat len. page_of (P + i) \<in> owned_pages (phys s2) - owned_pages (phys s)) \<and>
    owned_pages (phys s) \<subseteq> owned_pages (phys s2) \<and> kheap_inv s2 \<and> (pmm_system_memory_size (phys s) < 0x100000 \<longrightarrow> unat P + len \<le> 0xFFFFF000) \<and>
    pmm_system_memory_size (phys s2) = pmm_system_memory_size (phys s) \<and>
    unat (pmm_free_blocks (phys s)) = program_pages len + unat (pmm_free_blocks (phys s2)) \<and>
    fread fss P (of_nat len) 1 fd ((s2, con), vf) = Some (1, (s2\<lparr>ram := m3\<rparr>, con), vf) \<and>
    read_bytes m3 P len = map (file_byte img v cs) [0..<len] \<and> load32 m3 (stat + 4) = of_nat len \<and>
    (\<forall>x. page_of x \<in> Q \<and> 8 \<le> x - stat \<and> \<not> vol_scratch v x \<longrightarrow> m3 x = ram s x)"
proof -
  have page: "page_of x = q" if "page_aligned q" "x - q < k" "k \<le> 4096" for x q k
    using page_of_in [OF that(1)] order.strict_trans2 [OF that(2,3)] by blast
  have desc: "page_of x = desc" if "x - desc < 16" for x using page [OF pages(1) that] by simp
  have handle: "page_of x \<in> {D, f, c}" if "handle_cell D f c x" for x
    using that page [OF pages(2), of x 8] page [OF pages(3), of x 8] page [OF pages(4), of x 32] by (auto simp: handle_cell_def)
  have "\<not> vol_cell v x \<and> \<not> handle_cell D f c x \<and> \<not> x - desc < 16" if "x - stat < 8" for x
    using stat [OF that] handle [of x] desc [of x] pages(6) by auto
  from fstat_ok [where con = con, OF o this] obtain m1 where
    m1: "fstat fss fd stat ((s, con), vf) = (1, (s\<lparr>ram := m1\<rparr>, con), vf)" "file_at img stk v cs f c len m1 D 0"
      "open_on fss (fat16_fs img stk digits) (v_disk v) vf fd desc D m1" "unat (load32 m1 (stat + 4)) = len"
      "\<forall>x. 8 \<le> x - stat \<longrightarrow> m1 x = ram s x" by blast
  note bl = program_blocks [OF reads_ok_length [OF len(2)]]
  have l: "load32 m1 (stat + 4) = of_nat len" "unat (of_nat len :: u32) = len" "0 < (of_nat len :: u32)" "(of_nat len :: u32) \<noteq> 0"
    using m1(4) len(1) bl(2) by (auto simp: word_less_nat_alt)
  have "kheap_inv (s\<lparr>ram := m1\<rparr>)" "unat (blocks_for (of_nat len)) * unat (pmm_used_blocks (phys (s\<lparr>ram := m1\<rparr>))) + 1 <
      unat (pmm_system_memory_size (phys (s\<lparr>ram := m1\<rparr>)))" using h bl(1) by (simp_all add: kheap_inv_def)
  from kzalloc_region [OF this(1) l(3) this(2)] obtain P s2 where
    P: "kzalloc (of_nat len) (s\<lparr>ram := m1\<rparr>) = (P, s2)" "P \<noteq> 0" "page_aligned P"
      "\<forall>i < of_nat len. page_of (P + i) \<in> owned_pages (phys s2) - owned_pages (phys s)"
      "keeps (s\<lparr>ram := m1\<rparr>) s2" "pmm_system_memory_size (phys s) < 0x100000 \<longrightarrow> unat P + len \<le> 0xFFFFF000" "kheap_inv s2"
      "unat (pmm_free_blocks (phys s)) = program_pages len + unat (pmm_free_blocks (phys s2))" unfolding bl by auto
  have k: "ram s2 x = m1 x" if "page_of x \<in> owned_pages (phys s)" for x using P(5) that by (simp add: keeps_def)
  have fa: "file_at img stk v cs f c len (ram s2) D 0"
    by (rule file_at_cong [OF m1(2)]) (use k vol handle pages(6,7) in blast)
  have on: "open_on fss (fat16_fs img stk digits) (v_disk v) vf fd desc D (ram s2)"
    by (rule open_on_cong [OF m1(3)]) (use k desc pages(6) in auto)
  have inP: "page_of (P + of_nat i) \<notin> owned_pages (phys s)" if "i < len" for i
  proof -
    have "(of_nat i :: u32) < of_nat len" using that l(2) reads_ok_length [OF len(2)] by (simp add: word_less_nat_alt unat_of_nat_u32)
    then show ?thesis using P(4) by blast
  qed
  have n1: "unat (1 :: u32) * unat (of_nat len :: u32) = len" using l(2) by simp
  have room: "handle_room v f c D P (unat (1 :: u32) * unat (of_nat len :: u32))"
    unfolding n1 handle_room_def out_clear_def
  proof (intro conjI allI impI)
    fix i assume "i < len"
    then have "page_of (P + of_nat i) \<notin> owned_pages (phys s)" by (rule inP)
    then show "\<not> vol_cell v (P + of_nat i)" "\<not> vol_scratch v (P + of_nat i)" "\<not> handle_cell D f c (P + of_nat i)"
      using vol handle pages(6,7) by blast+
  qed
  have ok: "reads_ok v cs 0 (unat (of_nat len :: u32)) (unat (1 :: u32))" using len(2) l(2) by simp
  obtain m3 where r: "fread fss P (of_nat len) 1 fd ((s2, con), vf) = Some (1, (s2\<lparr>ram := m3\<rparr>, con), vf)"
    "\<forall>k < len. m3 (P + of_nat k) = file_byte img v cs k"
    "\<forall>x. \<not> handle_owns v D x \<and> (\<forall>k < len. x \<noteq> P + of_nat k) \<longrightarrow> m3 x = ram s2 x"
    using fat_file.fread_ok [where con = con, OF on fa l(4) one_neq_zero room ok] unfolding n1 by auto
  have frame: "m3 x = m1 x" if "page_of x \<in> Q" "\<not> vol_scratch v x" for x
  proof -
    have "x \<noteq> P + of_nat i" if "i < len" for i using inP [OF that] pages(7) \<open>page_of x \<in> Q\<close> by auto
    moreover have "\<not> x - (D + 4) < 4"
    proof
      assume "x - (D + 4) < 4"
      then have "x - D < 8" using near_word(1) [of "x - (D + 4)" 4] by (simp add: algebra_simps)
      then show False using page [OF pages(2), of x 8] that(1) pages(6) by auto
    qed
    ultimately have "m3 x = ram s2 x" using r(3) that(2) by (simp add: handle_owns_def)
    then show ?thesis using k that(1) pages(7) by auto
  qed
  have "read_bytes m3 P len = map (file_byte img v cs) [0..<len]" using r(2) by (simp add: read_bytes_def)
  moreover have "load32 m3 (stat + 4) = load32 m1 (stat + 4)"
  proof (rule load32_cong)
    fix j :: u32 assume "j < 4"
    then have "4 + j < 8" by unat_arith
    then have "stat + 4 + j - stat < 8" by (simp add: algebra_simps)
    then show "m3 (stat + 4 + j) = m1 (stat + 4 + j)" using stat by (intro frame) blast+
  qed
  moreover have "\<forall>x. page_of x \<in> Q \<and> 8 \<le> x - stat \<and> \<not> vol_scratch v x \<longrightarrow> m3 x = ram s x" using frame m1(5) by simp
  moreover have "pmm_system_memory_size (phys s2) = pmm_system_memory_size (phys s)" "owned_pages (phys s) \<subseteq> owned_pages (phys s2)"
    using P(5) by (simp_all add: keeps_def)
  ultimately show ?thesis using m1(1) l(1) P r(1)
    by (intro exI [of _ m1] exI [of _ P] exI [of _ s2] exI [of _ m3]) simp
qed

section \<open>Loading a program\<close>

text \<open>The entry \<open>j\<close> of the root directory is a file of \<open>len\<close> bytes whose clusters are the chain \<open>cs\<close>.\<close>

definition program_file ::
    "(u32 \<Rightarrow> u8 list) \<Rightarrow> fat_stack \<Rightarrow> fat_volume \<Rightarrow> nat list \<Rightarrow> dir_view \<Rightarrow> nat \<Rightarrow> nat \<Rightarrow> kmem \<Rightarrow> bool" where
  "program_file img stk v cs d j len s \<longleftrightarrow> volume_in_use v (stk_name stk) s \<and> stk_result stk = v_result v \<and>
     fat_chain img v cs \<and> the_file (ram s) d j \<and> fat16_get_first_cluster (ram s) (d_item d j) = of_nat (cs ! 0) \<and>
     unat (item_filesize (ram s) (d_item d j)) = len \<and> reads_ok v cs 0 len 1"

text \<open>The loader's \<open>struct file_stat\<close> on the stack, and the fields of the process it fills in.\<close>

definition load_places :: "proc_env \<Rightarrow> u32 \<Rightarrow> fat_volume \<Rightarrow> kmem \<Rightarrow> bool" where
  "load_places env process v s \<longleftrightarrow>
     (\<forall>x. x - pe_stat env < 8 \<longrightarrow> page_of x \<in> owned_pages (phys s) \<and> \<not> vol_cell v x \<and> \<not> vol_scratch v x \<and>
        12 \<le> x - (process + 4212)) \<and>
     (\<forall>x. x - (process + 4212) < 12 \<longrightarrow> page_of x \<in> owned_pages (phys s))"

lemma signed_nat: "i < 512 \<Longrightarrow> sint (of_nat i :: u32) = int i \<and> ((of_nat i :: u32) \<le>s 0) = (i = 0)"
proof -
  assume "i < 512"
  then have "sint (of_nat i :: u32) = int i" by (simp add: sint_u32 word_less_nat_alt uint_nat unat_of_nat_u32)
  then show ?thesis by (simp add: word_sle_eq)
qed

lemma load_binary_ok:
  assumes s: "s = km (mm (sk y))"
    and disk: "fat_disk (pe_disk env) stk d s" "pe_fss env (disk_filesystem (ram s) (pe_disk env)) = fat16_fs img stk digits"
      "v_disk v = pe_disk env"
    and h: "kheap_inv s" "program_pages len * (unat (pmm_used_blocks (phys s)) + 10) + 1 < unat (pmm_system_memory_size (phys s))"
    and path: "cstring (ram s) path bs" "region_in_use s path (Suc (length bs))" "root_file_path bs (d_wanted d)"
    and mode: "ram s (pe_mode_r env) = 114" "page_of (pe_mode_r env) \<in> owned_pages (phys s)"
    and prog: "program_file img stk v cs d j len s" "0 < len"
    and slot: "free_slot (sv y) i" "length (file_descriptors (sv y)) = 512"
    and places: "load_places env process v s"
  shows "\<exists>P desc s'. process_load_binary env path process y = Some (1, y\<lparr>sk := set_km s' (sk y),
        sv := (sv y)\<lparr>file_descriptors := (file_descriptors (sv y))[i := desc]\<rparr>\<rparr>) \<and>
    desc \<noteq> 0 \<and> process_ptr (ram s') process = P \<and> process_size (ram s') process = of_nat len \<and>
    P \<noteq> 0 \<and> page_aligned P \<and> (\<forall>i < of_nat len. page_of (P + i) \<in> owned_pages (phys s') - owned_pages (phys s)) \<and>
    (pmm_system_memory_size (phys s) < 0x100000 \<longrightarrow> unat P + len \<le> 0xFFFFF000) \<and>
    read_bytes (ram s') P len = map (file_byte img v cs) [0..<len] \<and> kheap_inv s' \<and>
    owned_pages (phys s) \<subseteq> owned_pages (phys s') \<and> pmm_system_memory_size (phys s') = pmm_system_memory_size (phys s) \<and>
    unat (pmm_free_blocks (phys s)) = 10 + program_pages len + unat (pmm_free_blocks (phys s')) \<and>
    (\<forall>x. page_of x \<in> owned_pages (phys s) \<and> 108 \<le> x - stk_name stk \<and> \<not> vol_scratch v x \<and> 8 \<le> x - pe_stat env \<and>
       12 \<le> x - (process + 4212) \<longrightarrow> ram s' x = ram s x)"
proof -
  let ?fss = "pe_fss env" and ?st = "pe_stat env" and ?disk = "pe_disk env" and ?buf = "stk_name stk"
  let ?v = "\<lambda>desc. (sv y)\<lparr>file_descriptors := (file_descriptors (sv y))[i := desc]\<rparr>"
  have pf: "volume_in_use v ?buf s" "stk_result stk = v_result v" "fat_chain img v cs" "the_file (ram s) d j"
    "fat16_get_first_cluster (ram s) (d_item d j) = of_nat (cs ! 0)" "unat (item_filesize (ram s) (d_item d j)) = len"
    "reads_ok v cs 0 len 1" using prog(1) by (auto simp: program_file_def)
  have pos: "0 < program_pages len" using prog(2) by (simp add: program_pages_def)
  have inv: "pmm_inv (phys s)" using h(1) by (simp add: kheap_inv_def)
  have "unat (pmm_used_blocks (phys s)) + 10 \<le> program_pages len * (unat (pmm_used_blocks (phys s)) + 10)" using pos by simp
  then have "10 \<le> unat (pmm_free_blocks (phys s))" using h(2) inv unfolding pmm_inv_def by linarith
  from fopen_ok [where con = "sc y" and fss = ?fss and v = "sv y", OF disk(1,2) h(1) this path mode pf(4) slot] obtain desc D s1 where
    o: "fopen ?fss ?disk path (pe_mode_r env) ((s, sc y), sv y) = Some (of_nat i, (s1, sc y), ?v desc)"
      "desc \<noteq> 0" "page_aligned desc" "desc \<noteq> D"
      "desc \<notin> {descriptor_item (ram s1) D, fat_item_ptr (ram s1) (descriptor_item (ram s1) D)}"
      "desc \<in> owned_pages (phys s1) - owned_pages (phys s)"
      "descriptor_at (ram s1) desc (of_nat i) (disk_filesystem (ram s) ?disk) D ?disk"
      "opened s s1 D (read_bytes (ram s) (d_item d j) 32)" "kheap_inv s1" "spares ?buf s s1"
      "unat (pmm_free_blocks (phys s)) = 10 + unat (pmm_free_blocks (phys s1))" by blast
  from opened_file_at [OF pf(1-3) o(8,10) pf(5,6)] obtain f c where
    fc: "file_at img stk v cs f c len (ram s1) D 0" "f = descriptor_item (ram s1) D" "c = fat_item_ptr (ram s1) f"
      "page_aligned f" "page_aligned c" "page_aligned D" "{D, f, c} \<subseteq> owned_pages (phys s1) - owned_pages (phys s)" by blast
  have i: "1 \<le> i" "i < 512" using slot by (auto simp: free_slot_def)
  then have sgn: "sint (of_nat i :: u32) = int i" "\<not> (of_nat i :: u32) \<le>s 0" using signed_nat [of i] by auto
  have on: "open_on ?fss (fat16_fs img stk digits) (v_disk v) (?v desc) (int i) desc D (ram s1)"
    using o(2,7) i slot(2) disk(2,3) by (simp add: open_on_def descriptor_at_def)
  let ?Q = "owned_pages (phys s)"
  have Q: "desc \<notin> {D, f, c}" "{desc, D, f, c} \<subseteq> owned_pages (phys s1) - ?Q" "?Q \<subseteq> owned_pages (phys s1)"
    using o(4-6,10) fc(2,3,7) by (auto simp: spares_def)
  have vol: "page_of x \<in> ?Q" if "vol_cell v x \<or> vol_scratch v x" for x using pf(1) that by (auto simp: volume_in_use_def)
  have st: "page_of x \<in> ?Q \<and> \<not> vol_cell v x \<and> \<not> vol_scratch v x" if "x - ?st < 8" for x
    using places that by (simp add: load_places_def)
  have size1: "pmm_system_memory_size (phys s1) = pmm_system_memory_size (phys s)" using o(10) by (simp add: spares_def)
  have "pmm_inv (phys s1)" using o(9) by (simp add: kheap_inv_def)
  then have "unat (pmm_used_blocks (phys s1)) = unat (pmm_used_blocks (phys s)) + 10"
    using inv o(11) size1 by (simp add: pmm_inv_def)
  then have "program_pages len * unat (pmm_used_blocks (phys s1)) + 1 < unat (pmm_system_memory_size (phys s1))"
    using h(2) size1 by simp
  from load_opened [where con = "sc y", OF on fc(1) o(3) fc(6,4,5) Q vol st prog(2) pf(7) o(9) this] obtain m1 P s2 m3 where
    r: "fstat ?fss (int i) ?st ((s1, sc y), ?v desc) = (1, (s1\<lparr>ram := m1\<rparr>, sc y), ?v desc)"
      "load32 m1 (?st + 4) = of_nat len" "kzalloc (of_nat len) (s1\<lparr>ram := m1\<rparr>) = (P, s2)" "P \<noteq> 0" "page_aligned P"
      "\<forall>i < of_nat len. page_of (P + i) \<in> owned_pages (phys s2) - owned_pages (phys s1)"
      "owned_pages (phys s1) \<subseteq> owned_pages (phys s2)" "kheap_inv s2"
      "(pmm_system_memory_size (phys s1) < 0x100000 \<longrightarrow> unat P + len \<le> 0xFFFFF000) \<and>
        pmm_system_memory_size (phys s2) = pmm_system_memory_size (phys s1) \<and>
        unat (pmm_free_blocks (phys s1)) = program_pages len + unat (pmm_free_blocks (phys s2))"
      "fread ?fss P (of_nat len) 1 (int i) ((s2, sc y), ?v desc) = Some (1, (s2\<lparr>ram := m3\<rparr>, sc y), ?v desc)"
      "read_bytes m3 P len = map (file_byte img v cs) [0..<len]" "load32 m3 (?st + 4) = of_nat len"
      "\<forall>x. page_of x \<in> ?Q \<and> 8 \<le> x - ?st \<and> \<not> vol_scratch v x \<longrightarrow> m3 x = ram s1 x" by blast
  let ?m4 = "store32 m3 (process + 4212) P"
  let ?m5 = "store32 ?m4 (process + 4220) (of_nat len)"
  let ?s' = "s2\<lparr>ram := ?m5\<rparr>"
  have word: "4 \<le> x - (process + 4212)" "4 \<le> x - (process + 4220)" if "12 \<le> x - (process + 4212)" for x
  proof -
    obtain z where z: "z = x - (process + 4212)" by blast
    then have "x - (process + 4220) = z - 8" by simp
    moreover have "4 \<le> z" "4 \<le> z - 8" using that unfolding z [symmetric] by (unat_arith; simp; linarith)+
    ultimately show "4 \<le> x - (process + 4212)" "4 \<le> x - (process + 4220)" unfolding z [symmetric] by (simp_all only:)
  qed
  have m5: "?m5 x = m3 x" if "12 \<le> x - (process + 4212)" for x using word [OF that] by (simp add: store32_other)
  have "load32 ?m4 (?st + 4) = load32 m3 (?st + 4)"
  proof (rule load32_cong)
    fix k :: u32 assume "k < 4"
    then have "4 + k < 8" by unat_arith
    then have "?st + 4 + k - ?st < 8" by (simp add: algebra_simps)
    then have "12 \<le> ?st + 4 + k - (process + 4212)" using places unfolding load_places_def by blast
    then show "?m4 (?st + 4 + k) = m3 (?st + 4 + k)" by (rule store32_other [OF word(1)])
  qed
  then have sz: "load32 ?m4 (?st + 4) = of_nat len" using r(12) by simp
  have run: "process_load_binary env path process y = Some (1, y\<lparr>sk := set_km ?s' (sk y), sv := ?v desc\<rparr>)"
    using o(1) r(1-4,10) sgn sz
    by (simp add: process_load_binary_def files_of_def files_back_def s [symmetric] sys_mem_def sys_ram_def set_ram_def
        set_km_def Let_def word_sle_eq)
  have Pm: "?m5 (P + of_nat k) = m3 (P + of_nat k)" if "k < len" for k
  proof (rule m5)
    have "(of_nat k :: u32) < of_nat len"
      using that reads_ok_length [OF pf(7)] by (simp add: word_less_nat_alt unat_of_nat_u32)
    then have "page_of (P + of_nat k) \<notin> ?Q" using r(6) Q(3) by blast
    then show "12 \<le> P + of_nat k - (process + 4212)" using places unfolding load_places_def not_less [symmetric] by blast
  qed
  have rd: "read_bytes ?m5 P len = read_bytes m3 P len" using Pm by (simp add: read_bytes_def)
  have size: "pmm_system_memory_size (phys s2) = pmm_system_memory_size (phys s)" using r(9) size1 by simp
  have fields: "load32 ?m5 (process + 4212) = P" "load32 ?m5 (process + 4220) = of_nat len"
    by (simp_all add: load32_store32_apart apart_def)
  have frame: "?m5 x = ram s x" if "page_of x \<in> ?Q" "108 \<le> x - ?buf" "\<not> vol_scratch v x" "8 \<le> x - ?st" "12 \<le> x - (process + 4212)" for x
    using that m5 r(13) o(10) by (simp add: spares_def)
  have own: "\<forall>i < of_nat len. page_of (P + i) \<in> owned_pages (phys ?s') - owned_pages (phys s)" "owned_pages (phys s) \<subseteq> owned_pages (phys ?s')"
    using r(6,7) Q(3) by auto
  have "kheap_inv ?s'" "unat (pmm_free_blocks (phys s)) = 10 + program_pages len + unat (pmm_free_blocks (phys ?s'))"
    "pmm_system_memory_size (phys s) < 0x100000 \<longrightarrow> unat P + len \<le> 0xFFFFF000"
    using r(8,9) o(11) size1 by (simp_all add: kheap_inv_def)
  then show ?thesis
    using run fields r(4,5) rd r(11) o(2) own frame size
    by (intro exI [of _ P] exI [of _ desc] exI [of _ ?s']) (simp add: process_ptr_def process_size_def)
qed

text \<open>Loading a program. When the file named by \<open>0:/name\<close> is the only match in the root directory and has at least one byte, and its
  cluster chain covers it, \<open>process_load_binary\<close> returns 1 and records in the process a fresh region, on as many pages as the file needs, that starts with exactly the
  bytes of the file, and the file's size. Ten more pages are taken from the heap; tasks, terminal and process table are as
  before, and of the memory in use only the name buffer, the stream positions, the status structure and the process's own fields change. The descriptor it opened stays in the table.\<close>

theorem process_load_binary_correct:
  assumes s: "s = km (mm (sk y))"
    and disk: "fat_disk (pe_disk env) stk d s" "pe_fss env (disk_filesystem (ram s) (pe_disk env)) = fat16_fs img stk digits"
      "v_disk v = pe_disk env"
    and h: "kheap_inv s" "program_pages len * (unat (pmm_used_blocks (phys s)) + 10) + 1 < unat (pmm_system_memory_size (phys s))"
    and path: "cstring (ram s) path bs" "region_in_use s path (Suc (length bs))" "root_file_path bs (d_wanted d)"
    and mode: "ram s (pe_mode_r env) = 114" "page_of (pe_mode_r env) \<in> owned_pages (phys s)"
    and prog: "program_file img stk v cs d j len s" "0 < len"
    and slot: "free_slot (sv y) i" "length (file_descriptors (sv y)) = 512"
    and places: "load_places env process v s"
  shows "\<exists>P desc s'. process_load_binary env path process y = Some (1, y\<lparr>sk := set_km s' (sk y),
        sv := (sv y)\<lparr>file_descriptors := (file_descriptors (sv y))[i := desc]\<rparr>\<rparr>) \<and>
    process_ptr (ram s') process = P \<and> process_size (ram s') process = of_nat len \<and>
    P \<noteq> 0 \<and> page_aligned P \<and> (\<forall>i < of_nat len. page_of (P + i) \<in> owned_pages (phys s') - owned_pages (phys s)) \<and>
    (pmm_system_memory_size (phys s) < 0x100000 \<longrightarrow> unat P + len \<le> 0xFFFFF000) \<and>
    read_bytes (ram s') P len = map (file_byte img v cs) [0..<len] \<and> kheap_inv s' \<and>
    owned_pages (phys s) \<subseteq> owned_pages (phys s') \<and> pmm_system_memory_size (phys s') = pmm_system_memory_size (phys s) \<and>
    unat (pmm_free_blocks (phys s)) = 10 + program_pages len + unat (pmm_free_blocks (phys s')) \<and>
    (\<forall>x. page_of x \<in> owned_pages (phys s) \<and> 108 \<le> x - stk_name stk \<and> \<not> vol_scratch v x \<and> 8 \<le> x - pe_stat env \<and>
       12 \<le> x - (process + 4212) \<longrightarrow> ram s' x = ram s x)"
  using load_binary_ok [OF assms] by blast

text \<open>The program \<open>SHELL\<close> of 600 bytes on the demo volume.\<close>

definition load_system :: system where
  "load_system = \<lparr>sk = \<lparr>mm = \<lparr>km = open_kmem, for_one_time = 0, current_directory = 0, cr3 = 0, paging_on = False\<rparr>,
       kernel_chunk = 0, current_task = 0, task_head = 0, task_tail = 0, data_segment = 0x10\<rparr>,
     sc = con_boot, sv = vfs_boot, processes = replicate 12 0\<rparr>"

definition load_env :: proc_env where
  "load_env = \<lparr>pe_fss = \<lambda>_. fat16_fs demo_disk demo_stack [], pe_disk = 0x1000, pe_stat = 0x5300, pe_mode_r = 0xB000\<rparr>"

lemma near_page: "x - (p + k) < n \<Longrightarrow> unat k + unat n \<le> 4096 \<Longrightarrow> x - p < 4096" for x p k n :: u32
  by (erule near_within) simp

lemma open_volume: "volume_in_use demo_volume 0x5200 open_kmem"
proof -
  have "volume_at open_ram demo_volume"
    by (simp add: volume_at_def demo_volume_def open_ram_def demo_ram_def disk_sector_size_def disk_fs_private_def
        cluster_read_stream_def fat_read_stream_def sectors_per_cluster_def ending_sector_pos_def private_root_def
        fat16_get_first_fat_sector_def reserved_sectors_def hidden_setors_def bytes_per_sector_def load32_def load16_def)
  moreover have "page_of x \<in> owned_pages (phys open_kmem)" if "vol_cell demo_volume x \<or> vol_scratch demo_volume x" for x
  proof -
    from that have "x - 0x1000 < 4096 \<or> x - 0x2000 < 4096 \<or> x - 0x3000 < 4096 \<or> x - 0x4000 < 4096 \<or> x - 0x5000 < 4096"
      using near_page [of x _ 0 20] near_page [of x _ 0 92] near_page [of x "0x3000" 4 4] near_page [of x "0x4000" 4 4]
        near_page [of x _ 0 4] near_page [of x _ 0 2]
      by (auto simp: vol_cell_def vol_scratch_def demo_volume_def)
    then show ?thesis
      using open_page [of "0x1000" x] open_page [of "0x2000" x] open_page [of "0x3000" x] open_page [of "0x4000" x]
        open_page [of "0x5000" x] by (auto simp: page_aligned_def)
  qed
  moreover have "108 \<le> x - 0x5200" if "vol_cell demo_volume x" for x
    using that unfolding vol_cell_def demo_volume_def fat_volume.simps not_less [symmetric]
    by (elim disjE) (erule far_apart, simp)+
  ultimately show ?thesis using demo_sep by (simp add: volume_in_use_def open_kmem_def)
qed

lemma load_program: "program_file demo_disk demo_stack demo_volume [2, 5] open_view 1 600 open_kmem"
proof -
  have it: "d_item open_view 1 = 0x9020" by (simp add: d_item_def open_view_def demo_view_def)
  have "the_file (ram open_kmem) open_view 1"
    unfolding the_file_def it using demo_match
    by (simp add: open_view_def d_match_def d_shown_def item_attribute_def open_kmem_def open_ram_def demo_ram_def open_items_def
        longname_item_def nth_append) (simp add: demo_view_def)
  moreover have "fat16_get_first_cluster (ram open_kmem) 0x9020 = of_nat ([2, 5] ! 0)" "item_filesize (ram open_kmem) 0x9020 = 600"
    by (simp_all add: fat16_get_first_cluster_def item_filesize_def load32_def load16_def open_kmem_def open_ram_def open_items_def
        longname_item_def nth_append)
  moreover have "reads_ok demo_volume [2, 5] 0 600 (Suc 0)"
    unfolding reads_ok_Suc
    by (simp add: reads_ok_def read_ok_def chain_covers_def chain_fits_def demo_volume_def cluster_start_def cluster_bytes_def)
  moreover have "stk_name demo_stack = 0x5200" "stk_result demo_stack = v_result demo_volume"
    by (simp_all add: demo_stack_def demo_volume_def)
  ultimately show ?thesis using open_volume demo_chain it by (simp add: program_file_def)
qed

lemma load_places_demo: "load_places load_env 0xC000 demo_volume open_kmem"
  unfolding load_places_def
proof (intro conjI allI impI)
  fix x :: u32 assume "x - pe_stat load_env < 8"
  then have x: "x - 0x5300 < 8" by (simp add: load_env_def)
  have "x - 0x5000 < 4096" using near_page [of x "0x5000" "0x300"] x by simp
  then show "page_of x \<in> owned_pages (phys open_kmem)" by (intro open_page [of "0x5000"]) (simp_all add: page_aligned_def)
  show "\<not> vol_cell demo_volume x" "\<not> vol_scratch demo_volume x"
    unfolding vol_cell_def vol_scratch_def demo_volume_def fat_volume.simps de_Morgan_disj
    by (intro conjI; rule far_apart [OF x]; simp)+
  show "12 \<le> x - (0xC000 + 4212)" unfolding not_less [symmetric] by (rule far_apart [OF x]) simp
next
  fix x :: u32 assume x: "x - (0xC000 + 4212) < 12"
  have "x - 0xD000 < 4096" using near_page [of x "0xD000" "0x74"] x by simp
  then show "page_of x \<in> owned_pages (phys open_kmem)" by (intro open_page [of "0xD000"]) (simp_all add: page_aligned_def)
qed

lemma process_load_binary_correct_witness:
  "\<exists>P y'. process_load_binary load_env 0xA000 0xC000 load_system = Some (1, y') \<and> process_ptr (sram y') 0xC000 = P \<and>
    process_size (sram y') 0xC000 = 600 \<and> read_bytes (sram y') P 600 = map (file_byte demo_disk demo_volume [2, 5]) [0..<600]"
proof -
  have s: "open_kmem = km (mm (sk load_system))" by (simp add: load_system_def)
  have disk: "fat_disk (pe_disk load_env) demo_stack open_view open_kmem" using open_fat_disk by (simp add: load_env_def)
  have fss: "pe_fss load_env (disk_filesystem (ram open_kmem) (pe_disk load_env)) = fat16_fs demo_disk demo_stack []"
    "v_disk demo_volume = pe_disk load_env" by (simp_all add: load_env_def demo_volume_def)
  have inv: "kheap_inv open_kmem"
    "program_pages 600 * (unat (pmm_used_blocks (phys open_kmem)) + 10) + 1 < unat (pmm_system_memory_size (phys open_kmem))"
    using kmem_boot_inv by (simp_all add: open_kmem_def kheap_inv_def program_pages_def)
  have mode: "ram open_kmem (pe_mode_r load_env) = 114" "page_of (pe_mode_r load_env) \<in> owned_pages (phys open_kmem)"
    using open_page [of "0xB000" "0xB000"] by (simp_all add: load_env_def open_kmem_def open_ram_def page_aligned_def)
  have slot: "free_slot (sv load_system) 1" "length (file_descriptors (sv load_system)) = 512"
    by (simp_all add: free_slot_def vfs_boot_def load_system_def)
  obtain P desc s' where r: "process_load_binary load_env 0xA000 0xC000 load_system = Some (1, load_system\<lparr>sk := set_km s' (sk load_system),
      sv := (sv load_system)\<lparr>file_descriptors := (file_descriptors (sv load_system))[1 := desc]\<rparr>\<rparr>)"
    "process_ptr (ram s') 0xC000 = P" "process_size (ram s') 0xC000 = of_nat 600"
    "read_bytes (ram s') P 600 = map (file_byte demo_disk demo_volume [2, 5]) [0..<600]"
    using process_load_binary_correct [OF s disk fss inv open_path mode load_program _ slot load_places_demo] by auto
  show ?thesis
    by (intro exI [of _ P] exI conjI) (rule r(1), use r(2-4) in \<open>simp_all add: set_km_def\<close>)
qed

end
