(* ===== verification/ProcessMap.thy ===== *)
theory ProcessMap imports Process UserMem
begin

text \<open>
  Mapping a program into its address space: \<open>process_map_memory\<close> in terms of the processor's walk. \<open>map_window\<close> says what
  \<open>paging_map_to\<close> does to the addresses a program uses.
\<close>

section \<open>A window\<close>

text \<open>The page updates with their frame: outside the directory's own pages memory stays \<open>m0\<close>.\<close>

interpretation space_frame: address_space "\<lambda>m. paging_get m d" "\<lambda>m. paging_set m d"
  "\<lambda>m. space_ok m d \<and> space_pages m d = S \<and> (\<forall>y. page_of y \<notin> S \<longrightarrow> m y = m0 y)" for d S m0
proof
  fix m v x assume ok: "space_ok m d \<and> space_pages m d = S \<and> (\<forall>y. page_of y \<notin> S \<longrightarrow> m y = m0 y)" and v: "page_aligned v"
  from space_set [OF conjunct1 [OF ok] v, of x] ok show "\<exists>m'. paging_set m d v x = (1, m') \<and>
      (space_ok m' d \<and> space_pages m' d = S \<and> (\<forall>y. page_of y \<notin> S \<longrightarrow> m' y = m0 y)) \<and> paging_get m' d v = x \<and>
      (\<forall>w. page_aligned w \<longrightarrow> w \<noteq> v \<longrightarrow> paging_get m' d w = paging_get m d w)"
    by auto
qed

lemma page_offset_sum: "a = page_of a + (a AND 0xfff)"
  using page_offset [of a] by (metis diff_add_cancel add.commute)

lemma walk_mapped:
  assumes ok: "space_ok m d" and al: "page_aligned v" "page_aligned p"
    and get: "paging_get m d (v + i * 4096) = (p + i * 4096) OR 7" and k: "k = i * 4096 + r" "r < 4096"
  shows "mmu_walk m d (v + k) = Some (p + k)"
proof -
  note page = page_of_split [OF _ k]
  have "page_of ((p + i * 4096) OR 7) = p + i * 4096"
    using mask_page_flags' [of "p + i * 4096" 7] page_aligned_add [OF al(2) page_times] by (simp add: page_of_def)
  moreover have "(p + i * 4096) OR r = p + k"
    using page_split [of "p + k"] page [OF al(2)] by (simp add: page_of_def)
  moreover have "bit ((p + i * 4096) OR 7) 0" by (simp add: bit_simps)
  ultimately show ?thesis using get page [OF al(1)] by (simp add: walk_get [OF ok])
qed

lemma map_window:
  assumes ok: "space_ok m d" and al: "page_aligned v" "page_aligned p" "page_aligned e" and le: "p \<le> e"
  shows "\<exists>m'. paging_map_to m d v p e 7 = (1, m') \<and> space_ok m' d \<and> space_pages m' d = space_pages m d \<and>
    (\<forall>k. unat k < unat e - unat p \<longrightarrow> mmu_walk m' d (v + k) = Some (p + k)) \<and>
    (\<forall>a. unat e - unat p \<le> unat (a - v) \<longrightarrow> mmu_walk m' d a = mmu_walk m d a) \<and>
    (\<forall>y. page_of y \<notin> space_pages m d \<longrightarrow> m' y = m y)"
proof -
  let ?n = "(e - p) div 4096" and ?S = "space_pages m d"
  obtain k l where kl: "unat p = 4096 * k" "unat e = 4096 * l" "l < 1048576" using al by (elim page_alignedE)
  have n: "unat ?n = l - k" "unat e - unat p = 4096 * (l - k)"
    using le kl by (simp_all add: unat_div unat_sub word_le_nat_alt flip: diff_mult_distrib2)
  have "?n \<le> 0x100000" using n(1) kl(3) by (simp add: word_le_nat_alt)
  from space_frame.map_pages_ok [of m d ?S m, OF _ al(1,2) this, of 7] ok obtain m' where
    m': "map_pages (\<lambda>m. paging_set m d) m v p ?n 7 = (1, m')" "space_ok m' d" "space_pages m' d = ?S"
      "\<forall>y. page_of y \<notin> ?S \<longrightarrow> m' y = m y" "\<forall>i < ?n. paging_get m' d (v + i * 4096) = (p + i * 4096) OR 7"
      "\<forall>w. page_aligned w \<longrightarrow> (\<forall>i < ?n. w \<noteq> v + i * 4096) \<longrightarrow> paging_get m' d w = paging_get m d w" by auto
  have idx: "i < ?n \<longleftrightarrow> unat i < l - k" for i using n(1) by (simp add: word_less_nat_alt)
  have "paging_map_to m d v p e 7 = (1, m')"
    using al le m'(1) by (auto simp: paging_map_to_def page_aligned_def map_range_map_pages)
  moreover have "mmu_walk m' d (v + j) = Some (p + j)" if j: "unat j < unat e - unat p" for j
  proof -
    obtain i r where s: "j = i * 4096 + r" "r < 4096" "unat j = unat i * 4096 + unat r" by (rule offset_split)
    then have "unat i < l - k" using j n(2) by linarith
    then show ?thesis using m'(5) idx by (intro walk_mapped [OF m'(2) al(1,2) _ s(1,2)]) blast
  qed
  moreover have "mmu_walk m' d a = mmu_walk m d a" if a: "unat e - unat p \<le> unat (a - v)" for a
  proof -
    have "page_of a \<noteq> v + i * 4096" if i: "i < ?n" for i
    proof
      assume eq: "page_of a = v + i * 4096"
      obtain r where r: "r = a - page_of a" by blast
      then have "r < 4096" using in_page_of by simp
      moreover have av: "a - v = i * 4096 + r" using r eq by simp
      moreover have "unat i < l - k" using i idx by blast
      ultimately have "unat (i * 4096 + r) < 4096 * (l - k)"
        using kl(3) by (simp add: unat_word_ariths word_less_nat_alt)
      then have "unat (a - v) < 4096 * (l - k)" by (simp only: av)
      then show False using a n(2) by simp
    qed
    then have "paging_get m' d (page_of a) = paging_get m d (page_of a)" using m'(6) by simp
    then show ?thesis by (simp add: walk_get [OF m'(2)] walk_get [OF ok])
  qed
  ultimately show ?thesis using m'(2-4) by blast
qed

section \<open>Mapping a process\<close>

text \<open>
  A loaded process at \<open>process\<close>: its task's directory is \<open>d\<close>, its program of \<open>sz\<close> bytes lies at \<open>P\<close> and its stack at \<open>T\<close>; the structures
  the mapping reads are not among the directory's pages.
\<close>

definition process_ready :: "mem \<Rightarrow> u32 \<Rightarrow> u32 \<Rightarrow> u32 \<Rightarrow> u32 \<Rightarrow> u32 \<Rightarrow> bool" where
  "process_ready m process d P sz T \<longleftrightarrow>
     (let task = process_task m process; chunk = task_chunk m task; S = space_pages m d in
      space_ok m d \<and> load32 m chunk = d \<and> process_ptr m process = P \<and> process_size m process = sz \<and>
      process_stack m process = T \<and> page_aligned task \<and> page_aligned chunk \<and> page_aligned P \<and> page_aligned T \<and>
      unat P + unat sz \<le> 0xFFFFF000 \<and> unat T + 0x4000 \<le> 0xFFFFF000 \<and> task \<notin> S \<and> chunk \<notin> S \<and>
      (\<forall>x. x - process < 4224 \<longrightarrow> page_of x \<notin> S))"

lemma ready_cong:
  assumes r: "process_ready m process d P sz T" and s: "space_ok m' d" "space_pages m' d = space_pages m d"
    and f: "\<forall>y. page_of y \<notin> space_pages m d \<longrightarrow> m' y = m y"
  shows "process_ready m' process d P sz T"
proof -
  have w: "load32 m' (process + k) = load32 m (process + k)" if "k \<le> 4220" for k
  proof (rule load32_cong)
    fix j :: u32 assume "j < 4"
    then have "k + j < 4224" using that by unat_arith
    then have "process + k + j - process < 4224" by (simp add: algebra_simps)
    then show "m' (process + k + j) = m (process + k + j)" using r f by (auto simp: process_ready_def Let_def)
  qed
  have a: "load32 m' p = load32 m p" if "page_aligned p" "p \<notin> space_pages m d" for p
  proof (rule load32_cong)
    fix j :: u32 assume "j < 4"
    then have "j < 4096" by unat_arith
    then have "page_of (p + j) = p" by (rule page_of_offset [OF that(1)])
    then show "m' (p + j) = m (p + j)" using f that(2) by simp
  qed
  have t: "process_task m' process = process_task m process" "process_ptr m' process = process_ptr m process"
    "process_size m' process = process_size m process" "process_stack m' process = process_stack m process"
    using w by (simp_all add: process_task_def process_ptr_def process_size_def process_stack_def)
  have "task_chunk m' (process_task m process) = task_chunk m (process_task m process)"
    using r a [of "process_task m process"] by (simp add: process_ready_def Let_def task_chunk_def field_def)
  then show ?thesis using r s t a by (simp add: process_ready_def Let_def)
qed

lemma ready_directory: "process_ready m process d P sz T \<Longrightarrow> process_directory m process = d"
  by (simp add: process_ready_def process_directory_def paging_4gb_chunk_get_directory_def Let_def)

lemma map_stack_ok:
  assumes r: "process_ready m process d P sz T"
  shows "\<exists>m'. process_map_stack process m = m' \<and> process_ready m' process d P sz T \<and> space_pages m' d = space_pages m d \<and>
    (\<forall>k. unat k < 16384 \<longrightarrow> mmu_walk m' d (0x3FB000 + k) = Some (T + k)) \<and>
    (\<forall>a. 16384 \<le> unat (a - 0x3FB000) \<longrightarrow> mmu_walk m' d a = mmu_walk m d a) \<and>
    (\<forall>y. page_of y \<notin> space_pages m d \<longrightarrow> m' y = m y)"
proof -
  have h: "space_ok m d" "page_aligned T" "unat T + 0x4000 \<le> 0xFFFFF000" "process_stack m process = T"
    using r by (auto simp: process_ready_def Let_def)
  have u: "unat (T + 0x4000) = unat T + 0x4000" using h(3) by (simp add: unat_word_ariths)
  have al: "page_aligned (T + 0x4000)" using h(2) page_aligned_add [of T "0x4000"] by (simp add: page_aligned_def)
  then have e: "paging_align_address (T + 0x4000) = T + 0x4000" by (simp add: paging_align_address_def page_aligned_def)
  have "T \<le> T + 0x4000" by (simp add: word_le_nat_alt u)
  from map_window [OF h(1) _ h(2) al this, of "0x3FB000"] obtain m' where
    "paging_map_to m d 0x3FB000 T (T + 0x4000) 7 = (1, m')" and s: "space_ok m' d" "space_pages m' d = space_pages m d"
      "\<forall>y. page_of y \<notin> space_pages m d \<longrightarrow> m' y = m y"
    and w: "\<forall>k. unat k < 16384 \<longrightarrow> mmu_walk m' d (0x3FB000 + k) = Some (T + k)"
      "\<forall>a. 16384 \<le> unat (a - 0x3FB000) \<longrightarrow> mmu_walk m' d a = mmu_walk m d a"
    by (auto simp: u page_aligned_def)
  then have "process_map_stack process m = m'" using h(4) e ready_directory [OF r] by (simp add: process_map_stack_def)
  then show ?thesis using ready_cong [OF r s] s(2,3) w by blast
qed

lemma map_binary_ok:
  assumes r: "process_ready m process d P sz T" and n: "n = (unat P + unat sz + 4095) div 4096 * 4096 - unat P"
  shows "\<exists>m'. snd (paging_map_to m (process_directory m process) 0x400000 (process_ptr m process)
        (paging_align_address (process_ptr m process + process_size m process)) 7) = m' \<and>
    process_ready m' process d P sz T \<and> space_pages m' d = space_pages m d \<and>
    (\<forall>k. unat k < n \<longrightarrow> mmu_walk m' d (0x400000 + k) = Some (P + k)) \<and>
    (\<forall>a. n \<le> unat (a - 0x400000) \<longrightarrow> mmu_walk m' d a = mmu_walk m d a) \<and>
    (\<forall>y. page_of y \<notin> space_pages m d \<longrightarrow> m' y = m y)"
proof -
  have h: "space_ok m d" "page_aligned P" "unat P + unat sz \<le> 0xFFFFF000" "process_ptr m process = P" "process_size m process = sz"
    using r by (auto simp: process_ready_def Let_def)
  let ?e = "paging_align_address (P + sz)"
  have "unat (P + sz) = unat P + unat sz" using h(3) by (simp add: unat_word_ariths)
  moreover have "P + sz \<le> 0xFFFFF000" using h(3) calculation by (simp add: word_le_nat_alt)
  ultimately have e: "unat ?e = (unat P + unat sz + 4095) div 4096 * 4096" using align_address by simp
  then have al: "page_aligned ?e" by (simp add: page_aligned_def word_unat_eq_iff unat_mod)
  have "P \<le> ?e" unfolding word_le_nat_alt e using h(2) by (auto simp: page_aligned_def word_unat_eq_iff unat_mod)
  from map_window [OF h(1) _ h(2) al this, of "0x400000"] obtain m' where
    "paging_map_to m d 0x400000 P ?e 7 = (1, m')" and s: "space_ok m' d" "space_pages m' d = space_pages m d"
      "\<forall>y. page_of y \<notin> space_pages m d \<longrightarrow> m' y = m y"
    and w: "\<forall>k. unat k < n \<longrightarrow> mmu_walk m' d (0x400000 + k) = Some (P + k)"
      "\<forall>a. n \<le> unat (a - 0x400000) \<longrightarrow> mmu_walk m' d a = mmu_walk m d a"
    unfolding e n by (auto simp: page_aligned_def)
  then show ?thesis using h(4,5) ready_directory [OF r] ready_cong [OF r s] s(2,3) w by auto
qed

lemma map_memory_ok:
  assumes "process_ready m process d P sz T" "unat sz \<le> 0xFE000000"
    and "n = (unat P + unat sz + 4095) div 4096 * 4096 - unat P"
  shows "\<exists>m'. process_map_memory process m = (0, m') \<and> process_ready m' process d P sz T \<and> space_pages m' d = space_pages m d \<and>
    (\<forall>k. unat k < n \<longrightarrow> mmu_walk m' d (0x400000 + k) = Some (P + k)) \<and>
    (\<forall>k. unat k < 16384 \<longrightarrow> mmu_walk m' d (0x3FB000 + k) = Some (T + k)) \<and>
    (\<forall>a. n \<le> unat (a - 0x400000) \<and> 16384 \<le> unat (a - 0x3FB000) \<longrightarrow> mmu_walk m' d a = mmu_walk m d a) \<and>
    (\<forall>y. page_of y \<notin> space_pages m d \<longrightarrow> m' y = m y)"
proof -
  from map_binary_ok [OF assms(1,3)] obtain m1 where
    m1: "snd (paging_map_to m (process_directory m process) 0x400000 (process_ptr m process)
        (paging_align_address (process_ptr m process + process_size m process)) 7) = m1"
      "process_ready m1 process d P sz T" "space_pages m1 d = space_pages m d"
      "\<forall>k. unat k < n \<longrightarrow> mmu_walk m1 d (0x400000 + k) = Some (P + k)"
      "\<forall>a. n \<le> unat (a - 0x400000) \<longrightarrow> mmu_walk m1 d a = mmu_walk m d a"
      "\<forall>y. page_of y \<notin> space_pages m d \<longrightarrow> m1 y = m y" by blast
  from map_stack_ok [OF m1(2)] obtain m2 where
    m2: "process_map_stack process m1 = m2" "process_ready m2 process d P sz T" "space_pages m2 d = space_pages m1 d"
      "\<forall>a. 16384 \<le> unat (a - 0x3FB000) \<longrightarrow> mmu_walk m2 d a = mmu_walk m1 d a"
      "\<forall>y. page_of y \<notin> space_pages m1 d \<longrightarrow> m2 y = m1 y" by blast
  from map_stack_ok [OF m2(2)] obtain m3 where
    m3: "process_map_stack process m2 = m3" "process_ready m3 process d P sz T \<and> space_pages m3 d = space_pages m2 d"
      "\<forall>k. unat k < 16384 \<longrightarrow> mmu_walk m3 d (0x3FB000 + k) = Some (T + k)"
      "\<forall>a. 16384 \<le> unat (a - 0x3FB000) \<longrightarrow> mmu_walk m3 d a = mmu_walk m2 d a"
      "\<forall>y. page_of y \<notin> space_pages m2 d \<longrightarrow> m3 y = m2 y" by blast
  have "n \<le> unat sz + 4095" unfolding assms(3) by linarith
  then have n: "n < 0xFF000000" using assms(2) by linarith
  have "16384 \<le> unat (0x400000 + k - 0x3FB000)" if "unat k < n" for k :: u32
  proof -
    have "unat (k + 0x5000) = unat k + 0x5000" using that n by (simp add: unat_word_ariths)
    moreover have "0x400000 + k - 0x3FB000 = k + 0x5000" by simp
    ultimately show ?thesis by (simp only:)
  qed
  then have "\<forall>k. unat k < n \<longrightarrow> mmu_walk m3 d (0x400000 + k) = Some (P + k)" using m1(4) m2(4) m3(4) by metis
  moreover have "process_map_memory process m = (0, m3)"
    using m1(1) m2(1) m3(1) by (simp add: process_map_memory_def process_map_binary_def Let_def)
  moreover have "mmu_walk m3 d a = mmu_walk m d a" if "n \<le> unat (a - 0x400000)" "16384 \<le> unat (a - 0x3FB000)" for a
    using that m1(5) m2(4) m3(4) by metis
  moreover have "m3 y = m y" if "page_of y \<notin> space_pages m d" for y
    using that m1(3,6) m2(3,5) m3(5) by metis
  moreover have "process_ready m3 process d P sz T" "space_pages m3 d = space_pages m d"
    using m1(3) m2(3) m3(2) by simp_all
  ultimately show ?thesis using m3(3) by (intro exI [of _ m3]) simp
qed

text \<open>After the mapping the task can still be removed, and its pages come back.\<close>

lemma mapped_task_free:
  assumes r: "process_ready (kram k) process d P sz T" "unat sz \<le> 0xFE000000" "process_task (kram k) process = t"
    and inv: "kheap_inv (km (mm k))" and list: "task_list k (xs @ t # ys)" and t: "t \<in> single_pages (km (mm k))"
    and space: "task_space (km (mm k)) (task_chunk (kram k) t) K"
    and K: "{0} \<union> set (xs @ t # ys) \<union> (owned_pages (phys (km (mm k))) - single_pages (km (mm k))) \<subseteq> K"
  shows "\<exists>m' k'. process_map_memory process (kram k) = (0, m') \<and> task_free t (set_ram m' k) = (0, k') \<and>
    forward (kram k') (xs @ ys) \<and> kheap_inv (km (mm k')) \<and>
    unat (pmm_free_blocks (phys (km (mm k')))) = 1027 + unat (pmm_free_blocks (phys (km (mm k))))"
proof -
  let ?c = "task_chunk (kram k) t"
  from map_memory_ok [OF r(1,2) refl] obtain m' where m': "process_map_memory process (kram k) = (0, m')"
    "process_ready m' process d P sz T" "space_pages m' d = space_pages (kram k) d"
    "\<forall>y. page_of y \<notin> space_pages (kram k) d \<longrightarrow> m' y = kram k y" by blast
  let ?k = "set_ram m' k"
  have d: "load32 (kram k) ?c = d" "page_aligned t" "t \<notin> space_pages (kram k) d" "?c \<notin> space_pages (kram k) d" "page_aligned ?c"
    using r(1,3) by (auto simp: process_ready_def Let_def)
  have S: "space_pages (kram k) d \<subseteq> owned_pages (phys (km (mm k))) - K"
    using space d(1) by (auto simp: task_space_def space_pages_def)
  have same: "same_page (kram k) m' u" if "page_aligned u" "u \<notin> space_pages (kram k) d" for u
    unfolding same_page_def
  proof (intro allI impI)
    fix x assume "x - u < 4096"
    then have "page_of x = u" using page_of_offset [OF that(1), of "x - u"] by simp
    then show "m' x = kram k x" using m'(4) that(2) by simp
  qed
  have "page_aligned u \<and> u \<notin> space_pages (kram k) d" if "u \<in> set (xs @ t # ys)" for u
    using list that S K by (auto simp: task_list_def forward_def)
  then have list': "task_list ?k (xs @ t # ys)"
    using same by (intro task_list_pages [OF list]) (auto simp: set_ram_def set_km_def)
  have c: "task_chunk (kram ?k) t = ?c" "load32 (kram ?k) ?c = d"
    using same_page_load [OF same [OF d(2,3)], of 0] same_page_load [OF same [OF d(5,4)], of 0] d(1)
    by (simp_all add: task_chunk_def field_def set_ram_def set_km_def)
  have ready: "space_ok m' d" using m'(2) by (simp add: process_ready_def Let_def)
  have "?c \<in> owned_pages (phys (km (mm k))) - K" using space by (auto simp: task_space_def)
  moreover have "space_pages m' d \<subseteq> owned_pages (phys (km (mm k))) - K" "?c \<notin> space_pages m' d" using S d(4) m'(3) by simp_all
  moreover from this(2) have "\<forall>i < 1024. table_of m' d i \<noteq> ?c" unfolding space_pages_def by (metis image_eqI insertCI mem_Collect_eq)
  ultimately have "task_space (km (mm ?k)) (task_chunk (kram ?k) t) K"
    unfolding c(1) task_space_def using c(2) ready
    by (intro exI [of _ d]) (auto simp: space_ok_def space_pages_def set_ram_def set_km_def)
  moreover have "kheap_inv (km (mm ?k))" "t \<in> single_pages (km (mm ?k))"
    using inv t by (simp_all add: kheap_inv_def single_pages_def set_ram_def set_km_def)
  moreover have "{0} \<union> set (xs @ t # ys) \<union> (owned_pages (phys (km (mm ?k))) - single_pages (km (mm ?k))) \<subseteq> K"
    using K by (simp add: single_pages_def set_ram_def set_km_def)
  ultimately obtain k' where "task_free t ?k = (0, k')" "forward (kram k') (xs @ ys)" "kheap_inv (km (mm k'))"
    "unat (pmm_free_blocks (phys (km (mm k')))) = 1027 + unat (pmm_free_blocks (phys (km (mm ?k))))"
    using task_free_result [OF _ list'] by blast
  then show ?thesis using m'(1) by (intro exI [of _ m'] exI [of _ k']) (simp add: set_ram_def set_km_def)
qed

text \<open>C14: Mapping a process into its address space. \<open>process_map_memory\<close> returns 0, and then the processor's walk of the task's directory takes
  the addresses from \<open>0x400000\<close> on to the program, up to the end of its last page, and the 16 KiB below \<open>0x3FF000\<close> to its stack; every other address is
  translated as before, and no byte outside the directory and its tables changes.\<close>

theorem process_map_memory_correct:
  assumes "process_ready m process d P sz T" "unat sz \<le> 0xFE000000"
    and "n = (unat P + unat sz + 4095) div 4096 * 4096 - unat P"
  shows "\<exists>m'. process_map_memory process m = (0, m') \<and>
    (\<forall>k. unat k < n \<longrightarrow> mmu_walk m' d (0x400000 + k) = Some (P + k)) \<and>
    (\<forall>k. unat k < 16384 \<longrightarrow> mmu_walk m' d (0x3FB000 + k) = Some (T + k)) \<and>
    (\<forall>a. n \<le> unat (a - 0x400000) \<and> 16384 \<le> unat (a - 0x3FB000) \<longrightarrow> mmu_walk m' d a = mmu_walk m d a) \<and>
    (\<forall>y. page_of y \<notin> space_pages m d \<longrightarrow> m' y = m y)"
  using map_memory_ok [OF assms] by blast

text \<open>The third task with a process structure at \<open>0xC000\<close>: a program of 5000 bytes at \<open>0x500000\<close> and a stack at \<open>0x600000\<close>.\<close>

definition mapped_ram :: "u32 \<Rightarrow> mem \<Rightarrow> mem" where
  "mapped_ram t m = store32 (store32 (store32 (store32 m (0xC000 + 112) t) (0xD000 + 0x74) 0x500000) (0xD000 + 0x78) 0x600000)
     (0xD000 + 0x7C) 5000"

lemma process_map_memory_correct_witness:
  "\<exists>t k m' d. task_new 5 two_tasks = (t, k) \<and> process_map_memory 0xC000 (mapped_ram t (kram k)) = (0, m') \<and>
    mmu_walk m' d 0x400000 = Some 0x500000 \<and> mmu_walk m' d 0x401FFF = Some 0x501FFF \<and> mmu_walk m' d 0x3FEFFC = Some 0x603FFC"
proof -
  obtain t k d where k: "task_new 5 two_tasks = (t, k)" "task_in_use k t d" "space_pages (kram k) d \<inter> owned_pages pmm_boot = {}"
    "page_aligned t" "t \<notin> owned_pages pmm_boot" "t \<notin> space_pages (kram k) d"
    "task_chunk (kram k) t \<notin> insert t (space_pages (kram k) d) \<union> owned_pages pmm_boot"
    using three_tasks by blast
  let ?m = "mapped_ram t (kram k)" and ?c = "task_chunk (kram k) t"
  have boot: "page_of x \<in> owned_pages pmm_boot" if "x - 0xC000 < 4096 \<or> x - 0xD000 < 4096" for x
    using that boot_page_of [of "0xC000" "x - 0xC000"] boot_page_of [of "0xD000" "x - 0xD000"] by (auto simp: page_aligned_def)
  have CD: "0xC000 \<in> owned_pages pmm_boot" "0xD000 \<in> owned_pages pmm_boot"
    using boot [of "0xC000"] boot [of "0xD000"] by (simp_all add: page_of_def)
  have far: "?m x = kram k x" if "page_of x \<noteq> 0xC000" "page_of x \<noteq> 0xD000" for x
  proof -
    have al: "page_aligned 0xC000" "page_aligned 0xD000" by (simp_all add: page_aligned_def)
    show ?thesis unfolding mapped_ram_def
      using store32_page [OF al(1) _ that(1), of 112] store32_page [OF al(2) _ that(2), of "0x74"]
        store32_page [OF al(2) _ that(2), of "0x78"] store32_page [OF al(2) _ that(2), of "0x7C"] by simp
  qed
  have s: "space_ok (kram k) d" "load32 (kram k) ?c = d" "page_aligned ?c" using k(2) by (auto simp: task_in_use_def)
  have page: "load32 ?m u = load32 (kram k) u" "same_page (kram k) ?m u" if "page_aligned u" "u \<notin> owned_pages pmm_boot" for u
  proof -
    have x: "?m x = kram k x" if "x - u < 4096" for x
    proof -
      have "page_of x = u" by (rule page_of_in [OF \<open>page_aligned u\<close> that])
      then show ?thesis using far CD \<open>u \<notin> _\<close> by metis
    qed
    then show "same_page (kram k) ?m u" by (simp add: same_page_def)
    from same_page_load [OF this, of 0] show "load32 ?m u = load32 (kram k) u" by (simp add: field_def)
  qed
  have "same_page (kram k) ?m u" if "u \<in> space_pages (kram k) d" for u
    using page(2) [OF space_pages_aligned [OF s(1) that]] that k(3) by blast
  note sp = space_cong(1,2) [OF s(1) this]
  have f: "process_task ?m 0xC000 = t" "process_ptr ?m 0xC000 = 0x500000" "process_size ?m 0xC000 = 5000" "process_stack ?m 0xC000 = 0x600000"
    by (simp_all add: process_task_def process_ptr_def process_size_def process_stack_def mapped_ram_def load32_store32_apart apart_def)
  have c: "task_chunk ?m t = ?c" "load32 ?m ?c = d"
    using page(1) [OF k(4,5)] page(1) [OF s(3)] k(7) s(2) by (simp_all add: task_chunk_def field_def)
  have proc: "page_of x \<notin> space_pages (kram k) d" if "x - 0xC000 < 4224" for x
  proof -
    obtain z where z: "z = x - 0xC000" by blast
    then have "x - 0xD000 = z - 4096" by simp
    moreover have "z < 4096 \<or> z - 4096 < 4096" using that unfolding z [symmetric] by unat_arith
    ultimately have "x - 0xC000 < 4096 \<or> x - 0xD000 < 4096" using z by metis
    then show ?thesis using boot k(3) by blast
  qed
  have "process_ready ?m 0xC000 d 0x500000 5000 0x600000"
    unfolding process_ready_def Let_def f c using sp k(4,6,7) s(3) proc by (simp add: page_aligned_def)
  from process_map_memory_correct [OF this _ refl] obtain m' where m': "process_map_memory 0xC000 ?m = (0, m')"
    "\<forall>k. unat k < 8192 \<longrightarrow> mmu_walk m' d (0x400000 + k) = Some (0x500000 + k)"
    "\<forall>k. unat k < 16384 \<longrightarrow> mmu_walk m' d (0x3FB000 + k) = Some (0x600000 + k)" by auto
  have "mmu_walk m' d 0x400000 = Some 0x500000" "mmu_walk m' d 0x401FFF = Some 0x501FFF" "mmu_walk m' d 0x3FEFFC = Some 0x603FFC"
    using m'(2) [rule_format, of 0] m'(2) [rule_format, of "0x1FFF"] m'(3) [rule_format, of "0x3FFC"] by simp_all
  then show ?thesis using k(1) m'(1) by blast
qed

end
