(* ===== verification/ProcessStart.thy ===== *)
theory ProcessStart imports ProcessLoad ProcessMap
begin

text \<open>
  Starting a program, \<open>process_load\<close> of \<open>src/src/task/process.c\<close>: the process structure, the program and the stack are
  allocated, the task is created, and both regions are mapped into its address space. What the task sees of its
  memory is the file on the disk and a stack of zeros.
\<close>

section \<open>What loading relies on\<close>

text \<open>The bytes that loading scribbles on: the name buffer, the stream positions and scratch word of the volume, and the
  loader's \<open>struct file_stat\<close>; and the cells it reads: the directory, the structures of the volume and the mode string.\<close>

definition load_noise :: "proc_env \<Rightarrow> fat_stack \<Rightarrow> fat_volume \<Rightarrow> u32 \<Rightarrow> bool" where
  "load_noise env stk v x \<longleftrightarrow> x - stk_name stk < 108 \<or> vol_scratch v x \<or> x - pe_stat env < 8"

definition load_cell :: "proc_env \<Rightarrow> fat_volume \<Rightarrow> dir_view \<Rightarrow> u32 \<Rightarrow> bool" where
  "load_cell env v d x \<longleftrightarrow> x = pe_mode_r env \<or> table_cell d x \<or> vol_cell v x"

definition loader_ready ::
    "proc_env \<Rightarrow> (u32 \<Rightarrow> u8 list) \<Rightarrow> fat_stack \<Rightarrow> u8 list \<Rightarrow> fat_volume \<Rightarrow> dir_view \<Rightarrow> kmem \<Rightarrow> bool" where
  "loader_ready env img stk digits v d s \<longleftrightarrow> fat_disk (pe_disk env) stk d s \<and>
     pe_fss env (disk_filesystem (ram s) (pe_disk env)) = fat16_fs img stk digits \<and> v_disk v = pe_disk env \<and>
     volume_in_use v (stk_name stk) s \<and> ram s (pe_mode_r env) = 114 \<and>
     (\<forall>x. load_noise env stk v x \<or> load_cell env v d x \<longrightarrow> page_of x \<in> owned_pages (phys s)) \<and>
     (\<forall>x. load_noise env stk v x \<longrightarrow> \<not> load_cell env v d x) \<and>
     (\<forall>x. x - pe_stat env < 8 \<longrightarrow> \<not> vol_scratch v x)"

lemma disk_cells:
  assumes "v_disk v = pe_disk env" "k \<le> 16" "j < 4" shows "load_cell env v d (pe_disk env + k + j)"
proof -
  have "k + j < 20" using assms(2,3) by unat_arith
  then show ?thesis using assms(1) by (simp add: load_cell_def vol_cell_def algebra_simps)
qed

lemma loader_ready_cong:
  assumes r: "loader_ready env img stk digits v d s" and own: "owned_pages (phys s) \<subseteq> owned_pages (phys s')"
    and same: "\<And>x. load_cell env v d x \<Longrightarrow> ram s' x = ram s x"
  shows "loader_ready env img stk digits v d s'"
proof -
  have vd: "v_disk v = pe_disk env" using r by (simp add: loader_ready_def)
  have l: "load32 (ram s') (pe_disk env + k) = load32 (ram s) (pe_disk env + k)" if "k \<le> 16" for k
    by (rule load32_cong) (rule same [OF disk_cells [OF vd that]])
  have w: "disk_filesystem (ram s') (pe_disk env) = disk_filesystem (ram s) (pe_disk env)"
    "disk_fs_private (ram s') (pe_disk env) = disk_fs_private (ram s) (pe_disk env)"
    using l [of 12] l [of 16] by (simp_all add: disk_filesystem_def disk_fs_private_def)
  have "dir_table (ram s') d"
    by (rule dir_table_cong [of "ram s"]) (use r same in \<open>auto simp: loader_ready_def fat_disk_def load_cell_def\<close>)
  then have "fat_disk (pe_disk env) stk d s'"
    using r own w by (auto simp: loader_ready_def fat_disk_def safe_word_def region_in_use_def)
  moreover have "volume_at (ram s') v"
    by (rule volume_cong [of "ram s"]) (use r same in \<open>auto simp: loader_ready_def volume_in_use_def load_cell_def\<close>)
  then have "volume_in_use v (stk_name stk) s'" using r own by (auto simp: loader_ready_def volume_in_use_def)
  moreover have "ram s' (pe_mode_r env) = 114" using r same by (simp add: loader_ready_def load_cell_def)
  ultimately show ?thesis using r own w by (auto simp: loader_ready_def)
qed

lemma loader_ready_mode: "loader_ready env img stk digits v d s \<Longrightarrow> page_of (pe_mode_r env) \<in> owned_pages (phys s)"
  by (auto simp: loader_ready_def load_cell_def)

lemma program_file_cong:
  assumes p: "program_file img stk v cs d j len s" and r: "loader_ready env img' stk digits v d s'"
    and same: "\<And>x. load_cell env v d x \<Longrightarrow> ram s' x = ram s x"
  shows "program_file img stk v cs d j len s'"
proof -
  have j: "j < length (d_names d)" using p by (simp add: program_file_def the_file_def)
  have i: "ram s' (d_item d j + of_nat k) = ram s (d_item d j + of_nat k)" if "k < 32" for k
  proof (rule same)
    have "of_nat k < (32 :: u32)" using that by (simp add: word_less_nat_alt unat_of_nat_u32)
    then show "load_cell env v d (d_item d j + of_nat k)" using j by (auto simp: load_cell_def table_cell_def)
  qed
  then have "read_bytes (ram s') (d_item d j) 32 = read_bytes (ram s) (d_item d j) 32" by (simp add: read_bytes_def)
  note w = item_words [OF this]
  have "item_attribute (ram s') (d_item d j) = item_attribute (ram s) (d_item d j)" using i [of 11] by (simp add: item_attribute_def)
  then show ?thesis using p r w by (simp add: program_file_def loader_ready_def the_file_def)
qed

section \<open>Structure, program and stack\<close>

text \<open>
  What lies in fresh memory before the task exists: the process structure at \<open>proc\<close>, the program at \<open>P\<close> with its \<open>bs\<close>
  bytes, and the zeroed stack at \<open>T\<close>, on pages that do not overlap.
\<close>

definition fresh_region :: "kmem \<Rightarrow> kmem \<Rightarrow> u32 \<Rightarrow> u32 \<Rightarrow> bool" where
  "fresh_region s s' p n \<longleftrightarrow> p \<noteq> 0 \<and> page_aligned p \<and>
     (\<forall>x. x - p < n \<longrightarrow> page_of x \<in> owned_pages (phys s') - owned_pages (phys s))"

definition loaded :: "kmem \<Rightarrow> kmem \<Rightarrow> u32 \<Rightarrow> u32 \<Rightarrow> u32 \<Rightarrow> u8 list \<Rightarrow> bool" where
  "loaded s s' proc P T bs \<longleftrightarrow> fresh_region s s' proc 4224 \<and> fresh_region s s' P (of_nat (length bs)) \<and> fresh_region s s' T 0x4000 \<and>
     (\<forall>x. x - proc < 4224 \<longrightarrow> \<not> x - P < of_nat (length bs) \<and> \<not> x - T < 0x4000) \<and>
     (\<forall>x. x - P < of_nat (length bs) \<longrightarrow> \<not> x - T < 0x4000) \<and>
     length bs < 2147483648 \<and> unat P + length bs \<le> 0xFFFFF000 \<and> unat T + 0x4000 \<le> 0xFFFFF000 \<and>
     process_ptr (ram s') proc = P \<and> process_size (ram s') proc = of_nat (length bs) \<and>
     read_bytes (ram s') P (length bs) = bs \<and> (\<forall>x. x - T < 0x4000 \<longrightarrow> ram s' x = 0)"

text \<open>From \<open>s\<close> to \<open>s'\<close> only noise has changed in the pages in use.\<close>

definition quiet :: "proc_env \<Rightarrow> fat_stack \<Rightarrow> fat_volume \<Rightarrow> kmem \<Rightarrow> kmem \<Rightarrow> bool" where
  "quiet env stk v s s' \<longleftrightarrow> owned_pages (phys s) \<subseteq> owned_pages (phys s') \<and>
     pmm_system_memory_size (phys s') = pmm_system_memory_size (phys s) \<and>
     (\<forall>x. page_of x \<in> owned_pages (phys s) \<and> \<not> load_noise env stk v x \<longrightarrow> ram s' x = ram s x)"

lemma few_blocks:
  assumes "pmm_inv p" "N * (unat (pmm_used_blocks p) + K) + 1 < unat (pmm_system_memory_size p)"
    and "pmm_inv p'" "pmm_system_memory_size p' = pmm_system_memory_size p" "unat (pmm_free_blocks p) = k + unat (pmm_free_blocks p')"
    and "n \<le> N" "k + i \<le> K"
  shows "n * (unat (pmm_used_blocks p') + i) + 1 < unat (pmm_system_memory_size p')"
proof -
  have "unat (pmm_used_blocks p') = unat (pmm_used_blocks p) + k" using assms(1,3,4,5) by (simp add: pmm_inv_def)
  then have "n * (unat (pmm_used_blocks p') + i) \<le> N * (unat (pmm_used_blocks p) + K)" using assms(6,7) by (intro mult_le_mono) auto
  then show ?thesis using assms(2,4) by simp
qed

lemma small_offset: "i < n \<Longrightarrow> n < 2147483648 \<Longrightarrow> (of_nat i :: u32) < of_nat n"
  by (simp add: word_less_nat_alt unat_of_nat_u32)

lemma fresh_regionI:
  assumes "p \<noteq> 0" "page_aligned p" "\<forall>i < n. page_of (p + i) \<in> owned_pages (phys s') - owned_pages (phys s)"
  shows "fresh_region s s' p n"
  using assms unfolding fresh_region_def by (metis add_diff_cancel_left' diff_add_cancel add.commute)

lemma fresh_region_page: "fresh_region s s' p n \<Longrightarrow> x - p < n \<Longrightarrow> page_of x \<in> owned_pages (phys s') - owned_pages (phys s)"
  by (simp add: fresh_region_def)

text \<open>The process structure, cleared.\<close>

lemma new_process_ok:
  assumes ready: "loader_ready env img stk digits v d s" and inv: "kheap_inv s"
    and few: "2 * unat (pmm_used_blocks (phys s)) + 1 < unat (pmm_system_memory_size (phys s))"
  shows "\<exists>proc s1. kzalloc 4224 s = (proc, s1) \<and> fresh_region s s1 proc 4224 \<and> keeps s (s1\<lparr>ram := process_init proc (ram s1)\<rparr>) \<and>
    loader_ready env img stk digits v d (s1\<lparr>ram := process_init proc (ram s1)\<rparr>) \<and>
    load_places env proc v (s1\<lparr>ram := process_init proc (ram s1)\<rparr>) \<and> kheap_inv (s1\<lparr>ram := process_init proc (ram s1)\<rparr>) \<and>
    unat (pmm_free_blocks (phys s)) = 2 + unat (pmm_free_blocks (phys s1))"
proof -
  let ?O = "owned_pages (phys s)"
  have bl: "unat (blocks_for 4224) = 2" by (simp add: unat_blocks_for)
  from kzalloc_run [OF inv, of 4224] few obtain proc s1 where
    a: "kzalloc 4224 s = (proc, s1)" "proc \<noteq> 0" "page_aligned proc" "keeps s s1"
      "\<forall>i < 4224. page_of (proc + i) \<in> owned_pages (phys s1) - ?O" "kheap_inv s1"
      "unat (pmm_free_blocks (phys s)) = 2 + unat (pmm_free_blocks (phys s1))" by (auto simp: bl)
  have fresh: "fresh_region s s1 proc 4224" using a(2,3,5) by (rule fresh_regionI)
  note pin = fresh_region_page [OF this]
  let ?s1 = "s1\<lparr>ram := process_init proc (ram s1)\<rparr>"
  have k1: "keeps s ?s1"
    unfolding keeps_def
  proof (intro conjI allI impI)
    fix x assume x: "page_of x \<in> ?O"
    then have "\<not> x - proc < 4224" using pin by blast
    then show "ram ?s1 x = ram s x" using a(4) x by (simp add: process_init_def memset_apply keeps_def)
  qed (use a(4) in \<open>auto simp: keeps_def\<close>)
  have o1: "?O \<subseteq> owned_pages (phys ?s1)" and same1: "\<And>x. page_of x \<in> ?O \<Longrightarrow> ram ?s1 x = ram s x"
    using k1 unfolding keeps_def by blast+
  have cell: "page_of x \<in> ?O" if "load_cell env v d x \<or> load_noise env stk v x" for x
    using ready that by (auto simp: loader_ready_def)
  have "ram ?s1 x = ram s x" if "load_cell env v d x" for x using same1 cell that by blast
  with ready o1 have ready1: "loader_ready env img stk digits v d ?s1" by (rule loader_ready_cong)
  have near: "x - proc < 4224" if "x - (proc + 4212) < 12" for x using near_within [OF that, of 4224] by simp
  have "load_places env proc v ?s1"
    unfolding load_places_def
  proof (intro conjI allI impI)
    fix x assume x: "x - pe_stat env < 8"
    then have n: "load_noise env stk v x" by (simp add: load_noise_def)
    show "page_of x \<in> owned_pages (phys ?s1)" using cell [of x] n o1 by blast
    show "\<not> vol_cell v x" "\<not> vol_scratch v x" using ready n x by (auto simp: loader_ready_def load_cell_def)
    show "12 \<le> x - (proc + 4212)" using pin near cell [of x] n unfolding not_less [symmetric] by blast
  qed (use pin near in simp)
  moreover have "kheap_inv ?s1" using a(6) by (simp add: kheap_inv_def)
  ultimately show ?thesis using a(1,7) fresh k1 ready1 by blast
qed

text \<open>The program: \<open>process_load_binary\<close> into the cleared structure.\<close>

lemma process_word:
  assumes "\<And>x. x - proc < 4224 \<Longrightarrow> m' x = m x" and "k \<le> 4220"
  shows "load32 m' (proc + k) = load32 m (proc + k)"
proof (rule load32_cong)
  fix j :: u32 assume "j < 4"
  then show "m' (proc + k + j) = m (proc + k + j)"
    using assms near_within [of "proc + k + j" proc k 4 4224] by (simp add: word_le_nat_alt)
qed

lemma program_read:
  assumes s: "s = km (mm (sk y))" and ready: "loader_ready env img stk digits v d s" and inv: "kheap_inv s"
    and room: "program_pages len * (unat (pmm_used_blocks (phys s)) + 12) + 1 < unat (pmm_system_memory_size (phys s))" and s': "s' = s1\<lparr>ram := process_init proc (ram s1)\<rparr>"
    and a: "fresh_region s s1 proc 4224" "keeps s s'" "loader_ready env img stk digits v d s'" "load_places env proc v s'"
      "kheap_inv s'" "unat (pmm_free_blocks (phys s)) = 2 + unat (pmm_free_blocks (phys s1))"
    and path: "cstring (ram s) path bs" "region_in_use s path (Suc (length bs))" "root_file_path bs (d_wanted d)"
    and prog: "program_file img stk v cs d j len s" "0 < len"
    and slot: "free_slot (sv y) i" "length (file_descriptors (sv y)) = 512"
  shows "\<exists>P desc s2. process_load_binary env path proc (sys_ram (process_init proc (ram s1)) (sys_mem s1 y)) =
      Some (1, y\<lparr>sk := set_km s2 (sk y), sv := (sv y)\<lparr>file_descriptors := (file_descriptors (sv y))[i := desc]\<rparr>\<rparr>) \<and> desc \<noteq> 0 \<and>
    process_ptr (ram s2) proc = P \<and> process_size (ram s2) proc = of_nat len \<and> P \<noteq> 0 \<and> page_aligned P \<and>
    (\<forall>i < of_nat len. page_of (P + i) \<in> owned_pages (phys s2) - owned_pages (phys s1)) \<and>
    (pmm_system_memory_size (phys s) < 0x100000 \<longrightarrow> unat P + len \<le> 0xFFFFF000) \<and> read_bytes (ram s2) P len = map (file_byte img v cs) [0..<len] \<and>
    kheap_inv s2 \<and> owned_pages (phys s1) \<subseteq> owned_pages (phys s2) \<and> quiet env stk v s s2 \<and>
    unat (pmm_free_blocks (phys s)) = 12 + program_pages len + unat (pmm_free_blocks (phys s2))"
proof -
  let ?O = "owned_pages (phys s)" and ?y = "sys_ram (process_init proc (ram s1)) (sys_mem s1 y)"
  have y: "s' = km (mm (sk ?y))" "sv ?y = sv y" "?y = y\<lparr>sk := set_km s' (sk y)\<rparr>" "phys s' = phys s1"
    by (simp_all add: s' sys_ram_def sys_mem_def set_ram_def set_km_def)
  have o1: "?O \<subseteq> owned_pages (phys s')" and same1: "\<And>x. page_of x \<in> ?O \<Longrightarrow> ram s' x = ram s x"
    using a(2) unfolding keeps_def by blast+
  have "page_of x \<in> ?O" if "load_cell env v d x" for x using ready that by (auto simp: loader_ready_def)
  then have "ram s' x = ram s x" if "load_cell env v d x" for x using same1 that by blast
  note prog1 = program_file_cong [OF prog(1) a(3) this]
  have ready1: "fat_disk (pe_disk env) stk d s'" "pe_fss env (disk_filesystem (ram s') (pe_disk env)) = fat16_fs img stk digits"
    "v_disk v = pe_disk env" "ram s' (pe_mode_r env) = 114"
    using a(3) by (simp_all only: loader_ready_def)
  have size1: "pmm_system_memory_size (phys s') = pmm_system_memory_size (phys s)" using a(2) by (simp add: keeps_def)
  have p: "pmm_inv (phys s)" "pmm_inv (phys s')" using inv a(5) by (simp_all add: kheap_inv_def)
  have room1: "program_pages len * (unat (pmm_used_blocks (phys s')) + 10) + 1 < unat (pmm_system_memory_size (phys s'))"
    by (rule few_blocks [OF p(1) room p(2) size1, of 2]) (simp_all add: a(6) y(4))
  from load_binary_ok [OF y(1) ready1(1-3) a(5) room1 keeps_cstring [OF a(2) path(2,1)] region_keeps [OF path(2) a(2)] path(3)
      ready1(4) loader_ready_mode [OF a(3)] prog1 prog(2) slot [folded y(2)] a(4)] obtain P desc s2 where
    b: "process_load_binary env path proc ?y = Some (1, ?y\<lparr>sk := set_km s2 (sk ?y),
        sv := (sv ?y)\<lparr>file_descriptors := (file_descriptors (sv ?y))[i := desc]\<rparr>\<rparr>)"
      "desc \<noteq> 0 \<and> process_ptr (ram s2) proc = P" "process_size (ram s2) proc = of_nat len" "P \<noteq> 0" "page_aligned P"
      "(\<forall>i < of_nat len. page_of (P + i) \<in> owned_pages (phys s2) - owned_pages (phys s')) \<and>
        (pmm_system_memory_size (phys s') < 0x100000 \<longrightarrow> unat P + len \<le> 0xFFFFF000)"
      "read_bytes (ram s2) P len = map (file_byte img v cs) [0..<len]" "kheap_inv s2"
      "owned_pages (phys s') \<subseteq> owned_pages (phys s2)" "pmm_system_memory_size (phys s2) = pmm_system_memory_size (phys s')"
      "unat (pmm_free_blocks (phys s')) = 10 + program_pages len + unat (pmm_free_blocks (phys s2))"
      "\<forall>x. page_of x \<in> owned_pages (phys s') \<and> 108 \<le> x - stk_name stk \<and> \<not> vol_scratch v x \<and> 8 \<le> x - pe_stat env \<and>
        12 \<le> x - (proc + 4212) \<longrightarrow> ram s2 x = ram s' x" by blast
  have "quiet env stk v s s2"
    unfolding quiet_def
  proof (intro conjI allI impI)
    fix x assume x: "page_of x \<in> ?O \<and> \<not> load_noise env stk v x"
    have "\<not> x - proc < 4224" using x fresh_region_page [OF a(1)] by blast
    then have "\<not> x - (proc + 4212) < 12" using near_within [of x proc 4212 12 4224] by auto
    then show "ram s2 x = ram s x" using x b(12) o1 same1 by (auto simp: load_noise_def)
  qed (use o1 b(9,10) a(2) in \<open>auto simp: keeps_def\<close>)
  moreover have "process_load_binary env path proc ?y = Some (1, y\<lparr>sk := set_km s2 (sk y),
        sv := (sv y)\<lparr>file_descriptors := (file_descriptors (sv y))[i := desc]\<rparr>\<rparr>)"
    using b(1) by (simp add: sys_ram_def sys_mem_def set_ram_def set_km_def)
  moreover have "unat (pmm_free_blocks (phys s)) = 12 + program_pages len + unat (pmm_free_blocks (phys s2))" using a(6) b(11) y(4) by simp
  ultimately show ?thesis using b(2-9) unfolding y(4) size1 [unfolded y(4)] by blast
qed

text \<open>The stack, on a run of four pages.\<close>

lemma stack_added:
  assumes inv: "kheap_inv s2" and few: "4 * unat (pmm_used_blocks (phys s2)) + 1 < unat (pmm_system_memory_size (phys s2))"
    and q: "quiet env stk v s s2"
    and a: "fresh_region s s1 proc 4224" "owned_pages (phys s) \<subseteq> owned_pages (phys s1)" "owned_pages (phys s1) \<subseteq> owned_pages (phys s2)"
    and b: "process_ptr (ram s2) proc = P" "process_size (ram s2) proc = of_nat (length bs)" "P \<noteq> 0" "page_aligned P"
      "\<forall>i < of_nat (length bs). page_of (P + i) \<in> owned_pages (phys s2) - owned_pages (phys s1)" "read_bytes (ram s2) P (length bs) = bs"
      "length bs < 2147483648" "unat P + length bs \<le> 0xFFFFF000"
  shows "\<exists>T s3. kzalloc USER_PROGRAM_STACK_SIZE s2 = (T, s3) \<and> T \<noteq> 0 \<and> loaded s s3 proc P T bs \<and> quiet env stk v s s3 \<and>
    kheap_inv s3 \<and> unat (pmm_free_blocks (phys s2)) = 4 + unat (pmm_free_blocks (phys s3))"
proof -
  have bl: "unat (blocks_for 0x4000) = 4" by (simp add: unat_blocks_for)
  from kzalloc_run [OF inv, of "0x4000"] few obtain T s3 where
    c: "kzalloc 0x4000 s2 = (T, s3)" "T \<noteq> 0" "page_aligned T" "unat T + 0x4000 \<le> 0xFFFFF000" "keeps s2 s3"
      "\<forall>i < 0x4000. page_of (T + i) \<in> owned_pages (phys s3) - owned_pages (phys s2)" "ram s3 = memset (ram s2) T 0 0x4000"
      "kheap_inv s3" "unat (pmm_free_blocks (phys s2)) = 4 + unat (pmm_free_blocks (phys s3))" by (auto simp: bl)
  have T: "fresh_region s2 s3 T 0x4000" using c(2,3,6) by (rule fresh_regionI)
  note pin = fresh_region_page [OF a(1)] and Tin = fresh_region_page [OF T]
  have P: "fresh_region s1 s2 P (of_nat (length bs))" using b(3-5) by (rule fresh_regionI)
  note Pin = fresh_region_page [OF this]
  have o2: "owned_pages (phys s2) \<subseteq> owned_pages (phys s3)" and same3: "\<And>x. page_of x \<in> owned_pages (phys s2) \<Longrightarrow> ram s3 x = ram s2 x"
    using c(5) unfolding keeps_def by blast+
  have "ram s3 x = ram s2 x" if "x - proc < 4224" for x using pin [OF that] a(3) same3 by blast
  note word = process_word [of proc "ram s3" "ram s2", OF this]
  have "read_bytes (ram s3) P (length bs) = bs"
  proof -
    have "ram s3 (P + of_nat k) = ram s2 (P + of_nat k)" if "k < length bs" for k
      using Pin [of "P + of_nat k"] small_offset [OF that b(7)] by (intro same3) simp
    then have "read_bytes (ram s3) P (length bs) = read_bytes (ram s2) P (length bs)" by (simp add: read_bytes_def)
    then show ?thesis using b(6) by simp
  qed
  moreover have "fresh_region s s3 proc 4224" using a o2 by (auto simp: fresh_region_def)
  moreover have "fresh_region s s3 P (of_nat (length bs))" using P a o2 by (auto simp: fresh_region_def)
  moreover have "fresh_region s s3 T 0x4000" using T a by (auto simp: fresh_region_def)
  moreover have "\<not> x - P < of_nat (length bs) \<and> \<not> x - T < 0x4000" if "x - proc < 4224" for x
    using pin [OF that] Pin Tin a by blast
  moreover have "\<not> x - T < 0x4000" if "x - P < of_nat (length bs)" for x using Pin [OF that] Tin [of x] by blast
  moreover have "ram s3 x = 0" if "x - T < 0x4000" for x using that c(7) by (simp add: memset_apply)
  ultimately have "loaded s s3 proc P T bs"
    using word [of 4212] word [of 4220] b(1,2,7,8) c(4) by (simp add: loaded_def process_ptr_def process_size_def)
  moreover have "quiet env stk v s s3"
    using q c(5) o2 same3 unfolding quiet_def keeps_def by (metis subsetD subset_trans)
  ultimately show ?thesis using c(1,2,8,9) by auto
qed

text \<open>The two regions and the program between them.\<close>

lemma load_ok:
  assumes s: "s = km (mm (sk y))" and ready: "loader_ready env img stk digits v d s" and inv: "kheap_inv s"
    and room: "pmm_system_memory_size (phys s) < 0x100000" "max 4 (program_pages len) * (unat (pmm_used_blocks (phys s)) +
        (12 + program_pages len)) + 1 < unat (pmm_system_memory_size (phys s))"
    and path: "cstring (ram s) path bs" "region_in_use s path (Suc (length bs))" "root_file_path bs (d_wanted d)"
    and prog: "program_file img stk v cs d j len s" "0 < len"
    and slot: "free_slot (sv y) i" "length (file_descriptors (sv y)) = 512"
  shows "\<exists>proc s1 P desc s2 T s3. kzalloc 4224 s = (proc, s1) \<and> proc \<noteq> 0 \<and>
    process_load_binary env path proc (sys_ram (process_init proc (ram s1)) (sys_mem s1 y)) = Some (1, y\<lparr>sk := set_km s2 (sk y),
        sv := (sv y)\<lparr>file_descriptors := (file_descriptors (sv y))[i := desc]\<rparr>\<rparr>) \<and>
    kzalloc USER_PROGRAM_STACK_SIZE s2 = (T, s3) \<and> T \<noteq> 0 \<and> loaded s s3 proc P T (map (file_byte img v cs) [0..<len]) \<and>
    desc \<noteq> 0 \<and> quiet env stk v s s3 \<and> kheap_inv s3 \<and>
    unat (pmm_free_blocks (phys s)) = 16 + program_pages len + unat (pmm_free_blocks (phys s3))"
proof -
  let ?bs = "map (file_byte img v cs) [0..<len]"
  have p: "pmm_inv (phys s)" using inv by (simp add: kheap_inv_def)
  have "2 * (unat (pmm_used_blocks (phys s)) + 0) + 1 < unat (pmm_system_memory_size (phys s))"
    by (rule few_blocks [OF p room(2) p refl, of 0]) simp_all
  then have "2 * unat (pmm_used_blocks (phys s)) + 1 < unat (pmm_system_memory_size (phys s))" by simp
  from new_process_ok [OF ready inv this] obtain proc s1 where
    a: "kzalloc 4224 s = (proc, s1)" "fresh_region s s1 proc 4224" "keeps s (s1\<lparr>ram := process_init proc (ram s1)\<rparr>)"
      "loader_ready env img stk digits v d (s1\<lparr>ram := process_init proc (ram s1)\<rparr>)"
      "load_places env proc v (s1\<lparr>ram := process_init proc (ram s1)\<rparr>)" "kheap_inv (s1\<lparr>ram := process_init proc (ram s1)\<rparr>)"
      "unat (pmm_free_blocks (phys s)) = 2 + unat (pmm_free_blocks (phys s1))" by blast
  have "program_pages len * (unat (pmm_used_blocks (phys s)) + 12) + 1 < unat (pmm_system_memory_size (phys s))"
    by (rule few_blocks [OF p room(2) p refl, of 0]) simp_all
  from program_read [OF s ready inv this refl a(2-7) path prog slot] obtain P desc s2 where
    b: "process_load_binary env path proc (sys_ram (process_init proc (ram s1)) (sys_mem s1 y)) =
        Some (1, y\<lparr>sk := set_km s2 (sk y), sv := (sv y)\<lparr>file_descriptors := (file_descriptors (sv y))[i := desc]\<rparr>\<rparr>)" "desc \<noteq> 0"
      "process_ptr (ram s2) proc = P" "process_size (ram s2) proc = of_nat (length ?bs)" "P \<noteq> 0" "page_aligned P"
      "\<forall>i < of_nat (length ?bs). page_of (P + i) \<in> owned_pages (phys s2) - owned_pages (phys s1)"
      "read_bytes (ram s2) P (length ?bs) = ?bs" "kheap_inv s2"
      "owned_pages (phys s1) \<subseteq> owned_pages (phys s2)" "quiet env stk v s s2"
      "unat (pmm_free_blocks (phys s)) = 12 + program_pages len + unat (pmm_free_blocks (phys s2))"
      "unat P + length ?bs \<le> 0xFFFFF000" using room(1) by auto
  have len: "length ?bs < 2147483648" using prog(1) reads_ok_length by (auto simp: program_file_def)
  have size: "pmm_system_memory_size (phys s2) = pmm_system_memory_size (phys s)" using b(11) by (simp add: quiet_def)
  have "pmm_inv (phys s2)" using b(9) by (simp add: kheap_inv_def)
  from few_blocks [OF p room(2) this size b(12), of 4 0]
  have few: "4 * unat (pmm_used_blocks (phys s2)) + 1 < unat (pmm_system_memory_size (phys s2))" by simp
  have "owned_pages (phys s) \<subseteq> owned_pages (phys s1)" using a(3) by (simp add: keeps_def)
  from stack_added [OF b(9) few b(11) a(2) this b(10,3-8) len b(13)] obtain T s3 where
    c: "kzalloc USER_PROGRAM_STACK_SIZE s2 = (T, s3)" "T \<noteq> 0" "loaded s s3 proc P T ?bs" "quiet env stk v s s3" "kheap_inv s3"
      "unat (pmm_free_blocks (phys s2)) = 4 + unat (pmm_free_blocks (phys s3))" by blast
  have "unat (pmm_free_blocks (phys s)) = 16 + program_pages len + unat (pmm_free_blocks (phys s3))" using b(12) c(6) by simp
  then show ?thesis using a(1,2) b(1,2) c unfolding fresh_region_def by blast
qed

section \<open>Filling in the structure\<close>

lemma fill_ok:
  assumes str: "cstring m path bs" "length bs < 108" and far: "\<forall>i < 108. 4224 \<le> path + i - proc"
    and m': "m' = store16 (store32 (strncpy m (proc + 2) path 108) (proc + 4216) T) proc slot"
  shows "\<And>x. 4224 \<le> x - proc \<Longrightarrow> m' x = m x" "process_ptr m' proc = process_ptr m proc"
    "process_size m' proc = process_size m proc" "process_stack m' proc = T" "load16 m' proc = slot" "cstring m' (proc + 2) bs"
proof -
  let ?m1 = "strncpy m (proc + 2) path 108"
  have "108 \<le> path + i - (proc + 2)" if "i < 108" for i
  proof (rule ccontr)
    assume "\<not> 108 \<le> path + i - (proc + 2)"
    then have "path + i - proc < 4224" using near_within [of "path + i" proc 2 108 4224] by simp
    then show False using far that by (simp add: not_less [symmetric])
  qed
  then have "copy_map (\<lambda>m a. Some a) (\<lambda>a. a) m (proc + 2) path 108" by (simp add: copy_map_def)
  from strncpy_mapped [OF _ this] have m1: "?m1 = write_bytes m (proc + 2) (bs @ [0])"
    using cstring_cstrn [OF str(1), of 107] str(2) by (simp add: strncpy_def sless0_iff_u32)
  have o1: "?m1 x = m x" if "110 \<le> x - proc" for x
    unfolding m1
  proof (rule write_bytes_outside)
    fix i assume "i < length (bs @ [0])"
    then have "of_nat i < (108 :: u32)" using str(2) by (simp add: word_less_nat_alt unat_of_nat_u32)
    then have "2 + of_nat i < (110 :: u32)" by unat_arith
    then show "x \<noteq> proc + 2 + of_nat i" using that by (auto simp: algebra_simps)
  qed
  let ?m2 = "store32 ?m1 (proc + 4216) T"
  have o2: "m' x = ?m2 x" if "2 \<le> x - proc" for x
  proof -
    have "x \<noteq> proc" "x \<noteq> proc + 1" using that by (auto simp: word_le_nat_alt)
    then show ?thesis by (simp add: m' store16_def)
  qed
  have o3: "m' x = ?m1 x" if "2 \<le> x - proc" "4 \<le> x - (proc + 4216)" for x
    using o2 [OF that(1)] store32_other [OF that(2)] by simp
  have off: "x = proc + z \<Longrightarrow> x - proc = z \<and> x - (proc + 4216) = z - 4216" for x z :: u32 by simp
  show out: "m' x = m x" if x: "4224 \<le> x - proc" for x
  proof -
    obtain z where z: "x = proc + z" by (metis diff_add_cancel add.commute)
    have "4224 \<le> z" using x z by simp
    then have "2 \<le> z" "110 \<le> z" "4 \<le> z - 4216" by unat_arith+
    then show ?thesis using o3 [of x] o1 [of x] off [OF z] by simp
  qed
  show "load16 m' proc = slot" by (simp add: m')
  have word: "load32 m' (proc + k) = load32 m (proc + k)" if "k = 4212 \<or> k = 4220" for k
  proof (rule load32_cong)
    fix j :: u32 assume "j < 4"
    then have "2 \<le> k + j" "110 \<le> k + j" "4 \<le> k + j - 4216" using that by (auto; unat_arith)+
    moreover have "proc + k + j = proc + (k + j)" by simp
    ultimately show "m' (proc + k + j) = m (proc + k + j)" using o3 [of "proc + k + j"] o1 [of "proc + k + j"] off by simp
  qed
  from word [of 4212] word [of 4220] show "process_ptr m' proc = process_ptr m proc" "process_size m' proc = process_size m proc"
    by (simp_all add: process_ptr_def process_size_def)
  have "load32 m' (proc + 4216) = load32 ?m2 (proc + 4216)"
  proof (rule load32_cong)
    fix j :: u32 assume "j < 4"
    then have "2 \<le> 4216 + j" by (simp add: word_le_nat_alt word_less_nat_alt unat_word_ariths)
    then show "m' (proc + 4216 + j) = ?m2 (proc + 4216 + j)" by (intro o2) (simp add: algebra_simps)
  qed
  then show "process_stack m' proc = T" by (simp add: process_stack_def)
  have "0 \<notin> set bs" using cstring_nth [OF str(1)] by (auto simp: in_set_conv_nth)
  then have "cstring ?m1 (proc + 2) bs" unfolding m1 using str(2) by (intro cstring_write_bytes) auto
  then show "cstring m' (proc + 2) bs"
  proof (rule cstring_cong)
    fix i assume "i \<le> length bs"
    then have i: "i < 108" using str(2) by simp
    obtain z :: u32 where z: "z = 2 + of_nat i" by blast
    then have "unat z = 2 + i" using i by (simp add: unat_word_ariths unat_of_nat_u32)
    then have "2 \<le> z" "4 \<le> z - 4216" using i by (simp_all add: word_le_nat_alt unat_sub_if')
    moreover have e: "proc + 2 + of_nat i = proc + z" by (simp add: z)
    ultimately show "m' (proc + 2 + of_nat i) = ?m1 (proc + 2 + of_nat i)" unfolding e using o3 [of "proc + z"] off by simp
  qed
qed

section \<open>The task and its address space\<close>

text \<open>A filled-in structure on pages of its own, away from the tasks in the list.\<close>

definition process_filled :: "kernel \<Rightarrow> u32 list \<Rightarrow> u32 \<Rightarrow> u32 \<Rightarrow> u32 \<Rightarrow> u32 \<Rightarrow> bool" where
  "process_filled k ts proc P sz T \<longleftrightarrow> (\<forall>x. x - proc < 4224 \<longrightarrow> page_of x \<in> owned_pages (phys (km (mm k))) - set ts) \<and>
     process_ptr (kram k) proc = P \<and> process_size (kram k) proc = sz \<and> process_stack (kram k) proc = T \<and>
     page_aligned P \<and> page_aligned T \<and> unat P + unat sz \<le> 0xFFFFF000 \<and> unat T + 0x4000 \<le> 0xFFFFF000"

lemma new_task_ready:
  assumes inv: "kheap_inv (km (mm k))" and free: "1027 \<le> unat (pmm_free_blocks (phys (km (mm k))))"
    and tasks: "task_list k ts" "set ts \<subseteq> owned_pages (phys (km (mm k)))" and proc: "process_filled k ts proc P sz T"
  shows "\<exists>t k' d. task_new proc k = (t, k') \<and> t \<noteq> 0 \<and> page_aligned t \<and> t \<notin> owned_pages (phys (km (mm k))) \<and>
    process_ready (store32 (kram k') (proc + 112) t) proc d P sz T \<and> process_task (store32 (kram k') (proc + 112) t) proc = t \<and>
    insert (task_chunk (kram k') t) (space_pages (store32 (kram k') (proc + 112) t) d) \<subseteq>
      owned_pages (phys (km (mm k'))) - insert t (owned_pages (phys (km (mm k)))) \<and>
    task_chunk (kram k') t \<notin> space_pages (store32 (kram k') (proc + 112) t) d \<and>
    fresh_task (kram k') t (task_chunk (kram k') t) proc \<and> task_list k' (ts @ [t]) \<and> kheap_inv (km (mm k')) \<and>
    insert t (owned_pages (phys (km (mm k)))) \<subseteq> owned_pages (phys (km (mm k'))) \<and>
    unat (pmm_free_blocks (phys (km (mm k)))) = 1027 + unat (pmm_free_blocks (phys (km (mm k')))) \<and>
    current_task k' = (if ts = [] then t else current_task k) \<and> kernel_chunk k' = kernel_chunk k \<and>
    (\<forall>x. page_of x \<notin> owned_pages (phys (km (mm k))) \<longrightarrow> store32 (kram k') (proc + 112) t x = kram k' x) \<and>
    (\<forall>x. page_of x \<in> owned_pages (phys (km (mm k))) - set ts \<longrightarrow> kram k' x = kram k x) \<and>
    (\<forall>u \<in> set ts. \<forall>j < 14. load32 (kram k') (field u j) = load32 (kram k) (field u j))"
proof -
  let ?O = "owned_pages (phys (km (mm k)))"
  from task_new_result [OF inv tasks, of proc] free obtain t k' where
    t: "task_new proc k = (t, k')" "t \<noteq> 0" "t \<notin> ?O" "task_list k' (ts @ [t])"
      "fresh_task (kram k') t (task_chunk (kram k') t) proc" "own_space (km (mm k')) (task_chunk (kram k') t) 5 (insert t ?O)"
      "kheap_inv (km (mm k'))" "insert t ?O \<subseteq> owned_pages (phys (km (mm k')))"
      "unat (pmm_free_blocks (phys (km (mm k)))) = 1027 + unat (pmm_free_blocks (phys (km (mm k'))))"
      "current_task k' = (if ts = [] then t else current_task k)" "\<forall>u \<in> ?O - set ts. same_page (kram k) (kram k') u"
      "\<forall>u \<in> set ts. \<forall>j < 14. load32 (kram k') (field u j) = load32 (kram k) (field u j)" "kernel_chunk k' = kernel_chunk k"
    by auto
  let ?c = "task_chunk (kram k') t" and ?m = "store32 (kram k') (proc + 112) t"
  from own_space_in_use [OF t(6)] obtain d where
    d: "load32 (kram k') ?c = d" "space_ok (kram k') d" "page_aligned ?c"
      "insert ?c (space_pages (kram k') d) \<subseteq> owned_pages (phys (km (mm k'))) - insert t ?O" "?c \<notin> space_pages (kram k') d" by blast
  have al: "page_aligned t" using t(4) by (auto simp: task_list_def forward_def)
  have region: "page_of x \<in> ?O - set ts" if "x - proc < 4224" for x using proc that by (simp add: process_filled_def)
  have new: "?m x = kram k' x" if "page_of x \<notin> ?O" for x
  proof (rule store32_other, rule ccontr)
    assume "\<not> 4 \<le> x - (proc + 112)"
    then have "x - proc < 4224" using near_within [of x proc 112 4 4224] by simp
    then show False using region that by blast
  qed
  have old: "kram k' x = kram k x" if "page_of x \<in> ?O - set ts" for x
    using t(11) that in_page_of by (auto simp: same_page_def)
  have same: "same_page (kram k') ?m u" if "page_aligned u" "u \<notin> ?O" for u
    using page_of_in [OF that(1)] that(2) new by (simp add: same_page_def)
  have S: "u \<notin> ?O" "page_aligned u" if "u \<in> space_pages (kram k') d" for u
    using d(4) space_pages_aligned [OF d(2) that] that by auto
  note sp = space_cong(1,2) [OF d(2) same [OF S(2,1)]]
  have field: "load32 ?m (proc + i) = load32 (kram k) (proc + i)" if i: "i = 4212 \<or> i = 4216 \<or> i = 4220" for i
  proof (rule load32_cong)
    fix j :: u32 assume j: "j < 4"
    have e: "proc + i + j = proc + (i + j)" by simp
    have "i + j < 4224" "4 \<le> i + j - 112" using i j by (auto; unat_arith)+
    then have "?m (proc + (i + j)) = kram k' (proc + (i + j))" "page_of (proc + (i + j)) \<in> ?O - set ts"
      using region [of "proc + (i + j)"] by (auto intro!: store32_other simp: algebra_simps)
    then show "?m (proc + i + j) = kram k (proc + i + j)" unfolding e using old by simp
  qed
  have "process_ptr ?m proc = P" "process_size ?m proc = sz" "process_stack ?m proc = T"
    using field [of 4212] field [of 4216] field [of 4220] proc
    by (simp_all add: process_filled_def process_ptr_def process_size_def process_stack_def)
  moreover have task: "process_task ?m proc = t" by (simp add: process_task_def)
  moreover have c: "?c \<notin> ?O" "t \<notin> space_pages (kram k') d" "t \<noteq> ?c" using d(4) by auto
  moreover have "task_chunk ?m t = ?c" using same_page_load [OF same [OF al t(3)], of 0] by (simp add: task_chunk_def)
  moreover have "load32 ?m ?c = d" using same_page_load [OF same [OF d(3) c(1)], of 0] d(1) by (simp add: field_def)
  moreover have "page_of x \<notin> space_pages (kram k') d" if "x - proc < 4224" for x using region [OF that] S(1) by blast
  ultimately have "process_ready ?m proc d P sz T"
    using proc sp al d(3,5) by (simp add: process_ready_def process_filled_def Let_def)
  then show ?thesis using t(1-5,7-10,12,13) al task d(4,5) sp(2) new old
    by (intro exI [of _ t] exI [of _ k'] exI [of _ d]) simp
qed

text \<open>What the processor reads at a virtual address, through a page directory.\<close>

definition user_byte :: "mem \<Rightarrow> u32 \<Rightarrow> u32 \<Rightarrow> u8 option" where
  "user_byte m d a = map_option m (mmu_walk m d a)"

text \<open>The directory shows a program at \<open>P\<close> and a stack at \<open>T\<close> where programs expect them; its pages are in \<open>A\<close>.\<close>

definition program_space :: "mem \<Rightarrow> u32 \<Rightarrow> u32 \<Rightarrow> u32 \<Rightarrow> u32 \<Rightarrow> u32 set \<Rightarrow> bool" where
  "program_space m d P sz T A \<longleftrightarrow> space_ok m d \<and> space_pages m d \<subseteq> A \<and>
     (\<forall>i < sz. mmu_walk m d (0x400000 + i) = Some (P + i)) \<and> (\<forall>i < 0x4000. mmu_walk m d (0x3FB000 + i) = Some (T + i))"

lemma program_space_cong:
  assumes p: "program_space m d P sz T A" and same: "\<And>x. page_of x \<in> A \<Longrightarrow> m' x = m x"
  shows "program_space m' d P sz T A"
proof -
  have ok: "space_ok m d" using p by (simp add: program_space_def)
  have "same_page m m' u" if "u \<in> space_pages m d" for u
    unfolding same_page_def
  proof (intro allI impI)
    fix x assume "x - u < 4096"
    then have "page_of x = u" by (rule page_of_in [OF space_pages_aligned [OF ok that]])
    then show "m' x = m x" using p that by (intro same) (auto simp: program_space_def)
  qed
  note s = space_cong [OF ok this]
  have "mmu_walk m' d a = mmu_walk m d a" for a
    using s(3) [of "page_of a"] by (simp add: walk_get [OF ok] walk_get [OF s(1)])
  then show ?thesis using p s(1,2) by (simp add: program_space_def)
qed

lemma fresh_task_cong:
  assumes "fresh_task m t c proc" "same_page m m' t" shows "fresh_task m' t c proc"
  using assms(1) same_page_load [OF assms(2)] by (simp add: fresh_task_def task_chunk_def)

lemma start_ok:
  assumes inv: "kheap_inv (km (mm k))" and free: "1027 \<le> unat (pmm_free_blocks (phys (km (mm k))))"
    and tasks: "task_list k ts" "set ts \<subseteq> owned_pages (phys (km (mm k)))" and proc: "process_filled k ts proc P sz T" and sz: "sz < 0x80000000"
  shows "\<exists>t k' d m'. task_new proc k = (t, k') \<and> t \<noteq> 0 \<and> t \<notin> owned_pages (phys (km (mm k))) \<and>
    process_map_memory proc (store32 (kram k') (proc + 112) t) = (0, m') \<and> process_task m' proc = t \<and>
    load32 m' (task_chunk m' t) = d \<and> fresh_task m' t (task_chunk m' t) proc \<and> task_list (set_ram m' k') (ts @ [t]) \<and>
    page_aligned (task_chunk m' t) \<and> task_chunk m' t \<in> owned_pages (phys (km (mm k'))) - insert t (owned_pages (phys (km (mm k)))) \<and>
    program_space m' d P sz T (owned_pages (phys (km (mm k'))) - insert t (owned_pages (phys (km (mm k))))) \<and>
    kheap_inv (km (mm k')) \<and> insert t (owned_pages (phys (km (mm k)))) \<subseteq> owned_pages (phys (km (mm k'))) \<and>
    unat (pmm_free_blocks (phys (km (mm k)))) = 1027 + unat (pmm_free_blocks (phys (km (mm k')))) \<and>
    current_task k' = (if ts = [] then t else current_task k) \<and> kernel_chunk k' = kernel_chunk k \<and>
    (\<forall>x. page_of x \<in> owned_pages (phys (km (mm k))) - set ts \<and> 4 \<le> x - (proc + 112) \<longrightarrow> m' x = kram k x) \<and>
    (\<forall>u \<in> set ts. \<forall>j < 14. load32 m' (field u j) = load32 (kram k) (field u j))"
proof -
  let ?O = "owned_pages (phys (km (mm k)))"
  from new_task_ready [OF inv free tasks proc] obtain t k' d where
    t: "task_new proc k = (t, k')" "t \<noteq> 0" "page_aligned t" "t \<notin> ?O"
      "process_ready (store32 (kram k') (proc + 112) t) proc d P sz T" "process_task (store32 (kram k') (proc + 112) t) proc = t"
      "insert (task_chunk (kram k') t) (space_pages (store32 (kram k') (proc + 112) t) d) \<subseteq> owned_pages (phys (km (mm k'))) - insert t ?O"
      "task_chunk (kram k') t \<notin> space_pages (store32 (kram k') (proc + 112) t) d"
      "fresh_task (kram k') t (task_chunk (kram k') t) proc" "task_list k' (ts @ [t])" "kheap_inv (km (mm k'))"
      "insert t ?O \<subseteq> owned_pages (phys (km (mm k')))"
      "unat (pmm_free_blocks (phys (km (mm k)))) = 1027 + unat (pmm_free_blocks (phys (km (mm k'))))"
      "current_task k' = (if ts = [] then t else current_task k)" "kernel_chunk k' = kernel_chunk k"
      "\<forall>x. page_of x \<notin> ?O \<longrightarrow> store32 (kram k') (proc + 112) t x = kram k' x"
      "\<forall>x. page_of x \<in> ?O - set ts \<longrightarrow> kram k' x = kram k x"
      "\<forall>u \<in> set ts. \<forall>j < 14. load32 (kram k') (field u j) = load32 (kram k) (field u j)" by blast
  let ?m = "store32 (kram k') (proc + 112) t" and ?c = "task_chunk (kram k') t"
  have "unat sz \<le> 0xFE000000" using sz by (simp add: word_less_nat_alt)
  from map_memory_ok [OF t(5) this refl] obtain m' where
    m': "process_map_memory proc ?m = (0, m')" "process_ready m' proc d P sz T" "space_pages m' d = space_pages ?m d"
      "\<forall>i. unat i < (unat P + unat sz + 4095) div 4096 * 4096 - unat P \<longrightarrow> mmu_walk m' d (0x400000 + i) = Some (P + i)"
      "\<forall>i. unat i < 16384 \<longrightarrow> mmu_walk m' d (0x3FB000 + i) = Some (T + i)"
      "\<forall>y. page_of y \<notin> space_pages ?m d \<longrightarrow> m' y = ?m y" by blast
  have walk: "mmu_walk m' d (0x400000 + i) = Some (P + i)" if "i < sz" for i
  proof -
    have "unat P + unat sz \<le> (unat P + unat sz + 4095) div 4096 * 4096"
      using div_mult_mod_eq [of "unat P + unat sz + 4095" 4096] mod_less_divisor [of 4096 "unat P + unat sz + 4095"] by linarith
    then have "unat i < (unat P + unat sz + 4095) div 4096 * 4096 - unat P" using that by (simp add: word_less_nat_alt)
    then show ?thesis using m'(4) by blast
  qed
  have region: "page_of x \<in> ?O - set ts" if "x - proc < 4224" for x using proc that by (simp add: process_filled_def)
  have keep: "m' x = kram k' x" if "page_of x \<notin> space_pages ?m d" "4 \<le> x - (proc + 112)" for x
    using that m'(6) store32_other [OF that(2)] by simp
  have far: "4 \<le> x - (proc + 112)" if "page_of x \<notin> ?O - set ts" for x
  proof (rule ccontr)
    assume "\<not> 4 \<le> x - (proc + 112)"
    then have "x - proc < 4224" using near_within [of x proc 112 4 4224] by simp
    then show False using region that by blast
  qed
  have same: "same_page (kram k') m' u" if "page_aligned u" "u \<notin> space_pages ?m d" "u \<notin> ?O - set ts" for u
    unfolding same_page_def using page_of_in [OF that(1)] that(2,3) keep far by metis
  have tS: "t \<notin> space_pages ?m d" using t(7) by auto
  have samet: "same_page (kram k') m' t" using same t(3,4) tS by blast
  have chunk: "task_chunk m' t = ?c" using same_page_load [OF samet, of 0] by (simp add: task_chunk_def)
  have sp: "same_page (kram k') m' u" if "u \<in> set (ts @ [t])" for u
  proof (cases "u = t")
    case False
    then have u: "u \<in> set ts" using that by simp
    then have "u \<in> ?O" using tasks(2) by blast
    moreover have "page_aligned u" using u tasks(1) by (auto simp: task_list_def forward_def)
    ultimately show ?thesis using u t(7) by (intro same) auto
  qed (use samet in simp)
  have "process_task m' proc = t"
  proof -
    have "load32 m' (proc + 112) = load32 ?m (proc + 112)" by (rule process_word) (use m'(6) region t(7) in \<open>blast, simp\<close>)
    then show ?thesis by (simp add: process_task_def)
  qed
  moreover have "load32 m' (task_chunk m' t) = d" using m'(2) calculation by (simp add: process_ready_def Let_def)
  moreover have "fresh_task m' t (task_chunk m' t) proc" unfolding chunk by (rule fresh_task_cong [OF t(9) samet])
  moreover have "task_list (set_ram m' k') (ts @ [t])" by (rule task_list_pages [OF t(10)]) (use sp in simp_all)
  moreover have "program_space m' d P sz T (owned_pages (phys (km (mm k'))) - insert t ?O)"
    using m'(2,3,5) t(7) walk by (simp add: program_space_def process_ready_def Let_def word_less_nat_alt)
  moreover have "m' x = kram k x" if "page_of x \<in> ?O - set ts" "4 \<le> x - (proc + 112)" for x
  proof -
    have "page_of x \<notin> space_pages ?m d" using that(1) t(7) by blast
    then show ?thesis using keep [OF _ that(2)] t(17) that(1) by simp
  qed
  moreover have "load32 m' (field u j) = load32 (kram k) (field u j)" if "u \<in> set ts" "j < 14" for u j
    using same_page_regs [OF sp that(2)] t(18) that by simp
  moreover have "page_aligned (task_chunk m' t)" using m'(2) \<open>process_task m' proc = t\<close> by (simp add: process_ready_def Let_def)
  moreover have "task_chunk m' t \<in> owned_pages (phys (km (mm k'))) - insert t ?O" using t(7) unfolding chunk by blast
  ultimately show ?thesis using t(1,2,4,11-15) m'(1)
    by (intro exI [of _ t] exI [of _ k'] exI [of _ d] exI [of _ m']) simp
qed

section \<open>A started program\<close>

text \<open>
  The process at \<open>proc\<close> with task \<open>t\<close>, ready to run the program \<open>bs\<close>: its task is fresh, its page directory shows the program and
  a zeroed stack, and everything it consists of, but for the links of its task, lies in the pages \<open>A\<close>.
\<close>

definition program_started :: "mem \<Rightarrow> u32 set \<Rightarrow> u32 \<Rightarrow> u32 \<Rightarrow> u8 list \<Rightarrow> u8 list \<Rightarrow> bool" where
  "program_started m A proc t name bs \<longleftrightarrow> (\<exists>P T. length bs < 2147483648 \<and> length name < 108 \<and> page_aligned t \<and> t \<in> A \<and>
     process_task m proc = t \<and> cstring m (proc + 2) name \<and> (\<forall>x. x - proc < 4224 \<longrightarrow> page_of x \<in> A - {t}) \<and>
     fresh_task m t (task_chunk m t) proc \<and> page_aligned (task_chunk m t) \<and> task_chunk m t \<in> A - {t} \<and>
     program_space m (load32 m (task_chunk m t)) P (of_nat (length bs)) T (A - {t}) \<and>
     (\<forall>x. x - P < of_nat (length bs) \<longrightarrow> page_of x \<in> A - {t}) \<and> (\<forall>x. x - T < 0x4000 \<longrightarrow> page_of x \<in> A - {t}) \<and>
     (\<forall>i < length bs. m (P + of_nat i) = bs ! i) \<and> (\<forall>i < 0x4000. m (T + i) = 0))"

text \<open>
  A task ready to run a program: the process has the task and the name; the registers are those of a fresh task; through the
  task's page directory the processor sees the program from \<open>0x400000\<close> on, and 16 KiB of zeros below \<open>0x3FF000\<close>.
\<close>

definition runs_program :: "mem \<Rightarrow> u32 \<Rightarrow> u32 \<Rightarrow> u8 list \<Rightarrow> u8 list \<Rightarrow> bool" where
  "runs_program m proc t name bs \<longleftrightarrow> (let dir = load32 m (task_chunk m t) in
     process_task m proc = t \<and> cstring m (proc + 2) name \<and> fresh_task m t (task_chunk m t) proc \<and>
     (\<forall>i < length bs. user_byte m dir (0x400000 + of_nat i) = Some (bs ! i)) \<and>
     (\<forall>i < 0x4000. user_byte m dir (0x3FB000 + i) = Some 0))"

lemma program_started_runs:
  assumes "program_started m A proc t name bs"
  shows "runs_program m proc t name bs"
proof -
  let ?d = "load32 m (task_chunk m t)"
  obtain P T where p: "program_space m ?d P (of_nat (length bs)) T (A - {t})" "length bs < 2147483648" "process_task m proc = t"
    "cstring m (proc + 2) name" "fresh_task m t (task_chunk m t) proc"
    "\<forall>i < length bs. m (P + of_nat i) = bs ! i" "\<forall>i < 0x4000. m (T + i) = 0"
    using assms by (auto simp: program_started_def)
  have "user_byte m ?d (0x400000 + of_nat i) = Some (bs ! i)" if "i < length bs" for i
    using p(1,6) small_offset [OF that p(2)] that by (simp add: program_space_def user_byte_def)
  moreover have "user_byte m ?d (0x3FB000 + j) = Some 0" if "j < 0x4000" for j
    using p(1,7) that by (simp add: program_space_def user_byte_def)
  ultimately show ?thesis using p(3-5) by (simp add: runs_program_def Let_def)
qed

text \<open>It stays as it is while its pages do, whatever happens to the links of its task.\<close>

lemma program_started_cong:
  assumes p: "program_started m A proc t name bs" and same: "\<And>x. page_of x \<in> A - {t} \<Longrightarrow> m' x = m x"
    and regs: "\<And>j. j < 14 \<Longrightarrow> load32 m' (field t j) = load32 m (field t j)"
  shows "program_started m' A proc t name bs"
proof -
  obtain P T where pt: "length bs < 2147483648" "length name < 108" "page_aligned t" "t \<in> A" "process_task m proc = t"
    "cstring m (proc + 2) name" "\<forall>x. x - proc < 4224 \<longrightarrow> page_of x \<in> A - {t}"
    "fresh_task m t (task_chunk m t) proc" "page_aligned (task_chunk m t)" "task_chunk m t \<in> A - {t}"
    "program_space m (load32 m (task_chunk m t)) P (of_nat (length bs)) T (A - {t})"
    "\<forall>x. x - P < of_nat (length bs) \<longrightarrow> page_of x \<in> A - {t}" "\<forall>x. x - T < 0x4000 \<longrightarrow> page_of x \<in> A - {t}"
    "\<forall>i < length bs. m (P + of_nat i) = bs ! i" "\<forall>i < 0x4000. m (T + i) = 0"
    using p by (auto simp: program_started_def)
  have chunk: "task_chunk m' t = task_chunk m t" using regs [of 0] by (simp add: task_chunk_def)
  have "load32 m' (task_chunk m t) = load32 m (task_chunk m t)"
  proof (rule load32_cong)
    fix j :: u32 assume "j < 4"
    then have "j < 4096" by (rule order.strict_trans) simp
    then show "m' (task_chunk m t + j) = m (task_chunk m t + j)" using page_of_offset [OF pt(9)] pt(10) same by simp
  qed
  moreover have "process_task m' proc = t"
  proof -
    have "load32 m' (proc + 112) = load32 m (proc + 112)" by (rule process_word) (use pt(7) same in \<open>blast, simp\<close>)
    then show ?thesis using pt(5) by (simp add: process_task_def)
  qed
  moreover have "cstring m' (proc + 2) name"
  proof (rule cstring_cong [OF pt(6)])
    fix i assume "i \<le> length name"
    then have "(of_nat i :: u32) < 108" using pt(2) by (simp add: word_less_nat_alt unat_of_nat_u32)
    then have "proc + 2 + of_nat i - proc < 4224" using near_within [of "proc + 2 + of_nat i" proc 2 108 4224] by simp
    then show "m' (proc + 2 + of_nat i) = m (proc + 2 + of_nat i)" using pt(7) same by blast
  qed
  moreover have "fresh_task m' t (task_chunk m t) proc" using pt(8) regs by (simp add: fresh_task_def chunk)
  moreover have "m' (P + of_nat i) = bs ! i" if "i < length bs" for i
    using pt(12,14) same small_offset [OF that pt(1)] that by simp
  moreover have "m' (T + i) = 0" if "i < 0x4000" for i using pt(13,15) same that by simp
  moreover have "program_space m' (load32 m (task_chunk m t)) P (of_nat (length bs)) T (A - {t})"
    by (rule program_space_cong [OF pt(11) same])
  ultimately show ?thesis using pt(1-4,7,9,10,12,13) unfolding program_started_def chunk
    by (intro exI [of _ P] exI [of _ T]) simp
qed

section \<open>Loading a program\<close>

lemma loaded_filled:
  assumes l: "loaded s s3 proc P T code" and own: "set ts \<subseteq> owned_pages (phys s)"
    and str: "cstring (ram s3) path bs" "length bs < 108" "region_in_use s path 108"
    and m: "m = store16 (store32 (strncpy (ram s3) (proc + 2) path 108) (proc + 4216) T) proc sl"
  shows "process_filled (set_km (s3\<lparr>ram := m\<rparr>) k) ts proc P (of_nat (length code)) T"
    "load16 m proc = sl" "cstring m (proc + 2) bs" "\<And>x. 4224 \<le> x - proc \<Longrightarrow> m x = ram s3 x"
proof -
  have f: "fresh_region s s3 proc 4224" using l by (simp add: loaded_def)
  have "4224 \<le> path + i - proc" if "i < 108" for i
  proof (rule ccontr)
    assume "\<not> 4224 \<le> path + i - proc"
    then have "page_of (path + i) \<notin> owned_pages (phys s)" using fresh_region_page [OF f, of "path + i"] by simp
    moreover have "i = of_nat (unat i)" "unat i < 108" using that by (simp_all add: word_less_nat_alt)
    ultimately show False using str(3) by (metis region_in_use_def)
  qed
  note fill = fill_ok [OF str(1,2) _ m]
  show "load16 m proc = sl" "cstring m (proc + 2) bs" "\<And>x. 4224 \<le> x - proc \<Longrightarrow> m x = ram s3 x"
    using fill \<open>\<And>i. i < 108 \<Longrightarrow> _\<close> by blast+
  have "page_of x \<in> owned_pages (phys s3) - set ts" if "x - proc < 4224" for x
    using fresh_region_page [OF f that] own by blast
  moreover have "process_ptr m proc = P" "process_size m proc = of_nat (length code)" "process_stack m proc = T"
    using fill(2-4) \<open>\<And>i. i < 108 \<Longrightarrow> _\<close> l by (simp_all add: loaded_def)
  moreover have "unat (of_nat (length code) :: u32) = length code" using l by (intro unat_of_nat_u32) (simp add: loaded_def)
  then have "unat P + unat (of_nat (length code) :: u32) \<le> 0xFFFFF000" using l by (simp add: loaded_def)
  ultimately show "process_filled (set_km (s3\<lparr>ram := m\<rparr>) k) ts proc P (of_nat (length code)) T"
    using l by (simp add: process_filled_def loaded_def fresh_region_def)
qed

text \<open>What is left in fresh pages after the task has been made from them.\<close>

lemma loaded_started:
  assumes l: "loaded s s3 proc P T code" and len: "length bs < 108"
    and m: "cstring m (proc + 2) bs" "\<And>x. 4224 \<le> x - proc \<Longrightarrow> m x = ram s3 x"
    and own: "insert t (owned_pages (phys s3)) \<subseteq> O'" "owned_pages (phys s) \<subseteq> owned_pages (phys s3)" "set ts \<subseteq> owned_pages (phys s)"
    and t: "t \<notin> owned_pages (phys s3)" "page_aligned t" "process_task m' proc = t" "load32 m' (task_chunk m' t) = d"
      "fresh_task m' t (task_chunk m' t) proc" "page_aligned (task_chunk m' t)" "task_chunk m' t \<in> O' - insert t (owned_pages (phys s3))"
      "program_space m' d P (of_nat (length code)) T (O' - insert t (owned_pages (phys s3)))"
    and frame: "\<And>x. page_of x \<in> owned_pages (phys s3) - set ts \<Longrightarrow> 4 \<le> x - (proc + 112) \<Longrightarrow> m' x = m x"
  shows "program_started m' (O' - owned_pages (phys s)) proc t bs code"
proof -
  have reg: "fresh_region s s3 proc 4224" "fresh_region s s3 P (of_nat (length code))" "fresh_region s s3 T 0x4000"
    and small: "length code < 2147483648" using l by (auto simp: loaded_def)
  note page = fresh_region_page [OF reg(1)] fresh_region_page [OF reg(2)] fresh_region_page [OF reg(3)]
  have A: "page_of x \<in> O' - owned_pages (phys s) - {t}" if "page_of x \<in> owned_pages (phys s3) - owned_pages (phys s)" for x
    using that own(1) t(1) by blast
  have out: "m' x = ram s3 x" if "page_of x \<in> owned_pages (phys s3) - owned_pages (phys s)" "\<not> x - proc < 4224" for x
  proof -
    have "\<not> x - (proc + 112) < 4" using that(2) near_within [of x proc 112 4 4224] by auto
    then have "m' x = m x" using that(1) own(3) by (intro frame) auto
    then show ?thesis using m(2) that(2) by simp
  qed
  have "cstring m' (proc + 2) bs"
  proof (rule cstring_cong [OF m(1)])
    fix i assume "i \<le> length bs"
    then have i: "i < 108" using len by simp
    obtain z :: u32 where z: "z = 2 + of_nat i" by blast
    then have u: "unat z = 2 + i" using i by (simp add: unat_word_ariths unat_of_nat_u32)
    have "4 \<le> z - 112" "z < 4224" using i u by (simp_all add: word_le_nat_alt word_less_nat_alt unat_sub_if')
    moreover have e: "proc + 2 + of_nat i = proc + z" by (simp add: z)
    ultimately have "page_of (proc + z) \<in> owned_pages (phys s3) - owned_pages (phys s)" "4 \<le> proc + z - (proc + 112)"
      using page(1) [of "proc + z"] by simp_all
    then show "m' (proc + 2 + of_nat i) = m (proc + 2 + of_nat i)" unfolding e using own(3) by (intro frame) auto
  qed
  moreover have "m' (P + of_nat i) = code ! i" if "i < length code" for i
  proof -
    have x: "P + of_nat i - P < of_nat (length code)" using small_offset [OF that small] by simp
    then have "\<not> P + of_nat i - proc < 4224" using l unfolding loaded_def by blast
    then have "m' (P + of_nat i) = ram s3 (P + of_nat i)" by (rule out [OF page(2) [OF x]])
    moreover have "read_bytes (ram s3) P (length code) ! i = code ! i" using l by (simp add: loaded_def)
    ultimately show ?thesis using that by (simp add: read_bytes_def)
  qed
  moreover have "m' (T + i) = 0" if "i < 0x4000" for i
  proof -
    have x: "T + i - T < 0x4000" using that by simp
    then have "\<not> T + i - proc < 4224" using l unfolding loaded_def by blast
    then have "m' (T + i) = ram s3 (T + i)" by (rule out [OF page(3) [OF x]])
    then show ?thesis using l x unfolding loaded_def by metis
  qed
  moreover have "program_space m' d P (of_nat (length code)) T (O' - owned_pages (phys s) - {t})"
    using t(8) own(2) unfolding program_space_def by blast
  moreover have "t \<in> O' - owned_pages (phys s)" "task_chunk m' t \<in> O' - owned_pages (phys s) - {t}"
    using own(1,2) t(1,7) by blast+
  moreover have "\<forall>x. x - proc < 4224 \<longrightarrow> page_of x \<in> O' - owned_pages (phys s) - {t}"
    "\<forall>x. x - P < of_nat (length code) \<longrightarrow> page_of x \<in> O' - owned_pages (phys s) - {t}"
    "\<forall>x. x - T < 0x4000 \<longrightarrow> page_of x \<in> O' - owned_pages (phys s) - {t}"
    using A page by blast+
  ultimately show ?thesis
    using small len t(2-6) unfolding program_started_def by (intro exI [of _ P] exI [of _ T]) simp
qed

text \<open>The whole of \<open>process_load_for_slot\<close>. \<open>started_from\<close> says how the later state \<open>k'\<close> extends the earlier one; \<open>n\<close> is the
  number of pages it took, \<open>load_pages\<close> of the length of the program.\<close>

definition load_pages :: "nat \<Rightarrow> nat" where
  "load_pages len = 1043 + program_pages len"

definition started_from :: "kernel \<Rightarrow> u32 list \<Rightarrow> (u32 \<Rightarrow> bool) \<Rightarrow> nat \<Rightarrow> kernel \<Rightarrow> u32 \<Rightarrow> bool" where
  "started_from k ts noise n k' t \<longleftrightarrow> (let s = km (mm k); s' = km (mm k') in
     task_list k' (ts @ [t]) \<and> kheap_inv s' \<and> owned_pages (phys s) \<subseteq> owned_pages (phys s') \<and>
     pmm_system_memory_size (phys s') = pmm_system_memory_size (phys s) \<and>
     unat (pmm_free_blocks (phys s)) = n + unat (pmm_free_blocks (phys s')) \<and>
     current_task k' = (if ts = [] then t else current_task k) \<and>
     (\<forall>x. page_of x \<in> owned_pages (phys s) - set ts \<and> \<not> noise x \<longrightarrow> ram s' x = ram s x) \<and>
     (\<forall>u \<in> set ts. \<forall>j < 14. load32 (ram s') (field u j) = load32 (ram s) (field u j)))"

lemma store32_spares_page:
  assumes "page_aligned u" "\<And>x. x - p < 4 \<Longrightarrow> page_of x \<noteq> u" shows "same_page m (store32 m p v) u"
  unfolding same_page_def
proof (intro allI impI)
  fix x assume "x - u < 4096"
  then have "\<not> x - p < 4" using page_of_in [OF assms(1)] assms(2) by metis
  then show "store32 m p v x = m x" by (intro store32_other) simp
qed

lemma store32_spares_tasks:
  assumes "task_list k ts" "\<And>x. x - p < 4 \<Longrightarrow> page_of x \<notin> set ts"
  shows "\<And>u. u \<in> set ts \<Longrightarrow> same_page (kram k) (store32 (kram k) p v) u" "task_list (set_ram (store32 (kram k) p v) k) ts"
proof -
  show same: "same_page (kram k) (store32 (kram k) p v) u" if "u \<in> set ts" for u
    using task_list_aligned [OF assms(1) that] assms(2) that by (intro store32_spares_page) auto
  show "task_list (set_ram (store32 (kram k) p v) k) ts" by (rule task_list_pages [OF assms(1)]) (use same in simp_all)
qed

text \<open>The steps of \<open>process_load_for_slot\<close>, each with the result it has.\<close>

lemma for_slot_run:
  assumes "process_get sl y = 0" and "kzalloc 4224 (km (mm (sk y))) = (proc, s1)" "proc \<noteq> 0"
    and "process_load_binary env path proc (sys_ram (process_init proc (ram s1)) (sys_mem s1 y)) =
      Some (1, y\<lparr>sk := set_km s2 (sk y), sv := w\<rparr>)"
    and "kzalloc USER_PROGRAM_STACK_SIZE s2 = (T, s3)" "T \<noteq> 0"
    and m: "m = store16 (store32 (strncpy (ram s3) (proc + 2) path 108) (proc + 4216) T) proc (word_of_int sl)"
    and t: "task_new proc (set_km (s3\<lparr>ram := m\<rparr>) (sk y)) = (t, k')" "t \<noteq> 0"
      "process_map_memory proc (store32 (kram k') (proc + 112) t) = (0, m')"
  shows "process_load_for_slot env path process sl y = Some (1, y\<lparr>sk := set_ram (store32 m' process proc) k', sv := w,
    processes := (processes y)[nat sl := proc]\<rparr>)"
proof -
  have "km (mm (sk (sys_mem s1 y))) = s1" by (simp add: sys_mem_def)
  moreover have "sk (sys_ram m (sys_mem s3 (y\<lparr>sk := set_km s2 (sk y), sv := w\<rparr>))) = set_km (s3\<lparr>ram := m\<rparr>) (sk y)"
    by (simp add: sys_ram_def sys_mem_def set_ram_def set_km_def)
  moreover have "set_ram a (set_ram b k') = set_ram a k'" for a b by (simp add: set_ram_def set_km_def)
  ultimately show ?thesis
    unfolding process_load_for_slot_def process_load_data_def
    using assms(1-6) m t by (simp add: sys_ram_def sys_mem_def)
qed

lemma load_for_slot_ok:
  assumes s: "s = km (mm (sk y))" and ready: "loader_ready env img stk digits v d s" and inv: "kheap_inv s"
    and room: "load_pages len \<le> unat (pmm_free_blocks (phys s))" "pmm_system_memory_size (phys s) < 0x100000"
      "max 4 (program_pages len) * (unat (pmm_used_blocks (phys s)) + (12 + program_pages len)) + 1 < unat (pmm_system_memory_size (phys s))"
    and path: "cstring (ram s) path bs" "length bs < 108" "region_in_use s path 108" "root_file_path bs (d_wanted d)"
      "\<forall>i \<le> length bs. \<not> load_noise env stk v (path + of_nat i)"
    and prog: "program_file img stk v cs d j len s" "0 < len"
    and slot: "free_slot (sv y) i" "length (file_descriptors (sv y)) = 512" "process_get sl y = 0"
    and tasks: "task_list (sk y) ts" "set ts \<subseteq> owned_pages (phys s)" "\<forall>x. page_of x \<in> set ts \<longrightarrow> \<not> load_noise env stk v x"
    and ptr: "\<forall>x. x - process < 4 \<longrightarrow> page_of x \<in> owned_pages (phys s) - set ts"
  shows "\<exists>proc t desc k'. process_load_for_slot env path process sl y = Some (1, y\<lparr>sk := k',
        sv := (sv y)\<lparr>file_descriptors := (file_descriptors (sv y))[i := desc]\<rparr>,
        processes := (processes y)[nat sl := proc]\<rparr>) \<and> desc \<noteq> 0 \<and> proc \<noteq> 0 \<and>
    load32 (kram k') process = proc \<and> load16 (kram k') proc = word_of_int sl \<and>
    program_started (kram k') (owned_pages (phys (km (mm k'))) - owned_pages (phys s)) proc t bs (map (file_byte img v cs) [0..<len]) \<and>
    started_from (sk y) ts (\<lambda>x. load_noise env stk v x \<or> x - process < 4) (load_pages len) k' t"
proof -
  let ?code = "map (file_byte img v cs) [0..<len]"
  have use: "region_in_use s path (Suc (length bs))" using path(2,3) by (simp add: region_in_use_def)
  then obtain proc s1 P desc s2 T s3 where l: "kzalloc 4224 s = (proc, s1)" "proc \<noteq> 0"
      "process_load_binary env path proc (sys_ram (process_init proc (ram s1)) (sys_mem s1 y)) = Some (1, y\<lparr>sk := set_km s2 (sk y),
        sv := (sv y)\<lparr>file_descriptors := (file_descriptors (sv y))[i := desc]\<rparr>\<rparr>)"
      "kzalloc USER_PROGRAM_STACK_SIZE s2 = (T, s3)" "T \<noteq> 0" "loaded s s3 proc P T ?code"
      "desc \<noteq> 0" "quiet env stk v s s3" "kheap_inv s3" "unat (pmm_free_blocks (phys s)) = 16 + program_pages len + unat (pmm_free_blocks (phys s3))"
    using load_ok [OF s ready inv room(2,3) path(1) use path(4) prog slot(1,2)] by blast
  have q: "owned_pages (phys s) \<subseteq> owned_pages (phys s3)" "pmm_system_memory_size (phys s3) = pmm_system_memory_size (phys s)"
    "\<And>x. page_of x \<in> owned_pages (phys s) \<Longrightarrow> \<not> load_noise env stk v x \<Longrightarrow> ram s3 x = ram s x"
    using l(8) unfolding quiet_def by blast+
  have str: "cstring (ram s3) path bs"
    by (rule cstring_cong [OF path(1)]) (use q(3) path(5) use in \<open>auto simp: region_in_use_def\<close>)
  obtain m where m: "m = store16 (store32 (strncpy (ram s3) (proc + 2) path 108) (proc + 4216) T) proc (word_of_int sl)" by blast
  obtain k where k: "k = set_km (s3\<lparr>ram := m\<rparr>) (sk y)" by blast
  then have km: "kram k = m" "phys (km (mm k)) = phys s3" "current_task k = current_task (sk y)" "task_head k = task_head (sk y)"
    "task_tail k = task_tail (sk y)" "km (mm k) = s3\<lparr>ram := m\<rparr>" by simp_all
  have code: "length ?code = len" by simp
  have small: "len < 2147483648" using l(6) by (simp add: loaded_def)
  note fill = loaded_filled [OF l(6) tasks(2) str path(2,3) m, unfolded code]
  have far: "\<not> x - proc < 4224" if "page_of x \<in> owned_pages (phys s)" for x
    using l(6) fresh_region_page [of s s3 proc 4224 x] that by (auto simp: loaded_def)
  have m_old: "m x = ram s x" if "page_of x \<in> owned_pages (phys s)" "\<not> load_noise env stk v x" for x
    using fill(4) [of x] far [OF that(1)] q(3) [OF that] by simp
  have u: "u \<in> owned_pages (phys s)" "page_aligned u" if "u \<in> set ts" for u
    using that tasks(1,2) by (auto simp: task_list_def forward_def)
  have pages: "same_page (ram s) m u" if "u \<in> set ts" for u
    unfolding same_page_def using page_of_in [OF u(2) [OF that]] u(1) [OF that] that tasks(3) m_old by metis
  have list: "task_list k ts" by (rule task_list_pages [OF tasks(1)]) (use pages s km in simp_all)
  have "kheap_inv (km (mm k))" "1027 \<le> unat (pmm_free_blocks (phys (km (mm k))))" "set ts \<subseteq> owned_pages (phys (km (mm k)))"
    "(of_nat len :: u32) < 0x80000000"
    using l(9,10) room(1) tasks(2) q(1) small by (auto simp: km kheap_inv_def load_pages_def word_less_nat_alt unat_of_nat_u32)
  note start = start_ok [OF this(1,2) list this(3) fill(1) [where k = "sk y", folded k] this(4), unfolded km(1-3)]
  then obtain t k' d m' where
    t: "task_new proc k = (t, k')" "t \<noteq> 0" "t \<notin> owned_pages (phys s3)"
      "process_map_memory proc (store32 (kram k') (proc + 112) t) = (0, m')" "process_task m' proc = t"
      "load32 m' (task_chunk m' t) = d" "fresh_task m' t (task_chunk m' t) proc" "task_list (set_ram m' k') (ts @ [t])"
      "page_aligned (task_chunk m' t)" "task_chunk m' t \<in> owned_pages (phys (km (mm k'))) - insert t (owned_pages (phys s3))"
      "program_space m' d P (of_nat len) T (owned_pages (phys (km (mm k'))) - insert t (owned_pages (phys s3)))"
      "kheap_inv (km (mm k'))" "insert t (owned_pages (phys s3)) \<subseteq> owned_pages (phys (km (mm k')))"
      "unat (pmm_free_blocks (phys s3)) = 1027 + unat (pmm_free_blocks (phys (km (mm k'))))"
      "current_task k' = (if ts = [] then t else current_task (sk y))"
      "\<forall>x. page_of x \<in> owned_pages (phys s3) - set ts \<and> 4 \<le> x - (proc + 112) \<longrightarrow> m' x = m x"
      "\<forall>u \<in> set ts. \<forall>j < 14. load32 m' (field u j) = load32 m (field u j)"
    by blast
  let ?O' = "owned_pages (phys (km (mm k')))" and ?m = "store32 m' process proc"
  let ?k = "set_ram ?m k'"
  have ptr': "x - process < 4 \<Longrightarrow> page_of x \<in> owned_pages (phys s) - set ts" for x using ptr by blast
  have keep: "?m x = m' x" if "page_of x \<notin> owned_pages (phys s) - set ts" for x
    using ptr' [of x] that by (intro store32_other) (auto simp: not_less [symmetric])
  have tal: "page_aligned t" using t(8) by (auto simp: task_list_def forward_def)
  have tnew: "t \<notin> owned_pages (phys s)" using t(3) q(1) by blast
  have "page_of x \<notin> set (ts @ [t])" if "x - process < 4" for x using ptr' [OF that] tnew by auto
  note spare = store32_spares_tasks [OF t(8) this, where v = proc, simplified]
  have same: "same_page m' ?m w" if "w \<in> set (ts @ [t])" for w using spare(1) that by simp
  have list': "task_list ?k (ts @ [t])" using spare(2) by (simp add: task_list_def list_ends_def)
  have "program_started m' (?O' - owned_pages (phys s)) proc t bs ?code"
    by (rule loaded_started [OF l(6) path(2) fill(3,4) t(13) q(1) tasks(2) t(3) tal t(5-7,9,10) _ t(16) [rule_format]])
      (use t(11) in simp_all)
  then have started: "program_started ?m (?O' - owned_pages (phys s)) proc t bs ?code"
  proof (rule program_started_cong)
    show "?m x = m' x" if "page_of x \<in> ?O' - owned_pages (phys s) - {t}" for x using keep that by blast
    show "load32 ?m (field t j) = load32 m' (field t j)" if "j < 14" for j using same_page_regs [OF same that] by simp
  qed
  have frame: "?m x = ram s x" if "page_of x \<in> owned_pages (phys s) - set ts" "\<not> load_noise env stk v x" "\<not> x - process < 4" for x
  proof -
    have "\<not> x - (proc + 112) < 4" using far [of x] that(1) near_within [of x proc 112 4 4224] by auto
    then have "m' x = m x" using t(16) q(1) that(1) by auto
    then show ?thesis using that m_old store32_other [of x process m' proc] by simp
  qed
  have regs: "load32 ?m (field w j) = load32 (ram s) (field w j)" if "w \<in> set ts" "j < 14" for w j
    using same_page_regs [OF same that(2)] same_page_regs [OF pages that(2)] t(17) that by simp
  have id: "load16 ?m proc = word_of_int sl"
  proof -
    have "?m x = m x" if x: "x - proc < 2" for x
    proof -
      have "x - proc < 4224" using x by (rule order.strict_trans) simp
      then have n: "page_of x \<notin> owned_pages (phys s)" "page_of x \<in> owned_pages (phys s3)"
        using l(6) fresh_region_page [of s s3 proc 4224 x] by (auto simp: loaded_def)
      obtain z where z: "z = x - proc" by blast
      then have "x - (proc + 112) = z - 112" by simp
      moreover have "4 \<le> z - 112" using x unfolding z [symmetric] by (simp add: word_le_nat_alt word_less_nat_alt unat_sub_if')
      ultimately have "4 \<le> x - (proc + 112)" by (simp only:)
      then have "m' x = m x" using t(16) n tasks(2) by blast
      then show ?thesis using keep n by simp
    qed
    from this [of proc] this [of "proc + 1"] show ?thesis using fill(2) by (simp add: load16_def)
  qed
  note run = for_slot_run [OF slot(3) l(1) [unfolded s] l(2-5) m t(1) [unfolded k] t(2,4)]
  have "pmm_system_memory_size (phys (km (mm k'))) = pmm_system_memory_size (phys s)" using task_new_size [OF t(1)] km(2) q(2) by simp
  moreover have "unat (pmm_free_blocks (phys s)) = load_pages len + unat (pmm_free_blocks (phys (km (mm k'))))"
    using l(10) t(14) by (simp add: load_pages_def)
  moreover have "owned_pages (phys s) \<subseteq> ?O'" using q(1) t(13) by blast
  moreover have "kheap_inv (km (mm ?k))" using t(12) by (simp add: kheap_inv_def)
  ultimately have "started_from (sk y) ts (\<lambda>x. load_noise env stk v x \<or> x - process < 4) (load_pages len) ?k t"
    using list' t(15) frame regs unfolding started_from_def Let_def s [symmetric] by simp
  moreover have "load32 ?m process = proc" by simp
  ultimately show ?thesis using run l(2,7) started id
    by (intro exI [of _ proc] exI [of _ t] exI [of _ desc] exI [of _ ?k]) simp
qed

text \<open>
  The state the loader starts in: mounted volume, heap and task list in order, the tasks' pages apart from what loading reads or
  scribbles on. \<open>enough_memory\<close>: the programs of the given lengths take
  \<open>load_pages\<close> each, and so few pages are in use at the end that at any time there are runs of free pages for a stack (four pages) and for
  each of the programs: a run of \<open>n\<close> pages is free somewhere when less than one page in \<open>n\<close> is in use.
\<close>

definition loader_state ::
    "proc_env \<Rightarrow> (u32 \<Rightarrow> u8 list) \<Rightarrow> fat_stack \<Rightarrow> u8 list \<Rightarrow> fat_volume \<Rightarrow> dir_view \<Rightarrow> kernel \<Rightarrow> u32 list \<Rightarrow> bool" where
  "loader_state env img stk digits v d k ts \<longleftrightarrow> (let s = km (mm k) in
     loader_ready env img stk digits v d s \<and> kheap_inv s \<and> pmm_system_memory_size (phys s) < 0x100000 \<and>
     task_list k ts \<and> set ts \<subseteq> owned_pages (phys s) \<and>
     (\<forall>x. page_of x \<in> set ts \<longrightarrow> \<not> load_noise env stk v x \<and> \<not> load_cell env v d x))"

definition enough_memory :: "nat list \<Rightarrow> pmm \<Rightarrow> bool" where
  "enough_memory lens p \<longleftrightarrow> sum_list (map load_pages lens) \<le> unat (pmm_free_blocks p) \<and>
     (\<forall>len \<in> set lens. max 4 (program_pages len) * (unat (pmm_used_blocks p) + sum_list (map load_pages lens)) <
        unat (pmm_system_memory_size p))"

lemma enough_first:
  assumes "enough_memory (len # lens) p"
  shows "load_pages len \<le> unat (pmm_free_blocks p)"
    "max 4 (program_pages len) * (unat (pmm_used_blocks p) + (12 + program_pages len)) + 1 < unat (pmm_system_memory_size p)"
proof -
  show "load_pages len \<le> unat (pmm_free_blocks p)" using assms by (simp add: enough_memory_def)
  let ?N = "max 4 (program_pages len)"
  have "?N * (unat (pmm_used_blocks p) + (12 + program_pages len) + 1) \<le> ?N * (unat (pmm_used_blocks p) + sum_list (map load_pages (len # lens)))"
    by (intro mult_le_mono) (simp_all add: load_pages_def)
  also have "\<dots> < unat (pmm_system_memory_size p)" using assms by (simp add: enough_memory_def)
  finally show "?N * (unat (pmm_used_blocks p) + (12 + program_pages len)) + 1 < unat (pmm_system_memory_size p)"
    by (simp add: algebra_simps)
qed

text \<open>A call: the name of the program at \<open>path\<close>, and the pointer to fill in.\<close>

definition load_request ::
    "proc_env \<Rightarrow> fat_stack \<Rightarrow> fat_volume \<Rightarrow> kmem \<Rightarrow> u32 list \<Rightarrow> u32 \<Rightarrow> u32 \<Rightarrow> u8 list \<Rightarrow> u8 list \<Rightarrow> bool" where
  "load_request env stk v s ts process path bs w \<longleftrightarrow> cstring (ram s) path bs \<and> length bs < 108 \<and>
     region_in_use s path 108 \<and> root_file_path bs w \<and>
     (\<forall>i \<le> length bs. \<not> load_noise env stk v (path + of_nat i) \<and> page_of (path + of_nat i) \<notin> set ts) \<and>
     (\<forall>x. x - process < 4 \<longrightarrow> page_of x \<in> owned_pages (phys s) - set ts \<and> \<not> load_noise env stk v x)"

lemma free_process_slot: "process_get_free_slot y = sl \<Longrightarrow> 0 \<le> sl \<Longrightarrow> process_get sl y = 0"
  by (auto simp: process_get_free_slot_def process_get_def first_index_Some split: option.splits)

lemma process_load_ok:
  assumes st: "loader_state env img stk digits v d (sk y) ts" "enough_memory (len # lens) (phys (km (mm (sk y))))"
    and prog: "program_file img stk v cs d j len (km (mm (sk y)))" "0 < len"
    and req: "load_request env stk v (km (mm (sk y))) ts process path bs (d_wanted d)"
    and slot: "free_slot (sv y) i" "length (file_descriptors (sv y)) = 512" "process_get_free_slot y = sl" "0 \<le> sl"
  shows "\<exists>proc t desc k'. process_load env path process y = Some (sl, y\<lparr>sk := k',
        sv := (sv y)\<lparr>file_descriptors := (file_descriptors (sv y))[i := desc]\<rparr>,
        processes := (processes y)[nat sl := proc]\<rparr>) \<and> desc \<noteq> 0 \<and> proc \<noteq> 0 \<and>
    load32 (kram k') process = proc \<and> load16 (kram k') proc = word_of_int sl \<and>
    program_started (kram k') (owned_pages (phys (km (mm k'))) - owned_pages (phys (km (mm (sk y))))) proc t bs
      (map (file_byte img v cs) [0..<len]) \<and>
    started_from (sk y) ts (\<lambda>x. load_noise env stk v x \<or> x - process < 4) (load_pages len) k' t"
proof -
  have s: "loader_ready env img stk digits v d (km (mm (sk y)))" "kheap_inv (km (mm (sk y)))"
    "pmm_system_memory_size (phys (km (mm (sk y)))) < 0x100000" "task_list (sk y) ts"
    "set ts \<subseteq> owned_pages (phys (km (mm (sk y))))" "\<forall>x. page_of x \<in> set ts \<longrightarrow> \<not> load_noise env stk v x"
    using st(1) by (simp_all add: loader_state_def Let_def)
  have r: "cstring (kram (sk y)) path bs" "length bs < 108" "region_in_use (km (mm (sk y))) path 108"
    "root_file_path bs (d_wanted d)" "\<forall>i \<le> length bs. \<not> load_noise env stk v (path + of_nat i)"
    "\<forall>x. x - process < 4 \<longrightarrow> page_of x \<in> owned_pages (phys (km (mm (sk y)))) - set ts"
    using req by (simp_all add: load_request_def)
  note room = enough_first [OF st(2)]
  from load_for_slot_ok [OF refl s(1,2) room(1) s(3) room(2) r(1-5) prog slot(1,2) free_process_slot [OF slot(3,4)] s(4-6) r(6)]
  obtain proc t desc k' where p: "process_load_for_slot env path process sl y = Some (1, y\<lparr>sk := k',
        sv := (sv y)\<lparr>file_descriptors := (file_descriptors (sv y))[i := desc]\<rparr>, processes := (processes y)[nat sl := proc]\<rparr>)"
      "desc \<noteq> 0" "proc \<noteq> 0" "load32 (kram k') process = proc" "load16 (kram k') proc = word_of_int sl"
      "program_started (kram k') (owned_pages (phys (km (mm k'))) - owned_pages (phys (km (mm (sk y))))) proc t bs
        (map (file_byte img v cs) [0..<len])"
      "started_from (sk y) ts (\<lambda>x. load_noise env stk v x \<or> x - process < 4) (load_pages len) k' t" by blast
  have "process_load env path process y = Some (sl, y\<lparr>sk := k',
        sv := (sv y)\<lparr>file_descriptors := (file_descriptors (sv y))[i := desc]\<rparr>, processes := (processes y)[nat sl := proc]\<rparr>)"
    using p(1) slot(3,4) by (simp add: process_load_def Let_def)
  then show ?thesis using p(2-7) by blast
qed

text \<open>C6: Starting a program. \<open>process_load\<close> of a file of the root directory, with a free slot in the tables of
  open files and processes and \<open>enough_memory\<close> for its length (1043 pages and its own free, and less than one page in \<open>n\<close> in use, for runs of \<open>n\<close> pages), returns the slot, and stores the new process at the pointer it was given. The process has its slot as
  identifier, the name, and a new task at the end of the list; the task's registers are those of a fresh program, and through its page
  directory the processor sees the bytes of the file from \<open>0x400000\<close> on and 16 KiB of zeros as its stack. The call takes 1043 pages, those of the program and one descriptor; the
  task is the current one when it is the first; the registers of the other tasks are unchanged.\<close>

theorem process_load_correct:
  assumes "loader_state env img stk digits v d (sk y) ts" and "enough_memory [len] (phys (km (mm (sk y))))"
    and "program_file img stk v cs d j len (km (mm (sk y)))" and "0 < len"
    and "load_request env stk v (km (mm (sk y))) ts process path bs (d_wanted d)"
    and "free_slot (sv y) i" and "length (file_descriptors (sv y)) = 512" and "process_get_free_slot y = sl" and "0 \<le> sl"
  shows "\<exists>proc t desc k'. process_load env path process y = Some (sl, y\<lparr>sk := k',
        sv := (sv y)\<lparr>file_descriptors := (file_descriptors (sv y))[i := desc]\<rparr>,
        processes := (processes y)[nat sl := proc]\<rparr>) \<and>
    load32 (kram k') process = proc \<and> load16 (kram k') proc = word_of_int sl \<and>
    runs_program (kram k') proc t bs (map (file_byte img v cs) [0..<len]) \<and> task_list k' (ts @ [t]) \<and> kheap_inv (km (mm k')) \<and>
    unat (pmm_free_blocks (phys (km (mm (sk y))))) = 1043 + program_pages len + unat (pmm_free_blocks (phys (km (mm k')))) \<and>
    current_task k' = (if ts = [] then t else current_task (sk y)) \<and>
    (\<forall>u \<in> set ts. \<forall>b < 14. load32 (kram k') (field u b) = load32 (kram (sk y)) (field u b))"
proof -
  from process_load_ok [OF assms(1-9)] obtain proc t desc k' where
    p: "process_load env path process y = Some (sl, y\<lparr>sk := k',
        sv := (sv y)\<lparr>file_descriptors := (file_descriptors (sv y))[i := desc]\<rparr>, processes := (processes y)[nat sl := proc]\<rparr>)"
      "load32 (kram k') process = proc" "load16 (kram k') proc = word_of_int sl"
      "program_started (kram k') (owned_pages (phys (km (mm k'))) - owned_pages (phys (km (mm (sk y))))) proc t bs
        (map (file_byte img v cs) [0..<len])"
      "started_from (sk y) ts (\<lambda>x. load_noise env stk v x \<or> x - process < 4) (load_pages len) k' t" by blast
  then show ?thesis using program_started_runs [OF p(4)] unfolding started_from_def Let_def load_pages_def
    by (intro exI [of _ proc] exI [of _ t] exI [of _ desc] exI [of _ k']) simp
qed

section \<open>The demo program started\<close>

lemma demo_noise:
  assumes "load_noise load_env demo_stack demo_volume x"
  shows "x - 0x5200 < 108 \<or> x - 0x3000 < 4 \<or> x - 0x4000 < 4 \<or> x - 0x5000 < 2 \<or> x - 0x5300 < 8"
  using assms by (auto simp: load_noise_def vol_scratch_def demo_volume_def demo_stack_def load_env_def)

lemma demo_cell_near:
  assumes "load_cell load_env demo_volume open_view x"
  shows "x = 0xB000 \<or> x - 0x2040 < 16 \<or> x - 0x9000 < 64 \<or> vol_cell demo_volume x"
  using assms open_cells by (auto simp: load_cell_def load_env_def)

lemma demo_apart:
  assumes "load_noise load_env demo_stack demo_volume x"
  shows "\<not> load_cell load_env demo_volume open_view x"
proof
  note n = demo_noise [OF assms]
  have far: "\<not> x - 0x2040 < 16" "\<not> x - 0x9000 < 64" "\<not> x - 0x1000 < 20" "\<not> x - 0x2000 < 92" "\<not> x - 0x3004 < 4" "\<not> x - 0x4004 < 4"
    "\<not> x - 0xB000 < 1"
    using n by - (elim disjE; erule far_apart; simp)+
  assume "load_cell load_env demo_volume open_view x"
  then show False using demo_cell_near [of x] far by (auto simp: vol_cell_def demo_volume_def)
qed

lemma demo_far:
  assumes "load_noise load_env demo_stack demo_volume x"
  shows "\<not> x - 0xA000 < 9" "\<not> x - 0xE000 < 8"
  using demo_noise [OF assms] by - (elim disjE; erule far_apart; simp)+

lemma demo_ready: "loader_ready load_env demo_disk demo_stack [] demo_volume open_view open_kmem"
proof -
  have env: "pe_disk load_env = 0x1000" "pe_mode_r load_env = 0xB000" "stk_name demo_stack = 0x5200"
    by (simp_all add: load_env_def demo_stack_def)
  have "ram open_kmem 0xB000 = 114" by (simp add: open_kmem_def open_ram_def)
  moreover have "page_of x \<in> owned_pages (phys open_kmem)"
    if "load_noise load_env demo_stack demo_volume x \<or> load_cell load_env demo_volume open_view x" for x
    using that
  proof
    assume "load_noise load_env demo_stack demo_volume x"
    then have "x - 0x3000 < 4096 \<or> x - 0x4000 < 4096 \<or> x - 0x5000 < 4096"
      using demo_noise [of x] near_page [of x "0x5000" "0x200" 108] near_page [of x "0x5000" "0x300" 8] near_page [of x "0x3000" 0 4]
        near_page [of x "0x4000" 0 4] near_page [of x "0x5000" 0 2] by auto
    then show ?thesis
      using open_page [of "0x3000" x] open_page [of "0x4000" x] open_page [of "0x5000" x] by (auto simp: page_aligned_def)
  next
    assume "load_cell load_env demo_volume open_view x"
    then consider "x = 0xB000" | "table_cell open_view x" | "vol_cell demo_volume x" by (auto simp: load_cell_def env)
    then show ?thesis
    proof cases
      case 1
      then show ?thesis using open_page [of "0xB000" x] by (simp add: page_aligned_def)
    next
      case 2
      then show ?thesis using open_fat_disk by (simp add: fat_disk_def)
    next
      case 3
      then show ?thesis using open_volume by (simp add: volume_in_use_def)
    qed
  qed
  moreover have "\<forall>x. x - pe_stat load_env < 8 \<longrightarrow> \<not> vol_scratch demo_volume x"
    using load_places_demo by (simp add: load_places_def)
  ultimately show ?thesis
    using open_fat_disk open_volume demo_apart unfolding loader_ready_def env by (simp add: load_env_def demo_volume_def)
qed

lemma demo_state: "loader_state load_env demo_disk demo_stack [] demo_volume open_view (sk load_system) []"
proof -
  have "km (mm (sk load_system)) = open_kmem" "task_list (sk load_system) []"
    by (simp_all add: load_system_def task_list_def forward_def backward_def list_ends_def)
  moreover have "kheap_inv open_kmem" using kmem_boot_inv by (simp add: open_kmem_def kheap_inv_def)
  ultimately show ?thesis using demo_ready by (simp add: loader_state_def Let_def open_kmem_def)
qed

lemma demo_request: "a = 0xE000 \<or> a = 0xE004 \<Longrightarrow>
    load_request load_env demo_stack demo_volume open_kmem [] a 0xA000 [48, 58, 47, 115, 104, 101, 108, 108] (d_wanted open_view)"
  unfolding load_request_def
proof (intro conjI allI impI)
  assume a: "a = 0xE000 \<or> a = 0xE004"
  show "cstring (ram open_kmem) 0xA000 [48, 58, 47, 115, 104, 101, 108, 108]"
    "root_file_path [48, 58, 47, 115, 104, 101, 108, 108] (d_wanted open_view)" by (rule open_path)+
  have "page_of (0xA000 + of_nat i) \<in> owned_pages (phys open_kmem)" if "i < 108" for i
    using that by (intro open_page [of "0xA000"]) (simp_all add: page_aligned_def word_less_nat_alt unat_of_nat_u32)
  then show "region_in_use open_kmem 0xA000 108" by (simp add: region_in_use_def)
  fix x :: u32
  show "\<not> load_noise load_env demo_stack demo_volume (0xA000 + of_nat i)"
    if "i \<le> length [48, 58, 47, 115, 104, 101, 108, 108 :: u8]" for i
  proof
    let ?x = "0xA000 + of_nat i :: u32"
    assume "load_noise load_env demo_stack demo_volume ?x"
    from demo_far(1) [OF this] show False using that by (simp add: word_less_nat_alt unat_of_nat_u32)
  qed
  assume x: "x - a < 4"
  have "x - 0xE000 < 4096" using near_page [of x "0xE000" 0 4] near_page [of x "0xE000" 4 4] a x by auto
  then show "page_of x \<in> owned_pages (phys open_kmem) - set []" using open_page [of "0xE000" x] by (simp add: page_aligned_def)
  show "\<not> load_noise load_env demo_stack demo_volume x"
  proof
    assume "load_noise load_env demo_stack demo_volume x"
    from demo_far(2) [OF this] show False using a x near_within [of x "0xE000" 0 4 8] near_within [of x "0xE000" 4 4 8] by auto
  qed
qed simp_all

lemma process_load_correct_witness:
  "\<exists>y' t d. process_load load_env 0xA000 0xE000 load_system = Some (0, y') \<and> task_list (sk y') [t] \<and>
    load32 (sram y') (task_chunk (sram y') t) = d \<and> user_byte (sram y') d 0x400257 = Some (file_byte demo_disk demo_volume [2, 5] 599)"
proof -
  have k: "km (mm (sk load_system)) = open_kmem" by (simp add: load_system_def)
  have mem: "enough_memory [600] (phys (km (mm (sk load_system))))"
    unfolding k by (simp add: enough_memory_def load_pages_def program_pages_def open_kmem_def)
  have slot: "free_slot (sv load_system) 1" "length (file_descriptors (sv load_system)) = 512" "process_get_free_slot load_system = 0"
    using first_index_Some [of "\<lambda>p. p = 0" "replicate 12 (0 :: u32)" 0]
    by (simp_all add: free_slot_def vfs_boot_def load_system_def process_get_free_slot_def)
  from process_load_correct [OF demo_state mem _ _ _ slot order.refl, unfolded k, OF load_program _ demo_request [of "0xE000"]]
  obtain proc t desc k' where r:
    "process_load load_env 0xA000 0xE000 load_system = Some (0, load_system\<lparr>sk := k',
      sv := (sv load_system)\<lparr>file_descriptors := (file_descriptors (sv load_system))[1 := desc]\<rparr>,
      processes := (processes load_system)[nat 0 := proc]\<rparr>)" "task_list k' [t]"
    "runs_program (kram k') proc t [48, 58, 47, 115, 104, 101, 108, 108] (map (file_byte demo_disk demo_volume [2, 5]) [0..<600])"
    by auto
  let ?d = "load32 (kram k') (task_chunk (kram k') t)"
  have "\<forall>b < 600. user_byte (kram k') ?d (0x400000 + of_nat b) = Some (file_byte demo_disk demo_volume [2, 5] b)"
    using r(3) by (simp add: runs_program_def Let_def)
  from this [rule_format, of 599] have "user_byte (kram k') ?d 0x400257 = Some (file_byte demo_disk demo_volume [2, 5] 599)" by simp
  then show ?thesis using r(2) by (intro exI conjI) (rule r(1), simp_all)
qed

end
