(* ===== verification/Boot.thy ===== *)
theory Boot imports ProcessStart System
begin

text \<open>
  The programs that \<open>kernel_main\<close> of \<open>src/src/kernel.c\<close> loads one after the other: every one of them ends up as a task
  of the list, in order, with its own file in its own address space.
\<close>

section \<open>A list of programs\<close>

record program =
  pg_pointer :: u32
  pg_name :: u32
  pg_path :: "u8 list"
  pg_wanted :: "u8 list"
  pg_clusters :: "nat list"
  pg_entry :: nat
  pg_len :: nat

definition program_ok ::
    "proc_env \<Rightarrow> (u32 \<Rightarrow> u8 list) \<Rightarrow> fat_stack \<Rightarrow> fat_volume \<Rightarrow> dir_view \<Rightarrow> kmem \<Rightarrow> u32 list \<Rightarrow> program \<Rightarrow> bool" where
  "program_ok env img stk v d s ts q \<longleftrightarrow> load_request env stk v s ts (pg_pointer q) (pg_name q) (pg_path q) (pg_wanted q) \<and>
     program_file img stk v (pg_clusters q) (d\<lparr>d_wanted := pg_wanted q\<rparr>) (pg_entry q) (pg_len q) s \<and>
     0 < pg_len q"

definition program_bytes :: "(u32 \<Rightarrow> u8 list) \<Rightarrow> fat_volume \<Rightarrow> program \<Rightarrow> u8 list" where
  "program_bytes img v q = map (file_byte img v (pg_clusters q)) [0..<pg_len q]"

text \<open>The pointers lie apart from each other, from what loading reads and from the names.\<close>

definition pointers_ok :: "proc_env \<Rightarrow> fat_volume \<Rightarrow> dir_view \<Rightarrow> program list \<Rightarrow> bool" where
  "pointers_ok env v d qs \<longleftrightarrow> (\<forall>q \<in> set qs. \<forall>x. x - pg_pointer q < 4 \<longrightarrow> \<not> load_cell env v d x \<and>
       (\<forall>q' \<in> set qs. \<forall>i \<le> length (pg_path q'). x \<noteq> pg_name q' + of_nat i)) \<and>
     sorted_wrt (\<lambda>q q'. \<forall>x. x - pg_pointer q < 4 \<longrightarrow> \<not> x - pg_pointer q' < 4) qs"

text \<open>The tables of open files and of processes are filled from below.\<close>

definition descriptors_from :: "nat \<Rightarrow> vfs \<Rightarrow> bool" where
  "descriptors_from a v \<longleftrightarrow> length (file_descriptors v) = 512 \<and> 1 \<le> a \<and>
     (\<forall>j < 512. 1 \<le> j \<longrightarrow> file_descriptors v ! j = 0 \<longleftrightarrow> a \<le> j)"

definition processes_from :: "nat \<Rightarrow> system \<Rightarrow> bool" where
  "processes_from b y \<longleftrightarrow> length (processes y) = MAX_PROCESSES \<and> (\<forall>j < MAX_PROCESSES. processes y ! j = 0 \<longleftrightarrow> b \<le> j)"

lemma descriptors_slot: "descriptors_from a v \<Longrightarrow> a < 512 \<Longrightarrow> free_slot v a"
  by (auto simp: descriptors_from_def free_slot_def)

lemma descriptors_next:
  "descriptors_from a v \<Longrightarrow> a < 512 \<Longrightarrow> p \<noteq> 0 \<Longrightarrow>
    descriptors_from (Suc a) (v\<lparr>file_descriptors := (file_descriptors v)[a := p]\<rparr>)"
  by (auto simp: descriptors_from_def nth_list_update)

lemma processes_slot: "processes_from b y \<Longrightarrow> b < MAX_PROCESSES \<Longrightarrow> process_get_free_slot y = int b"
  using first_index_Some [of "\<lambda>p. p = 0" "processes y" b] by (simp add: processes_from_def process_get_free_slot_def)

lemma processes_next:
  "processes_from b y \<Longrightarrow> b < MAX_PROCESSES \<Longrightarrow> p \<noteq> 0 \<Longrightarrow> processes y' = (processes y)[b := p] \<Longrightarrow> processes_from (Suc b) y'"
  by (auto simp: processes_from_def nth_list_update)

section \<open>From one load to the next\<close>

text \<open>Nothing the loader reads depends on the name that is wanted.\<close>

lemma wanted_only [simp]:
  "dir_table m (d\<lparr>d_wanted := w\<rparr>) = dir_table m d" "table_cell (d\<lparr>d_wanted := w\<rparr>) = table_cell d"
  "load_cell env v (d\<lparr>d_wanted := w\<rparr>) = load_cell env v d"
  by (auto simp: dir_table_def table_cell_def d_item_def load_cell_def fun_eq_iff)

lemma loader_state_wanted [simp]:
  "loader_state env img stk digits v (d\<lparr>d_wanted := w\<rparr>) k ts = loader_state env img stk digits v d k ts"
  by (simp add: loader_state_def loader_ready_def fat_disk_def Let_def)

text \<open>\<open>advance\<close>: a later state of the heap and the task list, in which only new pages, links of tasks and \<open>noise\<close> differ.\<close>

definition advance :: "(u32 \<Rightarrow> bool) \<Rightarrow> kmem \<Rightarrow> u32 list \<Rightarrow> kmem \<Rightarrow> u32 list \<Rightarrow> bool" where
  "advance noise s ts s' ts' \<longleftrightarrow> kheap_inv s' \<and> owned_pages (phys s) \<subseteq> owned_pages (phys s') \<and>
     pmm_system_memory_size (phys s') = pmm_system_memory_size (phys s) \<and>
     set ts \<subseteq> set ts' \<and> set ts' \<subseteq> owned_pages (phys s') \<and> set ts' \<inter> owned_pages (phys s) \<subseteq> set ts \<and>
     (\<forall>x. page_of x \<in> owned_pages (phys s) - set ts \<and> \<not> noise x \<longrightarrow> ram s' x = ram s x)"

lemma advance_keeps: "advance n s ts s' ts' \<Longrightarrow> page_of x \<in> owned_pages (phys s) - set ts \<Longrightarrow> \<not> n x \<Longrightarrow> ram s' x = ram s x"
  by (simp add: advance_def)

lemma advance_page: "advance n s ts s' ts' \<Longrightarrow> p \<in> owned_pages (phys s) - set ts \<Longrightarrow> p \<in> owned_pages (phys s') - set ts'"
  unfolding advance_def by blast

lemma advance_trans:
  assumes a: "advance n1 s ts s1 ts1" and b: "advance n2 s1 ts1 s2 ts2" and n: "\<And>x. n1 x \<or> n2 x \<Longrightarrow> n x"
  shows "advance n s ts s2 ts2"
  unfolding advance_def
proof (intro conjI allI impI)
  fix x assume x: "page_of x \<in> owned_pages (phys s) - set ts \<and> \<not> n x"
  then have p: "page_of x \<in> owned_pages (phys s) - set ts" "\<not> n1 x" "\<not> n2 x" using n [of x] by blast+
  then show "ram s2 x = ram s x" using advance_keeps [OF b advance_page [OF a p(1)] p(3)] advance_keeps [OF a p(1,2)] by simp
qed (use a b in \<open>auto simp: advance_def\<close>)

lemma loader_state_advance:
  assumes st: "loader_state env img stk digits v d k ts" and a: "advance n (km (mm k)) ts (km (mm k')) ts'"
    and list: "task_list k' ts'" and n: "\<And>x. n x \<Longrightarrow> \<not> load_cell env v d x"
  shows "loader_state env img stk digits v d k' ts'"
proof -
  let ?O = "owned_pages (phys (km (mm k)))"
  have s: "loader_ready env img stk digits v d (km (mm k))" "pmm_system_memory_size (phys (km (mm k))) < 0x100000"
    "\<forall>x. page_of x \<in> set ts \<longrightarrow> \<not> load_noise env stk v x \<and> \<not> load_cell env v d x"
    using st by (simp_all add: loader_state_def Let_def)
  have cell: "page_of x \<in> ?O" if "load_noise env stk v x \<or> load_cell env v d x" for x
    using s(1) that unfolding loader_ready_def by blast
  have "kram k' x = kram k x" if "load_cell env v d x" for x
    using cell [of x] s(3) n [of x] that by (intro advance_keeps [OF a]) auto
  then have "loader_ready env img stk digits v d (km (mm k'))"
    using a by (intro loader_ready_cong [OF s(1)]) (auto simp: advance_def)
  moreover have "\<not> load_noise env stk v x \<and> \<not> load_cell env v d x" if "page_of x \<in> set ts'" for x
    using that a cell [of x] s(3) by (auto simp: advance_def)
  ultimately show ?thesis using a list s(2) by (simp add: loader_state_def advance_def Let_def)
qed

lemma program_ok_advance:
  assumes st: "loader_state env img stk digits v d k ts" and p: "program_ok env img stk v d (km (mm k)) ts q"
    and a: "advance n (km (mm k)) ts (km (mm k')) ts'" and st': "loader_state env img stk digits v d k' ts'"
    and n: "\<And>x. n x \<Longrightarrow> load_noise env stk v x \<or> \<not> load_cell env v d x \<and> (\<forall>i \<le> length (pg_path q). x \<noteq> pg_name q + of_nat i)"
  shows "program_ok env img stk v d (km (mm k')) ts' q"
proof -
  let ?s = "km (mm k)" and ?s' = "km (mm k')"
  have r: "cstring (ram ?s) (pg_name q) (pg_path q)" "length (pg_path q) < 108" "region_in_use ?s (pg_name q) 108"
    "\<forall>i \<le> length (pg_path q). \<not> load_noise env stk v (pg_name q + of_nat i) \<and> page_of (pg_name q + of_nat i) \<notin> set ts"
    "\<forall>x. x - pg_pointer q < 4 \<longrightarrow> page_of x \<in> owned_pages (phys ?s) - set ts"
    using p by (auto simp: program_ok_def load_request_def)
  have ready: "loader_ready env img stk digits v d ?s" "loader_ready env img stk digits v d ?s'"
    "\<forall>x. page_of x \<in> set ts \<longrightarrow> \<not> load_cell env v d x" using st st' by (simp_all add: loader_state_def Let_def)
  have cell: "page_of x \<in> owned_pages (phys ?s) - set ts \<and> \<not> load_noise env stk v x" if "load_cell env v d x" for x
    using ready(1,3) that unfolding loader_ready_def by blast
  then have same: "ram ?s' x = ram ?s x" if "load_cell env v d x" for x
    using n [of x] that by (intro advance_keeps [OF a]) blast+
  have name: "page_of (pg_name q + of_nat i) \<in> owned_pages (phys ?s) - set ts" if "i \<le> length (pg_path q)" for i
    using that r(2-4) by (simp add: region_in_use_def)
  have "cstring (ram ?s') (pg_name q) (pg_path q)"
  proof (rule cstring_cong [OF r(1)])
    fix i assume i: "i \<le> length (pg_path q)"
    then have "\<not> n (pg_name q + of_nat i)" using n r(4) by blast
    then show "ram ?s' (pg_name q + of_nat i) = ram ?s (pg_name q + of_nat i)" by (rule advance_keeps [OF a name [OF i]])
  qed
  moreover have "region_in_use ?s' (pg_name q) 108" using r(3) a by (auto simp: region_in_use_def advance_def)
  moreover have "page_of (pg_name q + of_nat i) \<notin> set ts'" if "i \<le> length (pg_path q)" for i
    using advance_page [OF a name [OF that]] by blast
  moreover have "page_of x \<in> owned_pages (phys ?s') - set ts'" if "x - pg_pointer q < 4" for x
    using advance_page [OF a] r(5) that by blast
  ultimately have req: "load_request env stk v ?s' ts' (pg_pointer q) (pg_name q) (pg_path q) (pg_wanted q)"
    using p by (auto simp: program_ok_def load_request_def)
  have "loader_ready env img stk digits v (d\<lparr>d_wanted := pg_wanted q\<rparr>) ?s'"
    using ready(2) by (simp add: loader_ready_def fat_disk_def)
  from program_file_cong [OF _ this] same p req show ?thesis by (auto simp: program_ok_def)
qed

text \<open>Clearing a pointer, and loading a program, advance the state.\<close>

lemma clear_pointer_ok:
  assumes st: "loader_state env img stk digits v d (sk y) ts"
    and ptr: "\<forall>x. x - p < 4 \<longrightarrow> page_of x \<in> owned_pages (phys (km (mm (sk y)))) - set ts"
    and y0: "y0 = sys_ram (store32 (sram y) p 0) y"
  shows "advance (\<lambda>x. x - p < 4) (km (mm (sk y))) ts (km (mm (sk y0))) ts" "task_list (sk y0) ts"
    "phys (km (mm (sk y0))) = phys (km (mm (sk y)))" "sv y0 = sv y" "processes y0 = processes y" "current_task (sk y0) = current_task (sk y)"
    "\<forall>u \<in> set ts. \<forall>j < 14. load32 (sram y0) (field u j) = load32 (sram y) (field u j)"
proof -
  have m: "sram y0 = store32 (sram y) p 0" by (simp add: y0 sys_ram_def)
  show ph: "phys (km (mm (sk y0))) = phys (km (mm (sk y)))" "sv y0 = sv y" "processes y0 = processes y"
    "current_task (sk y0) = current_task (sk y)" by (simp_all add: y0 sys_ram_def)
  have k: "kheap_inv (km (mm (sk y)))" "task_list (sk y) ts" "set ts \<subseteq> owned_pages (phys (km (mm (sk y))))"
    using st by (simp_all add: loader_state_def Let_def)
  have "big_blocks (km (mm (sk y0))) = big_blocks (km (mm (sk y)))" by (simp add: y0 sys_ram_def)
  then have "kheap_inv (km (mm (sk y0)))" using k(1) ph(1) by (simp add: kheap_inv_def)
  moreover have "sram y0 x = sram y x" if "\<not> x - p < 4" for x using that by (simp add: m store32_other)
  ultimately show "advance (\<lambda>x. x - p < 4) (km (mm (sk y))) ts (km (mm (sk y0))) ts"
    using k(3) ph(1) by (simp add: advance_def)
  have "page_of x \<notin> set ts" if "x - p < 4" for x using ptr that by blast
  note spare = store32_spares_tasks [OF k(2) this, where v = 0]
  show "task_list (sk y0) ts" using spare(2) by (simp add: y0 sys_ram_def)
  show "\<forall>u \<in> set ts. \<forall>j < 14. load32 (sram y0) (field u j) = load32 (sram y) (field u j)"
    unfolding m using same_page_regs [OF spare(1)] by blast
qed

lemma started_advance:
  assumes "started_from k ts noise n k' t" "set ts \<subseteq> owned_pages (phys (km (mm k)))"
    and "t \<in> owned_pages (phys (km (mm k'))) - owned_pages (phys (km (mm k)))"
  shows "advance noise (km (mm k)) ts (km (mm k')) (ts @ [t])"
  using assms by (auto simp: started_from_def advance_def Let_def)

lemma enough_next:
  assumes e: "enough_memory (len # lens) (phys s)" and i: "kheap_inv s" "kheap_inv s'"
    and p: "pmm_system_memory_size (phys s') = pmm_system_memory_size (phys s)"
      "unat (pmm_free_blocks (phys s)) = load_pages len + unat (pmm_free_blocks (phys s'))"
  shows "enough_memory lens (phys s')"
proof -
  have "unat (pmm_used_blocks (phys s')) = unat (pmm_used_blocks (phys s)) + load_pages len"
    using i p by (simp add: kheap_inv_def pmm_inv_def)
  then show ?thesis using e p by (auto simp: enough_memory_def algebra_simps)
qed

lemma program_started_mono: "program_started m A proc t name bs \<Longrightarrow> A \<subseteq> B \<Longrightarrow> program_started m B proc t name bs"
  unfolding program_started_def program_space_def by blast

text \<open>A program once started stays so while others are loaded.\<close>

lemma started_stays:
  assumes p: "program_started (ram s1) (owned_pages (phys s1) - Q) proc t name bs"
    and a: "advance n s1 (ts @ [t]) s2 ts2" and Q: "set ts \<subseteq> Q" "\<And>x. n x \<Longrightarrow> page_of x \<in> Q"
    and regs: "\<forall>u \<in> set (ts @ [t]). \<forall>j < 14. load32 (ram s2) (field u j) = load32 (ram s1) (field u j)"
  shows "program_started (ram s2) (owned_pages (phys s2) - Q) proc t name bs"
proof -
  have "program_started (ram s2) (owned_pages (phys s1) - Q) proc t name bs"
  proof (rule program_started_cong [OF p])
    fix x assume "page_of x \<in> owned_pages (phys s1) - Q - {t}"
    then have "page_of x \<in> owned_pages (phys s1) - set (ts @ [t])" "\<not> n x" using Q by auto
    then show "ram s2 x = ram s1 x" by (rule advance_keeps [OF a])
  qed (use regs in simp)
  then show ?thesis by (rule program_started_mono) (use a in \<open>auto simp: advance_def\<close>)
qed

section \<open>Loading them all\<close>

definition pointer_bytes :: "program list \<Rightarrow> u32 \<Rightarrow> bool" where
  "pointer_bytes qs x \<longleftrightarrow> (\<exists>q \<in> set qs. x - pg_pointer q < 4)"

text \<open>The pointer of \<open>q\<close> leads to its process and task, the program is started.\<close>

definition program_up :: "(u32 \<Rightarrow> u8 list) \<Rightarrow> fat_volume \<Rightarrow> kmem \<Rightarrow> u32 set \<Rightarrow> program \<Rightarrow> u32 \<Rightarrow> bool" where
  "program_up img v s Q q t \<longleftrightarrow> program_started (ram s) (owned_pages (phys s) - Q) (load32 (ram s) (pg_pointer q)) t
     (pg_path q) (program_bytes img v q)"

lemma boot_step:
  assumes env: "be_proc benv = env"
    and st: "loader_state env img stk digits v d (sk y) ts" "enough_memory (pg_len q # lens) (phys (km (mm (sk y))))"
    and q: "program_ok env img stk v d (km (mm (sk y))) ts q" "pointers_ok env v d (q # qs)"
    and slots: "descriptors_from a (sv y)" "a < 512" "processes_from b y" "b < MAX_PROCESSES"
  shows "\<exists>t y1. boot_processes benv ((pg_pointer q, pg_name q) # ps) y = boot_processes benv ps y1 \<and>
    advance (\<lambda>x. load_noise env stk v x \<or> x - pg_pointer q < 4) (km (mm (sk y))) ts (km (mm (sk y1))) (ts @ [t]) \<and>
    loader_state env img stk digits v d (sk y1) (ts @ [t]) \<and> enough_memory lens (phys (km (mm (sk y1)))) \<and>
    program_up img v (km (mm (sk y1))) (owned_pages (phys (km (mm (sk y))))) q t \<and> 
    descriptors_from (Suc a) (sv y1) \<and> processes_from (Suc b) y1 \<and>
    current_task (sk y1) = (if ts = [] then t else current_task (sk y)) \<and>
    (\<forall>u \<in> set ts. \<forall>j < 14. load32 (sram y1) (field u j) = load32 (sram y) (field u j))"
proof -
  let ?s = "km (mm (sk y))" and ?O = "owned_pages (phys (km (mm (sk y))))" and ?ptr = "pg_pointer q"
  obtain y0 where y0: "y0 = sys_ram (store32 (sram y) ?ptr 0) y" by blast
  have ptr: "\<forall>x. x - ?ptr < 4 \<longrightarrow> page_of x \<in> ?O - set ts" using q(1) by (simp add: program_ok_def load_request_def)
  note c = clear_pointer_ok [OF st(1) ptr y0]
  have np: "\<not> load_cell env v d x \<and> (\<forall>i \<le> length (pg_path q). x \<noteq> pg_name q + of_nat i)" if "x - ?ptr < 4" for x
    using q(2) that by (simp add: pointers_ok_def)
  have st0: "loader_state env img stk digits v d (sk y0) ts"
    by (rule loader_state_advance [OF st(1) c(1,2)]) (use np in blast)
  have q0: "program_ok env img stk v d (km (mm (sk y0))) ts q"
    by (rule program_ok_advance [OF st(1) q(1) c(1) st0]) (use np in blast)
  have req: "load_request env stk v (km (mm (sk y0))) ts ?ptr (pg_name q) (pg_path q) (d_wanted (d\<lparr>d_wanted := pg_wanted q\<rparr>))"
    "program_file img stk v (pg_clusters q) (d\<lparr>d_wanted := pg_wanted q\<rparr>) (pg_entry q) (pg_len q) (km (mm (sk y0)))"
    "0 < pg_len q" using q0 by (simp_all add: program_ok_def)
  have sl: "free_slot (sv y0) a" "length (file_descriptors (sv y0)) = 512" "process_get_free_slot y0 = int b"
    using descriptors_slot [OF slots(1,2)] slots(1) processes_slot [OF slots(3,4)] c(4,5)
    by (simp_all add: descriptors_from_def process_get_free_slot_def)
  have "loader_state env img stk digits v (d\<lparr>d_wanted := pg_wanted q\<rparr>) (sk y0) ts" "enough_memory (pg_len q # lens) (phys (km (mm (sk y0))))"
    using st0 st(2) c(3) by simp_all
  from process_load_ok [OF this req(2,3,1) sl of_nat_0_le_iff] obtain proc t desc k' where
    r: "process_load env (pg_name q) ?ptr y0 = Some (int b, y0\<lparr>sk := k',
        sv := (sv y0)\<lparr>file_descriptors := (file_descriptors (sv y0))[a := desc]\<rparr>, processes := (processes y0)[nat (int b) := proc]\<rparr>)"
      "desc \<noteq> 0" "proc \<noteq> 0" "load32 (kram k') ?ptr = proc"
      "program_started (kram k') (owned_pages (phys (km (mm k'))) - owned_pages (phys (km (mm (sk y0))))) proc t (pg_path q)
        (map (file_byte img v (pg_clusters q)) [0..<pg_len q])"
      "started_from (sk y0) ts (\<lambda>x. load_noise env stk v x \<or> x - ?ptr < 4) (load_pages (pg_len q)) k' t" by blast
  let ?y1 = "y0\<lparr>sk := k', sv := (sv y0)\<lparr>file_descriptors := (file_descriptors (sv y0))[a := desc]\<rparr>, processes := (processes y0)[b := proc]\<rparr>"
  have t: "t \<in> owned_pages (phys (km (mm k'))) - owned_pages (phys (km (mm (sk y0))))" using r(5) by (auto simp: program_started_def)
  have ts: "set ts \<subseteq> owned_pages (phys (km (mm (sk y0))))" "kheap_inv (km (mm (sk y0)))" using st0 by (simp_all add: loader_state_def Let_def)
  have f: "task_list k' (ts @ [t])" "kheap_inv (km (mm k'))"
    "pmm_system_memory_size (phys (km (mm k'))) = pmm_system_memory_size (phys (km (mm (sk y0))))"
    "unat (pmm_free_blocks (phys (km (mm (sk y0))))) = load_pages (pg_len q) + unat (pmm_free_blocks (phys (km (mm k'))))"
    "current_task k' = (if ts = [] then t else current_task (sk y0))"
    "\<forall>u \<in> set ts. \<forall>j < 14. load32 (kram k') (field u j) = load32 (sram y0) (field u j)"
    using r(6) by (simp_all add: started_from_def Let_def)
  note adv1 = started_advance [OF r(6) ts(1) t]
  have adv: "advance (\<lambda>x. load_noise env stk v x \<or> x - ?ptr < 4) ?s ts (km (mm (sk ?y1))) (ts @ [t])"
    by (rule advance_trans [OF c(1)]) (use adv1 in simp, blast)
  have "\<not> load_cell env v d x" if "load_noise env stk v x \<or> x - ?ptr < 4" for x
    using that np st(1) by (auto simp: loader_state_def loader_ready_def Let_def)
  then have st1: "loader_state env img stk digits v d (sk ?y1) (ts @ [t])"
    using f(1) by (intro loader_state_advance [OF st(1) adv]) simp_all
  have "boot_processes benv ((?ptr, pg_name q) # ps) y = boot_processes benv ps ?y1"
    using r(1) by (simp add: y0 [symmetric] env returned_def)
  moreover have "program_up img v (km (mm (sk ?y1))) ?O q t" using r(4,5) c(3) by (simp add: program_up_def program_bytes_def)
  moreover have "descriptors_from (Suc a) (sv ?y1)" using descriptors_next [OF slots(1,2) r(2)] c(4) by simp
  moreover have "processes_from (Suc b) ?y1" by (rule processes_next [OF slots(3,4) r(3)]) (simp add: c(5))
  moreover have "enough_memory lens (phys (km (mm (sk ?y1))))"
    using enough_next [OF st(2) _ f(2)] f(3,4) c(3) st(1) by (simp add: loader_state_def Let_def)
  ultimately show ?thesis using adv st1 f(5,6) c(6,7) by (intro exI [of _ t] exI [of _ ?y1]) simp
qed

lemma pointer_stays:
  assumes a: "advance n s ts s' ts'" and p: "\<And>x. x - p < 4 \<Longrightarrow> page_of x \<in> owned_pages (phys s) - set ts \<and> \<not> n x"
  shows "load32 (ram s') p = load32 (ram s) p"
proof (rule load32_cong)
  fix j :: u32 assume "j < 4"
  then have "p + j - p < 4" by simp
  from p [OF this] show "ram s' (p + j) = ram s (p + j)" using advance_keeps [OF a] by blast
qed

lemma program_up_later:
  assumes u: "program_up img v s1 Q q t" and a: "advance n s1 (ts @ [t]) s2 ts2"
    and Q: "set ts \<subseteq> Q" "\<And>x. n x \<Longrightarrow> page_of x \<in> Q"
    and regs: "\<forall>u \<in> set (ts @ [t]). \<forall>j < 14. load32 (ram s2) (field u j) = load32 (ram s1) (field u j)"
    and p: "\<And>x. x - pg_pointer q < 4 \<Longrightarrow> page_of x \<in> owned_pages (phys s1) - set (ts @ [t]) \<and> \<not> n x"
  shows "program_up img v s2 Q q t"
  using started_stays [OF u [unfolded program_up_def] a Q regs] pointer_stays [OF a p] by (simp add: program_up_def)

lemma boot_ok:
  assumes env: "be_proc benv = env"
  shows "loader_state env img stk digits v d (sk y) ts \<Longrightarrow> enough_memory (map pg_len qs) (phys (km (mm (sk y)))) \<Longrightarrow>
    \<forall>q \<in> set qs. program_ok env img stk v d (km (mm (sk y))) ts q \<Longrightarrow> pointers_ok env v d qs \<Longrightarrow>
    descriptors_from a (sv y) \<Longrightarrow> a + length qs \<le> 512 \<Longrightarrow> processes_from b y \<Longrightarrow> b + length qs \<le> MAX_PROCESSES \<Longrightarrow>
    \<exists>us y'. boot_processes benv (map (\<lambda>q. (pg_pointer q, pg_name q)) qs) y = Inr y' \<and> length us = length qs \<and>
      advance (\<lambda>x. load_noise env stk v x \<or> pointer_bytes qs x) (km (mm (sk y))) ts (km (mm (sk y'))) (ts @ us) \<and>
      task_list (sk y') (ts @ us) \<and> current_task (sk y') = (if ts = [] \<and> us \<noteq> [] then hd us else current_task (sk y)) \<and>
      (\<forall>i < length qs. program_up img v (km (mm (sk y'))) (owned_pages (phys (km (mm (sk y))))) (qs ! i) (us ! i)) \<and>
      (\<forall>u \<in> set ts. \<forall>j < 14. load32 (sram y') (field u j) = load32 (sram y) (field u j))"
proof (induction qs arbitrary: y ts a b)
  case Nil
  then have "kheap_inv (km (mm (sk y)))" "task_list (sk y) ts" "set ts \<subseteq> owned_pages (phys (km (mm (sk y))))"
    by (simp_all add: loader_state_def Let_def)
  then show ?case by (intro exI [of _ "[]"] exI [of _ y]) (simp add: advance_def)
next
  case (Cons q qs)
  let ?s = "km (mm (sk y))" and ?O = "owned_pages (phys (km (mm (sk y))))"
  have q: "program_ok env img stk v d ?s ts q" "a < 512" "b < MAX_PROCESSES" using Cons.prems(3,6,8) by simp_all
  have e: "enough_memory (pg_len q # map pg_len qs) (phys ?s)" using Cons.prems(2) by simp
  let ?ps = "map (\<lambda>q. (pg_pointer q, pg_name q)) qs"
  from boot_step [where ps = ?ps, OF env Cons.prems(1) e q(1) Cons.prems(4,5) q(2) Cons.prems(7) q(3)] obtain t y1 where
    r: "boot_processes benv ((pg_pointer q, pg_name q) # ?ps) y = boot_processes benv ?ps y1"
      "advance (\<lambda>x. load_noise env stk v x \<or> x - pg_pointer q < 4) ?s ts (km (mm (sk y1))) (ts @ [t])"
      "loader_state env img stk digits v d (sk y1) (ts @ [t])" "enough_memory (map pg_len qs) (phys (km (mm (sk y1))))"
      "program_up img v (km (mm (sk y1))) ?O q t" "descriptors_from (Suc a) (sv y1)" "processes_from (Suc b) y1"
      "current_task (sk y1) = (if ts = [] then t else current_task (sk y))"
      "\<forall>u \<in> set ts. \<forall>j < 14. load32 (sram y1) (field u j) = load32 (sram y) (field u j)" by blast
  let ?s1 = "km (mm (sk y1))"
  have np: "\<not> load_cell env v d x \<and> (\<forall>q' \<in> set qs. (\<forall>i \<le> length (pg_path q'). x \<noteq> pg_name q' + of_nat i) \<and> \<not> x - pg_pointer q' < 4)"
    if "x - pg_pointer q < 4" for x
    using Cons.prems(4) that by (auto simp: pointers_ok_def)
  have later: "\<forall>q' \<in> set qs. program_ok env img stk v d ?s1 (ts @ [t]) q'"
  proof
    fix q' assume q': "q' \<in> set qs"
    then have "program_ok env img stk v d ?s ts q'" using Cons.prems(3) by simp
    then show "program_ok env img stk v d ?s1 (ts @ [t]) q'"
      by (rule program_ok_advance [OF Cons.prems(1) _ r(2,3)]) (use np q' in blast)
  qed
  have "pointers_ok env v d qs" using Cons.prems(4) by (simp add: pointers_ok_def)
  moreover have "Suc a + length qs \<le> 512" "Suc b + length qs \<le> MAX_PROCESSES" using Cons.prems(6,8) by simp_all
  ultimately obtain us y' where i: "boot_processes benv ?ps y1 = Inr y'" "length us = length qs"
      "advance (\<lambda>x. load_noise env stk v x \<or> pointer_bytes qs x) ?s1 (ts @ [t]) (km (mm (sk y'))) ((ts @ [t]) @ us)"
      "task_list (sk y') ((ts @ [t]) @ us)"
      "current_task (sk y') = (if ts @ [t] = [] \<and> us \<noteq> [] then hd us else current_task (sk y1))"
      "\<forall>i < length qs. program_up img v (km (mm (sk y'))) (owned_pages (phys ?s1)) (qs ! i) (us ! i)"
      "\<forall>u \<in> set (ts @ [t]). \<forall>j < 14. load32 (sram y') (field u j) = load32 (sram y1) (field u j)"
    using Cons.IH [OF r(3,4) later _ r(6) _ r(7)] by blast
  have ptr: "page_of x \<in> ?O - set ts \<and> \<not> load_noise env stk v x" if "x - pg_pointer q' < 4" "q' \<in> set (q # qs)" for x q'
    using Cons.prems(3) that by (auto simp: program_ok_def load_request_def)
  have "page_of x \<in> ?O" if "load_noise env stk v x" for x
    using that Cons.prems(1) unfolding loader_state_def loader_ready_def Let_def by blast
  then have noise: "page_of x \<in> ?O" if "load_noise env stk v x \<or> pointer_bytes qs x" for x
    using that ptr [of x] by (auto simp: pointer_bytes_def)
  have ts: "set ts \<subseteq> ?O" using Cons.prems(1) by (simp add: loader_state_def Let_def)
  have "page_of x \<in> owned_pages (phys ?s1) - set (ts @ [t]) \<and> \<not> (load_noise env stk v x \<or> pointer_bytes qs x)"
    if "x - pg_pointer q < 4" for x
    using ptr [OF that] np [OF that] advance_page [OF r(2)] by (auto simp: pointer_bytes_def)
  from program_up_later [OF r(5) i(3) ts noise i(7) this]
  have up: "program_up img v (km (mm (sk y'))) ?O q t" by blast
  have ups: "program_up img v (km (mm (sk y'))) ?O ((q # qs) ! j) ((t # us) ! j)" if "j < length (q # qs)" for j
  proof (cases j)
    case 0
    then show ?thesis using up by simp
  next
    case (Suc l)
    then have "program_up img v (km (mm (sk y'))) (owned_pages (phys ?s1)) (qs ! l) (us ! l)" using i(6) that by simp
    moreover have "?O \<subseteq> owned_pages (phys ?s1)" using r(2) by (simp add: advance_def)
    ultimately have "program_up img v (km (mm (sk y'))) ?O (qs ! l) (us ! l)"
      unfolding program_up_def by (rule program_started_mono [OF _ Diff_mono [OF order.refl]])
    then show ?thesis by (simp add: Suc)
  qed
  have adv: "advance (\<lambda>x. load_noise env stk v x \<or> pointer_bytes (q # qs) x) ?s ts (km (mm (sk y'))) (ts @ t # us)"
    by (rule advance_trans [OF r(2)]) (use i(3) in simp, auto simp: pointer_bytes_def)
  have "boot_processes benv (map (\<lambda>q. (pg_pointer q, pg_name q)) (q # qs)) y = Inr y'" using r(1) i(1) by simp
  moreover have "task_list (sk y') (ts @ t # us)" using i(4) by simp
  moreover have "current_task (sk y') = (if ts = [] \<and> t # us \<noteq> [] then hd (t # us) else current_task (sk y))" using i(5) r(8) by simp
  moreover have "\<forall>u \<in> set ts. \<forall>j < 14. load32 (sram y') (field u j) = load32 (sram y) (field u j)" using i(7) r(9) by simp
  ultimately show ?case using i(2) adv ups by (intro exI [of _ "t # us"] exI [of _ y'] conjI) (assumption | simp)+
qed

text \<open>C5: Loading the programs of the kernel. \<open>boot_processes\<close> is the sequence of \<open>process_load\<close> calls of \<open>kernel_main\<close>, for any list
  \<open>qs\<close> of programs: each is a pointer, and the name of a file of the root directory, of any length that memory allows. With room in the tables of
  open files and processes and \<open>enough_memory\<close> for the list of their lengths (pages for all, and few enough in use for the runs), every call succeeds and none disturbs what an earlier one made: in the
  final state the \<open>i\<close>-th pointer leads to a process with the \<open>i\<close>-th name and the \<open>i\<close>-th new task, through whose page
  directory the processor sees the bytes of the \<open>i\<close>-th file from \<open>0x400000\<close> on and an empty stack. The new tasks follow the old
  ones in the order of the calls, and the first is the current task when there was none.\<close>

theorem boot_processes_correct:
  assumes "be_proc benv = env" and "loader_state env img stk digits v d (sk y) ts"
    and "enough_memory (map pg_len qs) (phys (km (mm (sk y))))"
    and "\<forall>q \<in> set qs. program_ok env img stk v d (km (mm (sk y))) ts q" and "pointers_ok env v d qs"
    and "descriptors_from a (sv y)" and "a + length qs \<le> 512" and "processes_from b y" and "b + length qs \<le> 12"
  shows "\<exists>us y'. boot_processes benv (map (\<lambda>q. (pg_pointer q, pg_name q)) qs) y = Inr y' \<and> length us = length qs \<and>
    task_list (sk y') (ts @ us) \<and> kheap_inv (km (mm (sk y'))) \<and>
    (\<forall>i < length qs. runs_program (sram y') (load32 (sram y') (pg_pointer (qs ! i))) (us ! i) (pg_path (qs ! i))
       (program_bytes img v (qs ! i))) \<and>
    current_task (sk y') = (if ts = [] \<and> us \<noteq> [] then hd us else current_task (sk y))"
proof -
  have "b + length qs \<le> MAX_PROCESSES" using assms(9) by simp
  from boot_ok [OF assms(1-8) this] obtain us y' where r:
    "boot_processes benv (map (\<lambda>q. (pg_pointer q, pg_name q)) qs) y = Inr y'" "length us = length qs"
    "advance (\<lambda>x. load_noise env stk v x \<or> pointer_bytes qs x) (km (mm (sk y))) ts (km (mm (sk y'))) (ts @ us)"
    "task_list (sk y') (ts @ us)" "current_task (sk y') = (if ts = [] \<and> us \<noteq> [] then hd us else current_task (sk y))"
    "\<forall>i < length qs. program_up img v (km (mm (sk y'))) (owned_pages (phys (km (mm (sk y))))) (qs ! i) (us ! i)" by blast
  have "runs_program (sram y') (load32 (sram y') (pg_pointer (qs ! i))) (us ! i) (pg_path (qs ! i)) (program_bytes img v (qs ! i))"
    if "i < length qs" for i using r(6) program_started_runs that unfolding program_up_def by blast
  then show ?thesis using r(1-5) by (intro exI [of _ us] exI [of _ y']) (simp add: advance_def)
qed

text \<open>The list of programs of the witness: the demo file twice, with pointers one after the other.\<close>

definition demo_program :: "u32 \<Rightarrow> program" where
  "demo_program p = \<lparr>pg_pointer = p, pg_name = 0xA000, pg_path = [48, 58, 47, 115, 104, 101, 108, 108],
     pg_wanted = d_wanted open_view, pg_clusters = [2, 5], pg_entry = 1, pg_len = 600\<rparr>"

definition demo_boot :: boot_env where
  "demo_boot = \<lparr>be_proc = load_env, be_gdt = 0, be_tss = 0, be_idt = 0, be_idt_zero = 0, be_no_interrupt = 0,
     be_isr80h_wrapper = 0, be_isr_0x20_wrapper = 0, be_fat16_fs = 0, be_buffer = 0, be_files = [0xA000, 0xA000],
     be_pointers = [0xE000, 0xE004], be_esp = 0x600000, be_flags = 2\<rparr>"

lemma demo_program_ok:
  assumes "p = 0xE000 \<or> p = 0xE004"
  shows "program_ok load_env demo_disk demo_stack demo_volume open_view open_kmem [] (demo_program p)"
  using demo_request [OF assms] load_program by (simp add: program_ok_def demo_program_def)

lemma demo_pointers: "pointers_ok load_env demo_volume open_view [demo_program 0xE000, demo_program 0xE004]"
proof -
  have cell: "\<not> load_cell load_env demo_volume open_view x" if "x - 0xE000 < 8" for x
  proof
    have far: "\<not> x - 0x2040 < 16" "\<not> x - 0x9000 < 64" "\<not> x - 0x1000 < 20" "\<not> x - 0x2000 < 92" "\<not> x - 0x3004 < 4"
      "\<not> x - 0x4004 < 4" "\<not> x - 0xB000 < 1"
      using that by - (erule far_apart; simp)+
    assume "load_cell load_env demo_volume open_view x"
    then show False using demo_cell_near [of x] far by (auto simp: vol_cell_def demo_volume_def)
  qed
  have name: "x \<noteq> 0xA000 + of_nat i" if "x - 0xE000 < 8" "i \<le> 8" for x :: u32 and i
  proof
    assume "x = 0xA000 + of_nat i"
    then have "x - 0xA000 < 9" using that(2) by (simp add: word_less_nat_alt unat_of_nat_u32)
    from far_apart [OF this, of "0xE000" 8] show False using that(1) by simp
  qed
  have within: "x - 0xE000 < 8" if "x - 0xE000 < 4 \<or> x - 0xE004 < 4" for x :: u32
    using that near_within [of x "0xE000" 0 4 8] near_within [of x "0xE000" 4 4 8] by auto
  have "\<not> x - 0xE004 < 4" if "x - 0xE000 < 4" for x :: u32 using that by (rule far_apart) simp
  then show ?thesis using cell name within by (auto simp: pointers_ok_def demo_program_def)
qed

lemma demo_boot_ready:
  "be_proc demo_boot = load_env" "enough_memory [600, 600] (phys (km (mm (sk load_system))))" "descriptors_from 1 (sv load_system)"
  "processes_from 0 load_system" "km (mm (sk load_system)) = open_kmem" "current_task (sk load_system) = 0"
  by (simp_all add: demo_boot_def load_system_def enough_memory_def load_pages_def program_pages_def open_kmem_def descriptors_from_def processes_from_def vfs_boot_def)

lemma boot_processes_correct_witness:
  "\<exists>t u y'. boot_processes demo_boot [(0xE000, 0xA000), (0xE004, 0xA000)] load_system = Inr y' \<and> task_list (sk y') [t, u] \<and>
    current_task (sk y') = t \<and>
    user_byte (sram y') (load32 (sram y') (task_chunk (sram y') u)) 0x400257 = Some (file_byte demo_disk demo_volume [2, 5] 599)"
proof -
  let ?qs = "[demo_program 0xE000, demo_program 0xE004]"
  note d = demo_boot_ready
  have ok: "\<forall>q \<in> set ?qs. program_ok load_env demo_disk demo_stack demo_volume open_view (km (mm (sk load_system))) [] q"
    unfolding d(5) using demo_program_ok by simp
  have "enough_memory (map pg_len ?qs) (phys (km (mm (sk load_system))))" using d(2) by (simp add: demo_program_def)
  from boot_processes_correct [OF d(1) demo_state this ok demo_pointers d(3) _ d(4)]
  obtain us y' where r: "boot_processes demo_boot (map (\<lambda>q. (pg_pointer q, pg_name q)) ?qs) load_system = Inr y'"
    "length us = length ?qs" "task_list (sk y') ([] @ us)" "kheap_inv (km (mm (sk y')))"
    "\<forall>i < length ?qs. runs_program (sram y') (load32 (sram y') (pg_pointer (?qs ! i))) (us ! i) (pg_path (?qs ! i))
       (program_bytes demo_disk demo_volume (?qs ! i))"
    "current_task (sk y') = (if ([] :: u32 list) = [] \<and> us \<noteq> [] then hd us else current_task (sk load_system))" by auto
  then obtain t u where us: "us = [t, u]" by (auto simp: length_Suc_conv numeral_2_eq_2)
  have "runs_program (sram y') (load32 (sram y') (pg_pointer (demo_program 0xE004))) u (pg_path (demo_program 0xE004))
      (program_bytes demo_disk demo_volume (demo_program 0xE004))"
    using r(5) [rule_format, of 1] by (simp add: us)
  then have "\<forall>b < 600. user_byte (sram y') (load32 (sram y') (task_chunk (sram y') u)) (0x400000 + of_nat b) =
      Some (file_byte demo_disk demo_volume [2, 5] b)"
    by (simp add: runs_program_def Let_def program_bytes_def demo_program_def)
  from this [rule_format, of 599]
  have "user_byte (sram y') (load32 (sram y') (task_chunk (sram y') u)) 0x400257 = Some (file_byte demo_disk demo_volume [2, 5] 599)"
    by simp
  moreover have "boot_processes demo_boot [(0xE000, 0xA000), (0xE004, 0xA000)] load_system = Inr y'"
    using r(1) by (simp add: demo_program_def)
  ultimately show ?thesis using r(3,6) us by (intro exI [of _ t] exI [of _ u] exI [of _ y']) simp
qed

section \<open>The first program starts\<close>

lemma first_task_runs:
  assumes r: "runs_program (kram k) proc t name bs" and l: "task_list k (t # ts)" and c: "current_task k \<noteq> 0"
  shows "\<exists>cpu k'. task_run_first_ever_task esp flags k = Inr (Some cpu, k') \<and>
    c_ip cpu = 0x400000 \<and> c_cs cpu = 0x1B \<and> c_esp cpu = 0x3FF000 \<and> c_ss cpu = 0x23 \<and>
    c_flags cpu = flags OR 0x200 \<and> {c_edi cpu, c_esi cpu, c_ebx cpu, c_edx cpu, c_ecx cpu, c_eax cpu} = {0} \<and>
    (\<forall>i < length bs. user_byte (kram k') (cr3 (mm k')) (0x400000 + of_nat i) = Some (bs ! i)) \<and>
    (\<forall>i < 0x4000. user_byte (kram k') (cr3 (mm k')) (0x3FB000 + i) = Some 0) \<and> current_task k' = t"
proof -
  let ?d = "load32 (kram k) (task_chunk (kram k) t)"
  let ?k = "task_switch t k"
  have h: "task_head k = t" using l by (simp add: task_list_def list_ends_def)
  have m: "kram ?k = kram k" "cr3 (mm ?k) = ?d" "current_directory (mm ?k) = ?d" "current_task ?k = t" "task_head ?k = t"
    using h by (simp_all add: task_switch_def paging_switch_def paging_load_directory_def paging_4gb_chunk_get_directory_def Let_def)
  have "task_run_first_ever_task esp flags k = Inr (Some (task_return (task_registers t) esp flags (kram k)), ?k)"
    using c m h
    by (simp add: task_run_first_ever_task_def Let_def paging_get_current_directory_def paging_4gb_chunk_get_directory_def)
  then show ?thesis using r m by (simp add: runs_program_def Let_def fresh_task_def task_return_fields)
qed

text \<open>The first program starts. With the list of tasks empty and at least one program to load, \<open>boot_processes\<close> and then
  \<open>task_run_first_ever_task\<close> neither panic nor fall through: the \<open>iret\<close> enters ring 3 with the user code and data segments at
  \<open>0x400000\<close>, the stack pointer at \<open>0x3FF000\<close>, interrupts on and zero in the six registers of the frame; through the page directory that
  is then in \<open>cr3\<close> the processor finds at the instruction pointer the bytes of the first program's file, and a zeroed stack.\<close>

theorem first_program_starts:
  assumes "be_proc benv = env" and "loader_state env img stk digits v d (sk y) []"
    and "enough_memory (map pg_len (q # qs)) (phys (km (mm (sk y))))"
    and "\<forall>p \<in> set (q # qs). program_ok env img stk v d (km (mm (sk y))) [] p" and "pointers_ok env v d (q # qs)"
    and "descriptors_from a (sv y)" and "a + length (q # qs) \<le> 512" and "processes_from b y" and "b + length (q # qs) \<le> 12"
  shows "\<exists>y' cpu k'. boot_processes benv (map (\<lambda>q. (pg_pointer q, pg_name q)) (q # qs)) y = Inr y' \<and>
    task_run_first_ever_task (be_esp benv) (be_flags benv) (sk y') = Inr (Some cpu, k') \<and>
    c_ip cpu = 0x400000 \<and> c_cs cpu = 0x1B \<and> c_esp cpu = 0x3FF000 \<and> c_ss cpu = 0x23 \<and>
    c_flags cpu = be_flags benv OR 0x200 \<and> {c_edi cpu, c_esi cpu, c_ebx cpu, c_edx cpu, c_ecx cpu, c_eax cpu} = {0} \<and>
    (\<forall>i < pg_len q. user_byte (kram k') (cr3 (mm k')) (c_ip cpu + of_nat i) = Some (file_byte img v (pg_clusters q) i)) \<and>
    (\<forall>i < 0x4000. user_byte (kram k') (cr3 (mm k')) (0x3FB000 + i) = Some 0)"
proof -
  have "b + length (q # qs) \<le> MAX_PROCESSES" using assms(9) by simp
  from boot_ok [OF assms(1-8) this] obtain us y' where r:
    "boot_processes benv (map (\<lambda>q. (pg_pointer q, pg_name q)) (q # qs)) y = Inr y'" "length us = length (q # qs)"
    "task_list (sk y') ([] @ us)" "current_task (sk y') = (if ([] :: u32 list) = [] \<and> us \<noteq> [] then hd us else current_task (sk y))"
    "\<forall>i < length (q # qs). program_up img v (km (mm (sk y'))) (owned_pages (phys (km (mm (sk y))))) ((q # qs) ! i) (us ! i)"
    by blast
  from r(2) obtain t us' where us: "us = t # us'" by (cases us) auto
  have l: "task_list (sk y') (t # us')" "current_task (sk y') = t" using r(3,4) us by simp_all
  have "program_up img v (km (mm (sk y'))) (owned_pages (phys (km (mm (sk y))))) q t" using r(5) [rule_format, of 0] us by simp
  then have run: "runs_program (sram y') (load32 (sram y') (pg_pointer q)) t (pg_path q) (program_bytes img v q)"
    using program_started_runs unfolding program_up_def by blast
  have "current_task (sk y') \<noteq> 0" using l by (simp add: task_list_def forward_def)
  from first_task_runs [OF run l(1) this, of "be_esp benv" "be_flags benv"] show ?thesis
    using r(1) by (auto simp: program_bytes_def)
qed

lemma first_program_starts_witness:
  "\<exists>y' cpu k'. boot_processes demo_boot [(0xE000, 0xA000), (0xE004, 0xA000)] load_system = Inr y' \<and>
    task_run_first_ever_task 0x600000 2 (sk y') = Inr (Some cpu, k') \<and> c_ip cpu = 0x400000 \<and> c_flags cpu = 0x202 \<and>
    user_byte (kram k') (cr3 (mm k')) 0x400257 = Some (file_byte demo_disk demo_volume [2, 5] 599)"
proof -
  let ?q = "demo_program 0xE000" and ?qs = "[demo_program 0xE004]"
  note d = demo_boot_ready
  have ok: "\<forall>q \<in> set (?q # ?qs). program_ok load_env demo_disk demo_stack demo_volume open_view (km (mm (sk load_system))) [] q"
    unfolding d(5) using demo_program_ok by simp
  have "enough_memory (map pg_len (?q # ?qs)) (phys (km (mm (sk load_system))))" using d(2) by (simp add: demo_program_def)
  moreover have "1 + length (?q # ?qs) \<le> 512" "0 + length (?q # ?qs) \<le> 12" by simp_all
  ultimately obtain y' cpu k' where
    r: "boot_processes demo_boot (map (\<lambda>q. (pg_pointer q, pg_name q)) (?q # ?qs)) load_system = Inr y'"
      "task_run_first_ever_task (be_esp demo_boot) (be_flags demo_boot) (sk y') = Inr (Some cpu, k')"
      "c_ip cpu = 0x400000" "c_flags cpu = be_flags demo_boot OR 0x200"
      "\<forall>i < pg_len ?q. user_byte (kram k') (cr3 (mm k')) (c_ip cpu + of_nat i) = Some (file_byte demo_disk demo_volume (pg_clusters ?q) i)"
    using first_program_starts [OF d(1) demo_state _ ok demo_pointers d(3) _ d(4)] by blast
  have "user_byte (kram k') (cr3 (mm k')) (0x400000 + of_nat 599) = Some (file_byte demo_disk demo_volume [2, 5] 599)"
    using r(5) [rule_format, of 599] unfolding r(3) by (simp add: demo_program_def)
  then have "user_byte (kram k') (cr3 (mm k')) 0x400257 = Some (file_byte demo_disk demo_volume [2, 5] 599)" by simp
  moreover have "boot_processes demo_boot [(0xE000, 0xA000), (0xE004, 0xA000)] load_system = Inr y'"
    using r(1) by (simp add: demo_program_def)
  moreover have "be_esp demo_boot = 0x600000" "be_flags demo_boot = 2" by (simp_all add: demo_boot_def)
  ultimately show ?thesis using r(2-4) by auto
qed

end
