(* ===== verification/FatMount.thy ===== *)
theory FatMount imports FatNames
begin

text \<open>
  Mounting a volume: \<open>fat16_resolve\<close> of \<open>src/src/fs/fat16/fat16.c\<close>, from the boot record on the disk to the structures that the
  other operations read. The records on the disk are read with the same functions as the copy in memory.
\<close>

section \<open>A page at a time\<close>

definition grown :: "kmem \<Rightarrow> u32 \<Rightarrow> kmem \<Rightarrow> bool" where
  "grown s a s' \<longleftrightarrow> a \<noteq> 0 \<and> page_aligned a \<and> a \<notin> owned_pages (phys s) \<and> kheap_inv s' \<and>
     owned_pages (phys s') = insert a (owned_pages (phys s)) \<and> single_pages s' = insert a (single_pages s) \<and>
     pmm_system_memory_size (phys s') = pmm_system_memory_size (phys s) \<and>
     unat (pmm_free_blocks (phys s)) = Suc (unat (pmm_free_blocks (phys s')))"

lemma kmallac_grown:
  assumes inv: "kheap_inv s" and n: "n \<le> 4096" and free: "0 < unat (pmm_free_blocks (phys s))"
  shows "\<exists>a s'. kmallac n s = (a, s') \<and> grown s a s' \<and> ram s' = ram s"
proof -
  have k: "kmallac n s = kmallac 4096 s" using n by (simp add: kmallac_small)
  from heap_pages.alloc_ok [OF inv free] obtain a s' where
    a: "kmallac 4096 s = (a, s')" "a \<noteq> 0" "page_aligned a" "single_pages s' = insert a (single_pages s)" "kheap_inv s'"
      "unat (pmm_free_blocks (phys s)) = Suc (unat (pmm_free_blocks (phys s')))" by blast
  have "pmm_inv (phys s)" using inv by (simp add: kheap_inv_def)
  from pmm_pages.alloc_ok [OF this free] a(1) have "a \<notin> owned_pages (phys s)"
    "owned_pages (phys s') = insert a (owned_pages (phys s))" "ram s' = ram s"
    and ph: "phys s' = snd (pmm_allocate_block (phys s))"
    by (auto simp: kmallac_small)
  moreover have "pmm_system_memory_size (phys s') = pmm_system_memory_size (phys s)" by (simp add: ph)
  ultimately show ?thesis using a by (simp add: k grown_def)
qed

lemma heap_ram [simp]: "kheap_inv (s\<lparr>ram := m\<rparr>) = kheap_inv s" "single_pages (s\<lparr>ram := m\<rparr>) = single_pages s"
  by (simp_all add: kheap_inv_def single_pages_def)

lemma grown_ram: "grown s a (s'\<lparr>ram := m\<rparr>) = grown s a s'"
  by (simp add: grown_def kheap_inv_def single_pages_def)

lemma grown_from_ram: "grown (s\<lparr>ram := m\<rparr>) a s' = grown s a s'"
  by (simp add: grown_def single_pages_def)

text \<open>Words of structures on pages, and what a store to one of them leaves alone.\<close>

lemma field_0: "field p 0 = p"
  by (simp add: field_def)

lemma page_words: "p + 4 = field p 1" "p + 64 = field p 16" "p + 68 = field p 17" "p + 72 = field p 18" "p + 76 = field p 19"
  "p + 80 = field p 20" "p + 84 = field p 21" "p + 88 = field p 22"
  by (simp_all add: field_def)

lemma store_other_page: "page_aligned p \<Longrightarrow> j < 1024 \<Longrightarrow> page_of x \<noteq> p \<Longrightarrow> store32 m (field p j) v x = m x"
  unfolding field_def by (rule store32_page) (auto simp: word_less_nat_alt word_le_nat_alt unat_word_ariths)

lemma memset_other_page: "page_aligned p \<Longrightarrow> n \<le> 4096 \<Longrightarrow> page_of x \<noteq> p \<Longrightarrow> memset m p c n x = m x"
  using far_from_page [of p x] by (auto simp: memset_apply not_less [symmetric] dest: order.strict_trans2)

lemma frame_field:
  assumes "\<forall>x. page_of x \<noteq> c \<longrightarrow> m' x = m x" "page_aligned u" "u \<noteq> c" "j < 1024"
  shows "load32 m' (field u j) = load32 m (field u j)"
proof (rule same_page_load [OF _ assms(4)])
  show "same_page m m' u" using assms(1-3) page_of_in [OF assms(2)] by (simp add: same_page_def)
qed

lemma create_stream_ok:
  assumes inv: "kheap_inv s" and free: "0 < unat (pmm_free_blocks (phys s))" and d: "disk \<noteq> 0"
  shows "\<exists>a s'. create_disk_streamer disk 0 s = (a, s') \<and> grown s a s' \<and> load32 (ram s') (field a 0) = 0 \<and>
    load32 (ram s') (field a 1) = disk \<and> (\<forall>x. page_of x \<noteq> a \<longrightarrow> ram s' x = ram s x)"
proof -
  from kmallac_grown [OF inv _ free, of 8] obtain a s1 where a: "kmallac 8 s = (a, s1)" "grown s a s1" "ram s1 = ram s" by auto
  have al: "page_aligned a" using a(2) by (simp add: grown_def)
  let ?m = "store32 (store32 (ram s) (field a 0) 0) (field a 1) disk"
  have "create_disk_streamer disk 0 s = (a, s1\<lparr>ram := ?m\<rparr>)"
    using d a(1,3) by (simp add: create_disk_streamer_def disk_get_def field_def)
  moreover have "?m x = ram s x" if "page_of x \<noteq> a" for x using that al by (simp add: store_other_page)
  ultimately show ?thesis using a(2) al by (simp add: grown_ram load_store_field)
qed

section \<open>The private structure\<close>

text \<open>The three streams of the volume and the disk they read.\<close>

definition private_at :: "mem \<Rightarrow> u32 \<Rightarrow> u32 \<Rightarrow> u32 \<Rightarrow> u32 \<Rightarrow> u32 \<Rightarrow> bool" where
  "private_at m disk p a b c \<longleftrightarrow> load32 m (field p 20) = a \<and> load32 m (field p 21) = b \<and> load32 m (field p 22) = c \<and>
     (\<forall>t \<in> {a, b, c}. load32 m (field t 1) = disk)"

lemma private_at_cong:
  assumes m: "private_at m disk p a b c" and p: "\<And>x. x - (p + 80) < 12 \<Longrightarrow> m' x = m x"
    and t: "\<And>x t. t \<in> {a, b, c} \<Longrightarrow> x - (t + 4) < 4 \<Longrightarrow> m' x = m x"
  shows "private_at m' disk p a b c"
proof -
  have w: "load32 m' (p + 80 + k) = load32 m (p + 80 + k)" if "k \<le> 8" for k
  proof (rule load32_cong)
    fix j :: u32 assume "j < 4"
    then show "m' (p + 80 + k + j) = m (p + 80 + k + j)"
      using that near_within [of "p + 80 + k + j" "p + 80" k 4 12] by (intro p) (simp add: word_le_nat_alt)
  qed
  have "load32 m' (q + 4) = load32 m (q + 4)" if "q \<in> {a, b, c}" for q
    using t [OF that] by (intro load32_cong) simp
  then show ?thesis using m w [of 0] w [of 4] w [of 8] by (simp add: private_at_def field_def add.commute [of p])
qed

lemma init_private_ok:
  assumes inv: "kheap_inv s" and free: "3 \<le> unat (pmm_free_blocks (phys s))" and d: "disk \<noteq> 0" "load32 (ram s) (disk + 8) = 0"
    and disk: "\<forall>x. x - disk < 20 \<longrightarrow> page_of x \<in> owned_pages (phys s) - {p}" and p: "page_aligned p" "p \<in> owned_pages (phys s)"
  shows "\<exists>a b c s1 s2 s'. fat16_init_private disk p s = s' \<and> grown s a s1 \<and> grown s1 b s2 \<and> grown s2 c s' \<and>
    private_at (ram s') disk p a b c \<and> (\<forall>x. page_of x \<in> owned_pages (phys s) - {p} \<longrightarrow> ram s' x = ram s x)"
proof -
  have id: "disk_id m disk = 0" if "\<And>x. page_of x \<in> owned_pages (phys s) - {p} \<Longrightarrow> m x = ram s x" for m
  proof -
    have "load32 m (disk + 8) = load32 (ram s) (disk + 8)"
    proof (rule load32_cong)
      fix j :: u32 assume "j < 4"
      then have "disk + 8 + j - disk < 20" using near_within [of "disk + 8 + j" disk 8 4 20] by simp
      then show "m (disk + 8 + j) = ram s (disk + 8 + j)" using disk that by blast
    qed
    then show ?thesis using d(2) by (simp add: disk_id_def)
  qed
  let ?s0 = "s\<lparr>ram := memset (ram s) p 0 92\<rparr>"
  have k0: "ram ?s0 x = ram s x" if "page_of x \<in> owned_pages (phys s) - {p}" for x
    using that p(1) by (auto intro!: memset_other_page)
  have i0: "kheap_inv ?s0" "0 < unat (pmm_free_blocks (phys ?s0))" using inv free by (simp_all add: kheap_inv_def)
  from create_stream_ok [OF i0 d(1)] obtain a s1 where
    a: "create_disk_streamer disk 0 ?s0 = (a, s1)" "grown ?s0 a s1" "load32 (ram s1) (field a 0) = 0"
      "load32 (ram s1) (field a 1) = disk" "\<forall>x. page_of x \<noteq> a \<longrightarrow> ram s1 x = ram ?s0 x" by blast
  let ?s1 = "set_word (field p 20) a s1"
  have ga: "grown s a ?s1" using a(2) by (simp add: grown_ram grown_from_ram set_word_def)
  have na: "a \<notin> owned_pages (phys s)" "page_aligned a" "owned_pages (phys ?s1) = insert a (owned_pages (phys s))"
    using ga by (simp_all add: grown_def)
  have k1: "ram ?s1 x = ram s x" if "page_of x \<in> owned_pages (phys s) - {p}" for x
  proof -
    have "page_of x \<noteq> a" "page_of x \<noteq> p" using that na(1) by auto
    then show ?thesis using a(5) k0 [OF that] store_other_page [OF p(1), of 20 x] by (simp add: set_word_def)
  qed
  have i1: "kheap_inv ?s1" "0 < unat (pmm_free_blocks (phys ?s1))" using ga free by (simp_all add: grown_def)
  from create_stream_ok [OF i1 d(1)] obtain b s2 where
    b: "create_disk_streamer disk 0 ?s1 = (b, s2)" "grown ?s1 b s2" "load32 (ram s2) (field b 0) = 0"
      "load32 (ram s2) (field b 1) = disk" "\<forall>x. page_of x \<noteq> b \<longrightarrow> ram s2 x = ram ?s1 x" by blast
  let ?s2 = "set_word (field p 21) b s2"
  have gb: "grown ?s1 b ?s2" using b(2) by (simp add: grown_ram set_word_def)
  have nb: "b \<notin> owned_pages (phys ?s1)" "page_aligned b" "owned_pages (phys ?s2) = insert b (owned_pages (phys ?s1))"
    using gb by (simp_all add: grown_def)
  have k2: "ram ?s2 x = ram ?s1 x" if "page_of x \<in> owned_pages (phys ?s1) - {p}" for x
  proof -
    have "page_of x \<noteq> b" "page_of x \<noteq> p" using that nb(1) by auto
    then show ?thesis using b(5) store_other_page [OF p(1), of 21 x] by (simp add: set_word_def)
  qed
  have i2: "kheap_inv ?s2" "0 < unat (pmm_free_blocks (phys ?s2))" using ga gb free by (simp_all add: grown_def)
  from create_stream_ok [OF i2 d(1)] obtain c s3 where
    c: "create_disk_streamer disk 0 ?s2 = (c, s3)" "grown ?s2 c s3" "load32 (ram s3) (field c 0) = 0"
      "load32 (ram s3) (field c 1) = disk" "\<forall>x. page_of x \<noteq> c \<longrightarrow> ram s3 x = ram ?s2 x" by blast
  let ?s3 = "set_word (field p 22) c s3"
  have gc: "grown ?s2 c ?s3" using c(2) by (simp add: grown_ram set_word_def)
  have nc: "c \<notin> owned_pages (phys ?s2)" "page_aligned c" using gc by (simp_all add: grown_def)
  have k3: "ram ?s3 x = ram ?s2 x" if "page_of x \<in> owned_pages (phys ?s2) - {p}" for x
  proof -
    have "page_of x \<noteq> c" "page_of x \<noteq> p" using that nc(1) by auto
    then show ?thesis using c(5) store_other_page [OF p(1), of 22 x] by (simp add: set_word_def)
  qed
  have "ram ?s3 x = ram s x" if "page_of x \<in> owned_pages (phys s) - {p}" for x
    using that k1 k2 k3 na(3) nb(3) by simp
  moreover have ids: "disk_id (ram ?s0) disk = 0" "disk_id (ram ?s1) disk = 0" "disk_id (ram ?s2) disk = 0"
    using k0 k1 k2 na(3) by (intro id; simp)+
  have "fat16_init_private disk p s = ?s3"
    using a(1) b(1) c(1) ids by (simp add: fat16_init_private_def page_words Let_def)
  moreover have "private_at (ram ?s3) disk p a b c"
  proof -
    have "p \<noteq> a" "p \<noteq> b" "p \<noteq> c" "a \<noteq> b" "a \<noteq> c" "b \<noteq> c" using p(2) na nb nc by auto
    note fc = frame_field [OF c(5)] and fb = frame_field [OF b(5)]
    have fa: "load32 (ram s1) (field p j) = load32 (ram ?s0) (field p j)" if "j < 1024" for j
      using frame_field [OF a(5) p(1) _ that] \<open>p \<noteq> a\<close> by blast
    show ?thesis
      using \<open>p \<noteq> a\<close> \<open>p \<noteq> b\<close> \<open>p \<noteq> c\<close> \<open>a \<noteq> b\<close> \<open>a \<noteq> c\<close> \<open>b \<noteq> c\<close> p(1) na(2) nb(2) nc(2) a(4) b(4) c(4)
      by (simp add: private_at_def set_word_def load_store_field fc fb)
  qed
  ultimately show ?thesis using ga gb gc by blast
qed

section \<open>What is on the disk\<close>

text \<open>The first 62 bytes of the disk, as a memory: the boot record, read with the functions that read its copy.\<close>

definition bpb :: "(u32 \<Rightarrow> u8 list) \<Rightarrow> mem" where
  "bpb img = write_bytes (\<lambda>_. 0) 0 (disk_bytes img 0 62)"

definition root_start :: "(u32 \<Rightarrow> u8 list) \<Rightarrow> nat" where
  "root_start img = unat (hidden_setors (bpb img) 0) + unat (reserved_sectors (bpb img) 0) +
     unat (fat_copies (bpb img) 0) * unat (sectors_per_fat (bpb img) 0)"

definition root_size :: "(u32 \<Rightarrow> u8 list) \<Rightarrow> nat" where
  "root_size img = (unat (root_dir_entries (bpb img) 0) * 32 + 511) div 512"

text \<open>
  A FAT16 disk with sectors of 512 bytes, whose root directory has the entries \<open>its\<close> before its end mark. The entries that
  the code counts are those not marked as deleted.
\<close>

definition fat_image :: "(u32 \<Rightarrow> u8 list) \<Rightarrow> u8 list list \<Rightarrow> bool" where
  "fat_image img its \<longleftrightarrow> header_signature (bpb img) 0 = 0x29 \<and> bytes_per_sector (bpb img) 0 = 512 \<and>
     sectors_per_cluster (bpb img) 0 \<noteq> 0 \<and> (root_start img + root_size img) * 512 < 4294967296 \<and>
     length its * 32 < root_size img * 512 \<and> (\<forall>e \<in> set its. length e = 32 \<and> hd e \<noteq> 0) \<and>
     disk_bytes img (root_start img * 512) (length its * 32) = concat its \<and>
     disk_byte img (root_start img * 512 + length its * 32) = 0"

definition live :: "u8 list list \<Rightarrow> nat" where
  "live its = length (filter (\<lambda>e. hd e \<noteq> 0xE5) its)"

lemma bpb_at: "k < 62 \<Longrightarrow> bpb img (of_nat k) = disk_byte img k"
  using write_bytes_at [of k "disk_bytes img 0 62" "\<lambda>_. 0" 0] by (simp add: bpb_def disk_bytes_def)

lemma header_fields:
  assumes "\<forall>k < 62. m (p + k) = m' k"
  shows "bytes_per_sector m p = bytes_per_sector m' 0" "sectors_per_cluster m p = sectors_per_cluster m' 0"
    "reserved_sectors m p = reserved_sectors m' 0" "fat_copies m p = fat_copies m' 0" "root_dir_entries m p = root_dir_entries m' 0"
    "sectors_per_fat m p = sectors_per_fat m' 0" "hidden_setors m p = hidden_setors m' 0" "header_signature m p = header_signature m' 0"
  using assms [rule_format, of 11] assms [rule_format, of 12] assms [rule_format, of 13] assms [rule_format, of 14] assms [rule_format, of 15] assms [rule_format, of 16] assms [rule_format, of 17] assms [rule_format, of 18]
    assms [rule_format, of 22] assms [rule_format, of 23] assms [rule_format, of 28] assms [rule_format, of 29] assms [rule_format, of 30] assms [rule_format, of 31] assms [rule_format, of 38]
  by (simp_all add: bytes_per_sector_def sectors_per_cluster_def reserved_sectors_def fat_copies_def root_dir_entries_def
      sectors_per_fat_def hidden_setors_def header_signature_def load16_def load32_def add.assoc)

text \<open>The arithmetic of the root directory does not wrap.\<close>

lemma root_words:
  assumes "fat_image img its"
  defines "b \<equiv> bpb img"
  shows "hidden_setors b 0 + reserved_sectors b 0 + fat_copies b 0 * sectors_per_fat b 0 = of_nat (root_start img)"
    and "(if root_dir_entries b 0 * 32 mod 512 = 0 then root_dir_entries b 0 * 32 div 512
      else root_dir_entries b 0 * 32 div 512 + 1) = of_nat (root_size img)"
    and "root_size img \<le> 4096" "0 < root_size img" "unat (of_nat (root_size img) * 512 :: u32) = root_size img * 512"
    and "unat (512 * of_nat (root_start img) :: u32) = root_start img * 512"
proof -
  have e: "unat (root_dir_entries b 0) < 65536" using unsigned_less [of "load16 b (0 + 17)"] by (simp add: root_dir_entries_def unat_ucast_u16)
  have lim: "(root_start img + root_size img) * 512 < 4294967296" "length its * 32 < root_size img * 512"
    using assms(1) by (simp_all add: fat_image_def)
  show "hidden_setors b 0 + reserved_sectors b 0 + fat_copies b 0 * sectors_per_fat b 0 = of_nat (root_start img)"
    by (simp add: root_start_def b_def)
  have u: "unat (root_dir_entries b 0 * 32) = unat (root_dir_entries b 0) * 32"
    using e by (simp add: unat_word_ariths)
  then have d: "unat (root_dir_entries b 0 * 32 div 512) = unat (root_dir_entries b 0) * 32 div 512"
    and m: "root_dir_entries b 0 * 32 mod 512 = 0 \<longleftrightarrow> unat (root_dir_entries b 0) * 32 mod 512 = 0"
    by (simp_all add: unat_div word_unat_eq_iff unat_mod)
  let ?n = "unat (root_dir_entries b 0) * 32"
  have round_up: "(n + 511) div 512 = (if n mod 512 = 0 then n div 512 else n div 512 + 1)" for n :: nat
  proof -
    have "(n mod 512 + 511) div 512 = (if n mod 512 = 0 then 0 else 1)" by (intro div_nat_eqI) auto
    then show ?thesis by (simp add: div_add1_eq [of n 511])
  qed
  have rs: "root_size img = (if ?n mod 512 = 0 then ?n div 512 else ?n div 512 + 1)"
    unfolding root_size_def b_def by (rule round_up)
  show "(if root_dir_entries b 0 * 32 mod 512 = 0 then root_dir_entries b 0 * 32 div 512
      else root_dir_entries b 0 * 32 div 512 + 1) = of_nat (root_size img)"
    unfolding m rs d [symmetric] by simp
  show "root_size img \<le> 4096" using e unfolding root_size_def b_def by linarith
  then show "unat (of_nat (root_size img) * 512 :: u32) = root_size img * 512"
    by (simp add: unat_word_ariths unat_of_nat_u32)
  show "0 < root_size img" using lim by (cases "root_size img") auto
  show "unat (512 * of_nat (root_start img) :: u32) = root_start img * 512"
    using lim(1) by (simp add: unat_word_ariths unat_of_nat_u32 mult.commute)
qed

section \<open>Counting the entries\<close>

lemma disk_bytes_split: "disk_bytes img k (n + l) = xs @ ys \<Longrightarrow> length xs = n \<Longrightarrow> disk_bytes img k n = xs \<and> disk_bytes img (k + n) l = ys"
  by (simp add: disk_bytes_add)

lemma sectors_pos: "0 < sectors_for n"
  by (simp add: sectors_for_def)

lemma read_entry:
  assumes "load32 (ram s) (stream + 4) = disk" "load32 (ram s) stream = pos"
    and "unat pos + 32 < 4294967296" "unat pos mod 32 = 0" "buffer_clear stream item 32"
  shows "\<exists>r. stream_read img disk stream item 32 s =
      Some (r, s\<lparr>ram := store32 (write_bytes (ram s) item (disk_bytes img (unat pos) 32)) stream (pos + 32)\<rparr>) \<and> 0 < r"
proof -
  have "unat (pos mod 512) mod 32 = 0" using assms(4) by (simp add: unat_mod mod_mod_cancel)
  then obtain z where "unat (pos mod 512) = 32 * z" by blast
  moreover have "unat (pos mod 512) < 512" by (simp add: unat_mod)
  ultimately have "unat (pos mod 512) + 32 \<le> 512" by simp
  with stream_delivers [OF assms(1,2) _ assms(5), of img] assms(3) show ?thesis
    by (simp add: stream_read_def sectors_pos)
qed

lemma entry_frame:
  assumes "4 \<le> x - stream" "32 \<le> x - item" "length bs = 32"
  shows "store32 (write_bytes m item bs) stream v x = m x"
proof -
  have "write_bytes m item bs x = m x"
  proof (rule write_bytes_outside)
    fix k assume "k < length bs"
    then have "(of_nat k :: u32) < 32" using assms(3) by (simp add: word_less_nat_alt unat_of_nat_u32)
    then show "x \<noteq> item + of_nat k" using assms(2) by auto
  qed
  then show ?thesis using store32_other [OF assms(1)] by simp
qed

lemma total_items_ok:
  assumes "load32 (ram s) (stream + 4) = disk" "load32 (ram s) stream = pos"
    and "unat pos + 32 * length its + 32 < 4294967296" "unat pos mod 32 = 0" "buffer_clear stream item 32"
    and "\<forall>e \<in> set its. length e = 32 \<and> hd e \<noteq> 0" "disk_bytes img (unat pos) (length its * 32) = concat its"
    and "disk_byte img (unat pos + length its * 32) = 0"
  shows "\<exists>m. total_items_loop img disk stream item i s = Some (i + of_nat (live its), s\<lparr>ram := m\<rparr>) \<and>
    (\<forall>x. 4 \<le> x - stream \<and> 32 \<le> x - item \<longrightarrow> m x = ram s x)"
  using assms
proof (induction its arbitrary: s pos i)
  case Nil
  let ?m = "store32 (write_bytes (ram s) item (disk_bytes img (unat pos) 32)) stream (pos + 32)"
  have away: "4 \<le> item - stream" using buffer_clear_first [OF Nil.prems(5), of 0] by simp
  obtain r where r: "stream_read img disk stream item 32 s = Some (r, s\<lparr>ram := ?m\<rparr>)" "0 < r"
    using read_entry [OF Nil.prems(1,2) _ Nil.prems(4,5)] Nil.prems(3) by auto
  have "?m item = disk_bytes img (unat pos) 32 ! 0"
    using write_bytes_at [of 0 "disk_bytes img (unat pos) 32" "ram s" item] store32_other [OF away] by simp
  then have "?m item = 0" using Nil.prems(8) by (simp add: disk_bytes_def)
  moreover have "\<forall>x. 4 \<le> x - stream \<and> 32 \<le> x - item \<longrightarrow> ?m x = ram s x" by (simp add: entry_frame)
  ultimately show ?case using r by (intro exI [of _ ?m], subst total_items_loop.simps) (simp add: live_def)
next
  case (Cons e es)
  let ?bs = "disk_bytes img (unat pos) 32"
  let ?m = "store32 (write_bytes (ram s) item ?bs) stream (pos + 32)" and ?s = "s\<lparr>ram := store32 (write_bytes (ram s) item (disk_bytes img (unat pos) 32)) stream (pos + 32)\<rparr>"
  note away = buffer_clear_first [OF Cons.prems(5)]
  have e: "length e = 32" "hd e \<noteq> 0" using Cons.prems(6) by simp_all
  have "disk_bytes img (unat pos) (32 + length es * 32) = e @ concat es" using Cons.prems(7) by simp
  from disk_bytes_split [OF this e(1)] have b: "?bs = e" "disk_bytes img (unat pos + 32) (length es * 32) = concat es" by simp_all
  obtain r where r: "stream_read img disk stream item 32 s = Some (r, ?s)" "0 < r"
    using read_entry [OF Cons.prems(1,2) _ Cons.prems(4,5)] Cons.prems(3) by auto
  have "?m item = ?bs ! 0"
    using write_bytes_at [of 0 ?bs "ram s" item] store32_other [of item stream] away [of 0] by simp
  then have hd: "?m item = hd e" using e(1) by (simp add: b(1) hd_conv_nth flip: length_greater_0_conv)
  have p: "unat (pos + 32) = unat pos + 32" using Cons.prems(3) by (simp add: unat_word_ariths)
  let ?i = "if hd e = 0xE5 then i else i + 1"
  have "load32 (write_bytes (ram s) item ?bs) (stream + 4) = load32 (ram s) (stream + 4)"
    using away by (intro load32_write_bytes) simp
  then have d: "load32 (ram ?s) (stream + 4) = disk" "load32 (ram ?s) stream = pos + 32"
    using Cons.prems(1) by (simp_all add: load32_store32_apart apart_def)
  have "\<exists>m. total_items_loop img disk stream item ?i ?s = Some (?i + of_nat (live es), ?s\<lparr>ram := m\<rparr>) \<and>
    (\<forall>x. 4 \<le> x - stream \<and> 32 \<le> x - item \<longrightarrow> m x = ram ?s x)"
  proof (rule Cons.IH [OF d])
    show "unat (pos + 32) mod 32 = 0" using Cons.prems(4) p by simp
    show "disk_byte img (unat (pos + 32) + length es * 32) = 0" using Cons.prems(8) p by (simp add: algebra_simps)
  qed (use Cons.prems p b in simp_all)
  then obtain m where m: "total_items_loop img disk stream item ?i ?s = Some (?i + of_nat (live es), ?s\<lparr>ram := m\<rparr>)"
    "\<forall>x. 4 \<le> x - stream \<and> 32 \<le> x - item \<longrightarrow> m x = ?m x" by auto
  have "total_items_loop img disk stream item i s = total_items_loop img disk stream item ?i ?s"
    using r hd e(2) by (subst total_items_loop.simps) simp
  moreover have "?i + of_nat (live es) = i + of_nat (live (e # es))" by (simp add: live_def)
  ultimately have "total_items_loop img disk stream item i s = Some (i + of_nat (live (e # es)), s\<lparr>ram := m\<rparr>)"
    using m(1) by simp
  moreover have "\<forall>x. 4 \<le> x - stream \<and> 32 \<le> x - item \<longrightarrow> m x = ram s x"
    using m(2) by (simp add: entry_frame)
  ultimately show ?case by blast
qed

section \<open>Loading the root directory\<close>

text \<open>Where loading writes among the pages in use: the directory of the volume, the directory stream and the entry on the stack.\<close>

definition root_writes :: "fat_stack \<Rightarrow> u32 \<Rightarrow> u32 \<Rightarrow> u32 \<Rightarrow> bool" where
  "root_writes stk p c x \<longleftrightarrow> page_of x = c \<or> x - (p + 64) < 16 \<or> x - stk_item stk < 32"

lemma disk_words:
  assumes "\<And>x. x - disk < 20 \<Longrightarrow> m' x = m x"
  shows "disk_sector_size m' disk = disk_sector_size m disk" "disk_id m' disk = disk_id m disk"
    "disk_filesystem m' disk = disk_filesystem m disk" "disk_fs_private m' disk = disk_fs_private m disk"
proof -
  have "load32 m' (disk + k) = load32 m (disk + k)" if "k \<le> 16" for k
  proof (rule load32_cong)
    fix j :: u32 assume "j < 4"
    then have "disk + k + j - disk < 20" using that near_within [of "disk + k + j" disk k 4 20] by (simp add: word_le_nat_alt)
    then show "m' (disk + k + j) = m (disk + k + j)" by (rule assms)
  qed
  then show "disk_sector_size m' disk = disk_sector_size m disk" "disk_id m' disk = disk_id m disk"
    "disk_filesystem m' disk = disk_filesystem m disk" "disk_fs_private m' disk = disk_fs_private m disk"
    by (simp_all add: disk_sector_size_def disk_id_def disk_filesystem_def disk_fs_private_def)
qed

lemma stream_clear:
  assumes "page_aligned c" "\<And>i. i < unat n \<Longrightarrow> page_of (out + of_nat i) \<noteq> c"
  shows "buffer_clear c out n"
  unfolding buffer_clear_def
proof (intro allI impI)
  fix i assume "i < unat n"
  then have "4096 \<le> out + of_nat i - c" using far_from_page [OF assms(1)] assms(2) by metis
  then show "8 \<le> out + of_nat i - c" by (rule order.trans [rotated]) simp
qed

text \<open>Counting starts with clearing the entry and seeking: the count is that of the entries not deleted.\<close>

lemma total_items_for_directory_ok:
  assumes img: "fat_image img its" and c: "page_aligned c" "load32 (ram s) (field c 1) = disk"
    and p: "disk_fs_private (ram s) disk = p" "page_aligned p" "load32 (ram s) (field p 22) = c" "disk_sector_size (ram s) disk = 512"
    and stk: "\<forall>x. x - stk_item stk < 32 \<longrightarrow> page_of x \<noteq> c \<and> page_of x \<noteq> p \<and> \<not> x - disk < 20"
  shows "\<exists>m. fat16_get_total_items_for_directory img stk disk (of_nat (root_start img)) s = Some (of_nat (live its), s\<lparr>ram := m\<rparr>) \<and>
    (\<forall>x. page_of x \<noteq> c \<and> \<not> x - stk_item stk < 32 \<longrightarrow> m x = ram s x)"
proof -
  let ?m0 = "memset (ram s) (stk_item stk) 0 32"
  have same: "?m0 x = ram s x" if "page_of x = c \<or> page_of x = p \<or> x - disk < 20" for x
    using stk that by (auto simp: memset_apply)
  have d: "disk_sector_size ?m0 disk = 512" using disk_words(1) [of disk ?m0 "ram s"] same p(4) by simp
  have w: "load32 ?m0 (field c 1) = disk" "load32 ?m0 (field p 22) = c"
  proof -
    have "same_page (ram s) ?m0 c" "same_page (ram s) ?m0 p"
      using same page_of_in [OF c(1)] page_of_in [OF p(2)] by (simp_all add: same_page_def)
    then show "load32 ?m0 (field c 1) = disk" "load32 ?m0 (field p 22) = c" using same_page_load c(2) p(3) by simp_all
  qed
  let ?pos = "512 * of_nat (root_start img) :: u32" and ?m1 = "store32 ?m0 c (512 * of_nat (root_start img))"
  note rw = root_words [OF img]
  have lim: "(root_start img + root_size img) * 512 < 4294967296" "length its * 32 < root_size img * 512"
    "\<forall>e \<in> set its. length e = 32 \<and> hd e \<noteq> 0" "disk_bytes img (root_start img * 512) (length its * 32) = concat its"
    "disk_byte img (root_start img * 512 + length its * 32) = 0" using img by (simp_all add: fat_image_def)
  have "buffer_clear c (stk_item stk) 32"
    using stk by (intro stream_clear [OF c(1)]) (simp add: word_less_nat_alt unat_of_nat_u32)
  moreover have "unat ?pos + 32 * length its + 32 < 4294967296"
  proof -
    have "length its < root_size img * 16" using lim(2) by simp
    then have "32 * length its + 32 \<le> root_size img * 512" by linarith
    then show ?thesis using lim(1) rw(6) by (simp add: algebra_simps)
  qed
  moreover have "unat ?pos mod 32 = 0" unfolding rw(6) by (simp add: mod_mult_eq [symmetric] flip: mod_mult_eq)
  moreover have "load32 ?m1 (c + 4) = disk" "load32 ?m1 c = ?pos"
    using w(1) load_store_field [OF c(1) c(1), of 0 1, unfolded field_0] by (simp_all add: page_words)
  ultimately obtain m where m: "total_items_loop img disk c (stk_item stk) 0 (s\<lparr>ram := ?m1\<rparr>) =
      Some (0 + of_nat (live its), s\<lparr>ram := ?m1\<rparr>\<lparr>ram := m\<rparr>)"
    "\<forall>x. 4 \<le> x - c \<and> 32 \<le> x - stk_item stk \<longrightarrow> m x = ram (s\<lparr>ram := ?m1\<rparr>) x"
    using total_items_ok [of "s\<lparr>ram := ?m1\<rparr>" c disk ?pos its "stk_item stk" img 0] lim(3-5) unfolding rw(6) by auto
  have "fat16_get_total_items_for_directory img stk disk (of_nat (root_start img)) s = Some (of_nat (live its), s\<lparr>ram := m\<rparr>)"
    using m(1) p(1) w(2) d
    by (simp add: fat16_get_total_items_for_directory_def directory_stream_def page_words stream_seek_def disk_streamer_seek_def
        fat16_sectors_to_abosulute_def Let_def)
  moreover have "m x = ram s x" if "page_of x \<noteq> c" "\<not> x - stk_item stk < 32" for x
  proof -
    have "4 \<le> x - c" using far_word [OF c(1), of 0] that(1) by simp
    then have "m x = ?m0 x" using m(2) that(2) by (simp add: store32_other not_less)
    then show ?thesis using that(2) by (simp add: memset_apply)
  qed
  ultimately show ?thesis by blast
qed

text \<open>The root directory read into a region at \<open>r\<close>, with the stream on the page \<open>c\<close>.\<close>

lemma root_read:
  assumes img: "fat_image img its" and c: "page_aligned c" "load32 m (field c 1) = disk"
    and r: "\<forall>i < root_size img * 512. page_of (r + of_nat i) \<noteq> c"
  defines "sz \<equiv> of_nat (root_size img) * 512"
  shows "\<exists>m'. disk_streamer_read img disk c r sz (store32 m c (512 * of_nat (root_start img))) = Inr (sectors_for sz, m') \<and>
    load32 m' (field c 1) = disk \<and>
    read_bytes m' r (root_size img * 512) = disk_bytes img (root_start img * 512) (root_size img * 512) \<and>
    (\<forall>x. page_of x \<noteq> c \<and> (\<forall>i < root_size img * 512. x \<noteq> r + of_nat i) \<longrightarrow> m' x = m x)"
proof -
  let ?st = "of_nat (root_start img) :: u32" and ?bs = "disk_bytes img (root_start img * 512) (root_size img * 512)"
  note rw = root_words [OF img]
  let ?m3 = "store32 m c (512 * ?st)"
  let ?m4 = "store32 (write_bytes ?m3 r ?bs) c (512 * ?st + sz)"
  have m3: "load32 ?m3 (c + 4) = disk" "load32 ?m3 c = 512 * ?st"
    using c load_store_field [OF c(1) c(1), of 0 1, unfolded field_0] by (simp_all add: page_words)
  have clear: "buffer_clear c r sz" using r rw(5) by (intro stream_clear [OF c(1)]) (simp add: sz_def)
  have "(512 * ?st) mod 512 = 0" using rw(6) by (simp add: word_unat_eq_iff unat_mod)
  moreover have "unat (512 * ?st) + unat sz < 4294967296" using rw(5,6) img by (simp add: fat_image_def sz_def)
  ultimately have "disk_streamer_read img disk c r sz ?m3 = Inr (sectors_for sz, ?m4)"
    using stream_delivers [OF m3 _ clear, of img] rw(5,6) by (simp add: sz_def)
  moreover have "same_page ?m3 (write_bytes ?m3 r ?bs) c" using r c(1) by (intro write_bytes_pages) auto
  from same_page_load [OF this, of 1] have "load32 ?m4 (field c 1) = disk"
    using load_store_field [OF c(1) c(1), of 0 1, unfolded field_0] m3(1) by (simp add: page_words)
  moreover have "?m4 x = write_bytes ?m3 r ?bs x" if "page_of x \<noteq> c" for x
    using store_other_page [OF c(1) _ that, of 0] by (simp add: field_0)
  note far = this
  have "read_bytes ?m4 r (root_size img * 512) = ?bs"
  proof (rule nth_equalityI)
    fix i assume "i < length (read_bytes ?m4 r (root_size img * 512))"
    then have i: "i < root_size img * 512" by (simp add: read_bytes_def)
    have "write_bytes ?m3 r ?bs (r + of_nat i) = ?bs ! i" using i rw(3) by (intro write_bytes_at) simp_all
    then show "read_bytes ?m4 r (root_size img * 512) ! i = ?bs ! i" using i far r by (simp add: read_bytes_def)
  qed (simp add: read_bytes_def)
  moreover have "?m4 x = m x" if "page_of x \<noteq> c" "\<forall>i < root_size img * 512. x \<noteq> r + of_nat i" for x
  proof -
    have "write_bytes ?m3 r ?bs x = ?m3 x" using that(2) by (intro write_bytes_outside) auto
    then show ?thesis using far [OF that(1)] store_other_page [OF c(1) _ that(1), of 0] by (simp add: field_0)
  qed
  ultimately show ?thesis by blast
qed

lemma load_root_ok:
  assumes inv: "kheap_inv s" and img: "fat_image img its"
    and few: "unat (blocks_for (of_nat (root_size img) * 512)) * unat (pmm_used_blocks (phys s)) + 1 < unat (pmm_system_memory_size (phys s))"
    and head: "\<forall>k < 62. ram s (p + k) = bpb img k"
    and c: "page_aligned c" "load32 (ram s) (field c 1) = disk"
    and p: "disk_fs_private (ram s) disk = p" "page_aligned p" "load32 (ram s) (field p 22) = c" "disk_sector_size (ram s) disk = 512"
    and own: "{p, c} \<subseteq> owned_pages (phys s)" "p \<noteq> c"
    and disk: "\<forall>x. x - disk < 20 \<longrightarrow> page_of x \<in> owned_pages (phys s) - {p, c}"
    and stk: "\<forall>x. x - stk_item stk < 32 \<longrightarrow> page_of x \<in> owned_pages (phys s) - {p, c} \<and> \<not> x - disk < 20"
  shows "\<exists>r s'. fat16_load_root_directory img stk disk p (private_root p) s = Some (1, s') \<and>
    load32 (ram s') (field p 16) = r \<and> load32 (ram s') (field p 17) = of_nat (live its) \<and>
    load32 (ram s') (field p 19) = of_nat (root_start img + root_size img) \<and>
    (\<forall>i < of_nat (root_size img) * 512. page_of (r + i) \<in> owned_pages (phys s') - owned_pages (phys s)) \<and>
    read_bytes (ram s') r (root_size img * 512) = disk_bytes img (root_start img * 512) (root_size img * 512) \<and> kheap_inv s' \<and>
    owned_pages (phys s) \<subseteq> owned_pages (phys s') \<and> single_pages s \<subseteq> single_pages s' \<and>
    pmm_system_memory_size (phys s') = pmm_system_memory_size (phys s) \<and>
    unat (pmm_free_blocks (phys s)) = unat (blocks_for (of_nat (root_size img) * 512)) + unat (pmm_free_blocks (phys s')) \<and>
    (\<forall>x. page_of x \<in> owned_pages (phys s) \<and> \<not> root_writes stk p c x \<longrightarrow> ram s' x = ram s x)"
proof -
  let ?O = "owned_pages (phys s)"
  obtain st n :: u32 where st: "st = of_nat (root_start img)" and n: "n = of_nat (root_size img)" by blast
  note rw = root_words [OF img, folded st n]
  have bps: "bytes_per_sector (bpb img) 0 = 512" using img by (simp add: fat_image_def)
  note h = header_fields [OF head]
  have "0 < n * 512" using rw(4,5) by (simp add: word_less_nat_alt)
  from kzalloc_region [OF inv this] few obtain r s1 where r: "kzalloc (n * 512) s = (r, s1)" "r \<noteq> 0" "page_aligned r" "keeps s s1"
    "\<forall>i < n * 512. page_of (r + i) \<in> owned_pages (phys s1) - ?O" "kheap_inv s1" "single_pages s \<subseteq> single_pages s1"
    "unat (pmm_free_blocks (phys s)) = unat (blocks_for (n * 512)) + unat (pmm_free_blocks (phys s1))"
    unfolding n by blast
  have k: "ram s1 x = ram s x" if "page_of x \<in> ?O" for x using r(4) that by (simp add: keeps_def)
  have rpage: "page_of (r + of_nat i) \<notin> ?O" if "i < root_size img * 512" for i
  proof -
    have "(of_nat i :: u32) < n * 512" using that rw(3,5) by (simp add: word_less_nat_alt unat_of_nat_u32)
    then show ?thesis using r(5) by blast
  qed
  let ?m2 = "store32 (ram s1) (field p 16) r" and ?bs = "disk_bytes img (root_start img * 512) (root_size img * 512)"
  have pg: "same_page (ram s) (ram s1) u" if "u \<in> ?O" "page_aligned u" for u
    using k that page_of_in [OF that(2)] by (simp add: same_page_def)
  have w1: "load32 (ram s1) (field p j) = load32 (ram s) (field p j)" "load32 (ram s1) (field c j) = load32 (ram s) (field c j)"
    if "j < 1024" for j
    using same_page_load [OF pg that] own(1) p(2) c(1) by simp_all
  have m2: "load32 ?m2 (field p 22) = c" "load32 ?m2 (field c 1) = disk" "load32 ?m2 (field p 16) = r"
    using p(2,3) c own(2) w1 by (simp_all add: load_store_field)
  have disk2: "?m2 x = ram s x" if "x - disk < 20" for x
  proof -
    have "page_of x \<noteq> p" "page_of x \<in> ?O" using disk that by blast+
    then show ?thesis using k store_other_page [OF p(2), of 16 x] by simp
  qed
  have m3: "load32 (store32 ?m2 c (512 * st)) (field p 16) = r"
    using m2(3) load_store_field [OF c(1) p(2), of 0 16, unfolded field_0] own(2) by simp
  have "\<forall>i < root_size img * 512. page_of (r + of_nat i) \<noteq> c" using rpage own(1) by auto
  from root_read [OF img c(1) m2(2) this, folded st n] obtain m4 where
    rd: "disk_streamer_read img disk c r (n * 512) (store32 ?m2 c (512 * st)) = Inr (sectors_for (n * 512), m4)"
      "load32 m4 (field c 1) = disk" "read_bytes m4 r (root_size img * 512) = ?bs"
      "\<forall>x. page_of x \<noteq> c \<and> (\<forall>i < root_size img * 512. x \<noteq> r + of_nat i) \<longrightarrow> m4 x = ?m2 x" by blast
  have m4: "m4 x = ?m2 x" if "page_of x \<in> ?O" "page_of x \<noteq> c" for x using rd(4) rpage that by blast
  let ?m5 = "store32 m4 (field p 18) st"
  have m5: "?m5 x = ram s x" if "page_of x \<in> ?O" "page_of x \<noteq> c" "page_of x \<noteq> p" for x
    using store_other_page [OF p(2) _ that(3)] m4 [OF that(1,2)] k [OF that(1)] by simp
  have pp: "same_page ?m2 m4 p" using m4 own page_of_in [OF p(2)] by (simp add: same_page_def)
  have w5: "load32 ?m5 (field c 1) = disk" "load32 ?m5 (field p 22) = c" "load32 ?m5 (field p 16) = r"
    using rd(2) m2 same_page_load [OF pp] c(1) p(2) own(2) by (simp_all add: page_words load_store_field)
  have disk5: "?m5 x = ram s x" if "x - disk < 20" for x using disk that by (intro m5) auto
  have d5: "disk_fs_private ?m5 disk = p" "disk_sector_size ?m5 disk = 512" "disk_sector_size ?m2 disk = 512"
    using disk_words [of disk ?m5 "ram s", OF disk5] disk_words(1) [of disk ?m2 "ram s", OF disk2] p(1,4) by simp_all
  obtain m5 s5 where e5: "m5 = ?m5" "s5 = s1\<lparr>ram := m5\<rparr>" by blast
  have q5: "load32 (ram s5) (field c 1) = disk" "disk_fs_private (ram s5) disk = p" "load32 (ram s5) (field p 22) = c"
    "disk_sector_size (ram s5) disk = 512" using w5 d5 by (simp_all add: e5)
  have "\<forall>x. x - stk_item stk < 32 \<longrightarrow> page_of x \<noteq> c \<and> page_of x \<noteq> p \<and> \<not> x - disk < 20" using stk by auto
  from total_items_for_directory_ok [OF img c(1) q5(1,2) p(2) q5(3,4) this] obtain m6 where
    t: "fat16_get_total_items_for_directory img stk disk (of_nat (root_start img)) s5 = Some (of_nat (live its), s5\<lparr>ram := m6\<rparr>)"
    "\<forall>x. page_of x \<noteq> c \<and> \<not> x - stk_item stk < 32 \<longrightarrow> m6 x = m5 x" by (auto simp: e5)
  let ?m7 = "store32 (store32 (store32 m6 (field p 18) st) (field p 19) (st + n)) (field p 17) (of_nat (live its))"
  have run: "fat16_load_root_directory img stk disk p (private_root p) s = Some (1, s1\<lparr>ram := ?m7\<rparr>)"
  proof -
    have "stream_read img disk c r (n * 512) (s1\<lparr>ram := store32 ?m2 c (512 * st)\<rparr>) = Some (sectors_for (n * 512), s1\<lparr>ram := m4\<rparr>)"
      using rd(1) by (simp add: stream_read_def)
    moreover have "directory_item (store32 ?m2 c (512 * st)) (private_root p) = r" "directory_stream ?m2 p = c"
      using m3 m2(1) by (simp_all add: directory_item_def private_root_def directory_stream_def page_words)
    moreover have size: "(if root_dir_entries (ram s) p * 32 mod bytes_per_sector (ram s) p = 0
        then root_dir_entries (ram s) p * 32 div bytes_per_sector (ram s) p
        else root_dir_entries (ram s) p * 32 div bytes_per_sector (ram s) p + 1) = n"
      using rw(2) unfolding h(1,5) bps .
    moreover have start: "hidden_setors (ram s) p + reserved_sectors (ram s) p + fat_copies (ram s) p * sectors_per_fat (ram s) p = st"
      using rw(1) unfolding h(3,4,6,7) .
    moreover have "bytes_per_sector (ram s) p = 512" using h(1) bps by simp
    moreover have "private_root p = field p 16" "private_root p + 8 = field p 18" "private_root p + 12 = field p 19"
      "private_root p + 4 = field p 17" by (simp_all add: private_root_def field_def)
    ultimately show ?thesis
      using r(1) t(1) d5(3) sectors_pos [of "n * 512"]
      unfolding fat16_load_root_directory_def Let_def size start
      by (simp add: stream_seek_def disk_streamer_seek_def set_word_def e5 st [symmetric]
          fat16_sectors_to_abosulute_def)
  qed
  have m7: "?m7 x = m5 x" if "page_of x \<noteq> p" "page_of x \<noteq> c" "\<not> x - stk_item stk < 32" for x
    using t(2) that store_other_page [OF p(2) _ that(1)] by simp
  have p6: "same_page m5 m6 p"
    using t(2) stk own page_of_in [OF p(2)] by (auto simp: same_page_def)
  have "load32 ?m7 (field p 16) = r" "load32 ?m7 (field p 17) = of_nat (live its)" "load32 ?m7 (field p 19) = st + n"
    using p(2) same_page_load [OF p6] w5(3) by (simp_all add: load_store_field e5(1))
  moreover have "read_bytes ?m7 r (root_size img * 512) = ?bs"
  proof -
    have "?m7 (r + of_nat i) = ?bs ! i" if i: "i < root_size img * 512" for i
    proof -
      let ?x = "r + of_nat i"
      have x: "page_of ?x \<noteq> p" "page_of ?x \<noteq> c" "\<not> ?x - stk_item stk < 32" using rpage [OF i] own stk by auto
      have "?m7 ?x = m4 ?x" using m7 [OF x] store_other_page [OF p(2) _ x(1)] by (simp add: e5(1))
      then show ?thesis using arg_cong [OF rd(3), of "\<lambda>xs. xs ! i"] i by (simp add: read_bytes_def)
    qed
    then show ?thesis by (intro nth_equalityI) (simp_all add: read_bytes_def)
  qed
  moreover have "?m7 x = ram s x" if x: "page_of x \<in> ?O" "\<not> root_writes stk p c x" for x
  proof -
    have x': "page_of x \<noteq> c" "\<not> x - (p + 64) < 16" "\<not> x - stk_item stk < 32" using x(2) by (simp_all add: root_writes_def)
    have "\<not> x - (p + 64 + k) < 4" if "k \<le> 12" for k
      using x'(2) near_within [of x "p + 64" k 4 16] that by (auto simp: word_le_nat_alt)
    from this [of 0] this [of 4] this [of 8] this [of 12]
    have away: "4 \<le> x - field p 16" "4 \<le> x - field p 17" "4 \<le> x - field p 18" "4 \<le> x - field p 19"
      by (simp_all add: field_def not_less add.assoc)
    have "?m7 x = m5 x" using t(2) x'(1,3) away by (simp add: store32_other)
    also have "\<dots> = ?m2 x" using m4 [OF x(1) x'(1)] away(3) by (simp add: e5(1) store32_other)
    also have "\<dots> = ram s x" using k [OF x(1)] away(1) by (simp add: store32_other)
    finally show ?thesis .
  qed
  moreover have "\<forall>i < n * 512. page_of (r + i) \<in> owned_pages (phys (s1\<lparr>ram := ?m7\<rparr>)) - ?O" using r(5) by simp
  moreover have "?O \<subseteq> owned_pages (phys s1)" "pmm_system_memory_size (phys s1) = pmm_system_memory_size (phys s)"
    using r(4) by (simp_all add: keeps_def)
  ultimately show ?thesis using run r(6-8) unfolding n st
    by (intro exI [of _ r] exI [of _ "s1\<lparr>ram := ?m7\<rparr>"] conjI) (simp_all add: n st)
qed

section \<open>The volume\<close>

lemma entries_nth:
  "disk_bytes img k (length its * 32) = concat its \<Longrightarrow> \<forall>e \<in> set its. length e = 32 \<Longrightarrow> i < length its \<Longrightarrow>
    disk_bytes img (k + i * 32) 32 = its ! i"
proof (induction its arbitrary: k i)
  case (Cons e es)
  have "disk_bytes img k (32 + length es * 32) = e @ concat es" "length e = 32" using Cons.prems(1,2) by simp_all
  from disk_bytes_split [OF this] have b: "disk_bytes img k 32 = e" "disk_bytes img (k + 32) (length es * 32) = concat es" by simp_all
  show ?case
  proof (cases i)
    case 0
    then show ?thesis using b(1) by simp
  next
    case (Suc j)
    have "disk_bytes img (k + 32 + j * 32) 32 = es ! j" using Cons.prems(2,3) Suc by (intro Cons.IH [OF b(2)]) simp_all
    then show ?thesis by (simp add: Suc algebra_simps)
  qed
qed simp

text \<open>
  A mounted volume: its structures on pages outside \<open>Q\<close>, the parameters of the boot record in them, and at \<open>r\<close> the root directory
  with its entries as they are on the disk. The number of entries recorded is that of the live ones.
\<close>

definition mounted :: "(u32 \<Rightarrow> u8 list) \<Rightarrow> u8 list list \<Rightarrow> fat_volume \<Rightarrow> u32 \<Rightarrow> u32 set \<Rightarrow> kmem \<Rightarrow> bool" where
  "mounted img its v r Q s \<longleftrightarrow> (let b = bpb img; p = v_private v; own = owned_pages (phys s) - Q in
     volume_at (ram s) v \<and> v_spc v = unat (sectors_per_cluster b 0) \<and> v_end v = root_start img + root_size img \<and>
     v_table v = (unat (reserved_sectors b 0) + unat (hidden_setors b 0)) * 512 \<and>
     distinct [p, v_data v, v_fat v] \<and> (\<forall>t \<in> {p, v_data v, v_fat v}. page_aligned t \<and> t \<in> own) \<and>
     (\<forall>i < of_nat (root_size img) * 512. page_of (r + i) \<in> own - {p, v_data v, v_fat v}) \<and>
     directory_item (ram s) (private_root p) = r \<and> total_entries (ram s) (private_root p) = of_nat (live its) \<and>
     (\<forall>i < length its. read_bytes (ram s) (r + of_nat i * 32) 32 = its ! i))"

lemma header_read:
  assumes "\<forall>i < 62. m (p + of_nat i) = disk_byte img i" shows "\<forall>k < 62. m (p + k) = bpb img k"
proof (intro allI impI)
  fix k :: u32 assume "k < 62"
  then have "unat k < 62" by (simp add: word_less_nat_alt)
  then show "m (p + k) = bpb img k" using assms [rule_format, of "unat k"] bpb_at [of "unat k" img] by simp
qed

text \<open>Up to the boot record in memory: five pages more, with the private structure, the streams and the header.\<close>

lemma resolve_head:
  assumes inv: "kheap_inv s" and img: "fat_image img its" and free: "5 \<le> unat (pmm_free_blocks (phys s))"
    and d: "disk \<noteq> 0" "disk_id (ram s) disk = 0" "\<forall>x. x - disk < 20 \<longrightarrow> page_of x \<in> owned_pages (phys s)"
  shows "\<exists>p a b c h s1 s2 s3 m. kzalloc 92 s = (p, s1) \<and> fat16_init_private disk p s1 = s2 \<and>
    create_disk_streamer disk (disk_id (ram s2) disk) s2 = (h, s3) \<and> h \<noteq> 0 \<and>
    stream_read img disk h p 62 s3 = Some (1, s3\<lparr>ram := m\<rparr>) \<and> kheap_inv s3 \<and> h \<in> single_pages s3 \<and>
    distinct [p, a, b, c, h] \<and> (\<forall>t \<in> {p, a, b, c, h}. page_aligned t \<and> t \<notin> owned_pages (phys s)) \<and>
    owned_pages (phys s3) = {p, a, b, c, h} \<union> owned_pages (phys s) \<and>
    pmm_system_memory_size (phys s3) = pmm_system_memory_size (phys s) \<and>
    unat (pmm_free_blocks (phys s)) = 5 + unat (pmm_free_blocks (phys s3)) \<and> private_at m disk p a b c \<and>
    (\<forall>k < 62. m (p + k) = bpb img k) \<and> (\<forall>x. page_of x \<in> owned_pages (phys s) \<longrightarrow> m x = ram s x)"
proof -
  let ?O = "owned_pages (phys s)"
  have "0 < unat (pmm_free_blocks (phys s))" using free by simp
  from kmallac_grown [OF inv _ this, of 92] obtain p s0 where p0: "kmallac 92 s = (p, s0)" "grown s p s0" "ram s0 = ram s" by auto
  let ?s1 = "s0\<lparr>ram := memset (ram s0) p 0 92\<rparr>"
  have gp: "grown s p ?s1" using p0(2) by (simp add: grown_ram)
  have p: "page_aligned p" "p \<notin> ?O" "owned_pages (phys ?s1) = insert p ?O" "kheap_inv ?s1"
    using gp by (simp_all add: grown_def)
  have k1: "ram ?s1 x = ram s x" if "page_of x \<in> ?O" for x
  proof -
    have "page_of x \<noteq> p" using that p(2) by auto
    then show ?thesis using p(1) p0(3) by (simp add: memset_other_page)
  qed
  have dp: "\<forall>x. x - disk < 20 \<longrightarrow> page_of x \<in> owned_pages (phys ?s1) - {p}" using d(3) p(2,3) by auto
  have keep: "disk_id m disk = 0" if "\<And>x. page_of x \<in> ?O \<Longrightarrow> m x = ram s x" for m
    using disk_words(2) [of disk m "ram s"] that d(2,3) by simp
  have "load32 (ram ?s1) (disk + 8) = 0" using keep [OF k1] by (simp add: disk_id_def)
  moreover have "3 \<le> unat (pmm_free_blocks (phys ?s1))" using gp free by (simp add: grown_def)
  ultimately obtain a b c sa sb s2 where i: "fat16_init_private disk p ?s1 = s2" "grown ?s1 a sa" "grown sa b sb" "grown sb c s2"
      "private_at (ram s2) disk p a b c" "\<forall>x. page_of x \<in> owned_pages (phys ?s1) - {p} \<longrightarrow> ram s2 x = ram ?s1 x"
    using init_private_ok [OF p(4) _ d(1) _ dp p(1)] p(3) by blast
  have k2: "ram s2 x = ram s x" if "page_of x \<in> ?O" for x
  proof -
    have "page_of x \<in> owned_pages (phys ?s1) - {p}" using that p(2,3) by auto
    then show ?thesis using i(6) k1 [OF that] by simp
  qed
  have i2: "kheap_inv s2" "0 < unat (pmm_free_blocks (phys s2))" using gp i(2-4) free by (simp_all add: grown_def)
  from create_stream_ok [OF i2 d(1)] obtain h s3 where h: "create_disk_streamer disk 0 s2 = (h, s3)" "grown s2 h s3"
    "load32 (ram s3) (field h 0) = 0" "load32 (ram s3) (field h 1) = disk" "\<forall>x. page_of x \<noteq> h \<longrightarrow> ram s3 x = ram s2 x" by blast
  have own: "owned_pages (phys s3) = {p, a, b, c, h} \<union> ?O" using gp i(2-4) h(2) by (auto simp: grown_def)
  have al: "\<forall>t \<in> {p, a, b, c, h}. page_aligned t \<and> t \<notin> ?O" "distinct [p, a, b, c, h]"
    using gp i(2-4) h(2) by (auto simp: grown_def)
  let ?bs = "disk_bytes img 0 62"
  obtain m where m: "m = store32 (write_bytes (ram s3) p ?bs) h 62" by blast
  have inp: "page_of (p + of_nat i) = p" if "i < 62" for i using that by (intro page_of_nat_offset [OF p(1)]) simp
  have "buffer_clear h p 62" using al inp by (intro stream_clear) auto
  then have "disk_streamer_read img disk h p 62 (ram s3) = Inr (sectors_for 62, m)"
    using stream_delivers [of "ram s3" h disk 0 62 p img] h(3,4) by (simp add: field_def m)
  then have rd: "stream_read img disk h p 62 s3 = Some (1, s3\<lparr>ram := m\<rparr>)"
    by (simp add: stream_read_def sectors_for_def)
  have far: "m x = ram s3 x" if "page_of x \<noteq> p" "page_of x \<noteq> h" for x
  proof -
    have "write_bytes (ram s3) p ?bs x = ram s3 x" using inp that(1) by (intro write_bytes_outside) auto
    then show ?thesis using store_other_page [of h 0 x] al that(2) by (simp add: field_0 m)
  qed
  have "m (p + of_nat i) = disk_byte img i" if "i < 62" for i
  proof -
    have "page_of (p + of_nat i) \<noteq> h" using inp [OF that] al(2) by simp
    then have "m (p + of_nat i) = write_bytes (ram s3) p ?bs (p + of_nat i)"
      using store_other_page [of h 0] al(1) by (simp add: field_0 m)
    also have "\<dots> = ?bs ! i" using that by (intro write_bytes_at) simp_all
    finally show ?thesis using that by (simp add: disk_bytes_def)
  qed
  then have head: "\<forall>k < 62. m (p + k) = bpb img k" by (intro header_read) blast
  have "private_at m disk p a b c"
  proof (rule private_at_cong [OF i(5)])
    fix x assume x: "x - (p + 80) < 12"
    have "page_of x = p" using x near_within [of x p 80 12 4096] page_of_in [OF p(1)] by simp
    then have ph: "page_of x \<noteq> h" using al(2) by simp
    have "x \<noteq> p + of_nat i" if "i < length ?bs" for i
    proof
      assume e: "x = p + of_nat i"
      have "(of_nat i :: u32) < 62" using that by (simp add: word_less_nat_alt unat_of_nat_u32)
      then have "x - p < 62" using e by simp
      moreover obtain z where z: "z = x - (p + 80)" by blast
      ultimately have "z + 80 < 62" "z < 12" using x by simp_all
      then show False by (simp add: word_less_nat_alt unat_word_ariths)
    qed
    then have "write_bytes (ram s3) p ?bs x = ram s3 x" by (rule write_bytes_outside)
    then show "m x = ram s2 x" using store_other_page [of h 0 x] al(1) ph h(5) by (simp add: field_0 m)
  next
    fix x t assume t: "t \<in> {a, b, c}" "x - (t + 4) < 4"
    then have "page_of x = t" using near_within [of x t 4 4 4096] page_of_in [of t x] al(1) by auto
    then have "page_of x \<noteq> p" "page_of x \<noteq> h" using t(1) al(2) by auto
    then show "m x = ram s2 x" using far h(5) by simp
  qed
  moreover have "\<forall>x. page_of x \<in> ?O \<longrightarrow> m x = ram s x"
  proof (intro allI impI)
    fix x assume x: "page_of x \<in> ?O"
    then have "page_of x \<noteq> p" "page_of x \<noteq> h" using al(1) by auto
    then show "m x = ram s x" using far [of x] h(5) k2 [OF x] by simp
  qed
  moreover have "kheap_inv s3" "h \<in> single_pages s3" "h \<noteq> 0"
    "pmm_system_memory_size (phys s3) = pmm_system_memory_size (phys s)"
    "unat (pmm_free_blocks (phys s)) = 5 + unat (pmm_free_blocks (phys s3))"
    using gp i(2-4) h(2) by (simp_all add: grown_def)
  moreover have "kzalloc 92 s = (p, ?s1)" using p0(1) by (simp add: kzalloc_def)
  moreover have "create_disk_streamer disk (disk_id (ram s2) disk) s2 = (h, s3)" using h(1) keep [OF k2] by simp
  ultimately show ?thesis using i(1) rd own al head
    by (intro exI [of _ p] exI [of _ a] exI [of _ b] exI [of _ c] exI [of _ h] exI [of _ ?s1] exI [of _ s2] exI [of _ s3] exI [of _ m] conjI)
qed

text \<open>What the volume's parameters are once the private structure and the directory are in memory.\<close>

lemma volume_mounted:
  assumes img: "fat_image img its" and head: "\<forall>k < 62. m (p + k) = bpb img k"
    and priv: "load32 m (field p 20) = a" "load32 m (field p 21) = b" "load32 m (field a 1) = disk" "load32 m (field b 1) = disk"
    and d: "disk_sector_size m disk = 512" "disk_fs_private m disk = p"
    and e: "load32 m (field p 19) = of_nat (root_start img + root_size img)"
  shows "volume_at m \<lparr>v_disk = disk, v_private = p, v_data = a, v_fat = b, v_result = res,
    v_spc = unat (sectors_per_cluster (bpb img) 0), v_end = root_start img + root_size img,
    v_table = (unat (reserved_sectors (bpb img) 0) + unat (hidden_setors (bpb img) 0)) * 512\<rparr>"
proof -
  note h = header_fields [OF head]
  have lim: "(root_start img + root_size img) * 512 < 4294967296" "bytes_per_sector (bpb img) 0 = 512"
    "sectors_per_cluster (bpb img) 0 \<noteq> 0" using img by (simp_all add: fat_image_def)
  let ?r = "unat (reserved_sectors (bpb img) 0)" and ?h = "unat (hidden_setors (bpb img) 0)"
  have "(?r + ?h) * 512 \<le> (root_start img + root_size img) * 512" by (simp add: root_start_def)
  then have s: "(?r + ?h) * 512 < 4294967296" using lim(1) by linarith
  then have "unat (reserved_sectors (bpb img) 0 + hidden_setors (bpb img) 0) = ?r + ?h" by (simp add: unat_word_ariths)
  then have t: "unat ((reserved_sectors (bpb img) 0 + hidden_setors (bpb img) 0) * 512) = (?r + ?h) * 512"
    using s by (simp add: unat_word_ariths)
  have "unat (load32 m (field p 19)) = root_start img + root_size img" unfolding e using lim(1) by (intro unat_of_nat_u32) simp
  then show ?thesis
    using priv d h lim(2,3) t
    by (simp add: volume_at_def cluster_read_stream_def fat_read_stream_def ending_sector_pos_def
        private_root_def fat16_get_first_fat_sector_def field_def unat_gt_0 add.commute [of p])
qed

lemma entries_read:
  assumes img: "fat_image img its" and r: "read_bytes m r (root_size img * 512) = disk_bytes img (root_start img * 512) (root_size img * 512)"
    and i: "i < length its"
  shows "read_bytes m (r + of_nat i * 32) 32 = its ! i"
proof -
  have its: "\<forall>e \<in> set its. length e = 32" "disk_bytes img (root_start img * 512) (length its * 32) = concat its"
    "length its * 32 < root_size img * 512" using img by (simp_all add: fat_image_def)
  have byte: "m (r + of_nat k) = disk_byte img (root_start img * 512 + k)" if "k < root_size img * 512" for k
    using arg_cong [OF r, of "\<lambda>xs. xs ! k"] that by (simp add: read_bytes_def disk_bytes_def)
  have "m (r + of_nat i * 32 + of_nat j) = disk_byte img (root_start img * 512 + i * 32 + j)" if "j < 32" for j
    using byte [of "i * 32 + j"] i its(3) that by (simp add: add.assoc)
  then have "read_bytes m (r + of_nat i * 32) 32 = disk_bytes img (root_start img * 512 + i * 32) 32"
    by (intro nth_equalityI) (simp_all add: read_bytes_def disk_bytes_def)
  then show ?thesis using entries_nth [OF its(2,1) i] by simp
qed

text \<open>The volume that is mounted, from what \<open>fat16_load_root_directory\<close> leaves.\<close>

definition volume_of :: "(u32 \<Rightarrow> u8 list) \<Rightarrow> u32 \<Rightarrow> u32 \<Rightarrow> u32 \<Rightarrow> u32 \<Rightarrow> u32 \<Rightarrow> fat_volume" where
  "volume_of img disk p a b res = \<lparr>v_disk = disk, v_private = p, v_data = a, v_fat = b, v_result = res,
    v_spc = unat (sectors_per_cluster (bpb img) 0), v_end = root_start img + root_size img,
    v_table = (unat (reserved_sectors (bpb img) 0) + unat (hidden_setors (bpb img) 0)) * 512\<rparr>"

lemma root_mounted:
  assumes img: "fat_image img its" and head: "\<forall>k < 62. ram s (p + k) = bpb img k" and priv: "private_at (ram s) disk p a b c"
    and d: "disk_sector_size (ram s) disk = 512" "disk_fs_private (ram s) disk = p"
    and pages: "distinct [p, a, b, c]" "\<forall>t \<in> {p, a, b, c}. page_aligned t \<and> t \<in> owned_pages (phys s) - Q" "Q \<subseteq> owned_pages (phys s)"
    and Q: "\<forall>x. x - disk < 20 \<longrightarrow> page_of x \<in> Q" "\<forall>x. x - stk_item stk < 32 \<longrightarrow> page_of x \<in> Q \<and> \<not> x - disk < 20"
    and l: "load32 (ram s') (field p 16) = q" "load32 (ram s') (field p 17) = of_nat (live its)"
      "load32 (ram s') (field p 19) = of_nat (root_start img + root_size img)"
      "\<forall>i < of_nat (root_size img) * 512. page_of (q + i) \<in> owned_pages (phys s') - owned_pages (phys s)"
      "read_bytes (ram s') q (root_size img * 512) = disk_bytes img (root_start img * 512) (root_size img * 512)"
      "owned_pages (phys s) \<subseteq> owned_pages (phys s')"
      "\<forall>x. page_of x \<in> owned_pages (phys s) \<and> \<not> root_writes stk p c x \<longrightarrow> ram s' x = ram s x"
  shows "mounted img its (volume_of img disk p a b res) q Q s'" "disk_fs_private (ram s') disk = p"
proof -
  have keep: "ram s' x = ram s x" if "page_of x \<in> owned_pages (phys s)" "page_of x \<noteq> c" "\<not> x - (p + 64) < 16" "page_of x \<notin> Q" for x
    using l(7) Q(2) that by (auto simp: root_writes_def)
  have inp: "page_of x = p" if "x - p < 4096" for x using pages(2) that by (intro page_of_in) simp_all
  have off: "ram s' (p + k) = ram s (p + k)" if k: "k < 64 \<or> 80 \<le> k \<and> k < 92" for k
  proof (rule keep)
    have "k < 4096" using k by (auto elim: order.strict_trans)
    then have "page_of (p + k) = p" by (intro inp) simp
    then show "page_of (p + k) \<in> owned_pages (phys s)" "page_of (p + k) \<noteq> c" "page_of (p + k) \<notin> Q" using pages(1,2) by auto
    have "p + k - (p + 64) = k - 64" by simp
    moreover have "\<not> k - 64 < 16" using k by (auto simp: word_less_nat_alt word_le_nat_alt unat_sub_if')
    ultimately show "\<not> p + k - (p + 64) < 16" by (simp only:) simp
  qed
  have head': "\<forall>k < 62. ram s' (p + k) = bpb img k"
  proof (intro allI impI)
    fix k :: u32 assume k: "k < 62"
    then have "k < 64" by (rule order.strict_trans) simp
    then show "ram s' (p + k) = bpb img k" using off head k by simp
  qed
  have w: "load32 (ram s') (field p 20) = a" "load32 (ram s') (field p 21) = b"
  proof -
    have "load32 (ram s') (p + k) = load32 (ram s) (p + k)" if "80 \<le> k" "k \<le> 88" for k
    proof (rule load32_cong)
      fix j :: u32 assume "j < 4"
      then have "80 \<le> k + j \<and> k + j < 92" using that by (auto simp: word_less_nat_alt word_le_nat_alt unat_word_ariths)
      then show "ram s' (p + k + j) = ram s (p + k + j)" using off [of "k + j"] by (simp add: add.assoc)
    qed
    from this [of 80] this [of 84] show "load32 (ram s') (field p 20) = a" "load32 (ram s') (field p 21) = b"
      using priv by (simp_all add: private_at_def field_def)
  qed
  have "load32 (ram s') (field t 1) = disk" if t: "t \<in> {a, b}" for t
  proof -
    have "same_page (ram s) (ram s') t"
      unfolding same_page_def
    proof (intro allI impI keep)
      fix x assume "x - t < 4096"
      then have x: "page_of x = t" using t pages(2) by (intro page_of_in) auto
      show "page_of x \<in> owned_pages (phys s)" "page_of x \<noteq> c" "page_of x \<notin> Q" using x t pages(1,2) by auto
      have "page_of x \<noteq> p" using x t pages(1) by auto
      then show "\<not> x - (p + 64) < 16" using inp [of x] near_within [of x p 64 16 4096] by auto
    qed
    from same_page_load [OF this, of 1] show ?thesis using t priv by (auto simp: private_at_def)
  qed
  note ab = this
  have disk: "ram s' x = ram s x" if x: "x - disk < 20" for x
  proof -
    have "page_of x \<in> Q" using Q(1) x by blast
    then have n: "page_of x \<in> owned_pages (phys s)" "page_of x \<noteq> p" "page_of x \<noteq> c" using pages(2,3) by auto
    then have "\<not> x - (p + 64) < 16" using inp [of x] near_within [of x p 64 16 4096] by auto
    moreover have "\<not> x - stk_item stk < 32" using Q(2) x by blast
    ultimately show ?thesis using l(7) n(1,3) by (simp add: root_writes_def)
  qed
  show priv': "disk_fs_private (ram s') disk = p" using disk_words(4) [of disk "ram s'" "ram s"] disk d(2) by simp
  have "disk_sector_size (ram s') disk = 512" using disk_words(1) [of disk "ram s'" "ram s"] disk d(1) by simp
  from volume_mounted [OF img head' w _ _ this priv' l(3), of res] ab
  have vol: "volume_at (ram s') (volume_of img disk p a b res)" by (simp add: volume_of_def)
  moreover have "read_bytes (ram s') (q + of_nat i * 32) 32 = its ! i" if "i < length its" for i
    using entries_read [OF img l(5) that] .
  moreover have "page_of (q + i) \<in> owned_pages (phys s') - Q - {p, a, b}" if "i < of_nat (root_size img) * 512" for i
    using l(4) that pages(2,3) by auto
  moreover have "\<forall>t \<in> {p, a, b}. page_aligned t \<and> t \<in> owned_pages (phys s') - Q" "distinct [p, a, b]" using pages(1,2) l(6) by auto
  ultimately show "mounted img its (volume_of img disk p a b res) q Q s'"
    using l(1,2) unfolding mounted_def Let_def
    by (simp add: volume_of_def directory_item_def total_entries_def private_root_def field_def add.assoc)
qed

text \<open>The private structure entered in the disk structure.\<close>

lemma private_linked:
  assumes d: "\<forall>x. x - disk < 20 \<longrightarrow> page_of x \<in> Q" "disk_sector_size m0 disk = 512"
    and r: "\<forall>t \<in> {p, a, b, c}. page_aligned t \<and> t \<notin> Q" "private_at m disk p a b c" "\<forall>k < 62. m (p + k) = bpb img k"
      "\<forall>x. page_of x \<in> Q \<longrightarrow> m x = m0 x"
  defines "m' \<equiv> store32 m (disk + 16) p"
  shows "private_at m' disk p a b c" "\<forall>k < 62. m' (p + k) = bpb img k" "disk_fs_private m' disk = p" "disk_sector_size m' disk = 512"
    "\<not> x - (disk + 16) < 4 \<Longrightarrow> m' x = m x"
proof -
  have far: "m' x = m x" if "\<not> x - (disk + 16) < 4" for x using that by (simp add: m'_def store32_other)
  have "page_of x \<in> Q" if "x - (disk + 16) < 4" for x using d(1) that near_within [of x disk 16 4 20] by simp
  then have new: "m' x = m x" if "page_of x \<notin> Q" for x using that far by blast
  show "private_at m' disk p a b c"
  proof (rule private_at_cong [OF r(2)])
    fix x assume "x - (p + 80) < 12"
    then have "page_of x = p" using near_within [of x p 80 12 4096] page_of_in [of p x] r(1) by simp
    then show "m' x = m x" using r(1) by (intro new) simp
  next
    fix x t assume "t \<in> {a, b, c}" "x - (t + 4) < 4"
    then have "page_of x = t" "t \<notin> Q" using near_within [of x t 4 4 4096] page_of_in [of t x] r(1) by auto
    then show "m' x = m x" by (intro new) simp
  qed
  have "page_of (p + k) = p" if "k < 62" for k
    using r(1) order.strict_trans [OF that, of 4096] by (intro page_of_offset) simp_all
  then show "\<forall>k < 62. m' (p + k) = bpb img k" using r(1,3) new by simp
  have "disk_sector_size m disk = 512" using disk_words(1) [of disk m m0] r(4) d by simp
  then show "disk_fs_private m' disk = p" "disk_sector_size m' disk = 512"
    by (simp_all add: disk_fs_private_def disk_sector_size_def m'_def load32_store32_apart apart_def)
  show "\<not> x - (disk + 16) < 4 \<Longrightarrow> m' x = m x" by (rule far)
qed

lemma mounted_release:
  assumes m: "mounted img its v q Q s" and r: "ram s' = ram s" "owned_pages (phys s') = owned_pages (phys s) - {h}"
    and h: "h \<notin> {v_private v, v_data v, v_fat v}" "\<forall>i < of_nat (root_size img) * 512. page_of (q + i) \<noteq> h"
  shows "mounted img its v q Q s'"
  using m h unfolding mounted_def Let_def r by auto

lemma resolve_ok:
  assumes inv: "kheap_inv s" and img: "fat_image img its" and free: "5 \<le> unat (pmm_free_blocks (phys s))"
    and few: "unat (blocks_for (of_nat (root_size img) * 512)) * (unat (pmm_used_blocks (phys s)) + 5) + 1 < unat (pmm_system_memory_size (phys s))"
    and d: "disk \<noteq> 0" "disk_id (ram s) disk = 0" "disk_sector_size (ram s) disk = 512"
      "\<forall>x. x - disk < 20 \<longrightarrow> page_of x \<in> owned_pages (phys s)"
    and stk: "\<forall>x. x - stk_item stk < 32 \<longrightarrow> page_of x \<in> owned_pages (phys s) \<and> \<not> x - disk < 20"
  shows "\<exists>v r s'. fat16_resolve img stk disk s = Some (0, s') \<and> v_disk v = disk \<and> v_result v = stk_result stk \<and>
    mounted img its v r (owned_pages (phys s)) s' \<and> disk_fs_private (ram s') disk = v_private v \<and> kheap_inv s' \<and>
    owned_pages (phys s) \<subseteq> owned_pages (phys s') \<and> pmm_system_memory_size (phys s') = pmm_system_memory_size (phys s) \<and>
    unat (pmm_free_blocks (phys s)) = 4 + unat (blocks_for (of_nat (root_size img) * 512)) + unat (pmm_free_blocks (phys s')) \<and>
    (\<forall>x. page_of x \<in> owned_pages (phys s) \<and> \<not> x - (disk + 16) < 4 \<and> \<not> x - stk_item stk < 32 \<longrightarrow> ram s' x = ram s x)"
proof -
  let ?O = "owned_pages (phys s)" and ?n = "unat (blocks_for (of_nat (root_size img) * 512))"
  from resolve_head [OF inv img free d(1,2,4)] obtain p a b c h s1 s2 s3 m where
    r: "kzalloc 92 s = (p, s1)" "fat16_init_private disk p s1 = s2" "create_disk_streamer disk (disk_id (ram s2) disk) s2 = (h, s3)"
      "h \<noteq> 0" "stream_read img disk h p 62 s3 = Some (1, s3\<lparr>ram := m\<rparr>)" "kheap_inv s3" "h \<in> single_pages s3"
      "distinct [p, a, b, c, h]" "\<forall>t \<in> {p, a, b, c, h}. page_aligned t \<and> t \<notin> ?O"
      "owned_pages (phys s3) = {p, a, b, c, h} \<union> ?O" "pmm_system_memory_size (phys s3) = pmm_system_memory_size (phys s)"
      "unat (pmm_free_blocks (phys s)) = 5 + unat (pmm_free_blocks (phys s3))" "private_at m disk p a b c"
      "\<forall>k < 62. m (p + k) = bpb img k" "\<forall>x. page_of x \<in> ?O \<longrightarrow> m x = ram s x" by blast
  obtain m5 where m5: "m5 = store32 m (disk + 16) p" by blast
  have "\<forall>t \<in> {p, a, b, c}. page_aligned t \<and> t \<notin> ?O" using r(9) by simp
  note link = private_linked [OF d(4,3) this r(13-15), folded m5]
  note priv5 = link(1) and head5 = link(2) and d5 = link(3,4)
  obtain s5 where s5: "s5 = s3\<lparr>ram := m5\<rparr>" by blast
  have f5: "ram s5 = m5" "phys s5 = phys s3" "kheap_inv s5" "single_pages s5 = single_pages s3" using r(6) by (simp_all add: s5)
  have used: "unat (pmm_used_blocks (phys s5)) = unat (pmm_used_blocks (phys s)) + 5"
    using inv r(6,11,12) by (simp add: s5 kheap_inv_def pmm_inv_def)
  have few5: "?n * unat (pmm_used_blocks (phys s5)) + 1 < unat (pmm_system_memory_size (phys s5))"
    using few r(11) by (simp add: used) (simp add: s5)
  have c5: "page_aligned c" "page_aligned p" "load32 (ram s5) (field c 1) = disk" "load32 (ram s5) (field p 22) = c"
    "{p, c} \<subseteq> owned_pages (phys s5)" "p \<noteq> c"
    "\<forall>x. x - disk < 20 \<longrightarrow> page_of x \<in> owned_pages (phys s5) - {p, c}"
    "\<forall>x. x - stk_item stk < 32 \<longrightarrow> page_of x \<in> owned_pages (phys s5) - {p, c} \<and> \<not> x - disk < 20"
    using r(8-10) priv5 d(4) stk by (auto simp: f5 private_at_def)
  from load_root_ok [OF f5(3) img few5 _ c5(1,3) _ c5(2,4) _ c5(5-8)] head5 d5 f5(1) obtain q s6 where
    l: "fat16_load_root_directory img stk disk p (private_root p) s5 = Some (1, s6)" "load32 (ram s6) (field p 16) = q"
      "load32 (ram s6) (field p 17) = of_nat (live its)" "load32 (ram s6) (field p 19) = of_nat (root_start img + root_size img)"
      "\<forall>i < of_nat (root_size img) * 512. page_of (q + i) \<in> owned_pages (phys s6) - owned_pages (phys s5)"
      "read_bytes (ram s6) q (root_size img * 512) = disk_bytes img (root_start img * 512) (root_size img * 512)" "kheap_inv s6"
      "owned_pages (phys s5) \<subseteq> owned_pages (phys s6)" "single_pages s5 \<subseteq> single_pages s6"
      "pmm_system_memory_size (phys s6) = pmm_system_memory_size (phys s5)"
      "unat (pmm_free_blocks (phys s5)) = ?n + unat (pmm_free_blocks (phys s6))"
      "\<forall>x. page_of x \<in> owned_pages (phys s5) \<and> \<not> root_writes stk p c x \<longrightarrow> ram s6 x = ram s5 x" by metis
  have "distinct [p, a, b, c]" "\<forall>t \<in> {p, a, b, c}. page_aligned t \<and> t \<in> owned_pages (phys s5) - ?O" "?O \<subseteq> owned_pages (phys s5)"
    using r(8-10) by (auto simp: f5)
  note facts = img head5 priv5 d5(2,1) this d(4) stk l(2-6,8) l(12) [unfolded f5(1)]
  have mt: "mounted img its (volume_of img disk p a b (stk_result stk)) q ?O s6" "disk_fs_private (ram s6) disk = p"
    by (rule root_mounted(1) [where s = s5, unfolded f5(1), OF facts] root_mounted(2) [where s = s5, unfolded f5(1), OF facts])+
  have h6: "h \<in> single_pages s6" using l(9) r(7) f5(4) by blast
  have k: "kfree h s6 = s6\<lparr>phys := pmm_free_block h (phys s6)\<rparr>" "kheap_inv (kfree h s6)"
    "unat (pmm_free_blocks (phys (kfree h s6))) = Suc (unat (pmm_free_blocks (phys s6)))"
    using kfree_single [OF l(7) h6 r(4)] heap_pages.release_ok [OF l(7) h6 r(4)] by simp_all
  have own: "owned_pages (phys (kfree h s6)) = owned_pages (phys s6) - {h}"
    using pmm_pages.release_ok [of "phys s6" h] l(7) h6 r(4) k(1) by (simp add: kheap_inv_def single_pages_def)
  have "header_signature m p = 0x29" using header_fields(8) [OF r(14)] img by (simp add: fat_image_def)
  moreover have "set_word (disk + 16) p (s3\<lparr>ram := m\<rparr>) = s5" by (simp add: set_word_def s5 m5)
  ultimately have run: "fat16_resolve img stk disk s = Some (0, kfree h s6)"
    by (simp add: fat16_resolve_def r(1-5) l(1) disk_streamer_close_def)
  have ram: "ram (kfree h s6) = ram s6" by (simp add: k(1))
  have "h \<in> owned_pages (phys s5)" "h \<notin> {p, a, b}" using r(8,10) by (auto simp: f5)
  then have "mounted img its (volume_of img disk p a b (stk_result stk)) q ?O (kfree h s6)"
    using l(5) by (intro mounted_release [OF mt(1) ram own]) (auto simp: volume_of_def)
  moreover have "ram s6 x = ram s x" if x: "page_of x \<in> ?O" "\<not> x - (disk + 16) < 4" "\<not> x - stk_item stk < 32" for x
  proof -
    have n: "page_of x \<noteq> p" "page_of x \<noteq> c" "page_of x \<in> owned_pages (phys s5)" using x(1) r(9,10) by (auto simp: f5)
    then have "\<not> x - (p + 64) < 16" using near_within [of x p 64 16 4096] page_of_in [of p x] r(9) by auto
    then have "ram s6 x = m5 x" using l(12) n(2,3) x(3) by (simp add: root_writes_def f5(1))
    then show ?thesis using link(5) [OF x(2)] r(15) x(1) by simp
  qed
  moreover have "owned_pages (phys s) \<subseteq> owned_pages (phys (kfree h s6))" using own l(8) r(9,10) by (auto simp: f5)
  moreover have "pmm_system_memory_size (phys (kfree h s6)) = pmm_system_memory_size (phys s)"
    using l(10) r(11) k(1) by (simp add: f5)
  moreover have "unat (pmm_free_blocks (phys s)) = 4 + ?n + unat (pmm_free_blocks (phys (kfree h s6)))"
    using l(11) r(12) k(3) by (simp add: f5)
  ultimately show ?thesis using run k(2) mt(2) ram
    by (intro exI [of _ "volume_of img disk p a b (stk_result stk)"] exI [of _ q] exI [of _ "kfree h s6"])
      (simp add: volume_of_def)
qed

end
