(* ===== verification/DiskInit.thy ===== *)
theory DiskInit imports FatMount VfsOpen System
begin

text \<open>
  Finding the file system on the disk: \<open>fs_init\<close> of \<open>file.c\<close> registers the FAT16 driver, \<open>disk_search_init\<close> of
  \<open>src/src/disk/disk.c\<close> asks it about the disk, and its \<open>fat16_resolve\<close> mounts the volume.
\<close>

section \<open>The drivers\<close>

lemma fs_resolve_loop_one:
  assumes "resolve_function (fss fs) disk st = Some (0, st')" "fs \<noteq> 0"
  shows "set ps \<subseteq> {0, fs} \<Longrightarrow> fs \<in> set ps \<Longrightarrow> fs_resolve_loop fss disk ps st = Some (fs, st')"
  using assms by (induction ps) auto

lemma fs_init_one:
  assumes "filesystems v = replicate 12 0"
  shows "fs_init fs (m, v) = Inr (write_bytes m (fs + 20) [70, 65, 84, 49, 54, 0],
    v\<lparr>filesystems := (replicate 12 0)[1 := fs], file_descriptors := replicate 512 0\<rparr>)"
  using assms by (simp add: fs_init_def fs_load_def fs_static_load_def fat16_init_def fs_insert_filesystem_def
      fs_get_free_slot_def numeral_eq_Suc)

section \<open>A mounted volume stays\<close>

lemma volume_pages_cong:
  assumes v: "volume_at m v" and t: "\<forall>t \<in> {v_private v, v_data v, v_fat v}. page_aligned t \<and> same_page m m' t"
    and d: "disk_sector_size m' (v_disk v) = disk_sector_size m (v_disk v)" "disk_fs_private m' (v_disk v) = disk_fs_private m (v_disk v)"
  shows "volume_at m' v"
proof -
  have ld: "load32 m' (field u j) = load32 m (field u j)" if "u \<in> {v_private v, v_data v, v_fat v}" "j < 1024" for u j
    using same_page_load t that by blast
  have p: "m' (v_private v + k) = m (v_private v + k)" if "k < 62" for k
    using t order.strict_trans [OF that, of 4096] by (simp add: same_page_def)
  note h = header_fields [of m' "v_private v" "\<lambda>k. m (v_private v + k)"] header_fields [of m "v_private v" "\<lambda>k. m (v_private v + k)"]
  show ?thesis
    using v d ld [of "v_private v" 19] ld [of "v_private v" 20] ld [of "v_private v" 21] ld [of "v_data v" 1] ld [of "v_fat v" 1] h p
    by (simp add: volume_at_def cluster_read_stream_def fat_read_stream_def ending_sector_pos_def private_root_def
        fat16_get_first_fat_sector_def field_def add.commute [of "v_private v"] add.commute [of "v_data v"] add.commute [of "v_fat v"])
qed

lemma mounted_cong:
  assumes m: "mounted img its v r Q s" and img: "fat_image img its"
    and q: "\<And>x. page_of x \<in> owned_pages (phys s) - Q \<Longrightarrow> ram s' x = ram s x" and o: "owned_pages (phys s) \<subseteq> owned_pages (phys s')"
    and d: "disk_sector_size (ram s') (v_disk v) = disk_sector_size (ram s) (v_disk v)"
      "disk_fs_private (ram s') (v_disk v) = disk_fs_private (ram s) (v_disk v)"
  shows "mounted img its v r Q s'"
proof -
  let ?p = "v_private v"
  have t: "\<forall>t \<in> {?p, v_data v, v_fat v}. page_aligned t \<and> t \<in> owned_pages (phys s) - Q"
    and reg: "\<forall>i < of_nat (root_size img) * 512. page_of (r + i) \<in> owned_pages (phys s) - Q - {?p, v_data v, v_fat v}"
    and vol: "volume_at (ram s) v"
    using m by (simp_all add: mounted_def Let_def)
  have sp: "\<forall>t \<in> {?p, v_data v, v_fat v}. page_aligned t \<and> same_page (ram s) (ram s') t"
  proof
    fix u assume u: "u \<in> {?p, v_data v, v_fat v}"
    then have a: "page_aligned u" "u \<in> owned_pages (phys s) - Q" using t by auto
    show "page_aligned u \<and> same_page (ram s) (ram s') u"
      using a page_of_in [OF a(1)] q unfolding same_page_def by metis
  qed
  have "load32 (ram s') (field ?p j) = load32 (ram s) (field ?p j)" if "j < 1024" for j using same_page_load sp that by blast
  from this [of 16] this [of 17] have f: "load32 (ram s') (?p + 64) = load32 (ram s) (?p + 64)" "load32 (ram s') (?p + 68) = load32 (ram s) (?p + 68)"
    by (simp_all add: field_def add.commute [of ?p])
  have it: "read_bytes (ram s') (r + of_nat i * 32) 32 = read_bytes (ram s) (r + of_nat i * 32) 32" if i: "i < length its" for i
  proof -
    have l: "length its * 32 < root_size img * 512" "root_size img * 512 < 4294967296" using img by (simp_all add: fat_image_def)
    have "ram s' (r + of_nat i * 32 + of_nat j) = ram s (r + of_nat i * 32 + of_nat j)" if j: "j < 32" for j
    proof -
      have n: "i * 32 + j < root_size img * 512" using i j l by simp
      then have "(of_nat (i * 32 + j) :: u32) < of_nat (root_size img * 512)"
        using l(2) by (simp add: word_less_nat_alt unat_of_nat_u32 del: of_nat_add of_nat_mult)
      then have "page_of (r + of_nat (i * 32 + j)) \<in> owned_pages (phys s) - Q" using reg by simp
      from q [OF this] show ?thesis by (simp add: add.assoc)
    qed
    then show ?thesis by (simp add: read_bytes_def)
  qed
  have "\<forall>t \<in> {?p, v_data v, v_fat v}. page_aligned t \<and> t \<in> owned_pages (phys s') - Q"
    "\<forall>i < of_nat (root_size img) * 512. page_of (r + i) \<in> owned_pages (phys s') - Q - {?p, v_data v, v_fat v}"
    using t reg o by blast+
  then show ?thesis
    using m volume_pages_cong [OF vol sp d] f it unfolding mounted_def Let_def
    by (simp add: private_root_def directory_item_def total_entries_def add.assoc)
qed

section \<open>From the boot record to the mounted volume\<close>

text \<open>Enough memory: four pages of structures and a stream, and the blocks of the root directory, within the scan of \<open>pmm.c\<close>.\<close>

definition root_blocks :: "(u32 \<Rightarrow> u8 list) \<Rightarrow> nat" where
  "root_blocks img = unat (blocks_for (of_nat (root_size img) * 512))"

definition room_to_mount :: "(u32 \<Rightarrow> u8 list) \<Rightarrow> pmm \<Rightarrow> bool" where
  "room_to_mount img p \<longleftrightarrow> 5 \<le> unat (pmm_free_blocks p) \<and>
     root_blocks img * (unat (pmm_used_blocks p) + 5) + 1 < unat (pmm_system_memory_size p)"

text \<open>\<open>struct disk\<close> and the directory entry that \<open>fat16_get_total_items_for_directory\<close> has on the stack, in pages in use.\<close>

definition disk_place :: "u32 \<Rightarrow> fat_stack \<Rightarrow> kmem \<Rightarrow> bool" where
  "disk_place disk stk s \<longleftrightarrow> disk \<noteq> 0 \<and> (\<forall>x. x - disk < 20 \<longrightarrow> page_of x \<in> owned_pages (phys s)) \<and>
     (\<forall>x. x - stk_item stk < 32 \<longrightarrow> page_of x \<in> owned_pages (phys s) \<and> \<not> x - disk < 20)"

text \<open>The bytes that the two calls write in pages already in use.\<close>

definition mount_writes :: "u32 \<Rightarrow> u32 \<Rightarrow> fat_stack \<Rightarrow> u32 \<Rightarrow> bool" where
  "mount_writes fs disk stk x \<longleftrightarrow> x - (fs + 20) < 6 \<or> x - disk < 20 \<or> x - stk_item stk < 32"

lemma mount_ok:
  assumes inv: "kheap_inv s" and img: "fat_image img its" "room_to_mount img (phys s)"
    and tab: "filesystems v = replicate 12 0" "fs \<noteq> 0" "fss fs = fat16_fs img stk digits" and d: "disk_place disk stk s"
  shows "\<exists>m w vol r s'. fs_init fs (ram s, v) = Inr (m, w) \<and>
    disk_search_init fss disk ((s\<lparr>ram := m\<rparr>, con), w) = Some ((s', con), w) \<and> v_disk vol = disk \<and> v_result vol = stk_result stk \<and>
    mounted img its vol r (owned_pages (phys s)) s' \<and> disk_filesystem (ram s') disk = fs \<and>
    file_descriptors w = replicate 512 0 \<and> kheap_inv s' \<and> owned_pages (phys s) \<subseteq> owned_pages (phys s') \<and>
    pmm_system_memory_size (phys s') = pmm_system_memory_size (phys s) \<and>
    unat (pmm_free_blocks (phys s)) = 4 + root_blocks img + unat (pmm_free_blocks (phys s')) \<and>
    (\<forall>x. page_of x \<in> owned_pages (phys s) \<and> \<not> mount_writes fs disk stk x \<longrightarrow> ram s' x = ram s x)"
proof -
  let ?O = "owned_pages (phys s)"
  obtain m where m: "m = write_bytes (ram s) (fs + 20) [70, 65, 84, 49, 54, 0]" by blast
  obtain w where w: "w = v\<lparr>filesystems := (replicate 12 0)[1 := fs], file_descriptors := replicate 512 0\<rparr>" by blast
  have init: "fs_init fs (ram s, v) = Inr (m, w)" using fs_init_one [OF tab(1)] by (simp add: m w)
  obtain m3 where m3: "m3 = store32 (store32 (store32 m disk 0) (disk + 4) 512) (disk + 8) 0" by blast
  obtain s3 where s3: "s3 = s\<lparr>ram := m3\<rparr>" by blast
  have d3: "disk \<noteq> 0" "disk_id (ram s3) disk = 0" "disk_sector_size (ram s3) disk = 512"
    "\<forall>x. x - disk < 20 \<longrightarrow> page_of x \<in> owned_pages (phys s3)"
    "\<forall>x. x - stk_item stk < 32 \<longrightarrow> page_of x \<in> owned_pages (phys s3) \<and> \<not> x - disk < 20"
    using d by (simp_all add: disk_place_def s3 m3 disk_id_def disk_sector_size_def load32_store32_apart apart_def)
  have "kheap_inv s3" "5 \<le> unat (pmm_free_blocks (phys s3))"
    "unat (blocks_for (of_nat (root_size img) * 512)) * (unat (pmm_used_blocks (phys s3)) + 5) + 1 < unat (pmm_system_memory_size (phys s3))"
    using inv img(2) by (simp_all add: s3 room_to_mount_def root_blocks_def)
  from resolve_ok [OF this(1) img(1) this(2,3) d3] obtain vol r t where
    t: "fat16_resolve img stk disk s3 = Some (0, t)" "v_disk vol = disk" "v_result vol = stk_result stk"
      "mounted img its vol r ?O t" "kheap_inv t" "?O \<subseteq> owned_pages (phys t)"
      "pmm_system_memory_size (phys t) = pmm_system_memory_size (phys s)"
      "unat (pmm_free_blocks (phys s)) = 4 + root_blocks img + unat (pmm_free_blocks (phys t))"
      "\<forall>x. page_of x \<in> ?O \<and> \<not> x - (disk + 16) < 4 \<and> \<not> x - stk_item stk < 32 \<longrightarrow> ram t x = m3 x"
    by (auto simp: s3 root_blocks_def)
  obtain u where u: "u = set_word (disk + 12) fs t" by blast
  have call: "resolve_function (fss fs) disk (s3, con) = Some (0, t, con)" by (simp add: tab(3) fat16_fs_def mem_call_def t(1))
  have "fs_resolve fss disk ((s3, con), w) = Some (fs, (t, con), w)"
    using fs_resolve_loop_one [where fss = fss and fs = fs and ps = "filesystems w", OF call tab(2)] by (simp add: fs_resolve_def w numeral_eq_Suc)
  then have run: "disk_search_init fss disk ((s\<lparr>ram := m\<rparr>, con), w) = Some ((u, con), w)"
    by (simp add: disk_search_init_def mem_step_def set_word_def s3 m3 u)
  have word: "x - disk < 20" if "x - (disk + k) < 4" "k \<le> 16" for x k
    using that by (intro near_within [OF that(1)]) (simp add: word_le_nat_alt)
  have far: "ram u x = ram t x" if "\<not> x - disk < 20" for x
    using that word [of x 12] by (auto simp: u set_word_def not_less [symmetric] intro!: store32_other)
  have "mounted img its vol r ?O u"
  proof (rule mounted_cong [OF t(4) img(1)])
    fix x assume "page_of x \<in> owned_pages (phys t) - ?O"
    then show "ram u x = ram t x" using d by (intro far) (auto simp: disk_place_def)
  qed (simp_all add: u set_word_def t(2) disk_sector_size_def disk_fs_private_def load32_store32_apart apart_def)
  moreover have "ram u x = ram s x" if x: "page_of x \<in> ?O" "\<not> mount_writes fs disk stk x" for x
  proof -
    have n: "\<not> x - disk < 20" "\<not> x - stk_item stk < 32" "\<not> x - (fs + 20) < 6" using x(2) by (simp_all add: mount_writes_def)
    then have "\<not> x - (disk + 16) < 4" "\<not> x - (disk + 8) < 4" "\<not> x - (disk + 4) < 4" "\<not> x - disk < 4" using word [of x 0] word [of x 4] word [of x 8] word [of x 16] by auto
    then have "ram t x = m x" using t(9) x(1) n(2) by (simp add: m3 not_less store32_other)
    moreover have "m x = ram s x" unfolding m
    proof (rule write_bytes_outside)
      fix i :: nat assume "i < length [70, 65, 84, 49, 54, 0 :: u8]"
      then have "(of_nat i :: u32) < 6" by (simp add: word_less_nat_alt unat_of_nat_u32)
      then show "x \<noteq> fs + 20 + of_nat i" using n(3) by auto
    qed
    ultimately show ?thesis using far [OF n(1)] by simp
  qed
  moreover have "kheap_inv u" "phys u = phys t" "disk_filesystem (ram u) disk = fs" "file_descriptors w = replicate 512 0"
    using t(5) by (simp_all add: u set_word_def disk_filesystem_def w)
  ultimately show ?thesis using init run t(2,3,6-8)
    by (intro exI [of _ m] exI [of _ w] exI [of _ vol] exI [of _ r] exI [of _ u]) simp
qed

section \<open>Opening a file of the mounted volume\<close>

text \<open>
  What the code reads as the name of a directory entry, and the directory that it sees: the first \<open>live its\<close> entries.
\<close>

definition entry_names :: "u8 list \<Rightarrow> u8 list \<times> u8 list" where
  "entry_names e = (takeWhile (\<lambda>b. \<not> name_stop b) e, takeWhile (\<lambda>b. \<not> name_stop b) (drop 8 e))"

definition named_entry :: "u8 list \<Rightarrow> bool" where
  "named_entry e \<longleftrightarrow> length (fst (entry_names e)) < 32 \<and> length (snd (entry_names e)) < 24"

definition mounted_view :: "u8 list list \<Rightarrow> fat_volume \<Rightarrow> u32 \<Rightarrow> u8 list \<Rightarrow> dir_view" where
  "mounted_view its v r w = \<lparr>d_dir = private_root (v_private v), d_items = r,
     d_names = map entry_names (take (live its) its), d_name = 0, d_wanted = w\<rparr>"

lemma run_at_takeWhile:
  "\<forall>i < length e. m (p + of_nat i) = e ! i \<Longrightarrow> length (takeWhile (\<lambda>b. \<not> name_stop b) e) < length e \<Longrightarrow>
    run_at m p (takeWhile (\<lambda>b. \<not> name_stop b) e)"
proof (induction e arbitrary: p)
  case (Cons c e)
  have "m p = c" using Cons.prems(1) [rule_format, of 0] by simp
  moreover have "\<forall>i < length e. m (p + 1 + of_nat i) = e ! i"
    using Cons.prems(1) [rule_format, of "Suc _"] by (simp add: add.assoc)
  ultimately show ?case using Cons.IH [of "p + 1"] Cons.prems(2) by (cases "name_stop c") simp_all
qed simp

lemma entry_name_at:
  assumes "read_bytes m p 32 = e" "named_entry e"
  shows "item_name_at m p (fst (entry_names e)) (snd (entry_names e))"
proof -
  have l: "length e = 32" using assms(1) by (auto simp: read_bytes_def)
  have byte: "m (p + of_nat i) = e ! i" if "i < 32" for i using assms(1) that by (auto simp: read_bytes_def)
  have "m (p + 8 + of_nat i) = drop 8 e ! i" if "i < 24" for i using byte [of "8 + i"] that l by (simp add: add.assoc)
  then show ?thesis
    using byte assms(2) l run_at_takeWhile [of e m p] run_at_takeWhile [of "drop 8 e" m "p + 8"]
    by (simp add: item_name_at_def named_entry_def entry_names_def)
qed

lemma live_le: "live its \<le> length its"
  by (simp add: live_def)

text \<open>The name buffer of the search on the stack, in pages in use and away from the disk structure.\<close>

definition name_place :: "u32 \<Rightarrow> fat_stack \<Rightarrow> u32 set \<Rightarrow> bool" where
  "name_place disk stk Q \<longleftrightarrow> (\<forall>x. x - disk < 20 \<longrightarrow> page_of x \<in> Q \<and> 108 \<le> x - stk_name stk) \<and>
     (\<forall>x. x - stk_name stk < 108 \<longrightarrow> page_of x \<in> Q)"

lemma mounted_cells:
  assumes m: "mounted img its v r Q s" and img: "fat_image img its" and x: "table_cell (mounted_view its v r w) x"
  shows "page_of x \<in> owned_pages (phys s) - Q - {v_data v, v_fat v}"
proof -
  have p: "page_aligned (v_private v)" "v_private v \<in> owned_pages (phys s) - Q - {v_data v, v_fat v}"
    and reg: "\<forall>i < of_nat (root_size img) * 512. page_of (r + i) \<in> owned_pages (phys s) - Q - {v_private v, v_data v, v_fat v}"
    using m by (simp_all add: mounted_def Let_def)
  from x consider "x - (v_private v + 64) < 16" | i where "i < live its" "x - (r + of_nat i * 32) < 32"
    using live_le [of its] by (auto simp: table_cell_def mounted_view_def d_item_def private_root_def)
  then show ?thesis
  proof cases
    case 1
    then have "page_of x = v_private v" using near_within [of x "v_private v" 64 16 4096] page_of_in [OF p(1)] by simp
    then show ?thesis using p(2) by simp
  next
    case 2
    have l: "length its * 32 < root_size img * 512" "root_size img * 512 < 4294967296" using img by (simp_all add: fat_image_def)
    have "x = r + (of_nat i * 32 + (x - (r + of_nat i * 32)))" by simp
    moreover have "unat (x - (r + of_nat i * 32)) < 32" using 2(2) by (simp add: word_less_nat_alt)
    moreover have "i < length its" using 2(1) live_le [of its] by simp
    ultimately have e: "x = r + of_nat (i * 32 + unat (x - (r + of_nat i * 32)))" and
      n: "i * 32 + unat (x - (r + of_nat i * 32)) < root_size img * 512" using l by simp_all
    have "(of_nat (i * 32 + unat (x - (r + of_nat i * 32))) :: u32) < of_nat (root_size img * 512)"
      using n l(2) by (simp add: word_less_nat_alt unat_of_nat_u32 del: of_nat_add of_nat_mult)
    note reg [rule_format, OF this [unfolded of_nat_mult of_nat_numeral]]
    then show ?thesis unfolding e [symmetric] by blast
  qed
qed

lemma mounted_fat_disk:
  assumes m: "mounted img its v r Q s" and img: "fat_image img its" "\<forall>e \<in> set its. named_entry e"
    and d: "v_disk v = disk" "disk \<noteq> 0" "disk_filesystem (ram s) disk \<noteq> 0" "name_place disk stk Q" "Q \<subseteq> owned_pages (phys s)"
  shows "fat_disk disk stk (mounted_view its v r w) s"
proof -
  let ?d = "mounted_view its v r w"
  have v: "volume_at (ram s) v" and t: "directory_item (ram s) (private_root (v_private v)) = r"
      "total_entries (ram s) (private_root (v_private v)) = of_nat (live its)"
    and e: "\<forall>i < length its. read_bytes (ram s) (r + of_nat i * 32) 32 = its ! i"
    using m by (simp_all add: mounted_def Let_def)
  have l: "length its * 32 < 4294967296" using img(1) by (simp add: fat_image_def)
  have "item_name_at (ram s) (d_item ?d i) (fst (d_names ?d ! i)) (snd (d_names ?d ! i))" if "i < live its" for i
    using entry_name_at [of "ram s" "r + of_nat i * 32" "its ! i"] e img(2) that live_le [of its]
    by (simp add: mounted_view_def d_item_def)
  then have tab: "dir_table (ram s) ?d" using t l live_le [of its] by (simp add: dir_table_def) (simp add: mounted_view_def)
  have cells: "page_of x \<in> owned_pages (phys s) \<and> 108 \<le> x - stk_name stk" if "table_cell ?d x" for x
    using mounted_cells [OF m img(1) that] d(4) by (auto simp: name_place_def not_less [symmetric])
  have word: "safe_word (stk_name stk) s (disk + k)" if "k \<le> 16" for k
    unfolding safe_word_def
  proof (intro allI impI)
    fix j :: u32 assume "j < 4"
    then have "disk + k + j - disk < 20" using that near_within [of "disk + k + j" disk k 4 20] by (simp add: word_le_nat_alt)
    then show "page_of (disk + k + j) \<in> owned_pages (phys s) \<and> 108 \<le> disk + k + j - stk_name stk"
      using d(4,5) unfolding name_place_def by blast
  qed
  have "region_in_use s (stk_name stk) 108"
    unfolding region_in_use_def
  proof (intro allI impI)
    fix i :: nat assume "i < 108"
    then have "stk_name stk + of_nat i - stk_name stk < 108" by (simp add: word_less_nat_alt unat_of_nat_u32)
    then show "page_of (stk_name stk + of_nat i) \<in> owned_pages (phys s)" using d(4,5) unfolding name_place_def by blast
  qed
  then show ?thesis using d(1-3) tab cells word v
    by (simp add: fat_disk_def volume_at_def) (simp add: mounted_view_def)
qed

text \<open>
  The entry \<open>j\<close> is the only one, among those that the code counts, whose name begins with the wanted one, and it is a file.
\<close>

definition only_file :: "u8 list list \<Rightarrow> u8 list \<Rightarrow> nat \<Rightarrow> bool" where
  "only_file its w j \<longleftrightarrow> j < live its \<and> its ! j ! 11 AND FAT_FILE_SUBDIRECTORY = 0 \<and>
     (\<forall>k < live its. name_matches (fat_name (fst (entry_names (its ! k))) (snd (entry_names (its ! k)))) w = (k = j))"

lemma mounted_the_file:
  assumes m: "mounted img its v r Q s" and f: "only_file its w j"
  shows "the_file (ram s) (mounted_view its v r w) j" "read_bytes (ram s) (d_item (mounted_view its v r w) j) 32 = its ! j"
proof -
  have j: "j < live its" "j < length its" using f live_le [of its] by (simp_all add: only_file_def)
  then show e: "read_bytes (ram s) (d_item (mounted_view its v r w) j) 32 = its ! j"
    using m by (simp add: mounted_def Let_def d_item_def mounted_view_def)
  have "item_attribute (ram s) (d_item (mounted_view its v r w) j) = its ! j ! 11"
    using arg_cong [OF e, of "\<lambda>xs. xs ! 11"] by (simp add: read_bytes_def item_attribute_def)
  moreover have "d_match (mounted_view its v r w) k = (k = j)" if "k < live its" for k
    using f that live_le [of its] by (simp add: only_file_def d_match_def d_shown_def mounted_view_def)
  moreover have "length (d_names (mounted_view its v r w)) = live its" using live_le [of its] by (simp add: mounted_view_def)
  ultimately show "the_file (ram s) (mounted_view its v r w) j" using f j(1) by (simp add: the_file_def only_file_def)
qed

section \<open>An example\<close>

text \<open>
  The boot record of \<open>src/src/boot/boot.asm\<close>: 200 reserved sectors, two tables of 256 sectors, and so the root directory of 64
  entries in sector 712. In it two entries, a long name and a program of 4114 bytes, as the repository's are, whose
  pages start in sectors 716 and 724.
\<close>

definition boot_record :: "u8 list" where
  "boot_record = [0xEB, 0x3C, 0x90, 77, 89, 79, 83, 32, 32, 32, 32, 0x00, 0x02, 0x80, 200, 0, 2, 0x40, 0, 0, 0, 0xF8, 0, 1,
     0x20, 0, 0x40, 0, 0, 0, 0, 0, 0x94, 0x35, 0x77, 0, 0x80, 0, 0x29, 0x05, 0xD1, 0, 0,
     77, 89, 79, 83, 32, 66, 79, 79, 84, 32, 32, 70, 65, 84, 49, 54, 32, 32, 32]"

definition shell_entry :: "u8 list" where
  "shell_entry = [83, 72, 69, 76, 76, 32, 32, 32, 32, 32, 32, 0x20] @ replicate 14 0 @ [2, 0, 0x12, 0x10, 0, 0]"

definition mount_disk :: "u32 \<Rightarrow> u8 list" where
  "mount_disk k = (if k = 0 then boot_record @ replicate 450 0
     else if k = 712 then (longname_item @ shell_entry) @ replicate 448 0 else if k = 716 then replicate 512 0x90
     else if k = 724 then replicate 512 0xCC else replicate 512 0)"

definition mount_items :: "u8 list list" where
  "mount_items = [longname_item, shell_entry]"

lemma disk_byte_sector: "j < 512 \<Longrightarrow> disk_byte img (k * 512 + j) = img (of_nat k) ! j"
  by (simp add: disk_byte_def)

lemma disk_bytes_sector:
  assumes "length (img (of_nat k)) = 512" "n \<le> 512" shows "disk_bytes img (k * 512) n = take n (img (of_nat k))"
  using assms by (intro nth_equalityI) (simp_all add: disk_bytes_def disk_byte_sector)

lemma boot_bpb: "k < 62 \<Longrightarrow> bpb mount_disk (of_nat k) = boot_record ! k"
proof -
  assume k: "k < 62"
  have "length boot_record = 62" by (simp add: boot_record_def)
  then show ?thesis using k disk_byte_sector [of k mount_disk 0] by (simp add: bpb_at mount_disk_def nth_append)
qed

lemma boot_geometry: "root_start mount_disk = 712" "root_size mount_disk = 4" "root_blocks mount_disk = 1"
proof -
  note b = boot_bpb [of 14] boot_bpb [of 15] boot_bpb [of 16] boot_bpb [of 17] boot_bpb [of 18] boot_bpb [of 22] boot_bpb [of 23]
    boot_bpb [of 28] boot_bpb [of 29] boot_bpb [of 30] boot_bpb [of 31]
  show "root_start mount_disk = 712"
    using b by (simp add: root_start_def hidden_setors_def reserved_sectors_def fat_copies_def sectors_per_fat_def load16_def load32_def boot_record_def)
  show r: "root_size mount_disk = 4"
    using b by (simp add: root_size_def root_dir_entries_def load16_def boot_record_def)
  show "root_blocks mount_disk = 1" by (simp add: root_blocks_def r blocks_for_def)
qed

lemma boot_image: "fat_image mount_disk mount_items"
proof -
  note b = boot_bpb [of 38] boot_bpb [of 11] boot_bpb [of 12] boot_bpb [of 13]
  have len: "length shell_entry = 32" "length longname_item = 32" by (simp_all add: shell_entry_def longname_item_def)
  have byte: "disk_byte mount_disk (364544 + j) = ((longname_item @ shell_entry) @ replicate 448 0) ! j" if "j < 512" for j
    using disk_byte_sector [of j mount_disk 712] that by (simp add: mount_disk_def)
  have "concat mount_items = longname_item @ shell_entry" by (simp add: mount_items_def)
  moreover have "disk_bytes mount_disk 364544 64 = longname_item @ shell_entry"
    using disk_bytes_sector [of mount_disk 712 64] len by (simp add: mount_disk_def)
  moreover have "disk_byte mount_disk 364608 = 0" using byte [of 64] len by (simp add: nth_append)
  moreover have "\<forall>e \<in> set mount_items. length e = 32 \<and> hd e \<noteq> 0"
    by (simp add: mount_items_def shell_entry_def longname_item_def)
  moreover have "length mount_items = 2" by (simp add: mount_items_def)
  ultimately show ?thesis
    using b by (simp add: fat_image_def boot_geometry header_signature_def bytes_per_sector_def sectors_per_cluster_def
        load16_def boot_record_def)
qed

lemma boot_place: "disk_place 0x1000 demo_stack open_kmem" "name_place 0x1000 demo_stack (owned_pages (phys open_kmem))"
proof -
  have d: "page_of x \<in> owned_pages (phys open_kmem)" if "x - 0x1000 < 20" for x :: u32
    using that by (intro open_page [of "0x1000"]) (simp_all add: page_aligned_def order.strict_trans)
  have k: "page_of x \<in> owned_pages (phys open_kmem)" if "x - 0x5100 < 32 \<or> x - 0x5200 < 108" for x
    using that near_within [of x "0x5000" "0x100" 32 4096] near_within [of x "0x5000" "0x200" 108 4096]
    by (intro open_page [of "0x5000"]) (auto simp: page_aligned_def)
  have "108 \<le> x - 0x5200" if "x - 0x1000 < 20" for x :: u32
    using far_apart [OF that, of "0x5200" 108] by simp
  moreover have "\<not> x - 0x1000 < 20" if "x - 0x5100 < 32" for x :: u32
    using far_apart [OF that, of "0x1000" 20] by simp
  ultimately show "disk_place 0x1000 demo_stack open_kmem" "name_place 0x1000 demo_stack (owned_pages (phys open_kmem))"
    using d k by (simp_all add: disk_place_def name_place_def demo_stack_def)
qed

lemma boot_names: "\<forall>e \<in> set mount_items. named_entry e"
  and boot_only: "only_file mount_items [115, 104, 101, 108, 108] 1"
proof -
  let ?w = "[115, 104, 101, 108, 108] :: u8 list"
  have names: "entry_names longname_item = ([76, 79, 78, 71, 78, 65, 77, 69, 84, 88, 84], [84, 88, 84])"
    "entry_names (shell_entry) = ([83, 72, 69, 76, 76], [])"
    by (simp_all add: entry_names_def longname_item_def shell_entry_def name_stop_def)
  then show "\<forall>e \<in> set mount_items. named_entry e" by (simp add: mount_items_def named_entry_def)
  have "live mount_items = 2" by (simp add: live_def mount_items_def longname_item_def shell_entry_def)
  moreover have "shell_entry ! 11 AND FAT_FILE_SUBDIRECTORY = 0" by (simp add: shell_entry_def longname_item_def)
  moreover have "\<not> name_matches [76, 79, 78, 71, 78, 65, 77, 69, 84, 88, 84, 46, 84, 88, 84] ?w" "name_matches [83, 72, 69, 76, 76] ?w"
    using demo_match [of 0] demo_match [of 1] by (simp_all add: d_match_def d_shown_def demo_view_def fat_name_def)
  ultimately show "only_file mount_items ?w 1"
    using names by (simp add: only_file_def mount_items_def numeral_2_eq_2 less_Suc_eq fat_name_def)
qed

lemma boot_room: "kheap_inv open_kmem" "room_to_mount mount_disk (phys open_kmem)" "phys open_kmem = pmm_boot"
  using kmem_boot_inv by (simp_all add: open_kmem_def kheap_inv_def room_to_mount_def boot_geometry)

text \<open>C8: \<open>fs_init\<close> and then \<open>disk_search_init\<close>, on a FAT16 disk of 512-byte sectors, mount it: the driver is entered in the table and in the
  disk structure; memory holds the boot record's geometry, the streams of the volume and all the entries of the root directory as they are on
  the disk, in fresh pages, four besides the directory's. The stored count is the number of entries that are not deleted, \<open>live its\<close>,
  although deleted ones are in the table too: the search, which looks at that many entries, does not see the last ones. Pages in use change
  only in the driver's name, the disk structure and the entry on the stack.\<close>

theorem disk_search_init_correct:
  assumes "kheap_inv s" "fat_image img its" "room_to_mount img (phys s)"
    and "filesystems v = replicate 12 0" "fs \<noteq> 0" "fss fs = fat16_fs img stk digits" "disk_place disk stk s"
  shows "\<exists>m w vol r s'. fs_init fs (ram s, v) = Inr (m, w) \<and>
    disk_search_init fss disk ((s\<lparr>ram := m\<rparr>, con), w) = Some ((s', con), w) \<and> v_disk vol = disk \<and> v_result vol = stk_result stk \<and>
    mounted img its vol r (owned_pages (phys s)) s' \<and> disk_filesystem (ram s') disk = fs \<and>
    file_descriptors w = replicate 512 0 \<and> kheap_inv s' \<and> owned_pages (phys s) \<subseteq> owned_pages (phys s') \<and>
    unat (pmm_free_blocks (phys s)) = 4 + root_blocks img + unat (pmm_free_blocks (phys s')) \<and>
    (\<forall>x. page_of x \<in> owned_pages (phys s) \<and> \<not> mount_writes fs disk stk x \<longrightarrow> ram s' x = ram s x)"
  using mount_ok [where v = v and fss = fss and fs = fs and con = con, OF assms] by blast

lemma disk_search_init_correct_witness:
  "\<exists>m w vol r s'. fs_init 0x3000 (open_ram, vfs_boot) = Inr (m, w) \<and>
    disk_search_init (\<lambda>_. fat16_fs mount_disk demo_stack []) 0x1000 ((open_kmem\<lparr>ram := m\<rparr>, con_boot), w) = Some ((s', con_boot), w) \<and>
    mounted mount_disk mount_items vol r (owned_pages pmm_boot) s' \<and> v_end vol = 716 \<and>
    total_entries (ram s') (private_root (v_private vol)) = 2 \<and> unat (pmm_free_blocks (phys s')) = 224995"
proof -
  have "filesystems vfs_boot = replicate 12 0" "(0x3000 :: u32) \<noteq> 0" by (simp_all add: vfs_boot_def)
  from disk_search_init_correct [where fss = "\<lambda>_. fat16_fs mount_disk demo_stack []" and fs = "0x3000" and v = vfs_boot and con = con_boot,
      OF boot_room(1) boot_image boot_room(2) this refl boot_place(1)]
  obtain m w vol r s' where k: "fs_init 0x3000 (ram open_kmem, vfs_boot) = Inr (m, w)"
    "disk_search_init (\<lambda>_. fat16_fs mount_disk demo_stack []) 0x1000 ((open_kmem\<lparr>ram := m\<rparr>, con_boot), w) = Some ((s', con_boot), w)"
    "mounted mount_disk mount_items vol r (owned_pages (phys open_kmem)) s'"
    "unat (pmm_free_blocks (phys open_kmem)) = 4 + root_blocks mount_disk + unat (pmm_free_blocks (phys s'))" by blast
  have "live mount_items = 2" by (simp add: live_def mount_items_def longname_item_def shell_entry_def)
  then have "v_end vol = 716" "total_entries (ram s') (private_root (v_private vol)) = 2"
    using k(3) by (simp_all add: mounted_def Let_def boot_geometry)
  moreover have "unat (pmm_free_blocks (phys s')) = 224995" using k(4) by (simp add: boot_room(3) boot_geometry)
  moreover have "ram open_kmem = open_ram" by (simp add: open_kmem_def)
  ultimately show ?thesis using k by (intro exI [of _ m] exI [of _ w] exI [of _ vol] exI [of _ r] exI [of _ s']) (simp add: boot_room(3))
qed

text \<open>C7: From the disk image to an open file. After \<open>fs_init\<close> and \<open>disk_search_init\<close>, \<open>fopen\<close> of \<open>0:/name\<close> for reading gives descriptor 1,
  linked to the driver and the disk and at position 0, whose item is a copy of the very 32 bytes of the directory entry on the disk,
  when that entry is the only one of the first \<open>live its\<close> that matches the name and is not a directory.\<close>

theorem mounted_file_opens:
  assumes "kheap_inv s" "fat_image img its" "room_to_mount img (phys s)"
    and "filesystems v = replicate 12 0" "fs \<noteq> 0" "fss fs = fat16_fs img stk digits" "disk_place disk stk s"
    and "\<forall>e \<in> set its. named_entry e" "name_place disk stk (owned_pages (phys s))"
    and "14 + root_blocks img \<le> unat (pmm_free_blocks (phys s))"
    and "cstring (ram s) path bs" "root_file_path bs w" "only_file its w j" "ram s mode = 114"
    and "\<forall>x. x = mode \<or> (\<exists>i \<le> length bs. x = path + of_nat i) \<longrightarrow>
      page_of x \<in> owned_pages (phys s) \<and> \<not> mount_writes fs disk stk x"
  shows "\<exists>m u s' desc D s''. fs_init fs (ram s, v) = Inr (m, u) \<and>
    disk_search_init fss disk ((s\<lparr>ram := m\<rparr>, con), u) = Some ((s', con), u) \<and>
    fopen fss disk path mode ((s', con), u) =
      Some (1, (s'', con), u\<lparr>file_descriptors := (replicate 512 0)[1 := desc]\<rparr>) \<and>
    descriptor_at (ram s'') desc 1 fs D disk \<and> opened s' s'' D (its ! j) \<and> kheap_inv s''"
proof -
  let ?O = "owned_pages (phys s)"
  from mount_ok [where v = v and fss = fss and fs = fs and con = con, OF assms(1-7)] obtain m u vol r s' where
    k: "fs_init fs (ram s, v) = Inr (m, u)" "disk_search_init fss disk ((s\<lparr>ram := m\<rparr>, con), u) = Some ((s', con), u)"
      "v_disk vol = disk" "mounted img its vol r ?O s'" "disk_filesystem (ram s') disk = fs"
      "file_descriptors u = replicate 512 0" "kheap_inv s'" "?O \<subseteq> owned_pages (phys s')"
      "unat (pmm_free_blocks (phys s)) = 4 + root_blocks img + unat (pmm_free_blocks (phys s'))"
      "\<forall>x. page_of x \<in> ?O \<and> \<not> mount_writes fs disk stk x \<longrightarrow> ram s' x = ram s x" by blast
  have "disk \<noteq> 0" using assms(7) by (simp add: disk_place_def)
  then have fd: "fat_disk disk stk (mounted_view its vol r w) s'"
    using mounted_fat_disk [OF k(4) assms(2,8) k(3) _ _ assms(9) k(8)] k(5) assms(5) by simp
  have keep: "ram s' x = ram s x" "page_of x \<in> owned_pages (phys s')" if "x = mode \<or> (\<exists>i \<le> length bs. x = path + of_nat i)" for x
    using k(8,10) assms(15) that by blast+
  have "cstring (ram s') path bs" by (rule cstring_cong [OF assms(11)]) (use keep(1) in blast)
  moreover have "region_in_use s' path (Suc (length bs))"
    unfolding region_in_use_def using keep(2) less_Suc_eq_le by blast
  moreover have "root_file_path bs (d_wanted (mounted_view its vol r w))" using assms(12) by (simp add: mounted_view_def)
  moreover have "ram s' mode = 114" "page_of mode \<in> owned_pages (phys s')" using keep [of mode] assms(14) by simp_all
  moreover have "free_slot u 1" "length (file_descriptors u) = 512" using k(6) by (simp_all add: free_slot_def)
  moreover have "fss (disk_filesystem (ram s') disk) = fat16_fs img stk digits" "10 \<le> unat (pmm_free_blocks (phys s'))"
    using assms(6,10) k(5,9) by simp_all
  ultimately show ?thesis
    using fopen_ok [OF fd _ k(7), where fss = fss and path = path and bs = bs and mode = mode and v = u and i = 1 and j = j and con = con]
      mounted_the_file [OF k(4) assms(13)] k(1,2,5,6) by force
qed

lemma mounted_file_opens_witness:
  "\<exists>m u s' desc D s''. fs_init 0x3000 (open_ram, vfs_boot) = Inr (m, u) \<and>
    disk_search_init (\<lambda>_. fat16_fs mount_disk demo_stack []) 0x1000 ((open_kmem\<lparr>ram := m\<rparr>, con_boot), u) = Some ((s', con_boot), u) \<and>
    fopen (\<lambda>_. fat16_fs mount_disk demo_stack []) 0x1000 0xA000 0xB000 ((s', con_boot), u) =
      Some (1, (s'', con_boot), u\<lparr>file_descriptors := (replicate 512 0)[1 := desc]\<rparr>) \<and>
    opened s' s'' D shell_entry"
proof -
  let ?bs = "[48, 58, 47, 115, 104, 101, 108, 108] :: u8 list" and ?w = "[115, 104, 101, 108, 108] :: u8 list"
  have fs: "filesystems vfs_boot = replicate 12 0" "(0x3000 :: u32) \<noteq> 0" by (simp_all add: vfs_boot_def)
  have free: "14 + root_blocks mount_disk \<le> unat (pmm_free_blocks (phys open_kmem))" by (simp add: boot_geometry boot_room(3))
  have mode: "ram open_kmem 0xB000 = 114" by (simp add: open_kmem_def open_ram_def demo_ram_def)
  have path: "root_file_path ?bs ?w" using open_path(3) by (simp add: open_view_def demo_view_def)
  have cells: "\<forall>x. x = 0xB000 \<or> (\<exists>i \<le> length ?bs. x = 0xA000 + of_nat i) \<longrightarrow>
    page_of x \<in> owned_pages (phys open_kmem) \<and> \<not> mount_writes 0x3000 0x1000 demo_stack x"
  proof (intro allI impI)
    fix x :: u32 assume "x = 0xB000 \<or> (\<exists>i \<le> length ?bs. x = 0xA000 + of_nat i)"
    then have x: "x = 0xB000 \<or> x - 0xA000 < 9" by (auto simp: word_less_nat_alt unat_of_nat_u32)
    then have "x - 0xA000 < 4097" by (auto elim: order.strict_trans)
    then have "\<not> x - 0x3014 < 6" "\<not> x - 0x1000 < 20" "\<not> x - 0x5100 < 32" by (rule far_apart; simp)+
    moreover have "page_of x \<in> owned_pages (phys open_kmem)"
      using x open_page [of "0xB000" x] open_page [of "0xA000" x] order.strict_trans [of "x - 0xA000" 9 4096]
      by (auto simp: page_aligned_def)
    ultimately show "page_of x \<in> owned_pages (phys open_kmem) \<and> \<not> mount_writes 0x3000 0x1000 demo_stack x"
      by (simp add: mount_writes_def demo_stack_def)
  qed
  have "ram open_kmem = open_ram" "mount_items ! 1 = shell_entry" by (simp_all add: open_kmem_def mount_items_def)
  then show ?thesis
    using mounted_file_opens [where fss = "\<lambda>_. fat16_fs mount_disk demo_stack []" and fs = "0x3000" and v = vfs_boot and con = con_boot,
        OF boot_room(1) boot_image boot_room(2) fs refl boot_place(1) boot_names boot_place(2) free open_path(1) path boot_only mode cells]
    by metis
qed

end
