(* ===== verification/KernelMain.thy ===== *)
theory KernelMain imports Boot DiskInit
begin

text \<open>
  \<open>kernel_main\<close> of \<open>src/src/kernel.c\<close> as a whole, from zeroed globals and a disk image to the first instruction of the first
  program. The steps before the loads change memory only in the tables, the screen and what mounting writes.
\<close>

section \<open>The terminal and the tables\<close>

definition boot_noise :: "boot_env \<Rightarrow> u32 \<Rightarrow> bool" where
  "boot_noise env x \<longleftrightarrow> \<not> outside_video x \<or> x - be_gdt env < 48 \<or> x - be_idt env < 4096 \<or> x - be_tss env < 100"

text \<open>\<open>quiet env y y'\<close>: a step that changes memory at most there, and otherwise only the cursor.\<close>

definition quiet :: "boot_env \<Rightarrow> system \<Rightarrow> system \<Rightarrow> bool" where
  "quiet env y y' \<longleftrightarrow> sk y' = set_ram (sram y') (sk y) \<and> sv y' = sv y \<and> processes y' = processes y \<and>
     con_video (sc y') = 0xB8000 \<and> (\<forall>x. \<not> boot_noise env x \<longrightarrow> sram y' x = sram y x)"

lemma set_ram_twice [simp]: "set_ram m (set_ram m' k) = set_ram m k" "kram (set_ram m k) = m"
  by (simp_all add: set_ram_def set_km_def)

lemma set_ram_km: "km (mm (set_ram m k)) = (km (mm k))\<lparr>ram := m\<rparr>"
  by (simp add: set_ram_def set_km_def)

lemma quiet_km: "quiet env y y' \<Longrightarrow> km (mm (sk y')) = (km (mm (sk y)))\<lparr>ram := sram y'\<rparr>"
  unfolding quiet_def by (metis set_ram_km)

lemma quiet_heap:
  assumes "quiet env y y'"
  shows "phys (km (mm (sk y'))) = phys (km (mm (sk y)))" "big_blocks (km (mm (sk y'))) = big_blocks (km (mm (sk y)))"
    "kheap_inv (km (mm (sk y'))) = kheap_inv (km (mm (sk y)))"
proof -
  obtain m where "km (mm (sk y')) = (km (mm (sk y)))\<lparr>ram := m\<rparr>" using quiet_km [OF assms] by blast
  then show "phys (km (mm (sk y'))) = phys (km (mm (sk y)))" "big_blocks (km (mm (sk y'))) = big_blocks (km (mm (sk y)))"
    "kheap_inv (km (mm (sk y'))) = kheap_inv (km (mm (sk y)))" by simp_all
qed

lemma set_km_twice [simp]: "set_km t (set_km u k) = set_km t k" "set_km t (set_ram m k) = set_km t k" "km (mm (set_km t k)) = t"
  by (simp_all add: set_km_def set_ram_def)

lemma quiet_kernel: "quiet env y y' \<Longrightarrow> set_km t (sk y') = set_km t (sk y)"
  unfolding quiet_def by (metis set_km_twice(2))

lemma quiet_back: "quiet env y y' \<Longrightarrow> sk y' = set_km (km (mm (sk y'))) (sk y)"
proof -
  assume "quiet env y y'"
  then obtain m where "sk y' = set_ram m (sk y)" unfolding quiet_def by blast
  then show ?thesis by (simp add: set_ram_def)
qed

lemma quiet_ends:
  assumes "quiet env y y'" shows "task_head (sk y') = task_head (sk y)" "task_tail (sk y') = task_tail (sk y)"
proof -
  obtain m where "sk y' = set_ram m (sk y)" using assms unfolding quiet_def by blast
  then show "task_head (sk y') = task_head (sk y)" "task_tail (sk y') = task_tail (sk y)" by (simp_all add: set_ram_def set_km_def)
qed

lemma quiet_trans: "quiet env y y1 \<Longrightarrow> quiet env y1 y2 \<Longrightarrow> quiet env y y2"
  unfolding quiet_def by (metis set_ram_twice(1))

lemma quiet_ram:
  assumes "con_video (sc y) = 0xB8000" "\<And>x. \<not> boot_noise env x \<Longrightarrow> m x = sram y x"
  shows "quiet env y (sys_ram m y)"
  using assms by (simp add: quiet_def sys_ram_def)

lemma quiet_video: "quiet env y y' \<Longrightarrow> con_video (sc y') = 0xB8000"
  by (simp add: quiet_def)

lemma print_char_video:
  assumes "video_memory t = 0xB8000"
  shows "video_frame t (kernel_terminal_print_char a t)"
proof -
  have w: "video_memory (print_wrap t) = 0xB8000" "terminal_col (print_wrap t) < 80" "vram (print_wrap t) = vram t"
    using assms by (auto simp: print_wrap_def)
  note p = print_page_abs [OF w(1,2)]
  show ?thesis
    using p(2,5) put_char_frame [OF p(2)] p(3,4) w(3) by (simp add: video_frame_def print_char_steps Let_def unat_ucast_u16)
qed

lemma print_line_video: "video_memory t = 0xB8000 \<Longrightarrow> video_frame t (print_line bs t)"
proof -
  have "video_memory t = 0xB8000 \<Longrightarrow> video_frame t (print_bytes bs t)"
  proof (induction bs arbitrary: t)
    case (Cons b bs)
    have "video_frame t (kernel_terminal_print_char b t)" by (rule print_char_video [OF Cons.prems])
    then show ?case
      using Cons.IH [of "kernel_terminal_print_char b t"] video_frame_trans by (auto simp: print_bytes_def video_frame_def)
  qed (simp add: print_bytes_def video_frame_refl)
  moreover assume "video_memory t = 0xB8000"
  ultimately show ?thesis by (simp add: print_line_def terminal_newline_def video_frame_def)
qed

lemma quiet_print:
  assumes "con_video (sc y) = 0xB8000" shows "quiet env y (kernel_print_literal text y)"
proof -
  let ?t = "con_terminal (km (mm (sk y)), sc y)"
  have "video_frame ?t (print_line (map of_char text) ?t)" using assms by (intro print_line_video) (simp add: con_terminal_def)
  then show ?thesis
    by (simp add: quiet_def kernel_print_literal_def say_def con_back_def video_frame_def boot_noise_def set_ram_def set_km_def Let_def)
      (simp add: con_terminal_def)
qed

lemma quiet_then_print: "quiet env y y1 \<Longrightarrow> quiet env y (kernel_print_literal text y1)"
  by (rule quiet_trans [OF _ quiet_print [OF quiet_video]])

lemma quiet_terminal: "quiet env y (boot_terminal y)"
  using terminal_init_frame [where t = "con_terminal (km (mm (sk y)), sc y)"]
  by (simp add: quiet_def boot_terminal_def con_back_def boot_noise_def set_ram_def set_km_def Let_def) (simp add: con_terminal_def)

lemma idt_set_frame:
  assumes "n < 512" "\<not> x - idt < 4096" shows "idt_set idt n address m x = m x"
proof (rule idt_set_bytes(9))
  show "8 \<le> x - (idt + n * 8)"
  proof (rule ccontr)
    assume "\<not> 8 \<le> x - (idt + n * 8)"
    moreover have "unat (n * 8) = unat n * 8" "unat n < 512" using assms(1) by (simp_all add: unat_word_ariths word_less_nat_alt)
    ultimately have "x - idt < 4096" by (intro near_within [of x idt "n * 8" 8]) simp_all
    then show False using assms(2) by simp
  qed
qed

lemma idt_init_frame:
  assumes "\<not> x - idt < 4096" shows "snd (idt_init idt zero stub wrapper80 wrapper20 m) x = m x"
proof -
  let ?f = "\<lambda>i m. idt_set idt i stub m"
  have "for_u32 0 512 ?f u x = u x" for u
    by (rule for_u32_invariant [OF refl, where P = "\<lambda>i w. w x = u x"]) (auto simp: idt_set_frame [OF _ assms])
  then show ?thesis
    using assms idt_set_frame [of 0 x idt] idt_set_frame [of "0x80" x idt] idt_set_frame [of "0x20" x idt]
    by (simp add: idt_init_def Let_def memset_apply)
qed

lemma boot_tables_ok: "\<exists>idtr y'. boot_tables env y = Inr (idtr, (be_gdt env, 48), y') \<and> quiet env y y'"
proof -
  let ?y1 = "boot_terminal y"
  obtain y2 where y2: "y2 = sys_ram (memset (sram ?y1) (be_gdt env) 0 48) ?y1" by blast
  obtain idtr m where i: "idt_init (be_idt env) (be_idt_zero env) (be_no_interrupt env) (be_isr80h_wrapper env)
      (be_isr_0x20_wrapper env) (sram y2) = (idtr, m)" by fastforce
  obtain y3 where y3: "y3 = kernel_print_literal '' '' (kernel_print_literal ''Interrupt Descriptor Table Initialize'' (sys_ram m y2))" by blast
  obtain m' where g: "gdt_structured_to_gdt (be_gdt env) (kernel_gdt (be_tss env)) (sram y3) = Inr m'"
    "\<forall>x. 48 \<le> unat (x - be_gdt env) \<longrightarrow> m' x = sram y3 x"
    using gdt_table [of "kernel_gdt (be_tss env)" "be_gdt env" "sram y3"] by (auto simp: kernel_gdt_def encodable_def)
  obtain y4 where y4: "y4 = kernel_print_literal '' '' (kernel_print_literal ''Global Descriptor Table Initialize'' (sys_ram m' y3))" by blast
  have q1: "quiet env y ?y1" by (rule quiet_terminal)
  have q2: "quiet env ?y1 y2" unfolding y2 using quiet_video [OF q1] by (intro quiet_ram) (auto simp: memset_apply boot_noise_def)
  have "quiet env y2 (sys_ram m y2)"
    using quiet_video [OF q2] idt_init_frame i by (intro quiet_ram) (auto simp: boot_noise_def, metis snd_conv)
  then have q3: "quiet env y2 y3" unfolding y3 by (intro quiet_then_print)
  have "quiet env y3 (sys_ram m' y3)"
    using quiet_video [OF q3] g(2) by (intro quiet_ram) (auto simp: boot_noise_def word_less_nat_alt)
  then have "quiet env y3 y4" unfolding y4 by (intro quiet_then_print)
  moreover have "boot_tables env y = Inr (idtr, (be_gdt env, 48), y4)"
    unfolding boot_tables_def Let_def y2 [symmetric] i prod.case y3 [symmetric] g(1) sum.case y4 [symmetric] by (rule refl)
  ultimately show ?thesis using q1 q2 q3 quiet_trans by blast
qed

section \<open>The memory and the disk\<close>

text \<open>The globals before the kernel starts: zero.\<close>

definition powered_on :: "system \<Rightarrow> bool" where
  "powered_on y \<longleftrightarrow> phys (km (mm (sk y))) = pmm_bss \<and> big_blocks (km (mm (sk y))) = replicate BIG_ADDRESS no_big \<and>
     task_head (sk y) = 0 \<and> task_tail (sk y) = 0 \<and> filesystems (sv y) = replicate 12 0 \<and> processes y = replicate 12 0"

text \<open>The tables and the screen are in the reserved memory, and the disk structure is clear of them.\<close>

definition tables_place :: "boot_env \<Rightarrow> bool" where
  "tables_place env \<longleftrightarrow> (\<forall>x. boot_noise env x \<longrightarrow> page_of x \<in> owned_pages pmm_boot) \<and>
     (\<forall>x. x - pe_disk (be_proc env) < 20 \<longrightarrow> page_of x \<in> owned_pages pmm_boot \<and> \<not> boot_noise env x)"

definition mounted_system ::
    "boot_env \<Rightarrow> (u32 \<Rightarrow> u8 list) \<Rightarrow> u8 list list \<Rightarrow> fat_stack \<Rightarrow> fat_volume \<Rightarrow> u32 \<Rightarrow> mem \<Rightarrow> kmem \<Rightarrow> bool" where
  "mounted_system env img its stk vol r m s \<longleftrightarrow> kheap_inv s \<and> owned_pages pmm_boot \<subseteq> owned_pages (phys s) \<and>
     pmm_system_memory_size (phys s) = 250000 \<and> mounted img its vol r (owned_pages pmm_boot) s \<and>
     v_disk vol = pe_disk (be_proc env) \<and> v_result vol = stk_result stk \<and>
     disk_filesystem (ram s) (pe_disk (be_proc env)) = be_fat16_fs env \<and>
     (\<forall>x. page_of x \<in> owned_pages pmm_boot \<and> \<not> boot_noise env x \<and> \<not> mount_writes (be_fat16_fs env) (pe_disk (be_proc env)) stk x
        \<longrightarrow> ram s x = m x)"

lemma mounted_system_step:
  assumes m: "mounted_system env img its stk vol r m s" and img: "fat_image img its" and t: "tables_place env"
    and s: "kheap_inv s'" "owned_pages (phys s) \<subseteq> owned_pages (phys s')" "pmm_system_memory_size (phys s') = 250000"
      "\<And>x. page_of x \<in> owned_pages (phys s) \<Longrightarrow> \<not> boot_noise env x \<Longrightarrow> ram s' x = ram s x"
  shows "mounted_system env img its stk vol r m s'"
proof -
  let ?Q = "owned_pages pmm_boot"
  have q: "?Q \<subseteq> owned_pages (phys s)" "v_disk vol = pe_disk (be_proc env)" and mt: "mounted img its vol r ?Q s"
    using m by (simp_all add: mounted_system_def)
  have "ram s' x = ram s x" if "x - pe_disk (be_proc env) < 20" for x
    using t q(1) that by (intro s(4)) (auto simp: tables_place_def)
  note d = disk_words [OF this]
  have "mounted img its vol r ?Q s'"
    using t q(2) d by (intro mounted_cong [OF mt img _ s(2)] s(4)) (auto simp: tables_place_def)
  then show ?thesis using m s d(3) q(1) by (auto simp: mounted_system_def)
qed

lemma mounted_system_quiet:
  assumes "mounted_system env img its stk vol r m (km (mm (sk y)))" "fat_image img its" "tables_place env" "quiet env y y'"
  shows "mounted_system env img its stk vol r m (km (mm (sk y')))"
proof -
  have "\<forall>x. \<not> boot_noise env x \<longrightarrow> sram y' x = sram y x" using assms(4) by (simp add: quiet_def)
  then show ?thesis
    using assms(1) quiet_heap [OF assms(4)] by (intro mounted_system_step [OF assms(1-3)]) (auto simp: mounted_system_def)
qed

lemma boot_memory_ok:
  assumes on: "powered_on y0" and q: "quiet env y0 y" and img: "fat_image img its" "room_to_mount img pmm_boot"
    and fs: "be_fat16_fs env \<noteq> 0" "pe_fss (be_proc env) (be_fat16_fs env) = fat16_fs img stk digits"
    and place: "tables_place env" "disk_place (pe_disk (be_proc env)) stk ((km (mm (sk y)))\<lparr>phys := pmm_boot\<rparr>)"
  shows "\<exists>y' vol r. boot_memory env y = Inr y' \<and> mounted_system env img its stk vol r (sram y0) (km (mm (sk y'))) \<and>
    sk y' = set_km (km (mm (sk y'))) (sk y) \<and> file_descriptors (sv y') = replicate 512 0 \<and> processes y' = processes y \<and>
    con_video (sc y') = 0xB8000 \<and> 225000 = 4 + root_blocks img + unat (pmm_free_blocks (phys (km (mm (sk y')))))"
proof -
  let ?disk = "pe_disk (be_proc env)" and ?fss = "pe_fss (be_proc env)" and ?fs = "be_fat16_fs env" and ?Q = "owned_pages pmm_boot"
  have y: "phys (km (mm (sk y))) = pmm_bss" "big_blocks (km (mm (sk y))) = replicate BIG_ADDRESS no_big"
    "filesystems (sv y) = replicate 12 0" "con_video (sc y) = 0xB8000"
    using on q quiet_heap(1,2) [OF q] by (simp_all add: powered_on_def quiet_def)
  obtain ya where ya: "ya = sys_mem ((km (mm (sk y)))\<lparr>phys := pmm_boot\<rparr>) y" by blast
  obtain yb where yb: "yb = kernel_print_literal '' '' (kernel_print_literal ''25000 block Reserved for Kernel''
    (kernel_print_literal '' '' (kernel_print_literal ''250000 Block of Memory Initialize'' ya)))" by blast
  have a: "con_video (sc ya) = 0xB8000" "sv ya = sv y" "processes ya = processes y" "sk ya = set_km ((km (mm (sk y)))\<lparr>phys := pmm_boot\<rparr>) (sk y)"
    "km (mm (sk ya)) = (km (mm (sk y)))\<lparr>phys := pmm_boot\<rparr>"
    using y(4) by (simp_all add: ya sys_mem_def set_km_def)
  have qb: "quiet env ya yb" unfolding yb using a(1) by (intro quiet_then_print quiet_print)
  obtain s where s: "s = km (mm (sk yb))" by blast
  have sb: "phys s = pmm_boot" "big_blocks s = replicate BIG_ADDRESS no_big" "sram yb = ram s"
    using quiet_heap(1,2) [OF qb] a(5) y(2) by (simp_all add: s)
  have "kheap_inv s" using kmem_boot_inv by (simp add: sb(1,2) kheap_inv_def kmem_boot_def big_blocks_init_def)
  have "room_to_mount img (phys s)" "filesystems (sv yb) = replicate 12 0" "disk_place ?disk stk s"
    using img(2) qb a(2) y(3) place(2) by (simp_all add: sb quiet_def disk_place_def)
  note pre = this
  from mount_ok [where fss = ?fss and fs = ?fs and v = "sv yb" and con = "sc yb" and s = s, OF \<open>kheap_inv s\<close> img(1) pre(1,2) fs pre(3)]
  obtain m w vol r t where
    t: "fs_init ?fs (ram s, sv yb) = Inr (m, w)" "disk_search_init ?fss ?disk ((s\<lparr>ram := m\<rparr>, sc yb), w) = Some ((t, sc yb), w)"
      "v_disk vol = ?disk" "v_result vol = stk_result stk" "mounted img its vol r ?Q t" "disk_filesystem (ram t) ?disk = ?fs"
      "file_descriptors w = replicate 512 0" "kheap_inv t" "?Q \<subseteq> owned_pages (phys t)" "pmm_system_memory_size (phys t) = 250000"
      "225000 = 4 + root_blocks img + unat (pmm_free_blocks (phys t))"
      "\<forall>x. page_of x \<in> ?Q \<and> \<not> mount_writes ?fs ?disk stk x \<longrightarrow> ram t x = ram s x"
    by (auto simp: sb(1))
  obtain yd where yd: "yd = files_back ((t, sc yb), w) ((sys_ram m yb)\<lparr>sv := w\<rparr>)" by blast
  have d: "km (mm (sk yd)) = t" "sk yd = set_km t (sk y)" "sv yd = w" "processes yd = processes y" "con_video (sc yd) = 0xB8000"
    using qb a quiet_kernel [OF qb] by (simp_all add: yd files_back_def sys_ram_def quiet_def)
  have same: "ram s x = sram y0 x" if "\<not> boot_noise env x" for x
    using q qb that a(5) by (simp add: quiet_def flip: sb(3))
  have md: "mounted_system env img its stk vol r (sram y0) (km (mm (sk yd)))"
    using t(3-12) same by (simp add: mounted_system_def d(1))
  obtain ye where ye: "ye = kernel_print_literal '' '' (kernel_print_literal ''Filesystem Detected and Loaded'' yd)" by blast
  have qe: "quiet env yd ye" unfolding ye using d(5) by (intro quiet_then_print quiet_print)
  have files: "files_of ((sys_ram m yb)\<lparr>sv := w\<rparr>) = ((s\<lparr>ram := m\<rparr>, sc yb), w)"
    by (simp add: files_of_def sys_ram_def set_ram_km s)
  have "boot_memory env y = Inr ye"
    unfolding boot_memory_def Let_def y(1) pmm_boot_def [symmetric] ya [symmetric] yb [symmetric] sb(3) t(1) sum.case prod.case
      files t(2) returned_def option.case yd [symmetric] ye [symmetric] by (rule refl)
  moreover have "sk ye = set_km (km (mm (sk ye))) (sk y)"
    using quiet_back [OF qe] d(2) set_km_twice(1) by metis
  ultimately show ?thesis
    using mounted_system_quiet [OF md img(1) place(1) qe] quiet_heap(1) [OF qe] qe d t(7,11)
    by (intro exI [of _ ye] exI [of _ vol] exI [of _ r]) (simp add: quiet_def)
qed

text \<open>Paging and the task state segment.\<close>

lemma new_4gb_grows:
  assumes "pmm_inv (phys (km v))" and "1026 \<le> unat (pmm_free_blocks (phys (km v)))"
  shows "\<exists>chunk v'. paging_new_4gb flags v = (chunk, v') \<and> pmm_inv (phys (km v')) \<and>
    owned_pages (phys (km v)) \<subseteq> owned_pages (phys (km v')) \<and>
    unat (pmm_free_blocks (phys (km v))) = 1026 + unat (pmm_free_blocks (phys (km v'))) \<and>
    (\<forall>x. (\<forall>q \<in> owned_pages (phys (km v')) - owned_pages (phys (km v)). 4096 \<le> x - q) \<longrightarrow> ram (km v') x = ram (km v) x) \<and>
    v' = v\<lparr>km := (km v)\<lparr>phys := phys (km v'), ram := ram (km v')\<rparr>, for_one_time := for_one_time v - 1\<rparr>"
  using new_4gb_success [OF assms, of flags]
  by (elim exE conjE) (intro exI conjI, assumption, assumption, rule order.trans [OF Un_upper2 equalityD2], assumption+)

lemma boot_paging_ok:
  assumes m: "mounted_system env img its stk vol r m0 (km (mm (sk y)))" and img: "fat_image img its" and t: "tables_place env"
    and c: "con_video (sc y) = 0xB8000" and free: "1026 \<le> unat (pmm_free_blocks (phys (km (mm (sk y)))))"
  shows "mounted_system env img its stk vol r m0 (km (mm (sk (boot_paging env y)))) \<and>
    task_head (sk (boot_paging env y)) = task_head (sk y) \<and> task_tail (sk (boot_paging env y)) = task_tail (sk y) \<and>
    sv (boot_paging env y) = sv y \<and> processes (boot_paging env y) = processes y \<and>
    unat (pmm_free_blocks (phys (km (mm (sk y))))) = 1026 + unat (pmm_free_blocks (phys (km (mm (sk (boot_paging env y))))))"
proof -
  let ?s = "km (mm (sk y))"
  have inv: "kheap_inv ?s" and size: "pmm_system_memory_size (phys ?s) = 250000" using m by (simp_all add: mounted_system_def)
  then have pinv: "pmm_inv (phys ?s)" by (simp add: kheap_inv_def)
  from new_4gb_grows [OF pinv free, of 7] obtain chunk d v where
    n: "paging_new_4gb 7 (mm (sk y)) = (chunk, v)" "pmm_inv (phys (km v))" "owned_pages (phys ?s) \<subseteq> owned_pages (phys (km v))"
      "unat (pmm_free_blocks (phys ?s)) = 1026 + unat (pmm_free_blocks (phys (km v)))"
      "\<forall>x. (\<forall>q \<in> owned_pages (phys (km v)) - owned_pages (phys ?s). 4096 \<le> x - q) \<longrightarrow> ram (km v) x = ram ?s x"
      "v = (mm (sk y))\<lparr>km := ?s\<lparr>phys := phys (km v), ram := ram (km v)\<rparr>, for_one_time := for_one_time (mm (sk y)) - 1\<rparr>"
    by auto
  have big: "big_blocks (km v) = big_blocks ?s" using arg_cong [OF n(6), of "\<lambda>v. big_blocks (km v)"] by simp
  have "ram (km v) x = ram ?s x" if x: "page_of x \<in> owned_pages (phys ?s)" for x
  proof (rule n(5) [rule_format])
    fix q assume q: "q \<in> owned_pages (phys (km v)) - owned_pages (phys ?s)"
    then have "page_aligned q" using owned_page_aligned [OF n(2)] by blast
    then show "4096 \<le> x - q" using page_of_in [of q x] q x by (metis DiffD2 not_less)
  qed
  moreover have "pmm_system_memory_size (phys (km v)) = 250000" using new_4gb_size [of 7 "mm (sk y)"] n(1) size by simp
  ultimately have mv: "mounted_system env img its stk vol r m0 (km v)"
    using kheap_inv_grow [OF inv n(2) big n(3)] n(3) by (intro mounted_system_step [OF m img t]) auto
  obtain y1 where y1: "y1 = y\<lparr>sk := (sk y)\<lparr>kernel_chunk := chunk,
    mm := enable_paging (paging_switch (paging_4gb_chunk_get_directory (ram (km v)) chunk) v)\<rparr>\<rparr>" by blast
  have f: "km (mm (sk y1)) = km v" "task_head (sk y1) = task_head (sk y)" "task_tail (sk y1) = task_tail (sk y)" "sv y1 = sv y"
    "processes y1 = processes y" "con_video (sc y1) = 0xB8000"
    using c by (simp_all add: y1 enable_paging_def paging_switch_def paging_load_directory_def)
  obtain y2 where y2: "y2 = kernel_print_literal '' '' (kernel_print_literal ''Paging Enableded'' y1)" by blast
  have q2: "quiet env y1 y2" unfolding y2 using f(6) by (intro quiet_then_print quiet_print)
  obtain m2 where m2: "m2 = store32 (store32 (memset (sram y2) (be_tss env) 0 100) (be_tss env + 4) 0x600000) (be_tss env + 8) 0x10" by blast
  have "quiet env y2 (sys_ram m2 y2)"
  proof (rule quiet_ram [OF quiet_video [OF q2]])
    fix x assume "\<not> boot_noise env x"
    then have x: "\<not> x - be_tss env < 100" by (simp add: boot_noise_def)
    then have "\<not> x - (be_tss env + 4) < 4" "\<not> x - (be_tss env + 8) < 4"
      using near_within [of x "be_tss env" 4 4 100] near_within [of x "be_tss env" 8 4 100] by auto
    then have "m2 x = memset (sram y2) (be_tss env) 0 100 x" by (simp add: m2 store32_other not_less)
    then show "m2 x = sram y2 x" using x by (simp add: memset_apply)
  qed
  then have q: "quiet env y1 (sys_ram m2 y2)" by (rule quiet_trans [OF q2])
  have run: "boot_paging env y = sys_ram m2 y2"
    by (simp add: boot_paging_def Let_def n(1) m2 y2 y1)
  show ?thesis
    unfolding run using mounted_system_quiet [OF _ img t q] mv f quiet_ends [OF q] quiet_heap(1) [OF q] n(4) q by (simp add: quiet_def)
qed

section \<open>Ready to load programs\<close>

text \<open>The locals and buffers that opening, reading and measuring a file write, apart from each other and from what is read.\<close>

definition local_noise :: "proc_env \<Rightarrow> fat_stack \<Rightarrow> u32 \<Rightarrow> bool" where
  "local_noise env stk x \<longleftrightarrow> x - stk_name stk < 108 \<or> x - stk_result stk < 2 \<or> x - pe_stat env < 8"

definition locals_place :: "proc_env \<Rightarrow> fat_stack \<Rightarrow> bool" where
  "locals_place env stk \<longleftrightarrow> page_of (pe_mode_r env) \<in> owned_pages pmm_boot \<and>
     (\<forall>x. local_noise env stk x \<longrightarrow> page_of x \<in> owned_pages pmm_boot \<and> x \<noteq> pe_mode_r env \<and> \<not> x - pe_disk env < 20) \<and>
     (\<forall>x. x - pe_stat env < 8 \<longrightarrow> \<not> x - stk_result stk < 2)"

text \<open>The volume's own cells and scratch words are on its three pages, or in the disk structure and the result.\<close>

lemma mounted_volume_cells:
  assumes "mounted img its v r Q s"
  shows "vol_cell v x \<Longrightarrow> x - v_disk v < 20 \<or> page_of x \<in> {v_private v, v_data v, v_fat v}"
    and "vol_scratch v x \<Longrightarrow> x - v_result v < 2 \<or> page_of x \<in> {v_data v, v_fat v}"
    and "vol_cell v x \<Longrightarrow> vol_scratch v x \<Longrightarrow> x - v_disk v < 20 \<or> x - v_result v < 2"
proof -
  have al: "page_aligned (v_private v)" "page_aligned (v_data v)" "page_aligned (v_fat v)" and dist: "distinct [v_private v, v_data v, v_fat v]"
    using assms by (simp_all add: mounted_def Let_def)
  have near: "page_of x = t" if "x - (t + k) < n" "page_aligned t" "unat k + unat n \<le> 4096" for t k n
    using near_within [OF that(1), of 4096] page_of_in [OF that(2)] that(3) by simp
  show c: "vol_cell v x \<Longrightarrow> x - v_disk v < 20 \<or> page_of x \<in> {v_private v, v_data v, v_fat v}"
    using near [of "v_private v" 0 92] near [of "v_data v" 4 4] near [of "v_fat v" 4 4] al by (auto simp: vol_cell_def)
  show w: "vol_scratch v x \<Longrightarrow> x - v_result v < 2 \<or> page_of x \<in> {v_data v, v_fat v}"
    using near [of "v_data v" 0 4] near [of "v_fat v" 0 4] al by (auto simp: vol_scratch_def)
  have far: "\<not> x - (t + 4) < 4" if "x - t < 4" for t :: u32
  proof -
    have "\<not> z - 4 < 4" if "z < 4" for z :: u32
      using that by (simp add: word_less_nat_alt unat_sub_if')
    from this [OF that] show ?thesis by (simp add: diff_diff_eq)
  qed
  note pages = near [of "v_private v" 0 92, simplified, OF _ al(1)] near [of "v_data v" 0 4, simplified, OF _ al(2)]
    near [of "v_fat v" 0 4, simplified, OF _ al(3)] near [of "v_data v" 4 4, simplified, OF _ al(2)] near [of "v_fat v" 4 4, simplified, OF _ al(3)]
  show "x - v_disk v < 20 \<or> x - v_result v < 2" if "vol_cell v x" "vol_scratch v x"
  proof -
    from that(2) consider "x - v_data v < 4" | "x - v_fat v < 4" | "x - v_result v < 2" by (auto simp: vol_scratch_def)
    then show ?thesis
    proof cases
      case 1
      then have "x - v_disk v < 20" using that(1) pages(1) pages(5) pages(2) [OF 1] far [OF 1] dist by (auto simp: vol_cell_def)
      then show ?thesis ..
    next
      case 2
      then have "x - v_disk v < 20" using that(1) pages(1) pages(4) pages(3) [OF 2] far [OF 2] dist by (auto simp: vol_cell_def)
      then show ?thesis ..
    qed simp
  qed
qed

lemma mounted_loader_ready:
  assumes m: "mounted_system env img its stk v r m0 s" and img: "fat_image img its" "\<forall>e \<in> set its. named_entry e"
    and t: "tables_place env" and l: "locals_place (be_proc env) stk" and disk: "pe_disk (be_proc env) \<noteq> 0"
    and fs: "be_fat16_fs env \<noteq> 0" "pe_fss (be_proc env) (be_fat16_fs env) = fat16_fs img stk digits"
    and mode: "ram s (pe_mode_r (be_proc env)) = 114"
  shows "loader_ready (be_proc env) img stk digits v (mounted_view its v r w) s"
    "load_cell (be_proc env) v (mounted_view its v r w) x \<Longrightarrow> page_of x \<in> owned_pages pmm_boot \<Longrightarrow>
      x = pe_mode_r (be_proc env) \<or> x - pe_disk (be_proc env) < 20"
    "load_noise (be_proc env) stk v x \<Longrightarrow> page_of x \<in> owned_pages pmm_boot \<Longrightarrow> local_noise (be_proc env) stk x"
proof -
  let ?e = "be_proc env" and ?Q = "owned_pages pmm_boot" and ?d = "mounted_view its v r w"
  have f: "?Q \<subseteq> owned_pages (phys s)" "mounted img its v r ?Q s" "v_disk v = pe_disk ?e" "v_result v = stk_result stk"
    "disk_filesystem (ram s) (pe_disk ?e) = be_fat16_fs env"
    using m by (simp_all add: mounted_system_def)
  have pg: "{v_private v, v_data v, v_fat v} \<subseteq> owned_pages (phys s) - ?Q" "distinct [v_private v, v_data v, v_fat v]" "volume_at (ram s) v"
    using f(2) by (simp_all add: mounted_def Let_def)
  have dq: "page_of x \<in> ?Q" "\<not> local_noise ?e stk x" if "x - pe_disk ?e < 20" for x
    using t l that by (auto simp: tables_place_def locals_place_def)
  have nq: "page_of x \<in> ?Q" if "local_noise ?e stk x" for x using l that by (simp add: locals_place_def)
  note vc = mounted_volume_cells [OF f(2), unfolded f(3,4)]
  have cell: "x = pe_mode_r ?e \<or> x - pe_disk ?e < 20 \<or> page_of x \<in> owned_pages (phys s) - ?Q" if "load_cell ?e v ?d x" for x
    using that vc(1) [of x] mounted_cells [OF f(2) img(1), where x = x and w = w] pg(1) by (auto simp: load_cell_def)
  have noise: "local_noise ?e stk x \<or> vol_scratch v x \<and> page_of x \<in> {v_data v, v_fat v}" if "load_noise ?e stk v x" for x
    using that vc(2) [of x] by (auto simp: load_noise_def local_noise_def)
  have apart: "\<not> load_cell ?e v ?d x" if n: "load_noise ?e stk v x" for x
  proof
    assume c: "load_cell ?e v ?d x"
    from noise [OF n] show False
    proof
      assume h: "local_noise ?e stk x"
      then have "x \<noteq> pe_mode_r ?e" "\<not> x - pe_disk ?e < 20" using l by (simp_all add: locals_place_def)
      then show False using cell [OF c] nq [OF h] by blast
    next
      assume h: "vol_scratch v x \<and> page_of x \<in> {v_data v, v_fat v}"
      then have q: "page_of x \<notin> ?Q" using pg(1) by auto
      then have "x \<noteq> pe_mode_r ?e" using l by (auto simp: locals_place_def)
      then have "vol_cell v x" using c h mounted_cells [OF f(2) img(1), where x = x and w = w] by (auto simp: load_cell_def)
      from vc(3) [OF this] h have "x - pe_disk ?e < 20 \<or> x - stk_result stk < 2" by blast
      then show False using q dq(1) [of x] nq [of x] by (auto simp: local_noise_def)
    qed
  qed
  have own: "page_of x \<in> owned_pages (phys s)" if "load_noise ?e stk v x \<or> load_cell ?e v ?d x" for x
    using that noise [of x] cell [of x] nq [of x] dq(1) [of x] subsetD [OF f(1), of "page_of x"] pg(1) l by (auto simp: locals_place_def)
  have "name_place (pe_disk ?e) stk ?Q"
    using dq nq by (auto simp: name_place_def local_noise_def not_less)
  note fd = mounted_fat_disk [OF f(2) img f(3) disk _ this f(1), of w]
  have cells: "vol_cell v x \<Longrightarrow> load_cell ?e v ?d x" "vol_scratch v x \<Longrightarrow> load_noise ?e stk v x" for x
    by (simp_all add: load_cell_def load_noise_def)
  have "vol_sep v"
    unfolding vol_sep_def
  proof (intro conjI allI impI)
    fix x assume "x - v_result v < 2"
    then have "page_of x \<in> ?Q" using nq [of x] f(4) by (simp add: local_noise_def)
    then show "\<not> x - v_fat v < 4" using mounted_volume_cells [OF f(2)] f(2) pg(1) page_of_in [of "v_fat v" x] by (auto simp: mounted_def Let_def dest: order.strict_trans [of _ _ 4096])
  qed (use apart cells in blast)
  moreover have "108 \<le> x - stk_name stk" if "vol_cell v x" for x
    using apart [of x] cells(1) [OF that] by (auto simp: load_noise_def not_less [symmetric])
  ultimately have "volume_in_use v (stk_name stk) s" using own cells pg(3) by (auto simp: volume_in_use_def)
  moreover have "\<not> vol_scratch v x" if "x - pe_stat ?e < 8" for x
  proof -
    have "local_noise ?e stk x" "\<not> x - stk_result stk < 2" using that l by (simp_all add: local_noise_def locals_place_def)
    then show ?thesis using vc(2) [of x] nq [of x] pg(1) by auto
  qed
  ultimately show "loader_ready ?e img stk digits v ?d s"
    unfolding loader_ready_def using fd f(3,5) fs mode own apart by simp
  show "load_cell ?e v ?d x \<Longrightarrow> page_of x \<in> ?Q \<Longrightarrow> x = pe_mode_r ?e \<or> x - pe_disk ?e < 20" using cell [of x] by blast
  show "load_noise ?e stk v x \<Longrightarrow> page_of x \<in> ?Q \<Longrightarrow> local_noise ?e stk x" using noise [of x] pg(1) by auto
qed

section \<open>Programs on the disk\<close>

text \<open>What the code reads in a directory entry, and the geometry of the image.\<close>

definition entry_cluster :: "u8 list \<Rightarrow> u32" where
  "entry_cluster e = fat16_get_first_cluster (write_bytes (\<lambda>_. 0) 0 e) 0"

definition entry_size :: "u8 list \<Rightarrow> nat" where
  "entry_size e = unat (item_filesize (write_bytes (\<lambda>_. 0) 0 e) 0)"

definition image_volume :: "(u32 \<Rightarrow> u8 list) \<Rightarrow> fat_volume" where
  "image_volume img = volume_of img 0 0 0 0 0"

lemma entry_read:
  assumes "read_bytes m p 32 = e"
  shows "fat16_get_first_cluster m p = entry_cluster e" "unat (item_filesize m p) = entry_size e"
proof -
  have l: "length e = 32" using assms by (auto simp: read_bytes_def)
  have b: "m (p + of_nat i) = write_bytes (\<lambda>_. 0) 0 e (of_nat i)" if "i < 32" for i
    using write_bytes_at [of i e "\<lambda>_. 0" 0] l that assms by (auto simp: read_bytes_def)
  note b [of 20] b [of 21] b [of 26] b [of 27] b [of 28] b [of 29] b [of 30] b [of 31]
  then show "fat16_get_first_cluster m p = entry_cluster e" "unat (item_filesize m p) = entry_size e"
    by (simp_all add: entry_cluster_def entry_size_def fat16_get_first_cluster_def item_filesize_def load16_def load32_def add.assoc)
qed

lemma geometry_cong:
  assumes "v_spc v = v_spc w" "v_end v = v_end w" "v_table v = v_table w"
  shows "fat_chain img v cs = fat_chain img w cs" "reads_ok v cs off sz n = reads_ok w cs off sz n" "file_byte img v cs k = file_byte img w cs k"
proof -
  show "fat_chain img v cs = fat_chain img w cs"
    using assms by (induction cs rule: fat_chain.induct) (simp_all add: fat_next_def)
  show "reads_ok v cs off sz n = reads_ok w cs off sz n" "file_byte img v cs k = file_byte img w cs k"
    using assms by (simp_all add: reads_ok_def read_ok_def chain_covers_def chain_fits_def file_byte_def cluster_bytes_def cluster_start_def)
qed

lemma mounted_geometry:
  assumes "mounted img its v r Q s"
  shows "v_spc v = v_spc (image_volume img)" "v_end v = v_end (image_volume img)" "v_table v = v_table (image_volume img)"
  using assms by (simp_all add: mounted_def Let_def image_volume_def volume_of_def)

text \<open>
  A program: a file of the root directory, with a chain of clusters that covers it; its path and its pointer are in reserved memory
  and away from all that starting the kernel writes.
\<close>

definition boot_writes :: "boot_env \<Rightarrow> fat_stack \<Rightarrow> u32 \<Rightarrow> bool" where
  "boot_writes env stk x \<longleftrightarrow> boot_noise env x \<or> mount_writes (be_fat16_fs env) (pe_disk (be_proc env)) stk x \<or>
     local_noise (be_proc env) stk x"

definition program_on_disk :: "(u32 \<Rightarrow> u8 list) \<Rightarrow> u8 list list \<Rightarrow> program \<Rightarrow> bool" where
  "program_on_disk img its q \<longleftrightarrow> only_file its (pg_wanted q) (pg_entry q) \<and> fat_chain img (image_volume img) (pg_clusters q) \<and>
     entry_cluster (its ! pg_entry q) = of_nat (pg_clusters q ! 0) \<and> entry_size (its ! pg_entry q) = pg_len q \<and>
     reads_ok (image_volume img) (pg_clusters q) 0 (pg_len q) 1 \<and> 0 < pg_len q"

text \<open>
  The programs fit in memory: after the kernel has used its 26030 pages and those of the root directory, so few pages are in use with all
  the programs that there always are runs of free pages for them and for their stacks. Any twelve programs of at most 24 KiB do.
\<close>

definition programs_fit :: "(u32 \<Rightarrow> u8 list) \<Rightarrow> program list \<Rightarrow> bool" where
  "programs_fit img qs \<longleftrightarrow> (\<forall>q \<in> set qs. max 4 (program_pages (pg_len q)) *
     (26030 + root_blocks img + sum_list (map (\<lambda>q. load_pages (pg_len q)) qs)) < 250000)"

lemma programs_fit_small:
  assumes "room_to_mount img pmm_boot" "length qs \<le> 12" "\<forall>q \<in> set qs. pg_len q \<le> 24576"
  shows "programs_fit img qs"
  unfolding programs_fit_def
proof
  have pages: "program_pages (pg_len q) \<le> 6" if "q \<in> set qs" for q
    using div_le_mono [of "pg_len q + 4095" 28671 4096] assms(3) that by (simp add: program_pages_def)
  have "sum_list (map (\<lambda>q. load_pages (pg_len q)) qs) \<le> sum_list (map (\<lambda>_. 1049) qs)"
    using pages by (intro sum_list_mono) (simp add: load_pages_def)
  then have total: "sum_list (map (\<lambda>q. load_pages (pg_len q)) qs) \<le> 12588" using assms(2) by (simp add: sum_list_triv)
  have "root_blocks img \<le> 9" using assms(1) by (simp add: room_to_mount_def)
  fix q assume q: "q \<in> set qs"
  have "max 4 (program_pages (pg_len q)) * (26030 + root_blocks img + sum_list (map (\<lambda>q. load_pages (pg_len q)) qs)) \<le> 6 * 38627"
    using pages [OF q] total \<open>root_blocks img \<le> 9\<close> by (intro mult_le_mono) simp_all
  then show "max 4 (program_pages (pg_len q)) * (26030 + root_blocks img + sum_list (map (\<lambda>q. load_pages (pg_len q)) qs)) < 250000"
    by simp
qed

definition program_place :: "boot_env \<Rightarrow> fat_stack \<Rightarrow> mem \<Rightarrow> program \<Rightarrow> bool" where
  "program_place env stk m q \<longleftrightarrow> cstring m (pg_name q) (pg_path q) \<and> length (pg_path q) < 108 \<and>
     root_file_path (pg_path q) (pg_wanted q) \<and> (\<forall>i < 108. page_of (pg_name q + of_nat i) \<in> owned_pages pmm_boot) \<and>
     (\<forall>i \<le> length (pg_path q). \<not> boot_writes env stk (pg_name q + of_nat i)) \<and>
     (\<forall>x. x - pg_pointer q < 4 \<longrightarrow> page_of x \<in> owned_pages pmm_boot \<and> \<not> boot_writes env stk x \<and> x \<noteq> pe_mode_r (be_proc env))"

definition pointers_apart :: "program list \<Rightarrow> bool" where
  "pointers_apart qs \<longleftrightarrow> (\<forall>q \<in> set qs. \<forall>x. x - pg_pointer q < 4 \<longrightarrow>
       (\<forall>q' \<in> set qs. \<forall>i \<le> length (pg_path q'). x \<noteq> pg_name q' + of_nat i)) \<and>
     sorted_wrt (\<lambda>q q'. \<forall>x. x - pg_pointer q < 4 \<longrightarrow> \<not> x - pg_pointer q' < 4) qs"

lemma program_ready:
  assumes m: "mounted_system env img its stk v r m0 s" and ready: "loader_ready (be_proc env) img stk digits v (mounted_view its v r []) s"
    and noise: "\<And>x. load_noise (be_proc env) stk v x \<Longrightarrow> page_of x \<in> owned_pages pmm_boot \<Longrightarrow> local_noise (be_proc env) stk x"
    and p: "program_on_disk img its q" "program_place env stk m0 q"
  shows "program_ok (be_proc env) img stk v (mounted_view its v r []) s [] q"
proof -
  let ?Q = "owned_pages pmm_boot" and ?d = "mounted_view its v r (pg_wanted q)"
  have f: "?Q \<subseteq> owned_pages (phys s)" "mounted img its v r ?Q s" "v_result v = stk_result stk"
    "\<forall>x. page_of x \<in> ?Q \<and> \<not> boot_writes env stk x \<longrightarrow> ram s x = m0 x"
    using m by (auto simp: mounted_system_def boot_writes_def)
  have vin: "volume_in_use v (stk_name stk) s" using ready by (simp add: loader_ready_def)
  have pl: "cstring m0 (pg_name q) (pg_path q)" "length (pg_path q) < 108" "\<forall>i < 108. page_of (pg_name q + of_nat i) \<in> ?Q"
    "\<forall>i \<le> length (pg_path q). \<not> boot_writes env stk (pg_name q + of_nat i)"
    using p(2) by (simp_all add: program_place_def)
  have "cstring (ram s) (pg_name q) (pg_path q)"
    by (rule cstring_cong [OF pl(1)]) (use pl f(4) in simp)
  moreover have "region_in_use s (pg_name q) 108" using pl(3) f(1) unfolding region_in_use_def by blast
  moreover have quiet: "\<not> load_noise (be_proc env) stk v x" if "page_of x \<in> ?Q" "\<not> boot_writes env stk x" for x
    using noise [of x] that by (auto simp: boot_writes_def)
  then have "\<not> load_noise (be_proc env) stk v (pg_name q + of_nat i)" if "i \<le> length (pg_path q)" for i
    using pl(2-4) that by simp
  moreover have "page_of x \<in> owned_pages (phys s) \<and> \<not> load_noise (be_proc env) stk v x" if "x - pg_pointer q < 4" for x
    using p(2) that f(1) quiet by (auto simp: program_place_def)
  ultimately have req: "load_request (be_proc env) stk v s [] (pg_pointer q) (pg_name q) (pg_path q) (pg_wanted q)"
    using pl(2) p(2) by (simp add: load_request_def program_place_def)
  have o: "only_file its (pg_wanted q) (pg_entry q)" using p(1) by (simp add: program_on_disk_def)
  note entry = mounted_the_file [OF f(2) o]
  have "program_file img stk v (pg_clusters q) ?d (pg_entry q) (pg_len q) s"
    using vin f(3) entry(1) entry_read [OF entry(2)] p(1) geometry_cong [OF mounted_geometry [OF f(2)]]
    by (simp add: program_file_def program_on_disk_def)
  moreover have "(mounted_view its v r [])\<lparr>d_wanted := pg_wanted q\<rparr> = ?d" by (simp add: mounted_view_def)
  ultimately show ?thesis using req p(1) by (simp add: program_ok_def program_on_disk_def)
qed

section \<open>The kernel starts\<close>

definition boot_places :: "boot_env \<Rightarrow> fat_stack \<Rightarrow> bool" where
  "boot_places env stk \<longleftrightarrow> be_fat16_fs env \<noteq> 0 \<and> tables_place env \<and> locals_place (be_proc env) stk \<and>
     disk_place (pe_disk (be_proc env)) stk (kmem_boot) \<and> \<not> boot_writes env stk (pe_mode_r (be_proc env))"

text \<open>The steps up to the loads leave the kernel in a state from which programs can be loaded.\<close>

lemma boot_steps:
  assumes on: "powered_on y" and img: "fat_image img its" "\<forall>e \<in> set its. named_entry e" "room_to_mount img pmm_boot"
    and pl: "boot_places env stk" and fs: "pe_fss (be_proc env) (be_fat16_fs env) = fat16_fs img stk digits"
    and mode: "sram y (pe_mode_r (be_proc env)) = 114"
  shows "\<exists>idtr y1 y2 v r. boot_tables env y = Inr (idtr, (be_gdt env, 48), y1) \<and> boot_memory env y1 = Inr y2 \<and>
    mounted_system env img its stk v r (sram y) (km (mm (sk (boot_paging env y2)))) \<and>
    loader_state (be_proc env) img stk digits v (mounted_view its v r []) (sk (boot_paging env y2)) [] \<and>
    sv (boot_paging env y2) = sv y2 \<and> file_descriptors (sv y2) = replicate 512 0 \<and> processes (boot_paging env y2) = replicate 12 0 \<and>
    225000 = 1030 + root_blocks img + unat (pmm_free_blocks (phys (km (mm (sk (boot_paging env y2))))))"
proof -
  have place: "be_fat16_fs env \<noteq> 0" "tables_place env" "locals_place (be_proc env) stk" "pe_disk (be_proc env) \<noteq> 0"
    "disk_place (pe_disk (be_proc env)) stk kmem_boot" "\<not> boot_writes env stk (pe_mode_r (be_proc env))"
    using pl by (simp_all add: boot_places_def disk_place_def)
  obtain idtr y1 where y1: "boot_tables env y = Inr (idtr, (be_gdt env, 48), y1)" "quiet env y y1" using boot_tables_ok by blast
  have "disk_place (pe_disk (be_proc env)) stk ((km (mm (sk y1)))\<lparr>phys := pmm_boot\<rparr>)" using place(5) by (simp add: disk_place_def)
  from boot_memory_ok [OF on y1(2) img(1,3) place(1) fs place(2) this] obtain y2 v r where
    y2: "boot_memory env y1 = Inr y2" "mounted_system env img its stk v r (sram y) (km (mm (sk y2)))"
      "sk y2 = set_km (km (mm (sk y2))) (sk y1)" "file_descriptors (sv y2) = replicate 512 0" "processes y2 = processes y1"
      "con_video (sc y2) = 0xB8000" "225000 = 4 + root_blocks img + unat (pmm_free_blocks (phys (km (mm (sk y2)))))" by blast
  obtain y3 where y3: "y3 = boot_paging env y2" by blast
  have "root_blocks img \<le> 9" using img(3) by (simp add: room_to_mount_def)
  then have "1026 \<le> unat (pmm_free_blocks (phys (km (mm (sk y2)))))" using y2(7) by simp
  from boot_paging_ok [OF y2(2) img(1) place(2) y2(6) this, folded y3]
  have p: "mounted_system env img its stk v r (sram y) (km (mm (sk y3)))" "task_head (sk y3) = task_head (sk y2)"
    "task_tail (sk y3) = task_tail (sk y2)" "sv y3 = sv y2" "processes y3 = processes y2"
    "225000 = 1030 + root_blocks img + unat (pmm_free_blocks (phys (km (mm (sk y3)))))" using y2(7) by simp_all
  have "ram (km (mm (sk y3))) (pe_mode_r (be_proc env)) = 114"
    using p(1) place(3,6) mode by (simp add: mounted_system_def boot_writes_def locals_place_def)
  note ready = mounted_loader_ready(1) [OF p(1) img(1,2) place(2,3,4,1) fs this, of "[]"]
  have "task_head (sk y2) = task_head (sk y1)" "task_tail (sk y2) = task_tail (sk y1)"
    using arg_cong [OF y2(3), of task_head] arg_cong [OF y2(3), of task_tail] by (simp_all add: set_km_def)
  then have "task_head (sk y3) = 0" "task_tail (sk y3) = 0" using p(2,3) quiet_ends [OF y1(2)] on by (simp_all add: powered_on_def)
  then have "task_list (sk y3) []" by (simp add: task_list_def forward_def backward_def list_ends_def)
  then have "loader_state (be_proc env) img stk digits v (mounted_view its v r []) (sk y3) []"
    using ready p(1) by (simp add: loader_state_def mounted_system_def)
  moreover have "processes y3 = replicate 12 0" using p(5) y2(5) y1(2) on by (simp add: quiet_def powered_on_def)
  ultimately show ?thesis using y1(1) y2(1,4) p(1,4,6) y3 by blast
qed

section \<open>An example\<close>

text \<open>A kernel that boots from the disk of \<open>boot.asm\<close> and loads its second file twice.\<close>

definition start_env :: boot_env where
  "start_env = \<lparr>be_proc = \<lparr>pe_fss = \<lambda>_. fat16_fs mount_disk demo_stack [], pe_disk = 0x1000, pe_stat = 0x5300, pe_mode_r = 0xB000\<rparr>,
     be_gdt = 0x20000, be_tss = 0x21000, be_idt = 0x22000, be_idt_zero = 0x30000, be_no_interrupt = 0x30010,
     be_isr80h_wrapper = 0x30020, be_isr_0x20_wrapper = 0x30030, be_fat16_fs = 0x3000, be_buffer = 0x24000,
     be_files = [0xA000, 0xA000], be_pointers = [0xE000, 0xE004], be_esp = 0x600000, be_flags = 2\<rparr>"

definition start_system :: system where
  "start_system = load_system\<lparr>sk := set_km (open_kmem\<lparr>phys := pmm_bss\<rparr>) (sk load_system)\<rparr>"

definition start_program :: "u32 \<Rightarrow> program" where
  "start_program p = (demo_program p)\<lparr>pg_clusters := [2], pg_len := 4114\<rparr>"

lemma start_env_simps [simp]:
  "be_proc start_env = \<lparr>pe_fss = \<lambda>_. fat16_fs mount_disk demo_stack [], pe_disk = 0x1000, pe_stat = 0x5300, pe_mode_r = 0xB000\<rparr>"
  "be_gdt start_env = 0x20000" "be_tss start_env = 0x21000" "be_idt start_env = 0x22000" "be_fat16_fs start_env = 0x3000"
  "be_files start_env = [0xA000, 0xA000]" "be_pointers start_env = [0xE000, 0xE004]" "be_flags start_env = 2"
  by (simp_all add: start_env_def)

lemma start_on: "powered_on start_system" "sram start_system = open_ram"
  by (simp_all add: powered_on_def start_system_def set_km_def load_system_def vfs_boot_def open_kmem_def kmem_boot_def big_blocks_init_def)

lemma start_page:
  assumes "page_aligned p" "p div 4096 < 25000" "x - p < 4096" shows "page_of x \<in> owned_pages pmm_boot"
  using open_page [OF assms] boot_room(3) by simp

lemma start_user_data:
  assumes "x - 0xA000 < 0x5000" shows "\<not> boot_writes start_env demo_stack x"
proof -
  have "\<not> x - 0x20000 < 48" "\<not> x - 0x21000 < 100" "\<not> x - 0x22000 < 4096" "\<not> x - 0xB8000 < 3200" "\<not> x - 0x3014 < 6"
    "\<not> x - 0x1000 < 20" "\<not> x - 0x5100 < 32" "\<not> x - 0x5200 < 108" "\<not> x - 0x5000 < 2" "\<not> x - 0x5300 < 8"
    using assms by - (erule far_apart; simp)+
  then show ?thesis
    by (simp add: boot_writes_def boot_noise_def outside_video_def mount_writes_def local_noise_def demo_stack_def not_less [symmetric])
qed

lemma start_tables: "tables_place start_env"
proof -
  have "page_of x \<in> owned_pages pmm_boot" if "boot_noise start_env x" for x
  proof -
    have "x - 0xB8000 < 4096 \<or> x - 0x20000 < 4096 \<or> x - 0x22000 < 4096 \<or> x - 0x21000 < 4096"
      using that order.strict_trans [of "x - 0xB8000" 3200 4096] order.strict_trans [of "x - 0x20000" 48 4096]
        order.strict_trans [of "x - 0x21000" 100 4096] by (auto simp: boot_noise_def outside_video_def not_le)
    then show ?thesis
      using start_page [of "0xB8000" x] start_page [of "0x20000" x] start_page [of "0x22000" x] start_page [of "0x21000" x]
      by (auto simp: page_aligned_def)
  qed
  moreover have "page_of x \<in> owned_pages pmm_boot \<and> \<not> boot_noise start_env x" if "x - 0x1000 < 20" for x
  proof
    show "page_of x \<in> owned_pages pmm_boot"
      using start_page [of "0x1000" x] order.strict_trans [OF that, of 4096] by (simp add: page_aligned_def)
    have "\<not> x - 0x20000 < 48" "\<not> x - 0x21000 < 100" "\<not> x - 0x22000 < 4096" "\<not> x - 0xB8000 < 3200"
      using that by - (erule far_apart; simp)+
    then show "\<not> boot_noise start_env x" by (simp add: boot_noise_def outside_video_def not_less [symmetric])
  qed
  ultimately show ?thesis by (simp add: tables_place_def)
qed

lemma start_locals: "locals_place (be_proc start_env) demo_stack"
proof -
  have "page_of x \<in> owned_pages pmm_boot \<and> x \<noteq> 0xB000 \<and> \<not> x - 0x1000 < 20" if "x - 0x5200 < 108 \<or> x - 0x5000 < 2 \<or> x - 0x5300 < 8" for x
  proof -
    have "x - 0x5000 < 0x308"
      using that near_within [of x "0x5000" "0x200" 108 "0x308"] near_within [of x "0x5000" 0 2 "0x308"]
        near_within [of x "0x5000" "0x300" 8 "0x308"] by auto
    moreover from this have "\<not> x - 0x1000 < 20" "\<not> x - 0xB000 < 1" by (rule far_apart; simp)+
    ultimately show ?thesis using start_page [of "0x5000" x] order.strict_trans [of "x - 0x5000" "0x308" 4096] by (auto simp: page_aligned_def)
  qed
  moreover have "\<not> x - 0x5000 < 2" if "x - 0x5300 < 8" for x :: u32 using that by (rule far_apart) simp
  moreover have "page_of 0xB000 \<in> owned_pages pmm_boot" using start_page [of "0xB000" "0xB000"] by (simp add: page_aligned_def)
  ultimately show ?thesis by (simp add: locals_place_def local_noise_def demo_stack_def)
qed

lemma start_places: "boot_places start_env demo_stack"
  using start_tables start_locals boot_place(1) start_user_data [of "0xB000"] boot_room(3)
  by (simp add: boot_places_def disk_place_def)

lemma start_on_disk: "program_on_disk mount_disk mount_items (start_program p)"
proof -
  have "replicate 14 (0 :: u8) = [0, 0, 0, 0, 0, 0, 0, 0, 0, 0, 0, 0, 0, 0]" by (simp add: numeral_eq_Suc)
  then have "item_filesize (write_bytes (\<lambda>_. 0) 0 shell_entry) 0 = 4114"
    "fat16_get_first_cluster (write_bytes (\<lambda>_. 0) 0 shell_entry) 0 = 2"
    by (simp_all add: item_filesize_def fat16_get_first_cluster_def load32_def load16_def shell_entry_def)
  moreover have "v_spc (image_volume mount_disk) = 128" "v_end (image_volume mount_disk) = 716" "v_table (image_volume mount_disk) = 102400"
    using boot_bpb [of 13] boot_bpb [of 14] boot_bpb [of 15] boot_bpb [of 28] boot_bpb [of 29] boot_bpb [of 30] boot_bpb [of 31]
    by (simp_all add: image_volume_def volume_of_def boot_geometry sectors_per_cluster_def reserved_sectors_def hidden_setors_def
        load16_def load32_def boot_record_def)
  ultimately show ?thesis using boot_only
    by (simp add: program_on_disk_def start_program_def demo_program_def open_view_def demo_view_def entry_cluster_def entry_size_def
        mount_items_def reads_ok_def read_ok_def chain_covers_def chain_fits_def cluster_bytes_def cluster_start_def)
qed

lemma start_program_place:
  assumes "p = 0xE000 \<or> p = 0xE004" shows "program_place start_env demo_stack open_ram (start_program p)"
proof -
  have "page_of (0xA000 + of_nat i) \<in> owned_pages pmm_boot" if "i < 108" for i
    using that by (intro start_page [of "0xA000"]) (simp_all add: page_aligned_def word_less_nat_alt unat_of_nat_u32)
  moreover have "\<not> boot_writes start_env demo_stack (0xA000 + of_nat i)" if "i \<le> 8" for i
    using that by (intro start_user_data) (simp add: word_less_nat_alt unat_of_nat_u32)
  moreover have "page_of x \<in> owned_pages pmm_boot \<and> \<not> boot_writes start_env demo_stack x \<and> x \<noteq> 0xB000" if "x - p < 4" for x
  proof -
    have "x - 0xE000 < 8" "x - 0xA000 < 0x5000" using that assms near_within [of x "0xE000" 0 4 8] near_within [of x "0xE000" 4 4 8]
        near_within [of x "0xA000" "0x4000" 4 "0x5000"] near_within [of x "0xA000" "0x4004" 4 "0x5000"] by auto
    then show ?thesis
      using start_user_data start_page [of "0xE000" x] order.strict_trans [of "x - 0xE000" 8 4096] by (auto simp: page_aligned_def)
  qed
  moreover have "cstring open_ram 0xA000 [48, 58, 47, 115, 104, 101, 108, 108]" using open_path(1) by (simp add: open_kmem_def)
  ultimately show ?thesis using open_path(3) by (simp add: program_place_def start_program_def demo_program_def)
qed

lemma start_apart: "pointers_apart [start_program 0xE000, start_program 0xE004]"
  using demo_pointers by (simp add: pointers_apart_def pointers_ok_def start_program_def)

text \<open>C1: The kernel starts. From zeroed globals, a FAT16 disk with the programs in its root directory, and tables, locals, names and pointers in
  reserved memory clear of each other, \<open>kernel_main\<close> runs through without a panic: terminal, interrupt and segment tables, page allocator,
  mounting, paging, task state segment, system calls, the loads (at most 12 programs, for which \<open>programs_fit\<close>: less than one page in \<open>n\<close> is in use at the end, for the stack and each
  program of \<open>n\<close> pages; twelve programs of 24 KiB fit, and those of the repository have 4114 bytes), and the first task. It ends in the \<open>iret\<close> to ring 3 at
  \<open>0x400000\<close> with the user segments, the stack pointer at \<open>0x3FF000\<close>, interrupts on and zeroed registers; through \<open>cr3\<close> the processor then finds
  at the instruction pointer the bytes that the FAT chain of the first program has on the disk, and a zeroed stack.\<close>

theorem kernel_main_starts:
  assumes "powered_on y" and "fat_image img its" and "\<forall>e \<in> set its. named_entry e" and "room_to_mount img pmm_boot"
    and "boot_places env stk" and "pe_fss (be_proc env) (be_fat16_fs env) = fat16_fs img stk digits"
    and "sram y (pe_mode_r (be_proc env)) = 114"
    and "be_pointers env = map pg_pointer (q # qs)" and "be_files env = map pg_name (q # qs)" and "length (q # qs) \<le> 12"
    and "\<forall>p \<in> set (q # qs). program_on_disk img its p \<and> program_place env stk (sram y) p" and "pointers_apart (q # qs)" and "programs_fit img (q # qs)"
  shows "\<exists>cpu y'. kernel_main env y = Inr (Some cpu, y') \<and>
    c_ip cpu = 0x400000 \<and> c_cs cpu = 0x1B \<and> c_esp cpu = 0x3FF000 \<and> c_ss cpu = 0x23 \<and>
    c_flags cpu = be_flags env OR 0x200 \<and> {c_edi cpu, c_esi cpu, c_ebx cpu, c_edx cpu, c_ecx cpu, c_eax cpu} = {0} \<and>
    (\<forall>i < pg_len q. user_byte (sram y') (cr3 (mm (sk y'))) (c_ip cpu + of_nat i) =
       Some (file_byte img (image_volume img) (pg_clusters q) i)) \<and>
    (\<forall>i < 0x4000. user_byte (sram y') (cr3 (mm (sk y'))) (0x3FB000 + i) = Some 0)"
proof -
  let ?e = "be_proc env" and ?qs = "q # qs" and ?Q = "owned_pages pmm_boot"
  from boot_steps [OF assms(1-7)] obtain idtr y1 y2 v r where
    b: "boot_tables env y = Inr (idtr, (be_gdt env, 48), y1)" "boot_memory env y1 = Inr y2"
      "mounted_system env img its stk v r (sram y) (km (mm (sk (boot_paging env y2))))"
      "loader_state ?e img stk digits v (mounted_view its v r []) (sk (boot_paging env y2)) []"
      "sv (boot_paging env y2) = sv y2" "file_descriptors (sv y2) = replicate 512 0" "processes (boot_paging env y2) = replicate 12 0"
      "225000 = 1030 + root_blocks img + unat (pmm_free_blocks (phys (km (mm (sk (boot_paging env y2))))))" by blast
  obtain y3 where y3: "y3 = boot_paging env y2" by blast
  let ?s = "km (mm (sk y3))"
  note b = b [folded y3]
  have ready: "loader_ready ?e img stk digits v (mounted_view its v r []) ?s" "kheap_inv ?s" and size: "pmm_system_memory_size (phys ?s) = 250000"
    using b(3,4) by (simp_all add: loader_state_def Let_def mounted_system_def)
  have place: "be_fat16_fs env \<noteq> 0" "tables_place env" "locals_place ?e stk" "pe_disk ?e \<noteq> 0"
    using assms(5) by (simp_all add: boot_places_def disk_place_def)
  have mode: "ram ?s (pe_mode_r ?e) = 114" using ready(1) by (simp add: loader_ready_def)
  note cells = mounted_loader_ready(2,3) [OF b(3) assms(2,3) place(2,3,4,1) assms(6) mode]
  have "program_ok ?e img stk v (mounted_view its v r []) ?s [] p" if "p \<in> set ?qs" for p
    using program_ready [OF b(3) ready(1) cells(2)] assms(11) that by blast
  then have ok: "\<forall>p \<in> set ?qs. program_ok ?e img stk v (mounted_view its v r []) ?s [] p" by blast
  have "\<not> load_cell ?e v (mounted_view its v r []) x" if "p \<in> set ?qs" "x - pg_pointer p < 4" for p x
    using cells(1) [where x = x and w = "[]"] assms(11) that by (auto simp: program_place_def boot_writes_def mount_writes_def)
  then have ptr: "pointers_ok ?e v (mounted_view its v r []) ?qs" using assms(12) by (simp add: pointers_ok_def pointers_apart_def)
  have "root_blocks img \<le> 9" using assms(4) by (simp add: room_to_mount_def)
  moreover have "unat (pmm_used_blocks (phys ?s)) + unat (pmm_free_blocks (phys ?s)) = 250000"
    using ready(2) size by (simp add: kheap_inv_def pmm_inv_def)
  ultimately have used: "unat (pmm_used_blocks (phys ?s)) = 26030 + root_blocks img" "unat (pmm_system_memory_size (phys ?s)) = 250000"
    using b(8) size by simp_all
  let ?total = "sum_list (map (\<lambda>q. load_pages (pg_len q)) ?qs)"
  have fit: "max 4 (program_pages (pg_len p)) * (26030 + root_blocks img + ?total) < 250000" if "p \<in> set ?qs" for p
    using assms(13) that unfolding programs_fit_def by blast
  have "4 * (26030 + root_blocks img + ?total) \<le> max 4 (program_pages (pg_len q)) * (26030 + root_blocks img + ?total)"
    by (intro mult_le_mono1) simp
  then have "?total \<le> unat (pmm_free_blocks (phys ?s))" using fit [of q] b(8) by simp
  then have enough: "enough_memory (map pg_len ?qs) (phys ?s)" using fit used by (simp add: enough_memory_def comp_def)
  have "descriptors_from 1 (sv y3)" "processes_from 0 y3" using b(5-7) by (simp_all add: descriptors_from_def processes_from_def)
  from first_program_starts [OF refl b(4) enough ok ptr this(1) _ this(2)] assms(10) obtain y4 cpu k where
    f: "boot_processes env (map (\<lambda>q. (pg_pointer q, pg_name q)) ?qs) y3 = Inr y4"
      "task_run_first_ever_task (be_esp env) (be_flags env) (sk y4) = Inr (Some cpu, k)"
      "c_ip cpu = 0x400000" "c_cs cpu = 0x1B" "c_esp cpu = 0x3FF000" "c_ss cpu = 0x23" "c_flags cpu = be_flags env OR 0x200"
      "{c_edi cpu, c_esi cpu, c_ebx cpu, c_edx cpu, c_ecx cpu, c_eax cpu} = {0}"
      "\<forall>i < pg_len q. user_byte (kram k) (cr3 (mm k)) (c_ip cpu + of_nat i) = Some (file_byte img v (pg_clusters q) i)"
      "\<forall>i < 0x4000. user_byte (kram k) (cr3 (mm k)) (0x3FB000 + i) = Some 0" by auto
  obtain commands where c: "boot_commands env = Inr commands"
    by (auto simp: boot_commands_def isr80h_register_commands_def isr80h_register_command_def nth_list_update)
  have z: "zip (be_pointers env) (be_files env) = map (\<lambda>q. (pg_pointer q, pg_name q)) ?qs"
    unfolding assms(8,9) zip_map_map by (simp add: zip_same_conv_map)
  have "kernel_main env y = Inr (Some cpu, y4\<lparr>sk := k\<rparr>)"
    unfolding kernel_main_def b(1) sum.case prod.case b(2) Let_def y3 [symmetric] c z f(1,2) option.case by (rule refl)
  moreover have "mounted img its v r ?Q ?s" using b(3) by (simp add: mounted_system_def)
  note geometry_cong(3) [OF mounted_geometry [OF this]]
  ultimately show ?thesis using f(3-10) by (intro exI [of _ cpu] exI [of _ "y4\<lparr>sk := k\<rparr>"]) simp
qed

lemma kernel_main_starts_witness:
  "\<exists>cpu y'. kernel_main start_env start_system = Inr (Some cpu, y') \<and> c_ip cpu = 0x400000 \<and> c_cs cpu = 0x1B \<and> c_flags cpu = 0x202 \<and>
    user_byte (sram y') (cr3 (mm (sk y'))) 0x400000 = Some 0x90 \<and> user_byte (sram y') (cr3 (mm (sk y'))) 0x401011 = Some 0xCC"
proof -
  let ?q = "start_program 0xE000" and ?qs = "[start_program 0xE004]"
  have ok: "\<forall>p \<in> set (?q # ?qs). program_on_disk mount_disk mount_items p \<and> program_place start_env demo_stack (sram start_system) p"
    using start_on_disk start_program_place by (simp add: start_on(2))
  have ready: "room_to_mount mount_disk pmm_boot" "pe_fss (be_proc start_env) (be_fat16_fs start_env) = fat16_fs mount_disk demo_stack []"
    "sram start_system (pe_mode_r (be_proc start_env)) = 114"
    using boot_room(2,3) by (simp_all add: start_on(2) open_ram_def)
  have lists: "be_pointers start_env = map pg_pointer (?q # ?qs)" "be_files start_env = map pg_name (?q # ?qs)" "length (?q # ?qs) \<le> 12"
    by (simp_all add: start_program_def demo_program_def)
  have "programs_fit mount_disk (?q # ?qs)" by (rule programs_fit_small [OF ready(1) lists(3)]) (simp add: start_program_def)
  from kernel_main_starts [OF start_on(1) boot_image boot_names ready(1) start_places ready(2,3) lists ok start_apart this]
  obtain cpu y' where k: "kernel_main start_env start_system = Inr (Some cpu, y')" "c_ip cpu = 0x400000" "c_cs cpu = 0x1B"
    "c_flags cpu = be_flags start_env OR 0x200"
    "\<forall>i < pg_len ?q. user_byte (sram y') (cr3 (mm (sk y'))) (c_ip cpu + of_nat i) =
       Some (file_byte mount_disk (image_volume mount_disk) (pg_clusters ?q) i)" by blast
  have "v_spc (image_volume mount_disk) = 128"
    using boot_bpb [of 13] by (simp add: image_volume_def volume_of_def sectors_per_cluster_def boot_record_def)
  then have "file_byte mount_disk (image_volume mount_disk) [2] 0 = 0x90" "file_byte mount_disk (image_volume mount_disk) [2] 4113 = 0xCC"
    using disk_byte_sector [of 0 mount_disk 716] disk_byte_sector [of 17 mount_disk 724]
    by (simp_all add: file_byte_def cluster_start_def cluster_bytes_def image_volume_def volume_of_def boot_geometry mount_disk_def)
  then have "user_byte (sram y') (cr3 (mm (sk y'))) 0x400000 = Some 0x90" "user_byte (sram y') (cr3 (mm (sk y'))) 0x401011 = Some 0xCC"
    using k(5) [rule_format, of 0] k(5) [rule_format, of 4113] k(2) by (simp_all add: start_program_def demo_program_def)
  then show ?thesis using k(1-4) by (intro exI [of _ cpu] exI [of _ y']) simp
qed

end
